(* ===== verification/Prelude.thy ===== *)
theory Prelude
  imports Main "HOL-Library.Word" "HOL-Library.Monad_Syntax"
begin

text \<open>
  Shared vocabulary of the development: the machine integers of the 32-bit kernel, the
  collections of rewrite rules that the component theories extend, and the lemmas on lists,
  maps and words that more than one component needs.
\<close>

unbundle bit_operations_syntax

type_synonym u8 = "8 word"
type_synonym u16 = "16 word"
type_synonym u32 = "32 word"
type_synonym u64 = "64 word"

named_theorems kernel_simps \<open>unfolding rules for the operations of a component\<close>
named_theorems inv_intros \<open>invariant preservation, one rule per operation\<close>

section \<open>Bits\<close>

lemma bit_two_power: "bit ((2::'a::len word) ^ m) n \<longleftrightarrow> n < LENGTH('a) \<and> n = m"
proof -
  have "(2::'a word) ^ m = push_bit m 1" by simp
  then have "bit ((2::'a word) ^ m) n = bit (push_bit m (1::'a word)) n" by metis
  then show ?thesis by (auto simp: bit_simps simp del: push_bit_of_1)
qed

lemma and_two_power_eq_0_iff [simp]: "(w AND 2 ^ n = 0) = (\<not> bit w n)" for w :: "'a::len word"
proof
  assume z: "w AND 2 ^ n = 0"
  show "\<not> bit w n"
  proof
    assume b: "bit w n"
    then have "n < LENGTH('a)" by (rule bit_imp_le_length)
    with b have "bit (w AND 2 ^ n) n" by (simp add: bit_and_iff bit_two_power)
    with z show False by simp
  qed
next
  assume "\<not> bit w n"
  then show "w AND 2 ^ n = 0"
    by (intro bit_word_eqI) (auto simp: bit_and_iff bit_two_power)
qed

lemma bit_or_two_power [simp]:
  "n < LENGTH('a) \<Longrightarrow> bit (w OR 2 ^ m) n = (bit w n \<or> n = m)" for w :: "'a::len word"
  by (auto simp: bit_or_iff bit_two_power)

lemma bit_and_not_two_power [simp]:
  "n < LENGTH('a) \<Longrightarrow> bit (w AND NOT (2 ^ m)) n = (bit w n \<and> n \<noteq> m)" for w :: "'a::len word"
  by (auto simp: bit_and_iff bit_not_iff bit_two_power)

lemma unat_word_two_power: "n < LENGTH('a) \<Longrightarrow> unat (2 ^ n :: 'a::len word) = 2 ^ n"
proof -
  assume n: "n < LENGTH('a)"
  have "unat (2 ^ n :: 'a word) = unat (of_nat (2 ^ n) :: 'a word)" by simp
  also have "\<dots> = 2 ^ n mod 2 ^ LENGTH('a)" by (rule unat_of_nat)
  also have "\<dots> = 2 ^ n" using n by simp
  finally show ?thesis .
qed

lemma unat_u32_less: "unat w < 4294967296" for w :: u32
proof -
  have "unat w < 2 ^ LENGTH(32)" by (rule unsigned_less)
  then show ?thesis by simp
qed

lemma not_max_word_has_clear_bit:
  "w \<noteq> - 1 \<Longrightarrow> \<exists>n < LENGTH('a). \<not> bit w n" for w :: "'a::len word"
proof (rule ccontr)
  assume w: "w \<noteq> - 1" and "\<not> (\<exists>n < LENGTH('a). \<not> bit w n)"
  then have "w = - 1" by (intro bit_word_eqI) (simp add: bit_simps)
  with w show False by simp
qed

section \<open>Loops over index ranges\<close>

text \<open>
  A \<open>for\<close> loop that returns the first index with a property is \<open>List.find\<close> over the range.
\<close>

lemma find_append_eq: "find P (xs @ ys) = (case find P xs of None \<Rightarrow> find P ys | Some x \<Rightarrow> Some x)"
  by (induction xs) auto

lemma find_upt_None_iff: "find P [a..<b] = None \<longleftrightarrow> (\<forall>i. a \<le> i \<and> i < b \<longrightarrow> \<not> P i)"
  by (auto simp: find_None_iff)

lemma find_upt_SomeD:
  "find P [a..<b] = Some i \<Longrightarrow> a \<le> i \<and> i < b \<and> P i \<and> (\<forall>j. a \<le> j \<and> j < i \<longrightarrow> \<not> P j)"
proof (induction b)
  case 0
  then show ?case by simp
next
  case (Suc b)
  show ?case
  proof (cases "find P [a..<b]")
    case None
    with Suc.prems have "i = b" "P b" "a \<le> b"
      by (auto simp: find_append_eq split: if_splits)
    with None show ?thesis by (auto simp: find_upt_None_iff)
  next
    case (Some x)
    with Suc.prems have "i = x" by (auto simp: find_append_eq split: if_splits)
    with Suc.IH Some show ?thesis by auto
  qed
qed

lemma find_upt_restrict:
  assumes "u \<le> n" and "\<And>i. i < n \<Longrightarrow> P i \<Longrightarrow> i < u"
  shows "find P [0..<n] = find P [0..<u]"
proof -
  have "[0..<n] = [0..<u] @ [u..<n]" using upt_add_eq_append [of 0 u "n - u"] assms(1) by simp
  moreover have "find P [u..<n] = None" using assms(2) by (force simp: find_upt_None_iff)
  ultimately show ?thesis by (simp add: find_append_eq split: option.split)
qed

lemma find_cong_on: "(\<And>x. x \<in> set xs \<Longrightarrow> P x = Q x) \<Longrightarrow> find P xs = find Q xs"
  by (induction xs) auto

end
