(* ===== verification/Pmm.thy ===== *)
theory Pmm
  imports Prelude
begin

text \<open>
  The physical memory manager, \<open>src/src/kernel/pmm.cpp\<close>: a bitmap with one bit per 4 KB
  frame and a counter of frames in use. The bitmap is a caller-supplied pointer; the model
  keeps the 32-bit words behind it as a function of the word index, so that the accesses
  the code makes past the last frame are accesses to further words, as in memory.
  Then the properties of allocation and release, and \<open>frame_allocator\<close>, the interface
  the address-space code relies on.
\<close>

section \<open>State and bitmap primitives\<close>

record pmm =
  pmm_bitmap :: "nat \<Rightarrow> u32"
  pmm_mem_size :: u32
  pmm_max_blocks :: u32
  pmm_used_blocks :: u32
  pmm_alloc_count :: u32

definition mmap_set :: "nat \<Rightarrow> pmm \<Rightarrow> pmm" where
  "mmap_set b s = s\<lparr>pmm_bitmap := (pmm_bitmap s)
     (b div 32 := pmm_bitmap s (b div 32) OR push_bit (b mod 32) 1)\<rparr>"

definition mmap_unset :: "nat \<Rightarrow> pmm \<Rightarrow> pmm" where
  "mmap_unset b s = s\<lparr>pmm_bitmap := (pmm_bitmap s)
     (b div 32 := pmm_bitmap s (b div 32) AND NOT (push_bit (b mod 32) 1))\<rparr>"

definition mmap_test :: "pmm \<Rightarrow> nat \<Rightarrow> bool" where
  "mmap_test s b \<longleftrightarrow> pmm_bitmap s (b div 32) AND push_bit (b mod 32) 1 \<noteq> 0"

text \<open>
  The two nested loops: words \<open>0 .. max_blocks/32 - 1\<close>, and in the first word that is not
  full the first clear bit. \<open>None\<close> is the code's \<open>-1\<close>.
\<close>

definition mmap_first_free :: "pmm \<Rightarrow> nat option" where
  "mmap_first_free s =
     (case find (\<lambda>i. pmm_bitmap s i \<noteq> 0xFFFFFFFF) [0..<unat (pmm_max_blocks s div 32)] of
        None \<Rightarrow> None
      | Some i \<Rightarrow>
          (case find (\<lambda>j. pmm_bitmap s i AND push_bit j 1 = 0) [0..<32] of
             None \<Rightarrow> None
           | Some j \<Rightarrow> Some (i * 32 + j)))"

section \<open>Operations\<close>

text \<open>\<open>memset\<close> clears \<open>max_blocks / 8\<close> bytes; a last partial word keeps its high bytes.\<close>

definition pmm_init :: "u32 \<Rightarrow> (nat \<Rightarrow> u32) \<Rightarrow> pmm \<Rightarrow> pmm" where
  "pmm_init mem_size bitmap s =
     (let blocks = mem_size div 4096; bytes = unat (blocks div 8)
      in s\<lparr>pmm_mem_size := mem_size,
           pmm_bitmap := (\<lambda>i. bitmap i AND NOT (mask (8 * min 4 (bytes - 4 * i)))),
           pmm_max_blocks := blocks,
           pmm_used_blocks := 0\<rparr>)"

definition pmm_get_free_block_count :: "pmm \<Rightarrow> u32" where
  "pmm_get_free_block_count s = pmm_max_blocks s - pmm_used_blocks s"

text \<open>\<open>size / PMM_BLOCK_SIZE\<close>, rounded up.\<close>

definition region_blocks :: "u32 \<Rightarrow> u32" where
  "region_blocks sz = (if sz mod 4096 \<noteq> 0 then sz div 4096 + 1 else sz div 4096)"

primrec mark_used_loop :: "nat \<Rightarrow> nat \<Rightarrow> pmm \<Rightarrow> pmm" where
  "mark_used_loop align 0 s = s"
| "mark_used_loop align (Suc blocks) s =
     mark_used_loop (Suc align) blocks
       (if mmap_test s align then s
        else (mmap_set align s)\<lparr>pmm_used_blocks := pmm_used_blocks s + 1\<rparr>)"

definition pmm_mark_region_used :: "u32 \<Rightarrow> u32 \<Rightarrow> pmm \<Rightarrow> pmm" where
  "pmm_mark_region_used base sz s =
     mark_used_loop (unat (base div 4096)) (unat (region_blocks sz)) s"

primrec mark_free_loop :: "nat \<Rightarrow> nat \<Rightarrow> pmm \<Rightarrow> pmm" where
  "mark_free_loop align 0 s = s"
| "mark_free_loop align (Suc blocks) s =
     mark_free_loop (Suc align) blocks
       (if mmap_test s align
        then (mmap_unset align s)\<lparr>pmm_used_blocks := pmm_used_blocks s - 1\<rparr>
        else s)"

definition pmm_mark_region_free :: "u32 \<Rightarrow> u32 \<Rightarrow> pmm \<Rightarrow> pmm" where
  "pmm_mark_region_free base sz s =
     mark_free_loop (unat (base div 4096)) (unat (region_blocks sz)) s"

text \<open>The result is the physical address, 0 when no frame was found.\<close>

definition pmm_alloc_block :: "pmm \<Rightarrow> u32 \<times> pmm" where
  "pmm_alloc_block s =
     (if pmm_get_free_block_count s = 0 then (0, s)
      else case mmap_first_free s of
             None \<Rightarrow> (0, s)
           | Some frame \<Rightarrow>
               (of_nat frame * 4096,
                (mmap_set frame s)\<lparr>pmm_used_blocks := pmm_used_blocks s + 1,
                                   pmm_alloc_count := pmm_alloc_count s + 1\<rparr>))"

text \<open>
  The scan of \<open>pmm_alloc_contiguous_blocks\<close>, with its local variables \<open>consecutive\<close> and
  \<open>start_frame\<close>; the list is the rest of the loop's index range.
\<close>

fun contiguous_scan :: "pmm \<Rightarrow> nat \<Rightarrow> nat list \<Rightarrow> nat \<Rightarrow> int \<Rightarrow> int option" where
  "contiguous_scan s count [] consecutive start = None"
| "contiguous_scan s count (i # is) consecutive start =
     (if \<not> mmap_test s i then
        (let start' = (if consecutive = 0 then int i else start)
         in if Suc consecutive = count then Some start'
            else contiguous_scan s count is (Suc consecutive) start')
      else contiguous_scan s count is 0 (- 1))"

definition pmm_alloc_contiguous_blocks :: "u32 \<Rightarrow> pmm \<Rightarrow> u32 \<times> pmm" where
  "pmm_alloc_contiguous_blocks count s =
     (if count = 0 then (0, s)
      else if pmm_get_free_block_count s < count then (0, s)
      else case contiguous_scan s (unat count) [0..<unat (pmm_max_blocks s)] 0 (- 1) of
             None \<Rightarrow> (0, s)
           | Some start \<Rightarrow>
               (of_int start * 4096,
                (fold (\<lambda>k. mmap_set (nat start + k)) [0..<unat count] s)
                  \<lparr>pmm_used_blocks := pmm_used_blocks s + count\<rparr>))"

definition pmm_free_frame :: "nat \<Rightarrow> pmm \<Rightarrow> pmm" where
  "pmm_free_frame frame s =
     (if mmap_test s frame
      then (mmap_unset frame s)\<lparr>pmm_used_blocks := pmm_used_blocks s - 1\<rparr>
      else s)"

definition pmm_free_block :: "u32 \<Rightarrow> pmm \<Rightarrow> pmm" where
  "pmm_free_block p s = pmm_free_frame (unat (p div 4096)) s"

definition pmm_free_contiguous_blocks :: "u32 \<Rightarrow> u32 \<Rightarrow> pmm \<Rightarrow> pmm" where
  "pmm_free_contiguous_blocks p count s =
     fold (\<lambda>i. pmm_free_frame (unat (p div 4096 + of_nat i))) [0..<unat count] s"

definition pmm_get_block_count :: "pmm \<Rightarrow> u32" where
  "pmm_get_block_count s = pmm_max_blocks s"

section \<open>Facts about the bitmap\<close>

lemma mmap_test_bit: "mmap_test s b = bit (pmm_bitmap s (b div 32)) (b mod 32)"
  by (simp add: mmap_test_def)

lemma mmap_test_set [simp]: "mmap_test (mmap_set b s) c = (mmap_test s c \<or> c = b)"
proof -
  have "c div 32 = b div 32 \<and> c mod 32 = b mod 32 \<longleftrightarrow> c = b"
    by (metis div_mult_mod_eq)
  then show ?thesis by (auto simp: mmap_test_bit mmap_set_def)
qed

lemma mmap_test_unset [simp]: "mmap_test (mmap_unset b s) c = (mmap_test s c \<and> c \<noteq> b)"
proof -
  have "c div 32 = b div 32 \<and> c mod 32 = b mod 32 \<longleftrightarrow> c = b"
    by (metis div_mult_mod_eq)
  then show ?thesis by (auto simp: mmap_test_bit mmap_unset_def)
qed

lemma mmap_fields [simp]:
  "pmm_max_blocks (mmap_set b s) = pmm_max_blocks s"
  "pmm_used_blocks (mmap_set b s) = pmm_used_blocks s"
  "pmm_mem_size (mmap_set b s) = pmm_mem_size s"
  "pmm_max_blocks (mmap_unset b s) = pmm_max_blocks s"
  "pmm_used_blocks (mmap_unset b s) = pmm_used_blocks s"
  "pmm_mem_size (mmap_unset b s) = pmm_mem_size s"
  by (simp_all add: mmap_set_def mmap_unset_def)

lemma mmap_test_update [simp]:
  "mmap_test (s\<lparr>pmm_used_blocks := u\<rparr>) b = mmap_test s b"
  "mmap_test (s\<lparr>pmm_alloc_count := u\<rparr>) b = mmap_test s b"
  by (simp_all add: mmap_test_def)

lemma mmap_unset_set: "\<not> mmap_test s b \<Longrightarrow> pmm_bitmap (mmap_unset b (mmap_set b s)) = pmm_bitmap s"
  by (rule ext) (auto simp: mmap_unset_def mmap_set_def mmap_test_bit intro!: bit_word_eqI)

text \<open>The first free frame: the lowest clear bit among the whole words of the bitmap.\<close>

lemma mmap_first_free_Some:
  assumes "mmap_first_free s = Some f"
  shows "f < unat (pmm_max_blocks s)" and "\<not> mmap_test s f" and "\<forall>g < f. mmap_test s g"
proof -
  from assms obtain i j where
    i: "find (\<lambda>i. pmm_bitmap s i \<noteq> 0xFFFFFFFF) [0..<unat (pmm_max_blocks s div 32)] = Some i" and
    j: "find (\<lambda>j. pmm_bitmap s i AND push_bit j 1 = 0) [0..<32] = Some j" and f: "f = i * 32 + j"
    by (auto simp: mmap_first_free_def split: option.splits)
  from find_upt_SomeD [OF i] have i': "i < unat (pmm_max_blocks s) div 32"
      "\<forall>k < i. pmm_bitmap s k = 0xFFFFFFFF" by (auto simp: unat_div)
  from find_upt_SomeD [OF j] have j': "j < 32" "\<not> bit (pmm_bitmap s i) j"
      "\<forall>k < j. bit (pmm_bitmap s i) k" by auto
  from f j' have d: "f div 32 = i" "f mod 32 = j" by simp_all
  show "f < unat (pmm_max_blocks s)" using i' j' f by linarith
  show "\<not> mmap_test s f" using d j' by (simp add: mmap_test_bit)
  show "\<forall>g < f. mmap_test s g"
  proof (intro allI impI)
    fix g assume "g < f"
    then consider "g div 32 < i" | "g div 32 = i" "g mod 32 < j"
      using f j' by (metis d div_le_mono div_mult_mod_eq le_neq_implies_less less_imp_le nat_add_left_cancel_less)
    then show "mmap_test s g"
    proof cases
      case 1
      with i' have "pmm_bitmap s (g div 32) = - 1" by simp
      then show ?thesis by (simp add: mmap_test_bit)
    next
      case 2
      with j' show ?thesis by (simp add: mmap_test_bit)
    qed
  qed
qed

lemma mmap_first_free_None:
  assumes "mmap_first_free s = None" and "f < 32 * (unat (pmm_max_blocks s) div 32)"
  shows "mmap_test s f"
proof (rule ccontr)
  assume n: "\<not> mmap_test s f"
  from assms(2) have "f div 32 < unat (pmm_max_blocks s) div 32" by (simp add: div_less_iff_less_mult mult.commute)
  moreover have "pmm_bitmap s (f div 32) \<noteq> - 1" using n by (auto simp: mmap_test_bit)
  ultimately obtain i where
    i: "find (\<lambda>i. pmm_bitmap s i \<noteq> 0xFFFFFFFF) [0..<unat (pmm_max_blocks s div 32)] = Some i"
    by (cases "find (\<lambda>i. pmm_bitmap s i \<noteq> 0xFFFFFFFF) [0..<unat (pmm_max_blocks s div 32)]")
       (auto simp: find_upt_None_iff unat_div)
  with assms(1) have "find (\<lambda>j. pmm_bitmap s i AND push_bit j 1 = 0) [0..<32] = None"
    by (auto simp: mmap_first_free_def split: option.splits)
  then have "\<forall>j < 32. bit (pmm_bitmap s i) j" by (auto simp: find_upt_None_iff)
  then have "pmm_bitmap s i = - 1" by (intro bit_word_eqI) simp
  with find_upt_SomeD [OF i] show False by simp
qed

section \<open>The counter and the bitmap agree\<close>

definition frames_in_use :: "pmm \<Rightarrow> nat" where
  "frames_in_use s = length (filter (mmap_test s) [0..<unat (pmm_max_blocks s)])"

definition pmm_inv :: "pmm \<Rightarrow> bool" where
  "pmm_inv s \<longleftrightarrow> unat (pmm_used_blocks s) = frames_in_use s \<and> unat (pmm_max_blocks s) \<le> 2 ^ 20"

lemma frames_in_use_card:
  "frames_in_use s = card {b. b < unat (pmm_max_blocks s) \<and> mmap_test s b}"
proof -
  have "frames_in_use s = card (set (filter (mmap_test s) [0..<unat (pmm_max_blocks s)]))"
    unfolding frames_in_use_def by (rule distinct_card [symmetric]) simp
  moreover have "set (filter (mmap_test s) [0..<unat (pmm_max_blocks s)])
      = {b. b < unat (pmm_max_blocks s) \<and> mmap_test s b}" by auto
  ultimately show ?thesis by simp
qed

lemma frames_in_use_le: "frames_in_use s \<le> unat (pmm_max_blocks s)"
  unfolding frames_in_use_def by (rule le_trans [OF length_filter_le]) simp

lemma frames_in_use_insert:
  assumes "\<forall>c. mmap_test t c = (mmap_test s c \<or> c \<in> A)" and "finite A"
    and "pmm_max_blocks t = pmm_max_blocks s" and "\<forall>b \<in> A. b < unat (pmm_max_blocks s) \<and> \<not> mmap_test s b"
  shows "frames_in_use t = frames_in_use s + card A"
proof -
  have "{b. b < unat (pmm_max_blocks t) \<and> mmap_test t b}
      = {b. b < unat (pmm_max_blocks s) \<and> mmap_test s b} \<union> A"
    using assms by auto
  moreover have "{b. b < unat (pmm_max_blocks s) \<and> mmap_test s b} \<inter> A = {}" using assms(4) by auto
  ultimately show ?thesis using assms(2) by (simp add: frames_in_use_card card_Un_disjoint)
qed

lemma frames_in_use_remove:
  assumes "\<forall>c. mmap_test t c = (mmap_test s c \<and> c \<noteq> f)" and "pmm_max_blocks t = pmm_max_blocks s"
    and "mmap_test s f" and "f < unat (pmm_max_blocks s)"
  shows "Suc (frames_in_use t) = frames_in_use s"
proof -
  have "\<forall>c. mmap_test s c = (mmap_test t c \<or> c \<in> {f})" using assms(1,3) by auto
  then have "frames_in_use s = frames_in_use t + card {f}"
    by (rule frames_in_use_insert) (use assms in auto)
  then show ?thesis by simp
qed

lemma free_count_zero_iff: "pmm_get_free_block_count s = 0 \<longleftrightarrow> pmm_used_blocks s = pmm_max_blocks s"
  by (auto simp: pmm_get_free_block_count_def)

lemma unat_free_count:
  assumes "pmm_inv s"
  shows "unat (pmm_get_free_block_count s) = unat (pmm_max_blocks s) - frames_in_use s"
proof -
  have "pmm_used_blocks s \<le> pmm_max_blocks s"
    using assms frames_in_use_le [of s] by (simp add: pmm_inv_def word_le_nat_alt)
  then show ?thesis using assms by (simp add: pmm_get_free_block_count_def unat_sub pmm_inv_def)
qed

lemma unat_frame_address: "f < 2 ^ 20 \<Longrightarrow> unat (of_nat f * 4096 :: u32) = f * 4096"
  by (simp add: unat_word_ariths unat_of_nat)

section \<open>Allocation of one frame\<close>

lemma pmm_alloc_block_cases:
  assumes "pmm_inv s" and "pmm_alloc_block s = (p, s')"
  obtains (fail) "p = 0" "s' = s"
  | (frame) f where "mmap_first_free s = Some f" "f < unat (pmm_max_blocks s)" "f < 2 ^ 20"
      "p = of_nat f * 4096" "unat p = f * 4096" "\<not> mmap_test s f"
      "\<forall>g < f. mmap_test s g" "\<forall>g. mmap_test s' g = (mmap_test s g \<or> g = f)"
      "pmm_max_blocks s' = pmm_max_blocks s" "pmm_used_blocks s' = pmm_used_blocks s + 1"
      "pmm_mem_size s' = pmm_mem_size s"
proof (cases "pmm_get_free_block_count s = 0 \<or> mmap_first_free s = None")
  case True
  with assms(2) show ?thesis by (intro fail) (auto simp: pmm_alloc_block_def split: if_splits)
next
  case False
  then obtain f where f: "mmap_first_free s = Some f" by auto
  note ff = mmap_first_free_Some [OF f]
  with assms(1) have "f < 2 ^ 20" by (simp add: pmm_inv_def)
  with f ff False assms(2) unat_frame_address [of f] show ?thesis
    by (intro frame [of f]) (auto simp: pmm_alloc_block_def)
qed

lemma pmm_alloc_block_inv [inv_intros]:
  assumes "pmm_inv s" and "pmm_alloc_block s = (p, s')"
  shows "pmm_inv s'"
  using assms
proof (cases rule: pmm_alloc_block_cases)
  case fail
  with assms show ?thesis by simp
next
  case (frame f)
  have "frames_in_use s' = frames_in_use s + card {f}"
    by (rule frames_in_use_insert) (use frame in auto)
  moreover have "unat (pmm_used_blocks s + 1) = frames_in_use s + 1"
    using assms(1) frames_in_use_le [of s]
    by (simp add: pmm_inv_def unat_word_ariths)
  ultimately show ?thesis using assms(1) frame by (simp add: pmm_inv_def)
qed

section \<open>Release\<close>

lemma pmm_free_frame_test [simp]:
  "mmap_test (pmm_free_frame f s) g = (mmap_test s g \<and> g \<noteq> f)"
  by (auto simp: pmm_free_frame_def)

lemma pmm_free_frame_fields [simp]:
  "pmm_max_blocks (pmm_free_frame f s) = pmm_max_blocks s"
  "pmm_mem_size (pmm_free_frame f s) = pmm_mem_size s"
  by (simp_all add: pmm_free_frame_def)

lemma pmm_free_frame_inv [inv_intros]:
  assumes "pmm_inv s" and "f < unat (pmm_max_blocks s)"
  shows "pmm_inv (pmm_free_frame f s)"
proof (cases "mmap_test s f")
  case False
  with assms show ?thesis by (simp add: pmm_free_frame_def)
next
  case True
  have r: "Suc (frames_in_use (pmm_free_frame f s)) = frames_in_use s"
    by (rule frames_in_use_remove) (use True assms in auto)
  then have "pmm_used_blocks s \<noteq> 0" using assms(1) by (auto simp: pmm_inv_def)
  then have "unat (pmm_used_blocks s - 1) = unat (pmm_used_blocks s) - 1" by (rule unat_minus_one)
  with r True assms show ?thesis by (auto simp: pmm_inv_def pmm_free_frame_def)
qed

text \<open>Freeing an address twice is harmless: the second call finds the bit clear.\<close>

lemma pmm_free_frame_twice: "pmm_free_frame f (pmm_free_frame f s) = pmm_free_frame f s"
  by (simp add: pmm_free_frame_def [of f "pmm_free_frame f s"])

lemma fold_free_frames_test:
  "mmap_test (fold (\<lambda>i. pmm_free_frame (h i)) is s) g = (mmap_test s g \<and> g \<notin> h ` set is)"
  by (induction "is" arbitrary: s) auto

lemma fold_free_frames_inv:
  "pmm_inv s \<Longrightarrow> \<forall>i \<in> set is. h i < unat (pmm_max_blocks s) \<Longrightarrow>
   pmm_inv (fold (\<lambda>i. pmm_free_frame (h i)) is s)"
  by (induction "is" arbitrary: s) (simp_all add: pmm_free_frame_inv)

section \<open>Allocation of a contiguous run\<close>

lemma contiguous_scan_Some:
  "contiguous_scan s count [i..<m] c start = Some r \<Longrightarrow> c < count \<Longrightarrow> c \<le> i \<Longrightarrow>
   (c > 0 \<longrightarrow> start = int (i - c)) \<Longrightarrow> \<forall>k < c. \<not> mmap_test s (i - c + k) \<Longrightarrow>
   \<exists>a. r = int a \<and> a + count \<le> m \<and> (\<forall>k < count. \<not> mmap_test s (a + k))"
proof (induction "m - i" arbitrary: i c start)
  case 0
  then show ?case by simp
next
  case (Suc n)
  then have im: "i < m" "n = m - Suc i" by simp_all
  then have up: "[i..<m] = i # [Suc i..<m]" by (simp add: upt_conv_Cons)
  show ?case
  proof (cases "mmap_test s i")
    case True
    with Suc.prems up have "contiguous_scan s count [Suc i..<m] 0 (- 1) = Some r" by simp
    then show ?thesis by (rule Suc.hyps(1) [OF im(2)]) (use Suc.prems in auto)
  next
    case False
    let ?st = "if c = 0 then int i else start"
    have st: "?st = int (i - c)" using Suc.prems(4) by simp
    have free: "\<forall>k < Suc c. \<not> mmap_test s (i - c + k)"
      using Suc.prems(3,5) False by (auto simp: less_Suc_eq)
    show ?thesis
    proof (cases "Suc c = count")
      case True
      with False Suc.prems(1) up st have "r = int (i - c)" by (simp split: if_splits)
      moreover have "i - c + count \<le> m" using True im Suc.prems(3) by simp
      ultimately show ?thesis using free True by blast
    next
      case ne: False
      with False Suc.prems(1) up
      have "contiguous_scan s count [Suc i..<m] (Suc c) ?st = Some r" by (simp add: Let_def)
      then show ?thesis
        by (rule Suc.hyps(1) [OF im(2)]) (use Suc.prems ne st free in auto)
    qed
  qed
qed

lemma contiguous_scan_first:
  "contiguous_scan s count [i..<m] c start = Some (int a) \<Longrightarrow> c < count \<Longrightarrow> c \<le> i \<Longrightarrow>
   (c > 0 \<longrightarrow> start = int (i - c)) \<Longrightarrow> i - c \<le> b \<Longrightarrow> b < a \<Longrightarrow> \<exists>k < count. mmap_test s (b + k)"
proof (induction "m - i" arbitrary: i c start)
  case 0
  then show ?case by simp
next
  case (Suc n)
  then have im: "i < m" "n = m - Suc i" by simp_all
  then have up: "[i..<m] = i # [Suc i..<m]" by (simp add: upt_conv_Cons)
  show ?case
  proof (cases "mmap_test s i")
    case True
    show ?thesis
    proof (cases "b \<le> i")
      case bi: True
      with Suc.prems have "i - b < count" by linarith
      with True bi show ?thesis by (intro exI [of _ "i - b"]) simp
    next
      case False
      with Suc.prems True up have "contiguous_scan s count [Suc i..<m] 0 (- 1) = Some (int a)" by simp
      then show ?thesis by (rule Suc.hyps(1) [OF im(2)]) (use Suc.prems False in auto)
    qed
  next
    case False
    let ?st = "if c = 0 then int i else start"
    have st: "?st = int (i - c)" using Suc.prems(4) by simp
    show ?thesis
    proof (cases "Suc c = count")
      case True
      with False Suc.prems(1) up st have "a = i - c" by (simp split: if_splits)
      with Suc.prems(5,6) show ?thesis by simp
    next
      case ne: False
      with False Suc.prems(1) up
      have "contiguous_scan s count [Suc i..<m] (Suc c) ?st = Some (int a)" by (simp add: Let_def)
      then show ?thesis
        by (rule Suc.hyps(1) [OF im(2)]) (use Suc.prems ne st in auto)
    qed
  qed
qed

lemma contiguous_scan_None:
  "contiguous_scan s count [i..<m] c start = None \<Longrightarrow> c < count \<Longrightarrow> c \<le> i \<Longrightarrow>
   i - c \<le> a \<Longrightarrow> a + count \<le> m \<Longrightarrow> \<exists>k < count. mmap_test s (a + k)"
proof (induction "m - i" arbitrary: i c start)
  case 0
  then show ?case by simp
next
  case (Suc n)
  then have im: "i < m" "n = m - Suc i" by simp_all
  then have up: "[i..<m] = i # [Suc i..<m]" by (simp add: upt_conv_Cons)
  show ?case
  proof (cases "mmap_test s i")
    case True
    show ?thesis
    proof (cases "a \<le> i")
      case ai: True
      with Suc.prems have "i - a < count" by linarith
      with True ai show ?thesis by (intro exI [of _ "i - a"]) simp
    next
      case False
      with Suc.prems True up have "contiguous_scan s count [Suc i..<m] 0 (- 1) = None" by simp
      then show ?thesis by (rule Suc.hyps(1) [OF im(2)]) (use Suc.prems False in auto)
    qed
  next
    case False
    with Suc.prems up have ne: "Suc c \<noteq> count"
      and n: "contiguous_scan s count [Suc i..<m] (Suc c) (if c = 0 then int i else start) = None"
      by (auto simp: Let_def split: if_splits)
    from n show ?thesis by (rule Suc.hyps(1) [OF im(2)]) (use Suc.prems ne in auto)
  qed
qed

lemma fold_mmap_set_test:
  "mmap_test (fold (\<lambda>k. mmap_set (a + k)) ks s) g = (mmap_test s g \<or> (\<exists>k \<in> set ks. g = a + k))"
  by (induction ks arbitrary: s) auto

lemma fold_mmap_set_run:
  "mmap_test (fold (\<lambda>k. mmap_set (a + k)) [0..<c] s) g = (mmap_test s g \<or> g \<in> {a..<a + c})"
proof -
  have "(\<exists>k \<in> set [0..<c]. g = a + k) \<longleftrightarrow> g \<in> {a..<a + c}"
    by (auto intro!: bexI [where x = "g - a"])
  then show ?thesis by (simp only: fold_mmap_set_test)
qed

lemma fold_mmap_set_fields [simp]:
  "pmm_max_blocks (fold (\<lambda>k. mmap_set (a + k)) ks s) = pmm_max_blocks s"
  "pmm_used_blocks (fold (\<lambda>k. mmap_set (a + k)) ks s) = pmm_used_blocks s"
  by (induction ks arbitrary: s) auto

lemma pmm_alloc_contiguous_cases:
  assumes "pmm_inv s" and "pmm_alloc_contiguous_blocks count s = (p, s')"
  obtains (fail) "p = 0" "s' = s"
      "count = 0 \<or> (\<forall>a. a + unat count \<le> unat (pmm_max_blocks s)
          \<longrightarrow> (\<exists>k < unat count. mmap_test s (a + k)))"
  | (run) a where "count \<noteq> 0" "a + unat count \<le> unat (pmm_max_blocks s)" "p = of_nat a * 4096"
      "unat p = a * 4096"
      "\<forall>k < unat count. \<not> mmap_test s (a + k)"
      "\<forall>b < a. \<exists>k < unat count. mmap_test s (b + k)"
      "\<forall>g. mmap_test s' g = (mmap_test s g \<or> g \<in> {a..<a + unat count})"
      "pmm_max_blocks s' = pmm_max_blocks s" "pmm_used_blocks s' = pmm_used_blocks s + count"
proof -
  let ?m = "unat (pmm_max_blocks s)" and ?c = "unat count"
  consider (zero) "count = 0" | (few) "count \<noteq> 0" "pmm_get_free_block_count s < count"
    | (none) "count \<noteq> 0" "\<not> pmm_get_free_block_count s < count" "contiguous_scan s ?c [0..<?m] 0 (- 1) = None"
    | (some) r where "count \<noteq> 0" "\<not> pmm_get_free_block_count s < count" "contiguous_scan s ?c [0..<?m] 0 (- 1) = Some r"
    by fastforce
  then show ?thesis
  proof cases
    case zero
    with assms(2) show ?thesis by (intro fail) (auto simp: pmm_alloc_contiguous_blocks_def)
  next
    case few
    have "\<exists>k < ?c. mmap_test s (a + k)" if a: "a + ?c \<le> ?m" for a
    proof (rule ccontr)
      assume "\<not> (\<exists>k < ?c. mmap_test s (a + k))"
      then have free: "\<forall>k < ?c. \<not> mmap_test s (a + k)" by blast
      have "{b. b < ?m \<and> mmap_test s b} \<subseteq> {..<?m} - {a..<a + ?c}"
        using free by (auto) (metis le_add_diff_inverse nat_add_left_cancel_less)
      then have "frames_in_use s \<le> card ({..<?m} - {a..<a + ?c})"
        unfolding frames_in_use_card by (rule card_mono [rotated]) simp
      also have "\<dots> = ?m - ?c" using a by (subst card_Diff_subset) auto
      finally have "frames_in_use s \<le> ?m - ?c" .
      moreover have "unat (pmm_get_free_block_count s) < ?c" using few by (simp add: word_less_nat_alt)
      ultimately show False using unat_free_count [OF assms(1)] a by linarith
    qed
    with few assms(2) show ?thesis by (intro fail) (auto simp: pmm_alloc_contiguous_blocks_def)
  next
    case none
    have "\<exists>k < ?c. mmap_test s (a + k)" if "a + ?c \<le> ?m" for a
      by (rule contiguous_scan_None [OF none(3)]) (use that none(1) in \<open>simp_all add: unat_gt_0\<close>)
    with none assms(2) show ?thesis by (intro fail) (auto simp: pmm_alloc_contiguous_blocks_def)
  next
    case some
    then obtain a where a: "r = int a" "a + ?c \<le> ?m" "\<forall>k < ?c. \<not> mmap_test s (a + k)"
      using contiguous_scan_Some [OF some(3)] by (auto simp: unat_gt_0)
    have "0 < ?c" using some(1) by (simp add: unat_gt_0)
    with a(2) assms(1) have "a < 2 ^ 20" by (simp add: pmm_inv_def)
    moreover have "\<forall>b < a. \<exists>k < ?c. mmap_test s (b + k)"
      using contiguous_scan_first [of s ?c 0 ?m 0 "- 1" a] some a(1) by (simp add: unat_gt_0)
    ultimately show ?thesis using a some assms(2)
      by (intro run [of a])
         (auto simp: pmm_alloc_contiguous_blocks_def fold_mmap_set_run unat_frame_address)
  qed
qed

lemma pmm_alloc_contiguous_inv [inv_intros]:
  assumes "pmm_inv s" and "pmm_alloc_contiguous_blocks count s = (p, s')"
  shows "pmm_inv s'"
  using assms
proof (cases rule: pmm_alloc_contiguous_cases)
  case fail
  with assms show ?thesis by simp
next
  case (run a)
  have t: "frames_in_use s' = frames_in_use s + card {a..<a + unat count}"
  proof (rule frames_in_use_insert)
    show "\<forall>b \<in> {a..<a + unat count}. b < unat (pmm_max_blocks s) \<and> \<not> mmap_test s b"
    proof
      fix b assume b: "b \<in> {a..<a + unat count}"
      then have "b = a + (b - a)" "b - a < unat count" by auto
      with run(5) have "\<not> mmap_test s b" by metis
      with b run(2) show "b < unat (pmm_max_blocks s) \<and> \<not> mmap_test s b" by auto
    qed
  qed (use run in auto)
  moreover have "frames_in_use s' \<le> unat (pmm_max_blocks s)" using frames_in_use_le [of s'] run by simp
  ultimately show ?thesis using assms(1) run
    by (simp add: pmm_inv_def unat_word_ariths)
qed

section \<open>Marking regions\<close>

lemma mark_used_loop_test:
  "mmap_test (mark_used_loop a n s) g = (mmap_test s g \<or> g \<in> {a..<a + n})"
proof (induction n arbitrary: a s)
  case 0
  then show ?case by simp
next
  case (Suc n)
  then show ?case by (cases "g = a") auto
qed

lemma mark_used_loop_fields [simp]:
  "pmm_max_blocks (mark_used_loop a n s) = pmm_max_blocks s"
  "pmm_mem_size (mark_used_loop a n s) = pmm_mem_size s"
  by (induction n arbitrary: a s) auto

lemma mark_used_loop_inv [inv_intros]:
  "pmm_inv s \<Longrightarrow> a + n \<le> unat (pmm_max_blocks s) \<Longrightarrow> pmm_inv (mark_used_loop a n s)"
proof (induction n arbitrary: a s)
  case 0
  then show ?case by simp
next
  case (Suc n)
  let ?t = "if mmap_test s a then s else (mmap_set a s)\<lparr>pmm_used_blocks := pmm_used_blocks s + 1\<rparr>"
  have "pmm_inv ?t"
  proof (cases "mmap_test s a")
    case True
    with Suc.prems show ?thesis by simp
  next
    case False
    then have t: "frames_in_use ?t = frames_in_use s + card {a}"
      by (intro frames_in_use_insert) (use Suc.prems in auto)
    moreover have "frames_in_use ?t \<le> unat (pmm_max_blocks s)"
      using frames_in_use_le [of ?t] False by simp
    ultimately show ?thesis using Suc.prems(1) False by (simp add: pmm_inv_def unat_word_ariths)
  qed
  then show ?case using Suc.prems(2) by (auto intro: Suc.IH)
qed

lemma mark_free_loop_fold:
  "mark_free_loop a n s = fold (\<lambda>i. pmm_free_frame (a + i)) [0..<n] s"
proof (induction n arbitrary: a s)
  case 0
  then show ?case by simp
next
  case (Suc n)
  have "[0..<Suc n] = 0 # map Suc [0..<n]" by (simp add: upt_conv_Cons map_Suc_upt del: upt_Suc)
  moreover have "mark_free_loop a (Suc n) s = mark_free_loop (Suc a) n (pmm_free_frame a s)"
    by (simp add: pmm_free_frame_def)
  ultimately show ?case by (simp add: Suc.IH fold_map comp_def del: upt_Suc mark_free_loop.simps)
qed

section \<open>Initialisation\<close>

lemma pmm_init_test:
  assumes "f < unat (mem_size div 4096)" and "mem_size mod 32768 = 0"
  shows "\<not> mmap_test (pmm_init mem_size bm s) f"
proof -
  let ?bytes = "unat (mem_size div 4096 div 8)"
  have "8 * ?bytes = unat mem_size div 4096"
  proof -
    have "unat (mem_size mod 32768) = 0" using assms(2) by simp
    then have "unat mem_size mod 32768 = 0" by (simp add: unat_mod)
    then obtain k where k: "unat mem_size = 32768 * k" by (meson dvd_def mod_0_imp_dvd)
    then have "unat mem_size div 4096 = 8 * k" by simp
    moreover have "unat mem_size div 32768 = k" using k by simp
    ultimately show ?thesis by (simp add: unat_div div_mult2_eq [symmetric])
  qed
  with assms(1) have "f < 8 * ?bytes" by (simp add: unat_div)
  moreover have "f = 32 * (f div 32) + f mod 32" "f mod 32 < 32" by simp_all
  ultimately have "f mod 32 < 8 * min 4 (?bytes - 4 * (f div 32))"
    by (cases "4 \<le> ?bytes - 4 * (f div 32)") linarith+
  then show ?thesis
    by (simp add: mmap_test_bit pmm_init_def Let_def bit_and_iff bit_not_iff bit_mask_iff)
qed

section \<open>The interface of a frame allocator\<close>

text \<open>
  What the rest of the memory code may assume of the physical allocator. \<open>alloc\<close> answers
  a physical address or 0, \<open>in_use\<close> is the abstract set of frames that are taken.
\<close>

primrec alloc_many :: "('s \<Rightarrow> u32 \<times> 's) \<Rightarrow> nat \<Rightarrow> 's \<Rightarrow> u32 list \<times> 's" where
  "alloc_many alloc 0 s = ([], s)"
| "alloc_many alloc (Suc n) s =
     (let (p, s1) = alloc s; (ps, s2) = alloc_many alloc n s1 in (p # ps, s2))"

definition frame_of :: "u32 \<Rightarrow> nat" where
  "frame_of p = unat p div 4096"

locale frame_allocator =
  fixes alloc :: "'s \<Rightarrow> u32 \<times> 's"
    and release :: "u32 \<Rightarrow> 's \<Rightarrow> 's"
    and in_use :: "'s \<Rightarrow> nat \<Rightarrow> bool"
    and frames :: "'s \<Rightarrow> nat"
    and inv :: "'s \<Rightarrow> bool"
  assumes alloc_inv: "inv s \<Longrightarrow> alloc s = (p, s') \<Longrightarrow> inv s'"
    and alloc_frames: "inv s \<Longrightarrow> alloc s = (p, s') \<Longrightarrow> frames s' = frames s"
    and alloc_page: "inv s \<Longrightarrow> alloc s = (p, s') \<Longrightarrow> p \<noteq> 0 \<Longrightarrow>
          unat p mod 4096 = 0 \<and> frame_of p < frames s \<and> \<not> in_use s (frame_of p)"
    and alloc_use: "inv s \<Longrightarrow> alloc s = (p, s') \<Longrightarrow> p \<noteq> 0 \<Longrightarrow>
          in_use s' f = (in_use s f \<or> f = frame_of p)"
    and alloc_keeps: "inv s \<Longrightarrow> alloc s = (p, s') \<Longrightarrow> in_use s f \<Longrightarrow> in_use s' f"
    and release_inv: "inv s \<Longrightarrow> frame_of p < frames s \<Longrightarrow> inv (release p s)"
    and release_use: "in_use (release p s) f = (in_use s f \<and> f \<noteq> frame_of p)"
begin

lemma alloc_many_spec:
  "inv s \<Longrightarrow> alloc_many alloc n s = (ps, s') \<Longrightarrow>
     inv s' \<and> length ps = n \<and> distinct (filter (\<lambda>p. p \<noteq> 0) ps) \<and>
     (\<forall>p \<in> set ps. p \<noteq> 0 \<longrightarrow> \<not> in_use s (frame_of p) \<and> in_use s' (frame_of p)) \<and>
     (\<forall>f. in_use s f \<longrightarrow> in_use s' f)"
proof (induction n arbitrary: s ps s')
  case 0
  then show ?case by simp
next
  case (Suc n)
  from Suc.prems(2) obtain p s1 qs where a: "alloc s = (p, s1)"
    and r: "alloc_many alloc n s1 = (qs, s')" and ps: "ps = p # qs"
    by (auto simp: split_beta prod_eq_iff)
  from Suc.prems(1) a have "inv s1" by (rule alloc_inv)
  note IH = Suc.IH [OF this r]
  have keep: "in_use s f \<Longrightarrow> in_use s1 f" for f using alloc_keeps [OF Suc.prems(1) a] .
  show ?case
  proof (cases "p = 0")
    case True
    with IH keep ps show ?thesis by auto
  next
    case False
    with alloc_page [OF Suc.prems(1) a] alloc_use [OF Suc.prems(1) a]
    have "\<not> in_use s (frame_of p)" "in_use s1 (frame_of p)" by auto
    with IH keep ps False show ?thesis by auto
  qed
qed

lemma alloc_release:
  "inv s \<Longrightarrow> alloc s = (p, s') \<Longrightarrow> p \<noteq> 0 \<Longrightarrow> in_use (release p s') f = in_use s f"
  using alloc_page [of s p s'] alloc_use [of s p s' f] by (auto simp: release_use)

end

lemma pmm_alloc_block_page:
  assumes "pmm_inv s" and "pmm_alloc_block s = (p, s')" and "p \<noteq> 0"
  shows "unat p mod 4096 = 0" and "frame_of p < unat (pmm_max_blocks s)"
    and "\<not> mmap_test s (frame_of p)" and "\<forall>g < frame_of p. mmap_test s g"
    and "\<forall>g. mmap_test s' g = (mmap_test s g \<or> g = frame_of p)"
    and "pmm_used_blocks s' = pmm_used_blocks s + 1" and "pmm_max_blocks s' = pmm_max_blocks s"
  using assms(1,2)
  by (cases rule: pmm_alloc_block_cases; use assms(3) in \<open>auto simp: frame_of_def\<close>)+

interpretation pmm_frames: frame_allocator pmm_alloc_block pmm_free_block mmap_test
  "\<lambda>s. unat (pmm_max_blocks s)" pmm_inv
proof (unfold_locales, goal_cases)
  case 1
  then show ?case by (rule pmm_alloc_block_inv)
next
  case 2
  then show ?case by (cases rule: pmm_alloc_block_cases) auto
next
  case 3
  then show ?case using pmm_alloc_block_page(1-3) by blast
next
  case 4
  then show ?case using pmm_alloc_block_page(5) by blast
next
  case 5
  then show ?case by (cases rule: pmm_alloc_block_cases) auto
next
  case 6
  then show ?case
    by (auto simp: pmm_free_block_def frame_of_def unat_div intro: pmm_free_frame_inv)
next
  case 7
  then show ?case by (simp add: pmm_free_block_def frame_of_def unat_div)
qed

section \<open>The reservations made at boot\<close>

text \<open>
  \<open>main\<close> in \<open>Kernel.cpp\<close> initialises the allocator for 512 MB and reserves the low
  8 MB and the 16 KB of the bitmap; the reservation of the kernel heap's frames (16 MB to
  272 MB) is commented out there.
\<close>

definition boot_pmm :: "(nat \<Rightarrow> u32) \<Rightarrow> pmm \<Rightarrow> pmm" where
  "boot_pmm bitmap s =
     pmm_mark_region_used 0x00800000 16384
       (pmm_mark_region_used 0x100000 0x700000
         (pmm_mark_region_used 0 0x100000
           (pmm_init (512 * 1024 * 1024) bitmap s)))"

lemma boot_pmm_loops:
  "boot_pmm bm s = mark_used_loop 2048 4 (mark_used_loop 256 1792 (mark_used_loop 0 256
     (pmm_init (512 * 1024 * 1024) bm s)))"
  by (simp add: boot_pmm_def pmm_mark_region_used_def region_blocks_def del: mark_used_loop.simps)

lemma pmm_init_max: "pmm_max_blocks (pmm_init m bm s) = m div 4096"
  "pmm_used_blocks (pmm_init m bm s) = 0"
  by (simp_all add: pmm_init_def Let_def)

lemma boot_pmm_max: "pmm_max_blocks (boot_pmm bm s) = 131072"
  by (simp add: boot_pmm_loops pmm_init_max del: mark_used_loop.simps)

lemma boot_pmm_test: "f < 131072 \<Longrightarrow> mmap_test (boot_pmm bm s) f = (f < 2052)"
  unfolding boot_pmm_loops mark_used_loop_test
  using pmm_init_test [of f "512 * 1024 * 1024" bm s] by auto

lemma boot_pmm_inv: "pmm_inv (boot_pmm bm s)"
proof -
  let ?i = "pmm_init (512 * 1024 * 1024) bm s"
  have "frames_in_use ?i = 0"
    unfolding frames_in_use_def using pmm_init_test [of _ "512 * 1024 * 1024" bm s]
    by (simp add: pmm_init_max filter_empty_conv)
  then have "pmm_inv ?i" by (simp add: pmm_inv_def pmm_init_max)
  then show ?thesis unfolding boot_pmm_loops
    by (intro mark_used_loop_inv) (simp_all add: pmm_init_max del: mark_used_loop.simps)
qed

text \<open>With the first \<open>k\<close> frames taken, allocation hands the frames out in order.\<close>

lemma pmm_alloc_block_prefix:
  assumes inv: "pmm_inv s" and m: "32 dvd unat (pmm_max_blocks s)" and k: "k < unat (pmm_max_blocks s)"
    and t: "\<forall>f < unat (pmm_max_blocks s). mmap_test s f = (f < k)"
  obtains s' where "pmm_alloc_block s = (of_nat k * 4096, s')" "pmm_inv s'"
    "pmm_max_blocks s' = pmm_max_blocks s"
    "\<forall>f < unat (pmm_max_blocks s). mmap_test s' f = (f < Suc k)"
proof -
  have "{b. b < unat (pmm_max_blocks s) \<and> mmap_test s b} = {..<k}" using t k by auto
  then have "frames_in_use s = k" by (simp add: frames_in_use_card)
  then have "pmm_get_free_block_count s \<noteq> 0"
    using inv k by (auto simp: free_count_zero_iff pmm_inv_def)
  moreover have ff: "mmap_first_free s = Some k"
  proof (cases "mmap_first_free s")
    case None
    then have "mmap_test s k" by (rule mmap_first_free_None) (use m k in auto)
    with t k show ?thesis by simp
  next
    case (Some f)
    with mmap_first_free_Some [OF Some] t k show ?thesis by (metis not_less_iff_gr_or_eq)
  qed
  ultimately obtain s' where a: "pmm_alloc_block s = (of_nat k * 4096, s')"
    by (auto simp: pmm_alloc_block_def)
  from inv a have "pmm_inv s'" by (rule pmm_alloc_block_inv)
  moreover have "pmm_max_blocks s' = pmm_max_blocks s" using inv a by (rule pmm_frames.alloc_frames [simplified, THEN word_unat_eq_iff [THEN iffD2]])
  moreover have "\<forall>g. mmap_test s' g = (mmap_test s g \<or> g = k)"
    using a ff \<open>pmm_get_free_block_count s \<noteq> 0\<close> by (auto simp: pmm_alloc_block_def)
  ultimately show ?thesis using that a t by (auto simp: less_Suc_eq)
qed

lemma pmm_alloc_many_prefix:
  "pmm_inv s \<Longrightarrow> 32 dvd unat (pmm_max_blocks s) \<Longrightarrow> k + n \<le> unat (pmm_max_blocks s) \<Longrightarrow>
   \<forall>f < unat (pmm_max_blocks s). mmap_test s f = (f < k) \<Longrightarrow>
   fst (alloc_many pmm_alloc_block n s) = map (\<lambda>i. of_nat (k + i) * 4096) [0..<n]"
proof (induction n arbitrary: s k)
  case 0
  then show ?case by simp
next
  case (Suc n)
  have "k < unat (pmm_max_blocks s)" using Suc.prems(3) by simp
  from pmm_alloc_block_prefix [OF Suc.prems(1,2) this Suc.prems(4)] obtain s' where
    a: "pmm_alloc_block s = (of_nat k * 4096, s')" "pmm_inv s'"
    "pmm_max_blocks s' = pmm_max_blocks s"
    "\<forall>f < unat (pmm_max_blocks s). mmap_test s' f = (f < Suc k)" by metis
  have "fst (alloc_many pmm_alloc_block n s') = map (\<lambda>i. of_nat (Suc k + i) * 4096) [0..<n]"
    by (rule Suc.IH) (use a Suc.prems in auto)
  moreover have "[0..<Suc n] = 0 # map Suc [0..<n]" by (simp add: upt_conv_Cons map_Suc_upt del: upt_Suc)
  ultimately show ?case using a(1) by (simp add: split_beta comp_def del: upt_Suc)
qed

section \<open>Properties\<close>

definition pmm_example :: pmm where
  "pmm_example = \<lparr>pmm_bitmap = (\<lambda>i. if i = 0 then 0xB else 0), pmm_mem_size = 0x20000,
     pmm_max_blocks = 32, pmm_used_blocks = 3, pmm_alloc_count = 0\<rparr>"

lemma pmm_example_inv: "pmm_inv pmm_example"
  by (simp add: pmm_inv_def frames_in_use_def pmm_example_def mmap_test_bit upt_rec)

lemma pmm_example_alloc: "fst (pmm_alloc_block pmm_example) = 0x2000"
  by (simp add: pmm_alloc_block_def pmm_get_free_block_count_def mmap_first_free_def pmm_example_def
        upt_rec)

text \<open>
  C1: a non-zero answer of \<open>pmm_alloc_block\<close> is the page-aligned address of the lowest free
  frame, below \<open>pmm_max_blocks\<close>; exactly that frame becomes used, the counter grows by one
  and still equals the number of set bits.
\<close>

theorem pmm_alloc_block_correct:
  assumes "pmm_inv s" and "pmm_alloc_block s = (p, s')" and "p \<noteq> 0"
  shows "unat p mod 4096 = 0 \<and> frame_of p < unat (pmm_max_blocks s) \<and>
    \<not> mmap_test s (frame_of p) \<and> (\<forall>g < frame_of p. mmap_test s g) \<and>
    (\<forall>g. mmap_test s' g = (mmap_test s g \<or> g = frame_of p)) \<and>
    pmm_used_blocks s' = pmm_used_blocks s + 1 \<and> pmm_inv s'"
  using pmm_alloc_block_page [OF assms] pmm_alloc_block_inv [OF assms(1,2)] by blast

theorem pmm_alloc_block_correct_witness:
  "frame_of (fst (pmm_alloc_block pmm_example)) = 2 \<and>
   \<not> mmap_test pmm_example (frame_of (fst (pmm_alloc_block pmm_example))) \<and>
   pmm_inv (snd (pmm_alloc_block pmm_example))"
proof -
  have "fst (pmm_alloc_block pmm_example) \<noteq> 0" by (simp add: pmm_example_alloc)
  from pmm_alloc_block_correct [OF pmm_example_inv prod.collapse [symmetric] this] pmm_example_alloc
  show ?thesis by (simp add: frame_of_def)
qed

text \<open>
  In any sequence of single-frame allocations the non-zero answers are pairwise distinct,
  none of them was in use before, all are in use after, and no earlier frame is given back.
\<close>

theorem pmm_alloc_sequence_distinct:
  assumes "pmm_inv s" and "alloc_many pmm_alloc_block n s = (ps, s')"
  shows "pmm_inv s' \<and> length ps = n \<and> distinct (filter (\<lambda>p. p \<noteq> 0) ps) \<and>
    (\<forall>p \<in> set ps. p \<noteq> 0 \<longrightarrow> \<not> mmap_test s (frame_of p) \<and> mmap_test s' (frame_of p)) \<and>
    (\<forall>f. mmap_test s f \<longrightarrow> mmap_test s' f)"
  using assms by (rule pmm_frames.alloc_many_spec)

theorem pmm_alloc_sequence_distinct_witness:
  "distinct (filter (\<lambda>p. p \<noteq> 0) (fst (alloc_many pmm_alloc_block 40 pmm_example)))"
  using pmm_alloc_sequence_distinct [OF pmm_example_inv prod.collapse [symmetric]] by blast

text \<open>
  C2: \<open>pmm_alloc_contiguous_blocks\<close> either changes nothing and answers 0, and then no run of
  that many free frames exists (or none was asked for), or it takes exactly the first run of
  that many frames that is free throughout (no free run of that length starts at a lower
  frame), answers its start address and keeps the counter exact.
\<close>

theorem pmm_alloc_contiguous_correct:
  assumes "pmm_inv s" and "pmm_alloc_contiguous_blocks count s = (p, s')"
  shows "pmm_inv s' \<and>
    ((p = 0 \<and> s' = s \<and> (count = 0 \<or> (\<forall>a. a + unat count \<le> unat (pmm_max_blocks s) \<longrightarrow>
        (\<exists>k < unat count. mmap_test s (a + k))))) \<or>
     (\<exists>a. a + unat count \<le> unat (pmm_max_blocks s) \<and> unat p = a * 4096 \<and>
        (\<forall>k < unat count. \<not> mmap_test s (a + k)) \<and>
        (\<forall>b < a. \<exists>k < unat count. mmap_test s (b + k)) \<and>
        (\<forall>g. mmap_test s' g = (mmap_test s g \<or> g \<in> {a..<a + unat count})) \<and>
        pmm_used_blocks s' = pmm_used_blocks s + count))"
  using assms(1,2)
proof (cases rule: pmm_alloc_contiguous_cases)
  case fail
  with assms(1) show ?thesis by blast
next
  case (run a)
  with pmm_alloc_contiguous_inv [OF assms] show ?thesis by blast
qed

theorem pmm_alloc_contiguous_correct_witness:
  "fst (pmm_alloc_contiguous_blocks 4 pmm_example) = 0x4000 \<and>
   pmm_inv (snd (pmm_alloc_contiguous_blocks 4 pmm_example))"
proof -
  have "fst (pmm_alloc_contiguous_blocks 4 pmm_example) = 0x4000"
    by (simp add: pmm_alloc_contiguous_blocks_def pmm_get_free_block_count_def pmm_example_def
          mmap_test_bit upt_rec)
  with pmm_alloc_contiguous_correct [OF pmm_example_inv prod.collapse [symmetric], of 4]
  show ?thesis by blast
qed

text \<open>
  After the boot-time reservations single-frame allocation hands out the frames from 8 MB
  + 16 KB upwards in order, so the 2045th allocation answers \<open>0x01000000\<close>: the first frame
  of the region that \<open>main\<close> gives to the kernel heap. The heap's frames are not reserved.
\<close>

theorem boot_allocations_reach_kernel_heap:
  "fst (alloc_many pmm_alloc_block 2044 (boot_pmm bm s)) =
     map (\<lambda>i. of_nat (2052 + i) * 4096) [0..<2044] \<and>
   last (fst (alloc_many pmm_alloc_block 2045 (boot_pmm bm s))) = 0x01000000"
proof -
  have "fst (alloc_many pmm_alloc_block n (boot_pmm bm s)) =
      map (\<lambda>i. of_nat (2052 + i) * 4096) [0..<n]" if "n \<le> 2045" for n
    by (rule pmm_alloc_many_prefix [OF boot_pmm_inv])
       (use that in \<open>simp_all add: boot_pmm_max boot_pmm_test\<close>)
  from this [of 2044] this [of 2045] show ?thesis by (simp add: last_map)
qed

end
