(* ===== verification/Vm.thy ===== *)
theory Vm
  imports Pmm
begin

text \<open>
  Address spaces, \<^verbatim>\<open>kernel/vm.cpp\<close> and the mapping functions of \<^verbatim>\<open>kernel/paging.cpp\<close>. Physical
  memory is a function from a frame and the index of one of its 1024 words to the word. The kernel
  reaches a frame through the window at \<^verbatim>\<open>KERNEL_VIRTUAL_BASE\<close>: the properties are about machines whose
  memory lies in it (\<open>window_frames\<close>). The translation cache of the processor and its \<^verbatim>\<open>cr0\<close> are left out. Page directories and
  tables are frames, a pointer to a directory is its frame. An allocation that fails answers 0,
  and the code goes on with frame 0, as it does here.
\<close>

section \<open>State\<close>

record vm =
  vm_pmm :: pmm
  ram :: "nat \<Rightarrow> nat \<Rightarrow> u32"
  kernel_directory :: nat
  current_directory :: "nat option"
  cr3 :: u32

definition set_word :: "nat \<Rightarrow> nat \<Rightarrow> u32 \<Rightarrow> vm \<Rightarrow> vm" where
  "set_word f i v s = s\<lparr>ram := (ram s)(f := (ram s f)(i := v))\<rparr>"

definition clear_frame :: "nat \<Rightarrow> vm \<Rightarrow> vm" where
  "clear_frame f s = s\<lparr>ram := (ram s)(f := (\<lambda>i. if i < 1024 then 0 else ram s f i))\<rparr>"

definition copy_frame :: "nat \<Rightarrow> nat \<Rightarrow> vm \<Rightarrow> vm" where
  "copy_frame dst src s = s\<lparr>ram := (ram s)(dst := (\<lambda>i. if i < 1024 then ram s src i else ram s dst i))\<rparr>"

definition vm_alloc :: "vm \<Rightarrow> u32 \<times> vm" where
  "vm_alloc s = (case pmm_alloc_block (vm_pmm s) of (p, m) \<Rightarrow> (p, s\<lparr>vm_pmm := m\<rparr>))"

definition vm_free :: "u32 \<Rightarrow> vm \<Rightarrow> vm" where
  "vm_free p s = s\<lparr>vm_pmm := pmm_free_block p (vm_pmm s)\<rparr>"

definition present :: "u32 \<Rightarrow> bool" where
  "present e \<longleftrightarrow> e AND 1 \<noteq> 0"

definition entry_base :: "u32 \<Rightarrow> u32" where
  "entry_base e = e AND 0xFFFFF000"

definition pd_index :: "u32 \<Rightarrow> nat" where
  "pd_index virt = unat (drop_bit 22 virt)"

definition pt_index :: "u32 \<Rightarrow> nat" where
  "pt_index virt = unat (drop_bit 12 virt AND 0x03FF)"

section \<open>Operations\<close>

definition pd_create :: "vm \<Rightarrow> u32 \<times> vm" where
  "pd_create s0 =
     (let (phys_pd, s1) = vm_alloc s0; pd = frame_of phys_pd; k = kernel_directory s0
      in (phys_pd, fold (\<lambda>i s. if present (ram s k i) then set_word pd i (ram s k i) s else s) [0..<1024]
                     (clear_frame pd s1)))"

definition clone_page :: "nat \<Rightarrow> nat \<Rightarrow> nat \<Rightarrow> vm \<Rightarrow> vm" where
  "clone_page src_pt dest_pt j s =
     (if present (ram s src_pt j)
      then let (dest_phys, s1) = vm_alloc s;
               s2 = copy_frame (frame_of dest_phys) (frame_of (entry_base (ram s1 src_pt j))) s1
           in set_word dest_pt j (dest_phys OR (ram s2 src_pt j AND 0xFFF)) s2
      else s)"

definition clone_table :: "nat \<Rightarrow> nat \<Rightarrow> nat \<Rightarrow> vm \<Rightarrow> vm" where
  "clone_table source_pd new_pd i s =
     (if \<not> present (ram s source_pd i) then s
      else if ram s source_pd i = ram s (kernel_directory s) i then s
      else let (phys_dest_pt, s1) = vm_alloc s;
               dest_pt = frame_of phys_dest_pt;
               src_pt = frame_of (entry_base (ram s source_pd i));
               s2 = clear_frame dest_pt s1;
               s3 = set_word new_pd i (phys_dest_pt OR (ram s2 source_pd i AND 0xFFF)) s2
           in fold (clone_page src_pt dest_pt) [0..<1024] s3)"

definition pd_clone :: "u32 \<Rightarrow> vm \<Rightarrow> u32 \<times> vm" where
  "pd_clone source_pd_phys s =
     (let (phys_new_pd, s1) = pd_create s
      in (phys_new_pd, fold (clone_table (frame_of source_pd_phys) (frame_of phys_new_pd)) [0..<768] s1))"

definition destroy_table :: "nat \<Rightarrow> nat \<Rightarrow> vm \<Rightarrow> vm" where
  "destroy_table pd i s =
     (if \<not> present (ram s pd i) then s
      else if ram s pd i = ram s (kernel_directory s) i then s
      else let pt = entry_base (ram s pd i)
           in vm_free pt (fold (\<lambda>j s. if present (ram s (frame_of pt) j) then vm_free (entry_base (ram s (frame_of pt) j)) s else s)
                [0..<1024] s))"

definition pd_destroy :: "u32 \<Rightarrow> vm \<Rightarrow> vm" where
  "pd_destroy pd_phys s = vm_free pd_phys (fold (destroy_table (frame_of pd_phys)) [0..<1024] s)"

definition pd_switch :: "u32 \<Rightarrow> vm \<Rightarrow> vm" where
  "pd_switch pd_phys s = s\<lparr>cr3 := pd_phys\<rparr>"

definition switch_page_directory :: "nat \<Rightarrow> vm \<Rightarrow> vm" where
  "switch_page_directory dir s = s\<lparr>current_directory := Some dir, cr3 := of_nat dir * 4096\<rparr>"

text \<open>The mapping of a page in a directory, which \<^verbatim>\<open>vm_map_page\<close> and \<^verbatim>\<open>paging_map\<close> have in common.\<close>

definition map_in :: "nat \<Rightarrow> u32 \<Rightarrow> u32 \<Rightarrow> u32 \<Rightarrow> vm \<Rightarrow> vm" where
  "map_in pd phys virt flags s =
     (let s1 = (if present (ram s pd (pd_index virt)) then s
                else let (phys_pt, s') = vm_alloc s
                     in set_word pd (pd_index virt) (phys_pt OR 7) (clear_frame (frame_of phys_pt) s'));
          pt = frame_of (entry_base (ram s1 pd (pd_index virt)))
      in set_word pt (pt_index virt) (entry_base phys OR flags) s1)"

definition vm_map_page :: "u32 \<Rightarrow> u32 \<Rightarrow> u32 \<Rightarrow> vm \<Rightarrow> vm" where
  "vm_map_page phys virt flags s = map_in (frame_of (cr3 s)) phys virt flags s"

definition paging_map :: "u32 \<Rightarrow> u32 \<Rightarrow> u32 \<Rightarrow> vm \<Rightarrow> vm" where
  "paging_map phys virt flags s = map_in (kernel_directory s) phys virt flags s"

definition vm_get_phys :: "u32 \<Rightarrow> vm \<Rightarrow> u32" where
  "vm_get_phys virt s =
     (let pd = frame_of (cr3 s)
      in if \<not> present (ram s pd (pd_index virt)) then 0
         else let e = ram s (frame_of (entry_base (ram s pd (pd_index virt)))) (pt_index virt)
              in if \<not> present e then 0 else entry_base e + (virt AND 0xFFF))"

definition vm_unmap_page :: "u32 \<Rightarrow> vm \<Rightarrow> vm" where
  "vm_unmap_page virt s =
     (let pd = frame_of (cr3 s)
      in if \<not> present (ram s pd (pd_index virt)) then s
         else let pt = frame_of (entry_base (ram s pd (pd_index virt))); e = ram s pt (pt_index virt)
              in if present e then set_word pt (pt_index virt) 0 (vm_free (entry_base e) s) else s)"

definition clear_table :: "nat \<Rightarrow> nat \<Rightarrow> vm \<Rightarrow> vm" where
  "clear_table pd i s =
     (if present (ram s pd i)
      then let pt = frame_of (entry_base (ram s pd i));
               s1 = fold (\<lambda>j s. if present (ram s pt j) then set_word pt j 0 (vm_free (entry_base (ram s pt j)) s) else s) [0..<1024] s
           in set_word pd i 0 (vm_free (entry_base (ram s1 pd i)) s1)
      else s)"

definition vm_clear_user_mappings :: "vm \<Rightarrow> vm" where
  "vm_clear_user_mappings s = fold (clear_table (frame_of (cr3 s))) [256..<768] s"

text \<open>\<open>paging_get_pte\<close> answers the table and the index of the entry.\<close>

definition paging_get_pte :: "u32 \<Rightarrow> vm \<Rightarrow> (nat \<times> nat) option" where
  "paging_get_pte virt s =
     (let dir = (case current_directory s of Some d \<Rightarrow> d | None \<Rightarrow> kernel_directory s)
      in if \<not> present (ram s dir (pd_index virt)) then None
         else Some (frame_of (entry_base (ram s dir (pd_index virt))), pt_index virt))"

section \<open>Words and entries\<close>

lemma frame_of_shift: "frame_of p = unat (drop_bit 12 p)"
  by (simp add: frame_of_def drop_bit_eq_div unat_div)

lemma entry_base_mask: "entry_base e = e AND NOT (mask 12)"
proof -
  have "(0xFFFFF000 :: u32) = NOT (mask 12)" by code_simp
  then show ?thesis by (simp only: entry_base_def)
qed

lemma frame_of_base [simp]: "frame_of (entry_base p) = frame_of p"
proof -
  have "drop_bit 12 (p AND NOT (mask 12)) = drop_bit 12 p"
    by (rule bit_word_eqI) (auto simp: bit_simps dest: bit_imp_le_length)
  then show ?thesis by (simp add: frame_of_shift entry_base_mask)
qed

lemma frame_of_or: "drop_bit 12 fl = 0 \<Longrightarrow> frame_of (p OR fl) = frame_of p"
  by (simp add: frame_of_shift)

lemma drop_low [simp]: "drop_bit 12 (fl AND 0xFFF :: u32) = 0" "drop_bit 12 (7 :: u32) = 0"
proof -
  have "(0xFFF :: u32) = mask 12" by code_simp
  then show "drop_bit 12 (fl AND 0xFFF :: u32) = 0"
    by (simp only:) (rule bit_word_eqI, simp add: bit_drop_bit_eq bit_simps)
  show "drop_bit 12 (7 :: u32) = 0" by code_simp
qed

lemma present_bit: "present e = bit e 0"
  by (simp add: present_def and_one_eq bit_0 even_iff_mod_2_eq_zero)

lemma present_or [simp]: "present (a OR b) \<longleftrightarrow> present a \<or> present b"
  by (simp add: present_bit bit_or_iff)

lemma present_low [simp]: "present (e AND 0xFFF) = present e" "present 7" "\<not> present 0" "present 3"
  by (simp_all add: present_bit even_and_iff bit_0)

lemma present_base [simp]: "\<not> present (entry_base e)"
  by (simp add: present_bit entry_base_def even_and_iff bit_0)

lemma entry_base_or: "drop_bit 12 fl = 0 \<Longrightarrow> entry_base (p OR fl) = entry_base p"
proof -
  assume fl: "drop_bit 12 fl = 0"
  have "\<not> bit fl n" if "n \<ge> 12" for n
  proof -
    have "bit fl n = bit (drop_bit 12 fl) (n - 12)" using that by (simp add: bit_drop_bit_eq)
    then show ?thesis using fl by simp
  qed
  then show ?thesis unfolding entry_base_mask by (intro bit_word_eqI) (auto simp: bit_simps)
qed

lemma page_low: "unat p mod 4096 = 0 \<Longrightarrow> take_bit 12 (p :: u32) = 0"
proof -
  assume "unat p mod 4096 = 0"
  then have "unat (take_bit 12 p) = 0" by (simp add: take_bit_eq_mod unat_mod)
  then show ?thesis by (simp only: unsigned_eq_0_iff)
qed

lemma entry_base_page: "unat p mod 4096 = 0 \<Longrightarrow> entry_base p = p"
proof -
  assume "unat p mod 4096 = 0"
  then have "take_bit 12 p = 0" by (rule page_low)
  then have "\<not> bit p n" if "n < 12" for n
    using that by (metis bit_take_bit_iff bit_0_eq bot_apply bot_bool_def)
  then show ?thesis unfolding entry_base_mask by (intro bit_word_eqI) (auto simp: bit_simps)
qed

lemma page_flags: "unat p mod 4096 = 0 \<Longrightarrow> drop_bit 12 fl = 0 \<Longrightarrow> (p OR fl) AND 0xFFF = (fl :: u32)"
proof -
  assume p: "unat p mod 4096 = 0" and fl: "drop_bit 12 fl = 0"
  have m: "(0xFFF :: u32) = mask 12" by code_simp
  have "take_bit 12 p = 0" using p by (rule page_low)
  moreover have "take_bit 12 fl = fl" using fl by (simp add: take_bit_eq_self_iff_drop_bit_eq_0)
  ultimately show ?thesis by (simp only: m take_bit_eq_mask [symmetric] take_bit_or) simp
qed

section \<open>Frames in use\<close>

abbreviation used :: "vm \<Rightarrow> nat \<Rightarrow> bool" where
  "used s f \<equiv> mmap_test (vm_pmm s) f"

definition room :: "vm \<Rightarrow> nat" where
  "room s = unat (pmm_max_blocks (vm_pmm s)) - frames_in_use (vm_pmm s)"

text \<open>
  The kernel reaches a frame at \<^verbatim>\<open>PHYS_TO_VIRT\<close>, in the 512 MB that \<^verbatim>\<open>init_paging\<close> maps; all
  memory that is handed out lies in this window.
\<close>

definition window_frames :: nat where "window_frames = 128 * 1024"

definition vm_ok :: "vm \<Rightarrow> bool" where
  "vm_ok s \<longleftrightarrow> pmm_inv (vm_pmm s) \<and> 32 dvd unat (pmm_max_blocks (vm_pmm s)) \<and>
     unat (pmm_max_blocks (vm_pmm s)) \<le> window_frames \<and> used s 0"

lemma vm_sel [simp]:
  "vm_pmm (set_word f i v s) = vm_pmm s" "kernel_directory (set_word f i v s) = kernel_directory s"
  "cr3 (set_word f i v s) = cr3 s" "current_directory (set_word f i v s) = current_directory s"
  "vm_pmm (clear_frame f s) = vm_pmm s" "kernel_directory (clear_frame f s) = kernel_directory s"
  "cr3 (clear_frame f s) = cr3 s" "current_directory (clear_frame f s) = current_directory s"
  "vm_pmm (copy_frame f g s) = vm_pmm s" "kernel_directory (copy_frame f g s) = kernel_directory s"
  "cr3 (copy_frame f g s) = cr3 s" "current_directory (copy_frame f g s) = current_directory s"
  "ram (vm_free p s) = ram s" "kernel_directory (vm_free p s) = kernel_directory s"
  "cr3 (vm_free p s) = cr3 s" "current_directory (vm_free p s) = current_directory s"
  by (simp_all add: set_word_def clear_frame_def copy_frame_def vm_free_def)

lemma ram_set_word: "ram (set_word f i v s) = (ram s)(f := (ram s f)(i := v))"
  by (simp add: set_word_def)

lemma vm_alloc_fresh:
  assumes "vm_ok s" "0 < room s" "vm_alloc s = (p, s')"
  shows "unat p mod 4096 = 0" "\<not> used s (frame_of p)" "\<forall>g. used s' g = (used s g \<or> g = frame_of p)"
    "ram s' = ram s" "kernel_directory s' = kernel_directory s" "cr3 s' = cr3 s" "current_directory s' = current_directory s"
    "vm_ok s'" "Suc (room s') = room s" "frame_of p < 2 ^ 20"
proof -
  obtain m where a: "pmm_alloc_block (vm_pmm s) = (p, m)" and s': "s' = s\<lparr>vm_pmm := m\<rparr>"
    using assms(3) by (auto simp: vm_alloc_def split: prod.splits)
  have inv: "pmm_inv (vm_pmm s)" using assms(1) by (simp add: vm_ok_def)
  have lt: "frames_in_use (vm_pmm s) < unat (pmm_max_blocks (vm_pmm s))" using assms(2) by (simp add: room_def)
  have nz: "p \<noteq> 0"
  proof
    assume "p = 0"
    have "pmm_get_free_block_count (vm_pmm s) \<noteq> 0"
      using inv lt by (auto simp: free_count_zero_iff pmm_inv_def)
    moreover have "mmap_first_free (vm_pmm s) \<noteq> None"
    proof
      assume none: "mmap_first_free (vm_pmm s) = None"
      have "32 * (unat (pmm_max_blocks (vm_pmm s)) div 32) = unat (pmm_max_blocks (vm_pmm s))"
        using assms(1) by (simp add: vm_ok_def)
      then have "{b. b < unat (pmm_max_blocks (vm_pmm s)) \<and> mmap_test (vm_pmm s) b} = {..<unat (pmm_max_blocks (vm_pmm s))}"
        using mmap_first_free_None [OF none] by auto
      then show False using lt by (simp add: frames_in_use_card)
    qed
    ultimately obtain f where f: "mmap_first_free (vm_pmm s) = Some f" "p = of_nat f * 4096"
      using a by (auto simp: pmm_alloc_block_def split: option.splits)
    have "f < 2 ^ 20" using mmap_first_free_Some(1) [OF f(1)] inv by (simp add: pmm_inv_def)
    then have "f = 0" using f(2) \<open>p = 0\<close> unat_frame_address [of f] by simp
    then show False using mmap_first_free_Some(2) [OF f(1)] assms(1) by (simp add: vm_ok_def)
  qed
  note page = pmm_alloc_block_page [OF inv a nz]
  show "unat p mod 4096 = 0" "\<not> used s (frame_of p)" "\<forall>g. used s' g = (used s g \<or> g = frame_of p)"
    "ram s' = ram s" "kernel_directory s' = kernel_directory s" "cr3 s' = cr3 s" "current_directory s' = current_directory s"
    using page s' by simp_all
  show "vm_ok s'" using assms(1) page s' pmm_alloc_block_inv [OF inv a] by (simp add: vm_ok_def)
  have "frames_in_use m = frames_in_use (vm_pmm s) + card {frame_of p}"
    by (rule frames_in_use_insert) (use page in auto)
  then show "Suc (room s') = room s" using lt page(7) s' by (simp add: room_def)
  show "frame_of p < 2 ^ 20" using page(2) inv by (simp add: pmm_inv_def)
qed

text \<open>
  From \<open>s\<close> to \<open>s'\<close> the frames \<open>L\<close> were allocated, and only they and the frames of \<open>W\<close> were written.
\<close>

definition grows :: "nat set \<Rightarrow> nat list \<Rightarrow> vm \<Rightarrow> vm \<Rightarrow> bool" where
  "grows W L s s' \<longleftrightarrow> vm_ok s' \<and> distinct L \<and> (\<forall>f\<in>set L. \<not> used s f) \<and>
     (\<forall>f. used s' f = (used s f \<or> f \<in> set L)) \<and> (\<forall>f. f \<notin> W \<longrightarrow> f \<notin> set L \<longrightarrow> ram s' f = ram s f) \<and>
     kernel_directory s' = kernel_directory s \<and> cr3 s' = cr3 s \<and> current_directory s' = current_directory s \<and>
     room s' + length L = room s"

lemma growsD:
  assumes "grows W L s s'"
  shows "vm_ok s'" "distinct L" "f \<in> set L \<Longrightarrow> \<not> used s f" "used s' f = (used s f \<or> f \<in> set L)"
    "f \<notin> W \<Longrightarrow> f \<notin> set L \<Longrightarrow> ram s' f = ram s f" "kernel_directory s' = kernel_directory s" "cr3 s' = cr3 s"
    "current_directory s' = current_directory s" "room s' + length L = room s"
  using assms by (simp_all add: grows_def)

lemma grows_ram: "grows W L s s' \<Longrightarrow> used s f \<Longrightarrow> f \<notin> W \<Longrightarrow> ram s' f = ram s f"
  using growsD(3,5) by blast

lemma grows_refl: "vm_ok s \<Longrightarrow> grows W [] s s"
  by (simp add: grows_def)

lemma grows_trans:
  assumes "grows W L s s1" "grows W' L' s1 s2" "W' \<subseteq> W \<union> set L"
  shows "grows W (L @ L') s s2"
  using assms by (auto simp: grows_def)

lemma grows_mono: "grows W L s s' \<Longrightarrow> W \<subseteq> W' \<Longrightarrow> grows W' L s s'"
  by (auto simp: grows_def)

lemma grows_alloc: "vm_ok s \<Longrightarrow> 0 < room s \<Longrightarrow> vm_alloc s = (p, s') \<Longrightarrow> grows {} [frame_of p] s s'"
  using vm_alloc_fresh [of s p s'] by (auto simp: grows_def)

lemma grows_write:
  assumes "grows W L s s'" "f \<in> W \<or> f \<in> set L"
  shows "grows W L s (set_word f i v s')" "grows W L s (clear_frame f s')" "grows W L s (copy_frame f g s')"
  using assms by (auto simp: grows_def room_def vm_ok_def set_word_def clear_frame_def copy_frame_def)

section \<open>Copying a table\<close>

text \<open>The frames of the pages of a table, and: one entry is a copy of another.\<close>

definition pages :: "vm \<Rightarrow> nat \<Rightarrow> nat \<Rightarrow> nat list" where
  "pages s pt n = map frame_of (filter present (map (ram s pt) [0..<n]))"

definition same_page :: "vm \<Rightarrow> u32 \<Rightarrow> vm \<Rightarrow> u32 \<Rightarrow> bool" where
  "same_page s e s' e' \<longleftrightarrow> present e' = present e \<and>
     (present e \<longrightarrow> e' AND 0xFFF = e AND 0xFFF \<and> (\<forall>w<1024. ram s' (frame_of e') w = ram s (frame_of e) w))"

lemma pages_Suc: "pages s pt (Suc n) = pages s pt n @ (if present (ram s pt n) then [frame_of (ram s pt n)] else [])"
  by (simp add: pages_def)

lemma pages_0 [simp]: "pages s pt 0 = []"
  by (simp add: pages_def)

lemma in_pages: "j < n \<Longrightarrow> present (ram s pt j) \<Longrightarrow> frame_of (ram s pt j) \<in> set (pages s pt n)"
  by (simp add: pages_def)

lemma pages_cong: "(\<And>j. j < n \<Longrightarrow> ram s' pt' j = ram s pt j) \<Longrightarrow> pages s' pt' n = pages s pt n"
  by (induction n) (simp_all add: pages_Suc)

lemma clone_page_step:
  assumes ok: "vm_ok s" and room: "0 < room s" and use: "used s src" "used s dst" "src \<noteq> dst"
    and pg: "present (ram s src j)" "used s (frame_of (ram s src j))"
  obtains f e where "grows {dst} [f] s (clone_page src dst j s)" "ram (clone_page src dst j s) dst = (ram s dst)(j := e)"
    "frame_of e = f" "same_page s (ram s src j) (clone_page src dst j s) e"
proof -
  obtain p s1 where a: "vm_alloc s = (p, s1)" by fastforce
  note A = vm_alloc_fresh [OF ok room a]
  let ?e = "p OR (ram s src j AND 0xFFF)"
  let ?s2 = "copy_frame (frame_of p) (frame_of (ram s src j)) s1"
  have new: "frame_of p \<noteq> src" "frame_of p \<noteq> dst" "frame_of p \<noteq> frame_of (ram s src j)" using A(2) use pg(2) by auto
  have eq: "clone_page src dst j s = set_word dst j ?e ?s2"
    using pg(1) a new(1) A(4) by (simp add: clone_page_def copy_frame_def cong: if_cong)
  have "grows {dst} [frame_of p] s s1" by (rule grows_mono [OF grows_alloc [OF ok room a]]) simp
  then have g: "grows {dst} [frame_of p] s (clone_page src dst j s)"
    unfolding eq by (intro grows_write) simp_all
  have r: "ram (clone_page src dst j s) dst = (ram s dst)(j := ?e)"
    unfolding eq using new A(4) by (simp add: ram_set_word copy_frame_def)
  have f: "frame_of ?e = frame_of p" by (simp add: frame_of_or)
  have "same_page s (ram s src j) (clone_page src dst j s) ?e"
    unfolding eq same_page_def using pg(1) new A(1,4) f
    by (simp add: page_flags ram_set_word copy_frame_def)
  with g r f show thesis by (intro that) simp_all
qed

lemma clone_pages:
  assumes ok: "vm_ok s" and use: "used s src" "used s dst" "src \<noteq> dst"
    and pg: "\<forall>j<n. present (ram s src j) \<longrightarrow> used s (frame_of (ram s src j)) \<and> frame_of (ram s src j) \<noteq> dst"
    and room: "length (pages s src n) \<le> room s" and empty: "\<forall>j<n. ram s dst j = 0"
  shows "let s' = fold (clone_page src dst) [0..<n] s in
    grows {dst} (pages s' dst n) s s' \<and> length (pages s' dst n) = length (pages s src n) \<and>
    (\<forall>j<n. same_page s (ram s src j) s' (ram s' dst j)) \<and> (\<forall>j\<ge>n. ram s' dst j = ram s dst j)"
  using pg room empty
proof (induction n)
  case 0
  then show ?case using ok by (simp add: grows_refl)
next
  case (Suc n)
  define s1 where "s1 = fold (clone_page src dst) [0..<n] s"
  have step: "fold (clone_page src dst) [0..<Suc n] s = clone_page src dst n s1" by (simp add: s1_def)
  have IH: "grows {dst} (pages s1 dst n) s s1" "length (pages s1 dst n) = length (pages s src n)"
      "\<forall>j<n. same_page s (ram s src j) s1 (ram s1 dst j)" "\<forall>j\<ge>n. ram s1 dst j = ram s dst j"
    using Suc.IH Suc.prems by (simp_all add: pages_Suc Let_def s1_def)
  note G = growsD [OF IH(1)]
  have src1: "ram s1 src = ram s src" using grows_ram [OF IH(1) use(1)] use(3) by simp
  have dst1: "ram s1 dst n = 0" using IH(4) Suc.prems(3) by simp
  have old: "frame_of (ram s1 dst j) \<noteq> dst \<and> used s1 (frame_of (ram s1 dst j))" if "j < n" "present (ram s1 dst j)" for j
  proof -
    have m: "frame_of (ram s1 dst j) \<in> set (pages s1 dst n)" by (rule in_pages [OF that])
    have "\<not> used s (frame_of (ram s1 dst j))" by (rule G(3) [OF m])
    then show ?thesis using m use(2) by (auto simp: G(4))
  qed
  show ?case
  proof (cases "present (ram s src n)")
    case False
    then have "clone_page src dst n s1 = s1" by (simp add: clone_page_def src1)
    with False IH dst1 show ?thesis unfolding step Let_def by (auto simp: pages_Suc less_Suc_eq same_page_def)
  next
    case True
    have room1: "0 < room s1" using G(9) IH(2) Suc.prems(2) True by (simp add: pages_Suc)
    have pg1: "used s1 (frame_of (ram s1 src n))" using Suc.prems(1) True G(4) src1 by simp
    obtain f e where S: "grows {dst} [f] s1 (clone_page src dst n s1)" "ram (clone_page src dst n s1) dst = (ram s1 dst)(n := e)"
        "frame_of e = f" "same_page s1 (ram s1 src n) (clone_page src dst n s1) e"
      using clone_page_step [OF G(1) room1 _ _ use(3), of n] use(1,2) True pg1 G(4) src1 by metis
    let ?s = "clone_page src dst n s1"
    have keep: "ram ?s g = ram s1 g" if "used s1 g" "g \<noteq> dst" for g
      using grows_ram [OF S(1) that(1)] that(2) by simp
    have pe: "present e" using S(4) True src1 by (simp add: same_page_def)
    have pl: "pages ?s dst (Suc n) = pages s1 dst n @ [f]"
      using pe S(2,3) by (simp add: pages_Suc) (intro pages_cong, simp)
    have "ram s1 (frame_of (ram s src n)) = ram s (frame_of (ram s src n))"
      using Suc.prems(1) True grows_ram [OF IH(1)] by simp
    then have last: "same_page s (ram s src n) ?s (ram ?s dst n)" using S(2,4) src1 by (simp add: same_page_def)
    have "same_page s (ram s src j) ?s (ram ?s dst j)" if "j < n" for j
      using IH(3) that old [of j] keep S(2) by (auto simp: same_page_def)
    with last have all: "\<forall>j<Suc n. same_page s (ram s src j) ?s (ram ?s dst j)" by (simp add: less_Suc_eq)
    have "grows {dst} (pages s1 dst n @ [f]) s ?s" by (rule grows_trans [OF IH(1) S(1)]) simp
    with pl all IH(2,4) S(2) True show ?thesis unfolding step Let_def by (simp add: pages_Suc)
  qed
qed

section \<open>Address spaces\<close>

definition own_table :: "vm \<Rightarrow> nat \<Rightarrow> nat \<Rightarrow> bool" where
  "own_table s pd i \<longleftrightarrow> present (ram s pd i) \<and> ram s pd i \<noteq> ram s (kernel_directory s) i"

definition table_frames :: "vm \<Rightarrow> u32 \<Rightarrow> nat list" where
  "table_frames s e = frame_of e # pages s (frame_of e) 1024"

definition tables :: "vm \<Rightarrow> nat \<Rightarrow> nat \<Rightarrow> nat list" where
  "tables s pd n = concat (map (\<lambda>i. if own_table s pd i then table_frames s (ram s pd i) else []) [0..<n])"

text \<open>The frames of a space that are its own, and what a space must keep of the bitmap.\<close>

definition owned :: "vm \<Rightarrow> nat \<Rightarrow> nat list" where
  "owned s pd = pd # tables s pd 1024"

definition same_table :: "vm \<Rightarrow> u32 \<Rightarrow> vm \<Rightarrow> u32 \<Rightarrow> bool" where
  "same_table s e s' e' \<longleftrightarrow> present e' = present e \<and> e' AND 0xFFF = e AND 0xFFF \<and>
     (\<forall>j<1024. same_page s (ram s (frame_of e) j) s' (ram s' (frame_of e') j))"

lemma tables_Suc: "tables s pd (Suc n) = tables s pd n @ (if own_table s pd n then table_frames s (ram s pd n) else [])"
  by (simp add: tables_def)

lemma tables_end:
  assumes "n \<le> m" "\<And>i. n \<le> i \<Longrightarrow> i < m \<Longrightarrow> \<not> own_table s pd i"
  shows "tables s pd m = tables s pd n"
  using assms by (induction m rule: dec_induct) (simp_all add: tables_def)

lemma tables_cong:
  assumes "\<And>i. i < n \<Longrightarrow> (if own_table s' pd' i then table_frames s' (ram s' pd' i) else []) =
    (if own_table s pd i then table_frames s (ram s pd i) else [])"
  shows "tables s' pd' n = tables s pd n"
  using assms by (induction n) (simp_all add: tables_def)

lemma tables_0 [simp]: "tables s pd 0 = []"
  by (simp add: tables_def)

text \<open>A step that leaves the frames behind an entry alone leaves what they say.\<close>

lemma same_table_frame:
  assumes "same_table s0 e0 s e" "present e" "\<forall>f\<in>set (table_frames s e). ram s' f = ram s f"
  shows "same_table s0 e0 s' e"
proof -
  have "same_page s0 (ram s0 (frame_of e0) j) s' (ram s' (frame_of e) j)" if j: "j < 1024" for j
  proof -
    have 1: "same_page s0 (ram s0 (frame_of e0) j) s (ram s (frame_of e) j)" using assms(1) j by (simp add: same_table_def)
    have t: "ram s' (frame_of e) = ram s (frame_of e)" using assms(3) by (simp add: table_frames_def)
    have "ram s' (frame_of (ram s (frame_of e) j)) = ram s (frame_of (ram s (frame_of e) j))" if "present (ram s (frame_of e) j)"
      using assms(3) in_pages [OF j that] by (simp add: table_frames_def)
    with 1 t show ?thesis by (auto simp: same_page_def)
  qed
  then show ?thesis using assms(1) by (simp add: same_table_def)
qed

lemma table_frames_cong:
  assumes "ram s' (frame_of e) = ram s (frame_of e)"
  shows "table_frames s' e = table_frames s e"
  unfolding table_frames_def using assms by (metis pages_cong)

lemma clone_table_own:
  assumes ok: "vm_ok s" and use: "used s src" "used s new" "used s (kernel_directory s)" "src \<noteq> new" "new \<noteq> kernel_directory s"
    and priv: "own_table s src i" and tab: "used s (frame_of (ram s src i))" "frame_of (ram s src i) \<noteq> new"
    and pg: "\<forall>f\<in>set (pages s (frame_of (ram s src i)) 1024). used s f \<and> f \<noteq> new"
    and room: "length (table_frames s (ram s src i)) \<le> room s"
  shows "\<exists>e. let s' = clone_table src new i s in
    grows {new} (table_frames s' e) s s' \<and> length (table_frames s' e) = length (table_frames s (ram s src i)) \<and>
    ram s' new = (ram s new)(i := e) \<and> same_table s (ram s src i) s' e"
proof -
  obtain p s1 where a: "vm_alloc s = (p, s1)" by fastforce
  have r: "0 < room s" using room by (simp add: table_frames_def)
  note A = vm_alloc_fresh [OF ok r a]
  let ?src = "ram s src i" and ?dst = "frame_of p"
  let ?e = "p OR (?src AND 0xFFF)"
  define s2 where "s2 = clear_frame ?dst s1"
  define s3 where "s3 = set_word new i ?e s2"
  have new: "?dst \<noteq> src" "?dst \<noteq> new" "?dst \<noteq> kernel_directory s" "?dst \<noteq> frame_of ?src" using A(2) use tab by auto
  have fe: "frame_of ?e = ?dst" by (simp add: frame_of_or)
  have eq: "clone_table src new i s = fold (clone_page (frame_of ?src) ?dst) [0..<1024] s3"
    using priv a new(1) A(4) by (simp add: clone_table_def own_table_def s2_def s3_def clear_frame_def Let_def)
  have g3: "grows {new} [?dst] s s3"
    unfolding s3_def s2_def by (intro grows_write grows_mono [OF grows_alloc [OF ok r a]]) simp_all
  note G3 = growsD [OF g3]
  have ram3: "ram s3 f = ram s f" if "used s f" "f \<noteq> new" for f using grows_ram [OF g3 that(1)] that(2) by simp
  have src3: "ram s3 (frame_of ?src) = ram s (frame_of ?src)" using ram3 tab by simp
  have pg3: "\<forall>j<1024. present (ram s3 (frame_of ?src) j) \<longrightarrow>
      used s3 (frame_of (ram s3 (frame_of ?src) j)) \<and> frame_of (ram s3 (frame_of ?src) j) \<noteq> ?dst"
  proof (intro allI impI)
    fix j :: nat assume "j < 1024" "present (ram s3 (frame_of ?src) j)"
    then have "frame_of (ram s (frame_of ?src) j) \<in> set (pages s (frame_of ?src) 1024)" using src3 in_pages by simp
    then have "used s (frame_of (ram s (frame_of ?src) j))" using pg by blast
    then show "used s3 (frame_of (ram s3 (frame_of ?src) j)) \<and> frame_of (ram s3 (frame_of ?src) j) \<noteq> ?dst"
      using src3 G3(4) A(2) by auto
  qed
  have len3: "pages s3 (frame_of ?src) 1024 = pages s (frame_of ?src) 1024" using src3 by (intro pages_cong) simp
  have room3: "length (pages s3 (frame_of ?src) 1024) \<le> room s3"
    using room G3(9) len3 by (simp add: table_frames_def)
  have zero: "\<forall>j<1024. ram s3 ?dst j = 0" using new(2) by (simp add: s3_def s2_def ram_set_word clear_frame_def)
  have u3: "used s3 (frame_of ?src)" "used s3 ?dst" using tab(1) G3(4) by simp_all
  define s' where "s' = clone_table src new i s"
  have C: "grows {?dst} (pages s' ?dst 1024) s3 s'" "length (pages s' ?dst 1024) = length (pages s3 (frame_of ?src) 1024)"
      "\<forall>j<1024. same_page s3 (ram s3 (frame_of ?src) j) s' (ram s' ?dst j)"
    using clone_pages [OF G3(1) u3(1,2) _ pg3 room3 zero] new(4) by (simp_all add: Let_def eq s'_def)
  have "grows {new} ([?dst] @ pages s' ?dst 1024) s s'" by (rule grows_trans [OF g3 C(1)]) simp
  then have g: "grows {new} (table_frames s' ?e) s s'" by (simp add: table_frames_def fe)
  have "used s3 new" using use(2) G3(4) by simp
  then have "ram s' new = ram s3 new" using grows_ram [OF C(1)] new(2) by simp
  then have n: "ram s' new = (ram s new)(i := ?e)"
    using new(2) A(4) by (simp add: s3_def s2_def ram_set_word clear_frame_def)
  have "same_page s (ram s (frame_of ?src) j) s' (ram s' ?dst j)" if "j < 1024" for j
  proof (cases "present (ram s (frame_of ?src) j)")
    case True
    then have "frame_of (ram s (frame_of ?src) j) \<in> set (pages s (frame_of ?src) 1024)" using that in_pages by simp
    then have "ram s3 (frame_of (ram s (frame_of ?src) j)) = ram s (frame_of (ram s (frame_of ?src) j))" using pg ram3 by blast
    then show ?thesis using C(3) that src3 by (simp add: same_page_def)
  qed (use C(3) that src3 in \<open>simp add: same_page_def\<close>)
  moreover have "present ?e" "?e AND 0xFFF = ?src AND 0xFFF"
    using priv A(1) by (simp_all add: own_table_def page_flags)
  ultimately have "same_table s ?src s' ?e" using priv by (simp add: same_table_def fe own_table_def)
  moreover have "length (table_frames s' ?e) = length (table_frames s ?src)"
    using C(2) len3 by (simp add: table_frames_def fe)
  ultimately show ?thesis using g n unfolding Let_def s'_def by blast
qed

definition space_ok :: "vm \<Rightarrow> nat \<Rightarrow> bool" where
  "space_ok s pd \<longleftrightarrow> vm_ok s \<and> used s pd \<and> used s (kernel_directory s) \<and> pd < window_frames \<and> kernel_directory s < window_frames \<and>
     (\<forall>i<1024. present (ram s (kernel_directory s) i) \<longrightarrow> used s (frame_of (ram s (kernel_directory s) i))) \<and>
     (\<forall>f\<in>set (tables s pd 1024). used s f \<and> f < window_frames)"

lemma in_tables: "i < n \<Longrightarrow> own_table s pd i \<Longrightarrow> f \<in> set (table_frames s (ram s pd i)) \<Longrightarrow> f \<in> set (tables s pd n)"
  unfolding tables_def by auto

lemma pd_create_loop:
  "pd \<noteq> k \<Longrightarrow> fold (\<lambda>i s. if present (ram s k i) then set_word pd i (ram s k i) s else s) is s =
     s\<lparr>ram := (ram s)(pd := (\<lambda>i. if i \<in> set is \<and> present (ram s k i) then ram s k i else ram s pd i))\<rparr>"
  by (induction "is" arbitrary: s) (auto simp: set_word_def fun_eq_iff intro!: vm.equality)

lemma pd_create_grows:
  assumes ok: "space_ok s pd" and room: "0 < room s" and cr: "pd_create s = (p, s')"
  shows "grows {} [frame_of p] s s'" "unat p mod 4096 = 0"
    "i < 1024 \<Longrightarrow> ram s' (frame_of p) i = (if present (ram s (kernel_directory s) i) then ram s (kernel_directory s) i else 0)"
proof -
  obtain s1 where a: "vm_alloc s = (p, s1)" using cr by (auto simp: pd_create_def Let_def split: prod.splits)
  have v: "vm_ok s" using ok by (simp add: space_ok_def)
  note A = vm_alloc_fresh [OF v room a]
  let ?k = "kernel_directory s"
  have ne: "frame_of p \<noteq> ?k" using A(2) ok by (auto simp: space_ok_def)
  have "s' = (clear_frame (frame_of p) s1)\<lparr>ram := (ram (clear_frame (frame_of p) s1))(frame_of p :=
      (\<lambda>i. if i \<in> set [0..<1024] \<and> present (ram (clear_frame (frame_of p) s1) ?k i)
           then ram (clear_frame (frame_of p) s1) ?k i else ram (clear_frame (frame_of p) s1) (frame_of p) i))\<rparr>"
    using cr unfolding pd_create_def a by (simp add: Let_def pd_create_loop [OF ne])
  then have s': "s' = s1\<lparr>ram := (ram s)(frame_of p := (\<lambda>i. if i < 1024 then if present (ram s ?k i) then ram s ?k i else 0
      else ram s (frame_of p) i))\<rparr>"
    using ne A(4) by (auto simp: clear_frame_def fun_eq_iff intro!: vm.equality)
  show "grows {} [frame_of p] s s'"
    using grows_alloc [OF v room a] A(3,4) by (auto simp: s' grows_def vm_ok_def room_def)
  show "unat p mod 4096 = 0" by (rule A(1))
  show "i < 1024 \<Longrightarrow> ram s' (frame_of p) i = (if present (ram s ?k i) then ram s ?k i else 0)" by (simp add: s')
qed

lemma same_table_back:
  assumes "same_table s1 e s' e'" "\<forall>f\<in>set (table_frames s e). ram s1 f = ram s f"
  shows "same_table s e s' e'"
proof -
  have "same_page s (ram s (frame_of e) j) s' (ram s' (frame_of e') j)" if j: "j < 1024" for j
  proof -
    have 1: "same_page s1 (ram s1 (frame_of e) j) s' (ram s' (frame_of e') j)" using assms(1) j by (simp add: same_table_def)
    have t: "ram s1 (frame_of e) = ram s (frame_of e)" using assms(2) by (simp add: table_frames_def)
    have "ram s1 (frame_of (ram s (frame_of e) j)) = ram s (frame_of (ram s (frame_of e) j))" if "present (ram s (frame_of e) j)"
      using assms(2) in_pages [OF j that] by (simp add: table_frames_def)
    with 1 t show ?thesis by (auto simp: same_page_def)
  qed
  then show ?thesis using assms(1) by (simp add: same_table_def)
qed

text \<open>The loop over the directory, started in a new space \<open>c\<close> that shows the kernel only.\<close>

lemma clone_tables:
  assumes ok: "space_ok s src" and c: "used s c" "c \<noteq> src" "c \<noteq> kernel_directory s" "c \<notin> set (tables s src 1024)"
    and room: "length (tables s src n) \<le> room s" and n: "n \<le> 1024"
    and fresh: "\<forall>i<n. \<not> own_table s c i"
  shows "let s' = fold (clone_table src c) [0..<n] s in
    grows {c} (tables s' c n) s s' \<and> length (tables s' c n) = length (tables s src n) \<and>
    (\<forall>i<n. own_table s src i \<longrightarrow> own_table s' c i \<and> same_table s (ram s src i) s' (ram s' c i)) \<and>
    (\<forall>i. \<not> (i < n \<and> own_table s src i) \<longrightarrow> ram s' c i = ram s c i)"
  using room n fresh
proof (induction n)
  case 0
  then show ?case using ok by (simp add: grows_refl space_ok_def)
next
  case (Suc n)
  define s1 where "s1 = fold (clone_table src c) [0..<n] s"
  have step: "fold (clone_table src c) [0..<Suc n] s = clone_table src c n s1" by (simp add: s1_def)
  have IH: "grows {c} (tables s1 c n) s s1" "length (tables s1 c n) = length (tables s src n)"
      "\<And>i. i < n \<Longrightarrow> own_table s src i \<Longrightarrow> own_table s1 c i \<and> same_table s (ram s src i) s1 (ram s1 c i)"
      "\<And>i. \<not> (i < n \<and> own_table s src i) \<Longrightarrow> ram s1 c i = ram s c i"
    using Suc.IH Suc.prems by (simp_all add: tables_Suc Let_def s1_def)
  note G = growsD [OF IH(1)]
  have old: "ram s1 f = ram s f" if "used s f" "f \<noteq> c" for f using grows_ram [OF IH(1) that(1)] that(2) by simp
  have src1: "ram s1 src = ram s src" and k1: "ram s1 (kernel_directory s) = ram s (kernel_directory s)"
    using old ok c by (simp_all add: space_ok_def)
  have own1: "own_table s1 src i = own_table s src i" for i by (simp add: own_table_def src1 k1 G(6))
  have mine: "used s f \<and> f \<noteq> c" if "i < Suc n" "own_table s src i" "f \<in> set (table_frames s (ram s src i))" for i f
    using in_tables [of i 1024 s src f] that Suc.prems(2) ok c(4) by (auto simp: space_ok_def)
  show ?case
  proof (cases "own_table s src n")
    case False
    then have "clone_table src c n s1 = s1" using own1 [of n] by (auto simp: clone_table_def own_table_def)
    moreover have "\<not> own_table s1 c n" using IH(4) [of n] Suc.prems(3) k1 G(6) by (simp add: own_table_def)
    ultimately show ?thesis using IH False unfolding step Let_def by (auto simp: tables_Suc less_Suc_eq)
  next
    case True
    have tf: "table_frames s1 (ram s1 src n) = table_frames s (ram s src n)"
      using table_frames_cong [of s1 "ram s src n" s] old mine [OF _ True] src1 by (simp add: table_frames_def)
    have pgs: "\<forall>f\<in>set (pages s1 (frame_of (ram s1 src n)) 1024). used s1 f \<and> f \<noteq> c"
    proof
      fix f assume "f \<in> set (pages s1 (frame_of (ram s1 src n)) 1024)"
      then have "f \<in> set (table_frames s (ram s src n))" unfolding tf [symmetric] by (simp add: table_frames_def)
      then show "used s1 f \<and> f \<noteq> c" using mine [OF _ True] G(4) by blast
    qed
    have u1: "used s1 src" "used s1 c" "used s1 (kernel_directory s1)" "c \<noteq> kernel_directory s1"
      using ok c G(4,6) by (simp_all add: space_ok_def)
    have t1: "used s1 (frame_of (ram s1 src n))" "frame_of (ram s1 src n) \<noteq> c"
      using mine [OF _ True, of "frame_of (ram s src n)"] src1 G(4) by (simp_all add: table_frames_def)
    have r1: "length (table_frames s1 (ram s1 src n)) \<le> room s1"
      using Suc.prems(1) True IH(2) G(9) tf by (simp add: tables_Suc)
    obtain e where E: "grows {c} (table_frames (clone_table src c n s1) e) s1 (clone_table src c n s1)"
        "length (table_frames (clone_table src c n s1) e) = length (table_frames s1 (ram s1 src n))"
        "ram (clone_table src c n s1) c = (ram s1 c)(n := e)" "same_table s1 (ram s1 src n) (clone_table src c n s1) e"
      using clone_table_own [OF G(1) u1(1,2,3) c(2) [symmetric] u1(4) _ t1 pgs r1] True own1 by (auto simp: Let_def)
    define s' where "s' = clone_table src c n s1"
    note E = E [folded s'_def]
    note G' = growsD [OF E(1)]
    have tabs: "ram s' f = ram s1 f" if "f \<in> set (tables s1 c n)" for f
    proof -
      have "f \<noteq> c" using G(3) [OF that] c(1) by blast
      moreover have "used s1 f" using that G(4) by blast
      ultimately show ?thesis using grows_ram [OF E(1)] by simp
    qed
    have k': "ram s' (kernel_directory s) = ram s (kernel_directory s)"
      using grows_ram [OF E(1), of "kernel_directory s"] u1(3) c(3) G(6) k1 by simp
    have kd': "kernel_directory s' = kernel_directory s" using G'(6) G(6) by simp
    have own': "own_table s' c i = own_table s1 c i" "ram s' c i = ram s1 c i" if "i \<noteq> n" for i
      using that E(3) k' kd' k1 G(6) by (simp_all add: own_table_def)
    have tf': "table_frames s' (ram s1 c i) = table_frames s1 (ram s1 c i)" if "i < n" "own_table s1 c i" for i
      using that in_tables [OF that] by (intro table_frames_cong tabs) (simp add: table_frames_def)
    have pe: "present e" using E(4) True src1 by (simp add: same_table_def own_table_def)
    have ownn: "own_table s' c n"
    proof -
      have "\<not> used s1 (frame_of e)" by (rule G'(3)) (simp add: table_frames_def)
      then have "\<not> used s (frame_of e)" using G(4) by simp
      then have "e \<noteq> ram s (kernel_directory s) n" using ok pe Suc.prems(2) by (auto simp: space_ok_def)
      then show ?thesis using pe E(3) k' kd' by (simp add: own_table_def)
    qed
    have "tables s' c n = tables s1 c n"
      by (rule tables_cong) (use own' tf' in auto)
    then have tab': "tables s' c (Suc n) = tables s1 c n @ table_frames s' e"
      using ownn E(3) by (simp add: tables_Suc)
    have gr: "grows {c} (tables s' c (Suc n)) s s'"
      unfolding tab' by (rule grows_trans [OF IH(1) E(1)]) simp
    have len: "length (tables s' c (Suc n)) = length (tables s src (Suc n))"
      unfolding tab' using IH(2) E(2) tf True by (simp add: tables_Suc)
    have copyn: "same_table s (ram s src n) s' (ram s' c n)"
      using same_table_back [of s1 "ram s src n" s' e s] E(3,4) src1 mine [OF _ True] old by simp
    have copy: "own_table s' c i \<and> same_table s (ram s src i) s' (ram s' c i)" if "i < Suc n" "own_table s src i" for i
    proof (cases "i = n")
      case False
      then have i: "i < n" using that by simp
      have o1: "own_table s1 c i" and st: "same_table s (ram s src i) s1 (ram s1 c i)" using IH(3) [OF i that(2)] by auto
      have "same_table s (ram s src i) s' (ram s1 c i)"
        by (rule same_table_frame [OF st]) (use o1 in_tables [OF i o1] tabs in \<open>auto simp: own_table_def\<close>)
      then show ?thesis using own' [OF False] o1 by simp
    qed (use copyn ownn in simp)
    have rest: "ram s' c i = ram s c i" if "\<not> (i < Suc n \<and> own_table s src i)" for i
      using that IH(4) [of i] own'(2) [of i] True by (cases "i = n") auto
    show ?thesis using gr len copy rest unfolding step Let_def s'_def by blast
  qed
qed

section \<open>Loads and stores of a process\<close>

text \<open>
  The word that holds the byte at a virtual address, as the processor finds it through a directory; an
  access that is not aligned is one of each of the two words.
\<close>

definition translate :: "vm \<Rightarrow> nat \<Rightarrow> u32 \<Rightarrow> (nat \<times> nat) option" where
  "translate s pd virt =
     (if \<not> present (ram s pd (pd_index virt)) then None
      else let e = ram s (frame_of (ram s pd (pd_index virt))) (pt_index virt)
           in if present e then Some (frame_of e, unat (virt AND 0xFFF) div 4) else None)"

definition load :: "vm \<Rightarrow> nat \<Rightarrow> u32 \<Rightarrow> u32 option" where
  "load s pd virt = (case translate s pd virt of None \<Rightarrow> None | Some (f, w) \<Rightarrow> Some (ram s f w))"

definition store_word :: "nat \<Rightarrow> u32 \<Rightarrow> u32 \<Rightarrow> vm \<Rightarrow> vm" where
  "store_word pd virt v s = (case translate s pd virt of None \<Rightarrow> s | Some (f, w) \<Rightarrow> set_word f w v s)"

lemma index_bounds: "pd_index virt < 1024" "pt_index virt < 1024" "unat (virt AND 0xFFF :: u32) div 4 < 1024"
proof -
  have "pd_index virt = unat virt div 2 ^ 22" by (simp add: pd_index_def drop_bit_eq_div unat_div)
  moreover have "unat virt < 2 ^ 32" using unsigned_less [of virt] by simp
  ultimately show "pd_index virt < 1024" by simp
  have "drop_bit 12 virt AND 0x3FF \<le> 0x3FF" "virt AND 0xFFF \<le> 0xFFF" by (rule word_and_le1)+
  then show "pt_index virt < 1024" "unat (virt AND 0xFFF :: u32) div 4 < 1024"
    by (simp_all add: pt_index_def word_le_nat_alt)
qed

lemma clone_grows:
  assumes ok: "space_ok s (frame_of phys)" and room: "Suc (length (tables s (frame_of phys) 768)) \<le> room s"
    and cl: "pd_clone phys s = (p, s')"
  shows "grows {} (owned s' (frame_of p)) s s'"
    and "i < 768 \<Longrightarrow> own_table s (frame_of phys) i \<Longrightarrow>
      own_table s' (frame_of p) i \<and> same_table s (ram s (frame_of phys) i) s' (ram s' (frame_of p) i)"
    and "i < 1024 \<Longrightarrow> \<not> (i < 768 \<and> own_table s (frame_of phys) i) \<Longrightarrow> \<not> own_table s' (frame_of p) i"
    and "unat p mod 4096 = 0"
proof -
  let ?pd = "frame_of phys" and ?c = "frame_of p"
  obtain s1 where cr: "pd_create s = (p, s1)" and s': "s' = fold (clone_table ?pd ?c) [0..<768] s1"
    using cl by (auto simp: pd_clone_def Let_def split: prod.splits)
  have r: "0 < room s" using room by simp
  note C = pd_create_grows [OF ok r cr]
  note G = growsD [OF C(1)]
  have cfresh: "\<not> used s ?c" by (rule G(3)) simp
  have use: "used s ?pd" "used s (kernel_directory s)" and tabs: "\<forall>f\<in>set (tables s ?pd 1024). used s f"
    using ok by (simp_all add: space_ok_def)
  have old: "ram s1 f = ram s f" if "used s f" for f using grows_ram [OF C(1) that] by simp
  have own1: "own_table s1 ?pd i = own_table s ?pd i" for i using use old G(6) by (simp add: own_table_def)
  have tf1: "table_frames s1 (ram s1 ?pd i) = table_frames s (ram s ?pd i)" if "own_table s ?pd i" "i < 1024" for i
  proof -
    have "used s (frame_of (ram s ?pd i))" using in_tables [OF that(2,1)] tabs by (simp add: table_frames_def)
    then show ?thesis using table_frames_cong old use by metis
  qed
  have tab1: "tables s1 ?pd n = tables s ?pd n" if "n \<le> 1024" for n
    by (rule tables_cong) (use own1 tf1 that in auto)
  have ok1: "space_ok s1 ?pd"
    using ok old G(1,4,6) tab1 [of 1024] by (auto simp: space_ok_def)
  have cnew: "used s1 ?c" "?c \<noteq> ?pd" "?c \<noteq> kernel_directory s1" "?c \<notin> set (tables s1 ?pd 1024)"
    using cfresh use tabs G(4,6) tab1 [of 1024] by auto
  have none: "\<not> own_table s1 ?c i" if "i < 1024" for i
    using C(3) [OF that] old use G(6) by (simp add: own_table_def)
  have r1: "length (tables s1 ?pd 768) \<le> room s1" using room G(9) tab1 [of 768] by simp
  have T: "grows {?c} (tables s' ?c 768) s1 s'"
    "\<And>i. i < 768 \<Longrightarrow> own_table s1 ?pd i \<Longrightarrow> own_table s' ?c i \<and> same_table s1 (ram s1 ?pd i) s' (ram s' ?c i)"
    "\<And>i. \<not> (i < 768 \<and> own_table s1 ?pd i) \<Longrightarrow> ram s' ?c i = ram s1 ?c i"
    using clone_tables [OF ok1 cnew r1] none by (simp_all add: Let_def s')
  show notown: "\<not> own_table s' ?c i" if "i < 1024" "\<not> (i < 768 \<and> own_table s ?pd i)" for i
  proof -
    have "ram s' ?c i = ram s1 ?c i" using T(3) [of i] that(2) own1 by blast
    moreover have "ram s' (kernel_directory s1) = ram s1 (kernel_directory s1)"
      using grows_ram [OF T(1), of "kernel_directory s1"] ok1 cnew(3) by (simp add: space_ok_def)
    ultimately show ?thesis using none [OF that(1)] growsD(6) [OF T(1)] by (simp add: own_table_def)
  qed
  have "tables s' ?c 1024 = tables s' ?c 768"
    by (rule tables_end) (use notown in simp_all)
  moreover have "grows {} ([?c] @ tables s' ?c 768) s s'" by (rule grows_trans [OF C(1) T(1)]) simp
  ultimately show "grows {} (owned s' ?c) s s'" by (simp add: owned_def)
  show "own_table s' ?c i \<and> same_table s (ram s ?pd i) s' (ram s' ?c i)" if "i < 768" "own_table s ?pd i" for i
  proof -
    have "\<forall>f\<in>set (table_frames s (ram s ?pd i)). ram s1 f = ram s f"
      using in_tables [OF _ that(2), of 1024] that(1) tabs old by auto
    then show ?thesis using T(2) [OF that(1)] that own1 old use same_table_back by metis
  qed
  show "unat p mod 4096 = 0" by (rule C(2))
qed

lemma own_present: "own_table s pd i \<Longrightarrow> present (ram s pd i)"
  by (simp add: own_table_def)

lemma same_table_load:
  assumes "own_table s pd (pd_index virt)" "same_table s (ram s pd (pd_index virt)) s' (ram s' c (pd_index virt))"
  shows "load s' c virt = load s pd virt"
proof -
  let ?e = "ram s (frame_of (ram s pd (pd_index virt))) (pt_index virt)"
  let ?e' = "ram s' (frame_of (ram s' c (pd_index virt))) (pt_index virt)"
  have 1: "same_page s ?e s' ?e'" "present (ram s' c (pd_index virt))"
    using assms index_bounds(2) [of virt] by (simp_all add: same_table_def own_table_def)
  show ?thesis
  proof (cases "present ?e")
    case True
    then have "ram s' (frame_of ?e') (unat (virt AND 0xFFF) div 4) = ram s (frame_of ?e) (unat (virt AND 0xFFF) div 4)"
      using 1(1) index_bounds(3) [of virt] by (simp add: same_page_def)
    then show ?thesis using True 1 own_present [OF assms(1)] by (simp add: load_def translate_def same_page_def Let_def)
  qed (use 1 own_present [OF assms(1)] in \<open>simp add: load_def translate_def same_page_def Let_def\<close>)
qed

lemma translate_own:
  assumes "own_table s pd (pd_index virt)" "translate s pd virt = Some (f, w)"
  shows "f \<in> set (tables s pd 1024)"
proof -
  let ?pt = "frame_of (ram s pd (pd_index virt))"
  have "present (ram s ?pt (pt_index virt))" "f = frame_of (ram s ?pt (pt_index virt))"
    using assms(2) by (auto simp: translate_def Let_def split: if_splits)
  then have "f \<in> set (table_frames s (ram s pd (pd_index virt)))"
    using in_pages index_bounds(2) by (simp add: table_frames_def)
  then show ?thesis by (rule in_tables [OF index_bounds(1) assms(1)])
qed

text \<open>A load depends on the directory, the table and the page only.\<close>

lemma load_cong:
  assumes "own_table s pd (pd_index virt)" "\<forall>f\<in>set (owned s pd). ram s' f = ram s f"
  shows "load s' pd virt = load s pd virt"
proof -
  have d: "ram s' pd = ram s pd" using assms(2) by (simp add: owned_def)
  have "frame_of (ram s pd (pd_index virt)) \<in> set (tables s pd 1024)"
    by (rule in_tables [OF index_bounds(1) assms(1)]) (simp add: table_frames_def)
  then have t: "ram s' (frame_of (ram s pd (pd_index virt))) = ram s (frame_of (ram s pd (pd_index virt)))"
    using assms(2) by (simp add: owned_def)
  have tr: "translate s' pd virt = translate s pd virt" using d t by (simp add: translate_def)
  show ?thesis
  proof (cases "translate s pd virt")
    case (Some fw)
    then obtain f w where fw: "translate s pd virt = Some (f, w)" by (cases fw) auto
    have "ram s' f = ram s f" using translate_own [OF assms(1) fw] assms(2) by (simp add: owned_def)
    then show ?thesis using tr fw by (simp add: load_def)
  qed (simp add: load_def tr)
qed

lemma store_ram: "ram (store_word pd virt v s) f = ram s f \<or> (\<exists>w. translate s pd virt = Some (f, w))"
  by (auto simp: store_word_def ram_set_word split: option.splits)

section \<open>Destroying a space\<close>

lemma used_free [simp]: "used (vm_free p s) f \<longleftrightarrow> used s f \<and> f \<noteq> frame_of p"
  by (simp add: vm_free_def pmm_frames.release_use)

lemma free_pages:
  "let s' = fold (\<lambda>j s. if present (ram s pt j) then vm_free (entry_base (ram s pt j)) s else s) [0..<n] s in
     ram s' = ram s \<and> kernel_directory s' = kernel_directory s \<and> (\<forall>f. used s' f \<longleftrightarrow> used s f \<and> f \<notin> set (pages s pt n))"
  by (induction n) (auto simp: Let_def pages_Suc)

lemma destroy_table_own:
  "ram (destroy_table pd i s) = ram s \<and> kernel_directory (destroy_table pd i s) = kernel_directory s \<and>
   (\<forall>f. used (destroy_table pd i s) f \<longleftrightarrow>
      used s f \<and> f \<notin> set (if own_table s pd i then table_frames s (ram s pd i) else []))"
proof (cases "own_table s pd i")
  case True
  let ?pt = "frame_of (ram s pd i)"
  define s1 where "s1 = fold (\<lambda>j s. if present (ram s ?pt j) then vm_free (entry_base (ram s ?pt j)) s else s) [0..<1024] s"
  have 1: "ram s1 = ram s" "kernel_directory s1 = kernel_directory s" "\<forall>f. used s1 f \<longleftrightarrow> used s f \<and> f \<notin> set (pages s ?pt 1024)"
    using free_pages [of ?pt 1024 s] by (simp_all add: Let_def s1_def)
  have "destroy_table pd i s = vm_free (entry_base (ram s pd i)) s1"
    using True unfolding destroy_table_def own_table_def Let_def frame_of_base s1_def by simp
  then show ?thesis using True 1 by (auto simp: table_frames_def)
next
  case False
  then have "destroy_table pd i s = s" unfolding destroy_table_def own_table_def by simp
  then show ?thesis using False by simp
qed

lemma destroy_tables:
  "let s' = fold (destroy_table pd) [0..<n] s in
     ram s' = ram s \<and> kernel_directory s' = kernel_directory s \<and> (\<forall>f. used s' f \<longleftrightarrow> used s f \<and> f \<notin> set (tables s pd n))"
proof (induction n)
  case (Suc n)
  let ?s = "fold (destroy_table pd) [0..<n] s"
  have IH: "ram ?s = ram s" "kernel_directory ?s = kernel_directory s" "\<forall>f. used ?s f \<longleftrightarrow> used s f \<and> f \<notin> set (tables s pd n)"
    using Suc.IH by (simp_all add: Let_def)
  have "own_table ?s pd n = own_table s pd n" "table_frames ?s (ram ?s pd n) = table_frames s (ram s pd n)"
    using IH by (simp_all add: own_table_def table_frames_def pages_def)
  then show ?case using destroy_table_own [of pd n ?s] IH by (auto simp: Let_def tables_Suc)
qed simp

lemma pd_destroy_used:
  "ram (pd_destroy phys s) = ram s \<and> (\<forall>f. used (pd_destroy phys s) f \<longleftrightarrow> used s f \<and> f \<notin> set (owned s (frame_of phys)))"
  using destroy_tables [of "frame_of phys" 1024 s] by (auto simp: pd_destroy_def owned_def Let_def)

section \<open>Mapping a page\<close>

text \<open>What \<open>map_in\<close> does: a new table for an empty entry of the directory, and then the entry of the table.\<close>

lemma map_in_present:
  assumes "present (ram s pd (pd_index virt))"
  shows "map_in pd phys virt flags s =
    set_word (frame_of (ram s pd (pd_index virt))) (pt_index virt) (entry_base phys OR flags) s"
  using assms by (simp add: map_in_def)

lemma map_in_absent:
  assumes "\<not> present (ram s pd (pd_index virt))" "vm_alloc s = (p, s1)" "frame_of p \<noteq> pd"
  shows "map_in pd phys virt flags s =
    set_word (frame_of p) (pt_index virt) (entry_base phys OR flags) (set_word pd (pd_index virt) (p OR 7) (clear_frame (frame_of p) s1))"
  using assms by (simp add: map_in_def ram_set_word frame_of_or)

text \<open>An address of the user part of a space: its table is the space's own, or still missing.\<close>

definition user_page :: "vm \<Rightarrow> nat \<Rightarrow> u32 \<Rightarrow> bool" where
  "user_page s pd virt \<longleftrightarrow> own_table s pd (pd_index virt) \<or> \<not> present (ram s pd (pd_index virt))"

lemma tables_apart:
  assumes "distinct (tables s pd n)" "i < n" "i' < n" "i \<noteq> i'" "own_table s pd i" "own_table s pd i'"
  shows "frame_of (ram s pd i) \<noteq> frame_of (ram s pd i')"
proof -
  have "i < i' \<or> i' < i" using assms(4) by auto
  moreover have "frame_of (ram s pd i) \<noteq> frame_of (ram s pd i')"
    if "i < i'" "i' < n" "own_table s pd i" "own_table s pd i'" "distinct (tables s pd n)" for i i'
    using that
  proof (induction n)
    case (Suc n)
    show ?case
    proof (cases "i' < n")
      case True
      then show ?thesis using Suc by (simp add: tables_Suc)
    next
      case False
      then have n: "i' = n" using Suc.prems by simp
      have "frame_of (ram s pd i) \<in> set (tables s pd n)"
        by (rule in_tables [of i]) (use Suc.prems n in \<open>simp_all add: table_frames_def\<close>)
      moreover have "frame_of (ram s pd i') \<notin> set (tables s pd n)"
        using Suc.prems n by (auto simp: tables_Suc table_frames_def)
      ultimately show ?thesis by auto
    qed
  qed simp
  ultimately show ?thesis using assms by metis
qed

definition get_phys_in :: "vm \<Rightarrow> nat \<Rightarrow> u32 \<Rightarrow> u32" where
  "get_phys_in s pd virt =
     (if \<not> present (ram s pd (pd_index virt)) then 0
      else let e = ram s (frame_of (ram s pd (pd_index virt))) (pt_index virt)
           in if \<not> present e then 0 else entry_base e + (virt AND 0xFFF))"

lemma vm_get_phys_in: "vm_get_phys virt s = get_phys_in s (frame_of (cr3 s)) virt"
  by (simp add: vm_get_phys_def get_phys_in_def Let_def)

lemma map_in_translates:
  assumes ok: "space_ok s pd" "distinct (owned s pd)" and room: "0 < room s"
    and fl: "present flags" "drop_bit 12 flags = 0" and u: "user_page s pd virt" "user_page s pd virt'"
  shows "get_phys_in (map_in pd phys virt flags s) pd virt' =
    (if pd_index virt' = pd_index virt \<and> pt_index virt' = pt_index virt then entry_base phys + (virt' AND 0xFFF)
     else get_phys_in s pd virt')"
    and "used s f \<Longrightarrow> f \<notin> set (owned s pd) \<Longrightarrow> ram (map_in pd phys virt flags s) f = ram s f"
    and "\<forall>f. used s f \<longrightarrow> used (map_in pd phys virt flags s) f"
proof -
  let ?i = "pd_index virt" and ?j = "pt_index virt" and ?e = "entry_base phys OR flags"
  let ?s = "map_in pd phys virt flags s"
  have e: "present ?e" "entry_base ?e = entry_base phys"
    using fl by (simp_all add: entry_base_or) (simp add: entry_base_mask and.assoc)
  have vok: "vm_ok s" using ok(1) by (simp add: space_ok_def)
  have dt: "distinct (tables s pd 1024)" "pd \<notin> set (tables s pd 1024)" using ok(2) by (simp_all add: owned_def)
  have intab: "frame_of (ram s pd i) \<in> set (tables s pd 1024)" if "own_table s pd i" "i < 1024" for i
    by (rule in_tables [OF that(2,1)]) (simp add: table_frames_def)
  have main: "get_phys_in ?s pd virt' = (if pd_index virt' = ?i \<and> pt_index virt' = ?j then entry_base phys + (virt' AND 0xFFF)
       else get_phys_in s pd virt') \<and> (used s f \<longrightarrow> f \<notin> set (owned s pd) \<longrightarrow> ram ?s f = ram s f) \<and> (\<forall>f. used s f \<longrightarrow> used ?s f)"
  proof (cases "present (ram s pd ?i)")
    case True
    let ?t = "frame_of (ram s pd ?i)"
    have own: "own_table s pd ?i" using True u(1) by (simp add: user_page_def)
    have t: "?t \<in> set (tables s pd 1024)" by (rule intab [OF own index_bounds(1)])
    then have tp: "?t \<noteq> pd" using dt(2) by auto
    have eq: "?s = set_word ?t ?j ?e s" by (rule map_in_present [OF True])
    have other: "frame_of (ram s pd (pd_index virt')) \<noteq> ?t" if "pd_index virt' \<noteq> ?i" "present (ram s pd (pd_index virt'))"
      using tables_apart [OF dt(1) index_bounds(1) index_bounds(1) that(1) _ own] that(2) u(2) by (simp add: user_page_def)
    show ?thesis unfolding eq using tp other e t True
      by (auto simp: get_phys_in_def ram_set_word owned_def Let_def)
  next
    case False
    obtain p s1 where a: "vm_alloc s = (p, s1)" by fastforce
    note A = vm_alloc_fresh [OF vok room a]
    have np: "frame_of p \<noteq> pd" using A(2) ok(1) by (auto simp: space_ok_def)
    have eq: "?s = set_word (frame_of p) ?j ?e (set_word pd ?i (p OR 7) (clear_frame (frame_of p) s1))"
      by (rule map_in_absent [OF False a np])
    have other: "frame_of (ram s pd (pd_index virt')) \<noteq> pd \<and> frame_of (ram s pd (pd_index virt')) \<noteq> frame_of p"
      if "present (ram s pd (pd_index virt'))"
    proof -
      have "frame_of (ram s pd (pd_index virt')) \<in> set (tables s pd 1024)"
        using that u(2) intab index_bounds(1) by (simp add: user_page_def)
      then show ?thesis using dt(2) A(2) ok(1) by (auto simp: space_ok_def)
    qed
    have fp: "frame_of (p OR 7) = frame_of p" by (simp add: frame_of_or)
    show ?thesis unfolding eq using np other e A(2,3,4) False index_bounds(2) [of virt'] fp
      by (auto simp: get_phys_in_def ram_set_word clear_frame_def owned_def Let_def)
  qed
  then show "get_phys_in ?s pd virt' = (if pd_index virt' = ?i \<and> pt_index virt' = ?j then entry_base phys + (virt' AND 0xFFF)
       else get_phys_in s pd virt')" "used s f \<Longrightarrow> f \<notin> set (owned s pd) \<Longrightarrow> ram ?s f = ram s f"
    "\<forall>f. used s f \<longrightarrow> used ?s f" by blast+
qed

section \<open>Properties\<close>

text \<open>
  C5: The copy of an address space that \<^verbatim>\<open>pd_clone\<close> makes, with room for it and all frames in the
  window of the kernel, consists of frames that
  were free, reads at every address below the kernel, in a table the space has to itself, as the original
  does, leaves every frame that was in use as it was, and takes no other frames.
\<close>

theorem pd_clone_copies:
  assumes "space_ok s (frame_of phys)" and "Suc (length (tables s (frame_of phys) 768)) \<le> room s"
    and "pd_clone phys s = (p, s')"
  shows "distinct (owned s' (frame_of p)) \<and> (\<forall>f. used s' f \<longleftrightarrow> used s f \<or> f \<in> set (owned s' (frame_of p))) \<and>
    (\<forall>f\<in>set (owned s' (frame_of p)). \<not> used s f) \<and> (\<forall>f. used s f \<longrightarrow> ram s' f = ram s f) \<and>
    (\<forall>virt. pd_index virt < 768 \<and> own_table s (frame_of phys) (pd_index virt) \<longrightarrow>
       load s' (frame_of p) virt = load s (frame_of phys) virt)"
proof -
  note G = clone_grows [OF assms]
  note D = growsD [OF G(1)]
  have "load s' (frame_of p) virt = load s (frame_of phys) virt"
    if "pd_index virt < 768" "own_table s (frame_of phys) (pd_index virt)" for virt
    using same_table_load [OF that(2)] G(2) [OF that] by blast
  then show ?thesis using D(2-4) grows_ram [OF G(1)] by blast
qed

text \<open>
  C6: After \<^verbatim>\<open>pd_clone\<close>, with room for the copy and all frames in the window, a store of either process into its own pages is not seen by a load of the
  other one from its own pages.
\<close>

theorem pd_clone_isolates:
  assumes "space_ok s (frame_of phys)" and "Suc (length (tables s (frame_of phys) 768)) \<le> room s"
    and "pd_clone phys s = (p, s')"
    and "own_table s (frame_of phys) (pd_index a)" and "own_table s' (frame_of p) (pd_index b)"
  shows "load (store_word (frame_of p) b v s') (frame_of phys) a = load s (frame_of phys) a \<and>
    load (store_word (frame_of phys) a v s') (frame_of p) b = load s' (frame_of p) b"
proof -
  let ?pd = "frame_of phys" and ?c = "frame_of p"
  note G = clone_grows(1) [OF assms(1-3)]
  have own: "\<forall>f\<in>set (owned s ?pd). used s f" using assms(1) by (auto simp: space_ok_def owned_def)
  have new: "\<not> used s f" if "f \<in> set (owned s' ?c)" for f using growsD(3) [OF G that] .
  have same: "ram s' f = ram s f" if "used s f" for f using grows_ram [OF G that] by simp
  have use: "used s ?pd" "used s (kernel_directory s)" using assms(1) by (simp_all add: space_ok_def)
  have "ram (store_word ?c b v s') f = ram s f" if "f \<in> set (owned s ?pd)" for f
  proof -
    have "\<not> (\<exists>w. translate s' ?c b = Some (f, w))"
      using translate_own [OF assms(5)] new own that by (auto simp: owned_def)
    then show ?thesis using store_ram [of ?c b v s' f] same own that by auto
  qed
  then have 1: "load (store_word ?c b v s') ?pd a = load s ?pd a" by (intro load_cong [OF assms(4)]) simp
  have tr: "translate s' ?pd a = translate s ?pd a"
  proof -
    have "used s (frame_of (ram s ?pd (pd_index a)))"
      using own in_tables [OF index_bounds(1) assms(4)] by (simp add: owned_def table_frames_def)
    then show ?thesis using same use by (simp add: translate_def)
  qed
  have "ram (store_word ?pd a v s') f = ram s' f" if "f \<in> set (owned s' ?c)" for f
  proof -
    have "\<not> (\<exists>w. translate s' ?pd a = Some (f, w))"
      using translate_own [OF assms(4)] tr new [OF that] own by (auto simp: owned_def)
    then show ?thesis using store_ram [of ?pd a v s' f] by auto
  qed
  then have 2: "load (store_word ?pd a v s') ?c b = load s' ?c b" by (intro load_cong [OF assms(5)]) simp
  from 1 2 show ?thesis by simp
qed

text \<open>
  C7: To clone an address space, with room for the copy and all frames in the window, and to destroy the copy leaves the frames in use as they were,
  and the memory in them: \<^verbatim>\<open>pd_destroy\<close> gives back what \<^verbatim>\<open>pd_clone\<close> took, and nothing else.
\<close>

theorem pd_destroy_undoes_clone:
  assumes "space_ok s (frame_of phys)" and "Suc (length (tables s (frame_of phys) 768)) \<le> room s"
    and "pd_clone phys s = (p, s')"
  shows "(\<forall>f. used (pd_destroy p s') f \<longleftrightarrow> used s f) \<and> (\<forall>f. used s f \<longrightarrow> ram (pd_destroy p s') f = ram s f)"
proof -
  note G = clone_grows(1) [OF assms]
  have "used (pd_destroy p s') f \<longleftrightarrow> used s f" for f
    using pd_destroy_used [of p s'] growsD(3,4) [OF G, of f] by blast
  moreover have "ram (pd_destroy p s') f = ram s f" if "used s f" for f
    using pd_destroy_used [of p s'] grows_ram [OF G that] by simp
  ultimately show ?thesis by blast
qed

text \<open>
  \<^verbatim>\<open>vm_map_page\<close> for an address of the user part of the current space makes \<^verbatim>\<open>vm_get_phys\<close>
  answer the given frame for the addresses of that page and what it answered before for those of every other
  user page, keeps all frames in use, and writes no frame of anybody else.
\<close>

theorem vm_map_page_translates:
  assumes "space_ok s (frame_of (cr3 s))" and "distinct (owned s (frame_of (cr3 s)))" and "0 < room s"
    and "present flags" and "drop_bit 12 flags = 0" and "user_page s (frame_of (cr3 s)) virt"
  shows "(\<forall>virt'. user_page s (frame_of (cr3 s)) virt' \<longrightarrow> vm_get_phys virt' (vm_map_page phys virt flags s) =
      (if pd_index virt' = pd_index virt \<and> pt_index virt' = pt_index virt then entry_base phys + (virt' AND 0xFFF)
       else vm_get_phys virt' s)) \<and>
    (\<forall>f. used s f \<longrightarrow> used (vm_map_page phys virt flags s) f) \<and>
    (\<forall>f. used s f \<and> f \<notin> set (owned s (frame_of (cr3 s))) \<longrightarrow> ram (vm_map_page phys virt flags s) f = ram s f)"
proof -
  have "cr3 (vm_map_page phys virt flags s) = cr3 s"
    by (auto simp: vm_map_page_def map_in_def vm_alloc_def Let_def split: prod.splits)
  then show ?thesis
    using map_in_translates(1) [OF assms] map_in_translates(2,3) [OF assms assms(6)]
    by (simp add: vm_get_phys_in vm_map_page_def)
qed

text \<open>A machine with 32 frames, the first four of them taken: the kernel's directory, a space, its table and page.\<close>

definition tiny_vm :: vm where
  "tiny_vm = \<lparr>vm_pmm = \<lparr>pmm_bitmap = (\<lambda>i. if i = 0 then 0x1F else 0), pmm_mem_size = 0x20000, pmm_max_blocks = 32,
       pmm_used_blocks = 5, pmm_alloc_count = 0\<rparr>,
     ram = (\<lambda>f i. if f = 2 \<and> i = 256 then 0x3007 else if f = 3 \<and> i = 1 then 0x4007 else if f = 4 \<and> i = 0 then 42 else 0),
     kernel_directory = 1, current_directory = Some 1, cr3 = 0x2000\<rparr>"

lemma tiny_pages: "pages tiny_vm 3 1024 = [4]"
  by code_simp

lemma tiny_own: "own_table tiny_vm 2 i \<longleftrightarrow> i = 256"
  by (simp add: own_table_def tiny_vm_def present_def)

lemma tiny_tables: "256 < n \<Longrightarrow> tables tiny_vm 2 n = [3, 4]"
proof (induction n)
  case (Suc n)
  have "tables tiny_vm 2 256 = tables tiny_vm 2 0" by (rule tables_end) (simp_all add: tiny_own)
  then have "tables tiny_vm 2 256 = []" by simp
  moreover have "table_frames tiny_vm (ram tiny_vm 2 256) = [3, 4]"
    using tiny_pages by (simp add: table_frames_def tiny_vm_def frame_of_def)
  ultimately show ?case unfolding tables_Suc using Suc tiny_own by (cases "n = 256") auto
qed simp

lemma tiny_ok: "space_ok tiny_vm 2" "room tiny_vm = 27" "distinct (owned tiny_vm 2)" "frame_of 0x2000 = 2" "frame_of (cr3 tiny_vm) = 2"
proof -
  have "pmm_inv (vm_pmm tiny_vm)" "frames_in_use (vm_pmm tiny_vm) = 5"
    by (simp_all add: pmm_inv_def frames_in_use_def tiny_vm_def mmap_test_bit upt_rec)
  moreover have "\<not> present (ram tiny_vm 1 i)" for i by (simp add: tiny_vm_def)
  ultimately show "space_ok tiny_vm 2" "room tiny_vm = 27"
    by (simp_all add: space_ok_def vm_ok_def window_frames_def room_def tiny_tables) (simp_all add: tiny_vm_def mmap_test_bit)
  show "distinct (owned tiny_vm 2)" by (simp add: owned_def tiny_tables)
  show "frame_of 0x2000 = 2" "frame_of (cr3 tiny_vm) = 2" by (simp_all add: frame_of_def tiny_vm_def)
qed

theorem vm_map_page_translates_witness:
  "vm_get_phys 0x40002000 (vm_map_page 0x5000 0x40002000 7 tiny_vm) = 0x5000 \<and>
   vm_get_phys 0x40001000 (vm_map_page 0x5000 0x40002000 7 tiny_vm) = 0x4000"
proof -
  have i: "pd_index 0x40002000 = 256" "pt_index 0x40002000 = 2" "pd_index 0x40001000 = 256" "pt_index 0x40001000 = 1"
    by code_simp+
  have u: "user_page tiny_vm 2 0x40002000" "user_page tiny_vm 2 0x40001000"
    using i by (simp_all add: user_page_def tiny_own)
  have g: "vm_get_phys 0x40001000 tiny_vm = 0x4000" by code_simp
  show ?thesis
    using vm_map_page_translates [of tiny_vm "7" "0x40002000" "0x5000"] tiny_ok u i g by (simp add: entry_base_def)
qed

theorem pd_clone_copies_witness:
  "load (snd (pd_clone 0x2000 tiny_vm)) (frame_of (fst (pd_clone 0x2000 tiny_vm))) 0x40001000 = Some 42"
proof -
  have i: "pd_index 0x40001000 = 256" by code_simp
  have "load tiny_vm 2 0x40001000 = Some 42" by code_simp
  then show ?thesis
    using pd_clone_copies [of tiny_vm "0x2000" "fst (pd_clone 0x2000 tiny_vm)" "snd (pd_clone 0x2000 tiny_vm)"] tiny_ok i
    by (simp add: tiny_tables tiny_own)
qed

theorem pd_clone_isolates_witness:
  "load (store_word (frame_of (fst (pd_clone 0x2000 tiny_vm))) 0x40001000 7 (snd (pd_clone 0x2000 tiny_vm))) 2 0x40001000 = Some 42"
proof -
  have i: "pd_index 0x40001000 = 256" by code_simp
  have r: "Suc (length (tables tiny_vm (frame_of 0x2000) 768)) \<le> room tiny_vm" using tiny_ok by (simp add: tiny_tables)
  have l: "load tiny_vm 2 0x40001000 = Some 42" by code_simp
  have "space_ok tiny_vm (frame_of 0x2000)" using tiny_ok by simp
  note a = this r prod.collapse [symmetric]
  have "own_table (snd (pd_clone 0x2000 tiny_vm)) (frame_of (fst (pd_clone 0x2000 tiny_vm))) 256"
    using clone_grows(2) [OF a, of 256] tiny_ok by (simp add: tiny_own)
  then show ?thesis
    using pd_clone_isolates [OF a, of "0x40001000" "0x40001000" 7] tiny_ok i l by (simp add: tiny_own)
qed

theorem pd_destroy_undoes_clone_witness:
  "used (pd_destroy (fst (pd_clone 0x2000 tiny_vm)) (snd (pd_clone 0x2000 tiny_vm))) 4 \<and>
   \<not> used (pd_destroy (fst (pd_clone 0x2000 tiny_vm)) (snd (pd_clone 0x2000 tiny_vm))) 5"
proof -
  have "used tiny_vm 4" "\<not> used tiny_vm 5" by code_simp+
  then show ?thesis
    using pd_destroy_undoes_clone [of tiny_vm "0x2000" "fst (pd_clone 0x2000 tiny_vm)" "snd (pd_clone 0x2000 tiny_vm)"] tiny_ok
    by (simp add: tiny_tables)
qed

end
