(* ===== verification/Paging.thy ===== *)
theory Paging
  imports Vm
begin

text \<open>
  \<^verbatim>\<open>kernel/paging.cpp\<close> (start-up and demand paging), \<^verbatim>\<open>kernel/shm.cpp\<close> (System V shared memory),
  \<^verbatim>\<open>kernel/mprotect.cpp\<close> and \<^verbatim>\<open>sys_munmap\<close>. The bounds of the kernel's text and
  read-only data come from the linker and are parameters. The mappings of the interrupt
  controllers and the timer are the calls of \<^verbatim>\<open>apic_map_hardware\<close> and \<^verbatim>\<open>hpet_map_hardware\<close>.
\<close>

abbreviation (input) EINVAL :: int where "EINVAL \<equiv> 22"
abbreviation (input) ENOMEM :: int where "ENOMEM \<equiv> 12"

section \<open>The kernel's directory\<close>

definition page_flags :: "u32 \<times> u32 \<times> u32 \<times> u32 \<Rightarrow> u32 \<Rightarrow> u32" where
  "page_flags bounds virt_addr =
     (case bounds of (text_start, text_end, rodata_start, rodata_end) \<Rightarrow>
        if virt_addr \<ge> text_start \<and> virt_addr < text_end then 1
        else if virt_addr \<ge> rodata_start \<and> virt_addr < rodata_end then 1 else 3)"

definition fill_table :: "u32 \<times> u32 \<times> u32 \<times> u32 \<Rightarrow> nat \<Rightarrow> nat \<Rightarrow> vm \<Rightarrow> vm" where
  "fill_table bounds pt j s =
     fold (\<lambda>i s. let phys_addr = of_nat (j * 0x400000 + i * 4096)
                 in set_word pt i (phys_addr OR page_flags bounds (phys_addr + 0xC0000000)) s) [0..<1024] s"

definition init_table :: "u32 \<times> u32 \<times> u32 \<times> u32 \<Rightarrow> nat \<Rightarrow> vm \<Rightarrow> vm" where
  "init_table bounds j s =
     (let (phys_pt, s1) = vm_alloc s; pt = frame_of phys_pt;
          s2 = fill_table bounds pt j (clear_frame pt s1)
      in set_word (kernel_directory s2) j (phys_pt OR 3) (set_word (kernel_directory s2) (768 + j) (phys_pt OR 3) s2))"

definition apic_map_hardware :: "vm \<Rightarrow> vm" where
  "apic_map_hardware s = paging_map 0xFEC00000 0xFEC00000 3 (paging_map 0xFEE00000 0xFEE00000 3 s)"

definition hpet_map_hardware :: "vm \<Rightarrow> vm" where
  "hpet_map_hardware s = paging_map 0xFED00000 0xFED00000 3 s"

definition init_paging :: "u32 \<times> u32 \<times> u32 \<times> u32 \<Rightarrow> vm \<Rightarrow> vm" where
  "init_paging bounds s =
     (let (phys_pd, s1) = vm_alloc s; pd = frame_of phys_pd;
          s2 = clear_frame pd (s1\<lparr>kernel_directory := pd\<rparr>);
          s3 = hpet_map_hardware (apic_map_hardware (fold (init_table bounds) [0..<128] s2))
      in switch_page_directory pd s3)"

section \<open>Shared memory segments\<close>

record shm_segment =
  seg_key :: u32
  seg_size :: u32
  seg_phys :: u32
  virt_start :: u32
  seg_ref_count :: int
  seg_in_use :: bool

definition SHM_MAX_SEGMENTS :: nat where "SHM_MAX_SEGMENTS = 32"

definition shm_init :: "shm_segment list \<Rightarrow> shm_segment list" where
  "shm_init = map (\<lambda>g. g\<lparr>seg_in_use := False, seg_ref_count := 0\<rparr>)"

definition seg_pages :: "u32 \<Rightarrow> u32" where
  "seg_pages sz = (sz + 4095) div 4096"

definition sys_shmget :: "u32 \<Rightarrow> u32 \<Rightarrow> shm_segment list \<Rightarrow> vm \<Rightarrow> int \<times> shm_segment list \<times> vm" where
  "sys_shmget key sz segs s =
     (case List.find (\<lambda>i. seg_in_use (segs ! i) \<and> seg_key (segs ! i) = key) [0..<SHM_MAX_SEGMENTS] of
        Some i \<Rightarrow> (int i, segs, s)
      | None \<Rightarrow>
          (case List.find (\<lambda>i. \<not> seg_in_use (segs ! i)) [0..<SHM_MAX_SEGMENTS] of
             None \<Rightarrow> (- 1, segs, s)
           | Some slot \<Rightarrow>
               let min_size = 4 * 1024 * 1024;
                   final_size = (if sz > min_size then sz else min_size);
                   (phys, m) = pmm_alloc_contiguous_blocks (seg_pages final_size) (vm_pmm s)
               in if phys = 0 then (- 1, segs, s\<lparr>vm_pmm := m\<rparr>)
                  else (int slot, segs[slot := (segs ! slot)\<lparr>seg_key := key, seg_size := final_size, seg_phys := phys,
                          seg_ref_count := 0, seg_in_use := True\<rparr>], s\<lparr>vm_pmm := m\<rparr>)))"

definition shm_bad :: "int \<Rightarrow> shm_segment list \<Rightarrow> bool" where
  "shm_bad shmid segs \<longleftrightarrow> shmid < 0 \<or> shmid \<ge> int SHM_MAX_SEGMENTS \<or> \<not> seg_in_use (segs ! nat shmid)"

definition shm_free :: "int \<Rightarrow> shm_segment list \<Rightarrow> vm \<Rightarrow> shm_segment list \<times> vm" where
  "shm_free shmid segs s =
     (if shm_bad shmid segs then (segs, s)
      else let g = segs ! nat shmid
           in (segs[nat shmid := g\<lparr>seg_in_use := False, seg_key := 0, seg_ref_count := 0\<rparr>],
               s\<lparr>vm_pmm := pmm_free_contiguous_blocks (seg_phys g) (seg_pages (seg_size g)) (vm_pmm s)\<rparr>))"

definition sys_shmat :: "int \<Rightarrow> shm_segment list \<Rightarrow> vm \<Rightarrow> u32 \<times> shm_segment list \<times> vm" where
  "sys_shmat shmid segs s =
     (if shm_bad shmid segs then (0, segs, s)
      else let g = segs ! nat shmid; virt = 0x70000000 + of_int shmid * 0x800000;
               s1 = fold (\<lambda>i. vm_map_page (seg_phys g + of_nat i * 4096) (virt + of_nat i * 4096) 7)
                      [0..<unat (seg_pages (seg_size g))] s
           in (virt, segs[nat shmid := g\<lparr>virt_start := virt, seg_ref_count := seg_ref_count g + 1\<rparr>], s1))"

definition sys_shmdt :: "u32 \<Rightarrow> int" where
  "sys_shmdt addr = 0"

definition shm_get_segment :: "u32 \<Rightarrow> shm_segment list \<Rightarrow> shm_segment option" where
  "shm_get_segment virt_addr segs =
     (if virt_addr < 0x70000000 \<or> virt_addr \<ge> 0x80000000 then None
      else let shmid = unat ((virt_addr - 0x70000000) div 0x800000)
           in if shmid < SHM_MAX_SEGMENTS \<and> seg_in_use (segs ! shmid) \<and>
                 virt_addr < 0x70000000 + of_nat shmid * 0x800000 + seg_size (segs ! shmid)
              then Some (segs ! shmid) else None)"

section \<open>Page faults\<close>

definition alloc_page :: "u32 \<Rightarrow> u32 \<Rightarrow> vm \<Rightarrow> vm" where
  "alloc_page addr flags s = (let (phys, s1) = vm_alloc s in vm_map_page phys (entry_base addr) flags s1)"

definition handle_demand_paging :: "bool \<Rightarrow> shm_segment list \<Rightarrow> u32 \<Rightarrow> vm \<Rightarrow> bool \<times> vm" where
  "handle_demand_paging has_process segs addr s =
     (if (case paging_get_pte addr s of None \<Rightarrow> False | Some (t, i) \<Rightarrow> present (ram s t i)) then (False, s)
      else if addr \<ge> 0xE0000000
      then (let (phys, s1) = vm_alloc s
            in if phys = 0 then (False, s1) else (True, vm_map_page phys (entry_base addr) 3 s1))
      else if \<not> has_process then (False, s)
      else case (if addr \<ge> 0x70000000 \<and> addr < 0x80000000 then shm_get_segment addr segs else None) of
        Some g \<Rightarrow> (True, vm_map_page (seg_phys g + (entry_base addr - virt_start g)) (entry_base addr) 7 s)
      | None \<Rightarrow>
          if addr \<ge> 0x00400000 \<and> addr < 0x70000000 then (True, alloc_page addr 7 s)
          else if addr \<ge> 0xAF000000 \<and> addr \<le> 0xB0000000 then (True, alloc_page addr 7 s)
          else (False, s))"



section \<open>Protection and other calls\<close>

definition protect_page :: "u32 \<Rightarrow> u32 \<Rightarrow> vm \<Rightarrow> vm" where
  "protect_page flags vaddr s = (case paging_get_pte vaddr s of
       None \<Rightarrow> s
     | Some (t, i) \<Rightarrow> if present (ram s t i) then set_word t i (entry_base (ram s t i) OR flags) s else s)"

definition sys_mprotect :: "u32 \<Rightarrow> u32 \<Rightarrow> u32 \<Rightarrow> vm \<Rightarrow> int \<times> vm" where
  "sys_mprotect addr len prot s =
     (if addr = 0 then (- EINVAL, s)
      else if addr AND 0xFFF \<noteq> 0 then (- EINVAL, s)
      else if len = 0 then (0, s)
      else let flags = (if prot AND 2 \<noteq> 0 then 1 OR 2 else 1)
           in (0, fold (\<lambda>i. protect_page flags (addr + of_nat i * 0x1000)) [0..<unat ((len + 0xFFF) div 0x1000)] s))"

definition aligned_call :: "u32 \<Rightarrow> int" where
  "aligned_call addr = (if addr = 0 then - EINVAL else if addr AND 0xFFF \<noteq> 0 then - EINVAL else 0)"

definition sys_msync :: "u32 \<Rightarrow> u32 \<Rightarrow> u32 \<Rightarrow> int" where "sys_msync addr len flags = aligned_call addr"
definition sys_mlock :: "u32 \<Rightarrow> u32 \<Rightarrow> int" where "sys_mlock addr len = aligned_call addr"
definition sys_munlock :: "u32 \<Rightarrow> u32 \<Rightarrow> int" where "sys_munlock addr len = aligned_call addr"
definition sys_mlockall :: "u32 \<Rightarrow> int" where "sys_mlockall flags = 0"
definition sys_munlockall :: int where "sys_munlockall = 0"
definition sys_madvise :: "u32 \<Rightarrow> u32 \<Rightarrow> u32 \<Rightarrow> int" where
  "sys_madvise addr len advice = (if addr = 0 then - EINVAL else 0)"
definition sys_posix_madvise :: "u32 \<Rightarrow> u32 \<Rightarrow> u32 \<Rightarrow> int" where
  "sys_posix_madvise addr len advice = sys_madvise addr len advice"

text \<open>\<open>kmalloc total\<close> is the address that \<^verbatim>\<open>kmalloc\<close> answers; the third result is the word stored before the block.\<close>

definition sys_posix_memalign :: "(u32 \<Rightarrow> u32) \<Rightarrow> u32 option \<Rightarrow> u32 \<Rightarrow> u32 \<Rightarrow> int \<times> u32 option \<times> (u32 \<times> u32) option" where
  "sys_posix_memalign kmalloc memptr alignment sz =
     (if memptr = None then (EINVAL, None, None)
      else if alignment < 4 then (EINVAL, memptr, None)
      else if alignment AND (alignment - 1) \<noteq> 0 then (EINVAL, memptr, None)
      else if sz = 0 then (0, Some 0, None)
      else let total = sz + alignment - 1 + 4; raw = kmalloc total
           in if raw = 0 then (ENOMEM, memptr, None)
              else let aligned = (raw + 4 + alignment - 1) AND NOT (alignment - 1)
                   in (0, Some aligned, Some (aligned - 4, raw)))"

definition aligned_alloc :: "(u32 \<Rightarrow> u32) \<Rightarrow> u32 \<Rightarrow> u32 \<Rightarrow> u32" where
  "aligned_alloc kmalloc alignment sz =
     (case sys_posix_memalign kmalloc (Some 0) alignment sz of (r, p, _) \<Rightarrow> if r \<noteq> 0 then 0 else the p)"

definition sys_munmap :: "u32 \<Rightarrow> u32 \<Rightarrow> vm \<Rightarrow> vm" where
  "sys_munmap addr len s = fold (\<lambda>i. vm_unmap_page (addr + of_nat i * 4096)) [0..<unat ((len + 0xFFF) div 4096)] s"

section \<open>Aligned blocks\<close>

lemma and_not_bounds:
  fixes x m :: u32
  shows "unat (x AND NOT m) \<le> unat x" "unat x \<le> unat (x AND NOT m) + unat m"
proof -
  show "unat (x AND NOT m) \<le> unat x" by (metis word_and_le2 word_le_nat_alt)
  have "(x AND NOT m) + (x AND m) = (x AND NOT m) OR (x AND m)"
    by (rule disjunctive_add) (simp add: bit_simps)
  also have "\<dots> = x" by (rule bit_word_eqI) (auto simp: bit_simps)
  finally have "x = (x AND NOT m) + (x AND m)" by simp
  then have "unat x \<le> unat (x AND NOT m) + unat (x AND m)" by (metis mod_less_eq_dividend unat_word_ariths(1))
  moreover have "unat (x AND m) \<le> unat m" by (metis word_and_le1 word_le_nat_alt)
  ultimately show "unat x \<le> unat (x AND NOT m) + unat m" by linarith
qed

text \<open>
  The aligned block and the address stored before it lie in the block of \<^verbatim>\<open>kmalloc\<close>, when neither the
  size nor the end of the block wraps.
\<close>

lemma memalign_fits:
  assumes "sys_posix_memalign kmalloc (Some v) alignment sz = (0, Some a, Some (b, raw))"
    and "unat raw + unat sz + unat alignment + 3 < 2 ^ 32"
  shows "raw = kmalloc (sz + alignment - 1 + 4)" "b = a - 4" "unat raw + 4 \<le> unat a"
    "unat a + unat sz \<le> unat raw + (unat sz + unat alignment + 3)"
proof -
  let ?x = "raw + 4 + alignment - 1" and ?m = "alignment - 1"
  have r: "raw = kmalloc (sz + alignment - 1 + 4)" and a: "a = ?x AND NOT ?m" and b: "b = a - 4" and al: "\<not> alignment < 4"
    using assms(1) by (auto simp: sys_posix_memalign_def Let_def split: if_splits)
  have al': "4 \<le> unat alignment" using al by (simp add: word_less_nat_alt)
  have m: "unat ?m = unat alignment - 1" using al' by (simp add: unat_sub word_le_nat_alt)
  have "unat (raw + 4 + ?m) = unat raw + 4 + unat ?m"
    using assms(2) al' m by (simp add: unat_word_ariths)
  then have x: "unat ?x = unat raw + unat alignment + 3" using m al' by (simp add: algebra_simps)
  show "raw = kmalloc (sz + alignment - 1 + 4)" "b = a - 4" by (fact r b)+
  show "unat raw + 4 \<le> unat a" "unat a + unat sz \<le> unat raw + (unat sz + unat alignment + 3)"
    using and_not_bounds [where x = ?x and m = ?m] a x m al' by simp_all
qed

section \<open>One mapped page\<close>


lemma own_table_apart:
  assumes "distinct (owned s pd)" "own_table s pd (pd_index virt)"
  shows "frame_of (ram s pd (pd_index virt)) \<noteq> pd"
proof -
  have "frame_of (ram s pd (pd_index virt)) \<in> set (tables s pd 1024)"
    by (rule in_tables [OF index_bounds(1) assms(2)]) (simp add: table_frames_def)
  then show ?thesis using assms(1) by (auto simp: owned_def)
qed

lemma pd_index_base [simp]: "pd_index (entry_base addr) = pd_index addr"
  unfolding pd_index_def entry_base_mask
  by (rule arg_cong [of _ _ unat], rule bit_word_eqI) (auto simp: bit_simps dest: bit_imp_le_length)

lemma pt_index_base [simp]: "pt_index (entry_base addr) = pt_index addr"
proof -
  have "drop_bit 12 (entry_base addr) = drop_bit 12 addr"
    unfolding entry_base_mask by (rule bit_word_eqI) (auto simp: bit_simps dest: bit_imp_le_length)
  then show ?thesis by (simp add: pt_index_def)
qed




section \<open>Properties\<close>




text \<open>
  Demand paging looks a user address up in the kernel's directory, so a fault on a page that is
  present in the space of the process (a store to a page without the right to write, say) is
  not recognised as one: the page is replaced by a free frame, whose old contents the
  process then reads, and the old frame stays in use.
\<close>

theorem demand_paging_replaces_page:
  assumes "space_ok s (frame_of (cr3 s))" and "distinct (owned s (frame_of (cr3 s)))" and "0 < room s"
    and "current_directory s = Some (kernel_directory s)" and "\<not> present (ram s (kernel_directory s) (pd_index addr))"
    and "0x00400000 \<le> addr" and "addr < 0x70000000" and "translate s (frame_of (cr3 s)) addr = Some (g, w)"
  shows "\<exists>s' f. handle_demand_paging True segs addr s = (True, s') \<and> \<not> used s f \<and> f \<noteq> g \<and>
    load s' (frame_of (cr3 s)) addr = Some (ram s f w) \<and> used s' g"
proof -
  let ?pd = "frame_of (cr3 s)"
  have pr: "present (ram s ?pd (pd_index addr))" using assms(8) by (auto simp: translate_def split: if_splits)
  then have own: "own_table s ?pd (pd_index addr)" using assms(5) by (auto simp: own_table_def)
  note apart = own_table_apart [OF assms(2) own]
  obtain p s1 where a: "vm_alloc s = (p, s1)" by fastforce
  have vok: "vm_ok s" using assms(1) by (simp add: space_ok_def)
  note A = vm_alloc_fresh [OF vok assms(3) a]
  let ?t = "frame_of (ram s ?pd (pd_index addr))"
  let ?s = "set_word ?t (pt_index addr) (entry_base p OR 7) s1"
  have h: "handle_demand_paging True segs addr s = (True, ?s)"
  proof -
    have "\<not> 0xE0000000 \<le> addr" "\<not> 0x70000000 \<le> addr" using assms(7) by (simp_all add: word_le_nat_alt word_less_nat_alt)
    then show ?thesis using assms(4-7) a A(4,6) pr
      by (simp add: handle_demand_paging_def paging_get_pte_def alloc_page_def vm_map_page_def map_in_present)
  qed
  have g: "used s g" using translate_own [OF own assms(8)] assms(1) by (auto simp: space_ok_def)
  have t: "used s ?t"
    using in_tables [OF index_bounds(1) own, of ?t] assms(1) by (simp add: space_ok_def table_frames_def)
  have w: "w = unat (addr AND 0xFFF) div 4" using assms(8) by (auto simp: translate_def Let_def split: if_splits)
  have "frame_of p \<noteq> ?t" using t A(2) by auto
  then have "load ?s ?pd addr = Some (ram s (frame_of p) w)"
    using pr apart A(4) w by (simp add: load_def translate_def ram_set_word frame_of_or)
  then show ?thesis using h A(2,3) g by (intro exI [of _ ?s] exI [of _ "frame_of p"]) auto
qed

text \<open>
  \<^verbatim>\<open>mprotect\<close> of user pages reports success and changes nothing: it looks them up in the kernel's
  directory, which does not map them.
\<close>

theorem mprotect_has_no_effect:
  assumes "current_directory s = Some (kernel_directory s)" and "addr \<noteq> 0" and "addr AND 0xFFF = 0"
    and "\<forall>i<unat ((len + 0xFFF) div 0x1000). \<not> present (ram s (kernel_directory s) (pd_index (addr + of_nat i * 0x1000)))"
  shows "sys_mprotect addr len prot s = (0, s)"
proof -
  have "fold (\<lambda>i. protect_page flags (addr + of_nat i * 0x1000)) [0..<n] s = s"
    if "\<forall>i<n. \<not> present (ram s (kernel_directory s) (pd_index (addr + of_nat i * 0x1000)))" for n flags
    using that by (induction n) (simp_all add: protect_page_def paging_get_pte_def assms(1))
  then show ?thesis using assms by (simp add: sys_mprotect_def)
qed


end
