(* ===== verification/Buddy.thy ===== *)
theory Buddy
  imports Prelude
begin

text \<open>
  The buddy allocator of the kernel heap, \<open>src/src/kernel/buddy.cpp\<close>: one list of free
  blocks per power of two from 4 KB (order 12) to 256 MB (order 28). The \<open>next\<close> pointers the
  code keeps inside the free blocks are represented by the lists themselves; block contents
  (the \<open>memset\<close> of an allocated block) are not part of the state.
  The order computations loop on a 32-bit \<open>size_t\<close> and need not end: they are partial
  functions, and \<open>None\<close> is a call that does not return.
\<close>

section \<open>State and operations\<close>

record buddy =
  buddy_start :: u32
  buddy_end :: u32
  buddy_lists :: "nat \<Rightarrow> u32 list"

abbreviation BUDDY_MIN_ORDER :: nat where "BUDDY_MIN_ORDER \<equiv> 12"
abbreviation BUDDY_MAX_ORDER :: nat where "BUDDY_MAX_ORDER \<equiv> 28"
abbreviation BUDDY_NUM_ORDERS :: nat where "BUDDY_NUM_ORDERS \<equiv> 17"

partial_function (option) get_order_loop :: "u32 \<Rightarrow> u32 \<Rightarrow> nat \<Rightarrow> nat option" where
  "get_order_loop sz s order =
     (if s < sz then get_order_loop sz (s * 2) (Suc order) else Some order)"

definition get_order :: "u32 \<Rightarrow> nat option" where
  "get_order sz = get_order_loop sz 1 0"

partial_function (option) get_order_floor_loop :: "u32 \<Rightarrow> u32 \<Rightarrow> nat \<Rightarrow> nat option" where
  "get_order_floor_loop n s order =
     (if s * 2 \<le> n then get_order_floor_loop n (s * 2) (Suc order) else Some order)"

definition get_order_floor :: "u32 \<Rightarrow> nat option" where
  "get_order_floor n = get_order_floor_loop n 1 0"

partial_function (option) buddy_init_loop ::
  "u32 \<Rightarrow> u32 \<Rightarrow> (nat \<Rightarrow> u32 list) \<Rightarrow> (nat \<Rightarrow> u32 list) option" where
  "buddy_init_loop stop current fl =
     (if current < stop then
        Option.bind (get_order_floor (stop - current)) (\<lambda>ord.
          let order = (if BUDDY_MAX_ORDER < ord then BUDDY_MAX_ORDER else ord)
          in if order < BUDDY_MIN_ORDER then Some fl
             else let idx = order - BUDDY_MIN_ORDER
                  in buddy_init_loop stop (current + 2 ^ order)
                       (if idx < BUDDY_NUM_ORDERS then fl(idx := current # fl idx) else fl))
      else Some fl)"

definition buddy_init :: "u32 \<Rightarrow> u32 \<Rightarrow> buddy option" where
  "buddy_init start stop =
     map_option (\<lambda>fl. \<lparr>buddy_start = start, buddy_end = stop, buddy_lists = fl\<rparr>)
       (buddy_init_loop stop start (\<lambda>_. []))"

text \<open>The inner \<open>while (i > list_idx)\<close> of \<open>buddy_alloc\<close>: the upper halves become free.\<close>

fun split_down :: "u32 \<Rightarrow> nat \<Rightarrow> nat \<Rightarrow> (nat \<Rightarrow> u32 list) \<Rightarrow> (nat \<Rightarrow> u32 list)" where
  "split_down block 0 idx fl = fl"
| "split_down block (Suc i) idx fl =
     (if idx \<le> i
      then split_down block i idx (fl(i := (block + 2 ^ (i + BUDDY_MIN_ORDER)) # fl i))
      else fl)"

definition clamp_order :: "nat \<Rightarrow> nat" where
  "clamp_order order = (if order < BUDDY_MIN_ORDER then BUDDY_MIN_ORDER else order)"

text \<open>The result pointer is 0 (\<open>nullptr\<close>) when no block is large enough.\<close>

definition buddy_alloc :: "buddy \<Rightarrow> u32 \<Rightarrow> (u32 \<times> buddy) option" where
  "buddy_alloc b sz =
     Option.bind (get_order sz) (\<lambda>ord.
       let order = clamp_order ord; list_idx = order - BUDDY_MIN_ORDER
       in if BUDDY_NUM_ORDERS \<le> list_idx then Some (0, b)
          else case find (\<lambda>i. buddy_lists b i \<noteq> []) [list_idx..<BUDDY_NUM_ORDERS] of
                 None \<Rightarrow> Some (0, b)
               | Some i \<Rightarrow>
                   (let block = hd (buddy_lists b i);
                        fl = (buddy_lists b)(i := tl (buddy_lists b i))
                    in Some (block, b\<lparr>buddy_lists := split_down block i list_idx fl\<rparr>)))"

text \<open>The coalescing loop of \<open>buddy_free\<close>, over \<open>current_order\<close>.\<close>

function coalesce ::
  "u32 \<Rightarrow> u32 \<Rightarrow> nat \<Rightarrow> (nat \<Rightarrow> u32 list) \<Rightarrow> u32 \<times> nat \<times> (nat \<Rightarrow> u32 list)" where
  "coalesce start addr order fl =
     (if order < BUDDY_MAX_ORDER then
        (let list_idx = order - BUDDY_MIN_ORDER;
             block_size = 2 ^ order;
             relative_addr = addr - start;
             buddy_addr = (relative_addr XOR block_size) + start
         in if BUDDY_NUM_ORDERS \<le> list_idx then (addr, order, fl)
            else if buddy_addr \<in> set (fl list_idx)
            then coalesce start (if buddy_addr < addr then buddy_addr else addr) (Suc order)
                   (fl(list_idx := remove1 buddy_addr (fl list_idx)))
            else (addr, order, fl))
      else (addr, order, fl))"
  by pat_completeness auto
termination
  by (relation "measure (\<lambda>(start, addr, order, fl). BUDDY_MAX_ORDER - order)") auto

declare coalesce.simps [simp del]

definition buddy_free :: "buddy \<Rightarrow> u32 \<Rightarrow> u32 \<Rightarrow> buddy option" where
  "buddy_free b ptr sz =
     (if ptr = 0 then Some b
      else Option.bind (get_order sz) (\<lambda>ord.
        (case coalesce (buddy_start b) ptr (clamp_order ord) (buddy_lists b) of
           (addr, order, fl) \<Rightarrow>
             (let idx = order - BUDDY_MIN_ORDER
              in if BUDDY_NUM_ORDERS \<le> idx then Some (b\<lparr>buddy_lists := fl\<rparr>)
                 else Some (b\<lparr>buddy_lists := fl(idx := addr # fl idx)\<rparr>)))))"

section \<open>The order computations\<close>

lemma unat_two_power: "n < 32 \<Longrightarrow> unat (2 ^ n :: u32) = 2 ^ n"
  by (rule unat_word_two_power) simp

lemma get_order_loop_returns:
  "unat sz \<le> 2 ^ 31 \<Longrightarrow> k \<le> 31 \<Longrightarrow> k = 0 \<or> 2 ^ (k - 1) < unat sz \<Longrightarrow>
   \<exists>r. get_order_loop sz (2 ^ k) k = Some r \<and> r \<le> 31 \<and> unat sz \<le> 2 ^ r \<and>
       (r = 0 \<or> 2 ^ (r - 1) < unat sz)"
proof (induction "31 - k" arbitrary: k)
  case 0
  then have "k = 31" by simp
  with 0 have "\<not> (2 ^ k :: u32) < sz" by (simp add: word_less_nat_alt unat_two_power)
  with 0 \<open>k = 31\<close> show ?case by (subst get_order_loop.simps) simp
next
  case (Suc n)
  show ?case
  proof (cases "(2 ^ k :: u32) < sz")
    case True
    then have "2 ^ k < unat sz" using Suc.hyps(2) by (simp add: word_less_nat_alt unat_two_power)
    then have "\<exists>r. get_order_loop sz (2 ^ Suc k) (Suc k) = Some r \<and> r \<le> 31 \<and> unat sz \<le> 2 ^ r \<and>
       (r = 0 \<or> 2 ^ (r - 1) < unat sz)"
      using Suc by (intro Suc.hyps(1)) auto
    with True show ?thesis by (subst get_order_loop.simps) (simp add: mult.commute)
  next
    case False
    then have "unat sz \<le> 2 ^ k" using Suc.hyps(2) by (simp add: word_less_nat_alt unat_two_power)
    with False Suc.prems show ?thesis by (subst get_order_loop.simps) auto
  qed
qed

lemma get_order_returns:
  assumes "unat sz \<le> 2 ^ 31"
  obtains r where "get_order sz = Some r" "r \<le> 31" "unat sz \<le> 2 ^ r" "r = 0 \<or> 2 ^ (r - 1) < unat sz"
  using get_order_loop_returns [OF assms, of 0] by (auto simp: get_order_def)

lemma get_order_loop_diverges:
  assumes "get_order_loop sz s k = Some r"
  shows "(s = 0 \<or> (\<exists>j \<le> 31. s = 2 ^ j)) \<longrightarrow> unat sz \<le> 2 ^ 31"
proof (rule get_order_loop.raw_induct [where P = "\<lambda>sz (s::u32) k r. (s = 0 \<or> (\<exists>j \<le> 31. s = 2 ^ j)) \<longrightarrow> unat sz \<le> 2 ^ 31",
      OF _ assms])
  fix f sz s k r
  assume IH: "\<And>sz (s::u32) k r. f sz s k = Some r \<Longrightarrow> (s = 0 \<or> (\<exists>j \<le> 31. s = 2 ^ j)) \<longrightarrow> unat sz \<le> 2 ^ 31"
    and eq: "(if s < sz then f sz (s * 2) (Suc k) else Some k) = Some (r::nat)"
  show "(s = 0 \<or> (\<exists>j \<le> 31. s = 2 ^ j)) \<longrightarrow> unat sz \<le> 2 ^ 31"
  proof
    assume s: "s = 0 \<or> (\<exists>j \<le> 31. s = (2 ^ j :: u32))"
    show "unat sz \<le> 2 ^ 31"
    proof (cases "s < sz")
      case True
      have "s * 2 = 0 \<or> (\<exists>j \<le> 31. s * 2 = (2 ^ j :: u32))"
      proof (cases "\<exists>j \<le> 30. s = (2 ^ j :: u32)")
        case True
        then obtain j where "j \<le> 30" "s = (2 ^ j :: u32)" by blast
        then have "Suc j \<le> 31 \<and> s * 2 = (2 ^ Suc j :: u32)" by simp
        then show ?thesis by blast
      next
        case False
        have "s = 0 \<or> s = 2 ^ 31"
        proof (cases "s = 0")
          case nz: False
          with s obtain j where j: "j \<le> 31" "s = 2 ^ j" by blast
          with False have "j = 31" by (metis le_antisym not_less_eq_eq Suc_numeral add_num_simps(5) semiring_norm(5))
          with j show ?thesis by simp
        qed simp
        then show ?thesis by auto
      qed
      moreover have "f sz (s * 2) (Suc k) = Some r" using eq True by simp
      ultimately show ?thesis using IH by blast
    next
      case False
      with s have "sz = 0 \<or> (\<exists>j \<le> 31. unat sz \<le> unat (2 ^ j :: u32))"
        by (auto simp: word_less_nat_alt not_less)
      then show ?thesis
      proof
        assume "\<exists>j \<le> 31. unat sz \<le> unat (2 ^ j :: u32)"
        then obtain j where "j \<le> 31" "unat sz \<le> 2 ^ j" by (auto simp: unat_two_power)
        moreover from this(1) have "(2::nat) ^ j \<le> 2 ^ 31" by (rule power_increasing) simp
        ultimately show ?thesis by linarith
      qed simp
    qed
  qed
qed

lemma get_order_None_iff: "get_order sz = None \<longleftrightarrow> 2 ^ 31 < unat sz"
proof
  assume n: "get_order sz = None"
  show "2 ^ 31 < unat sz"
  proof (rule ccontr)
    assume "\<not> 2 ^ 31 < unat sz"
    then have "unat sz \<le> 2 ^ 31" by simp
    from get_order_returns [OF this] n show False by auto
  qed
next
  assume b: "2 ^ 31 < unat sz"
  show "get_order sz = None"
  proof (cases "get_order sz")
    case (Some r)
    have "(1::u32) = 0 \<or> (\<exists>j \<le> 31. (1::u32) = 2 ^ j)" by (auto intro!: exI [of _ 0])
    with get_order_loop_diverges [OF Some [unfolded get_order_def]] b show ?thesis by simp
  qed
qed

section \<open>Well-formed free lists\<close>

text \<open>
  A block of list \<open>k\<close> (order \<open>k + 12\<close>) covers the addresses \<open>block_span a k\<close>. The lists are well
  formed when every block lies in the pool at a multiple of its size from the start of the
  pool, and no two blocks overlap.
\<close>

fun block_span :: "nat \<times> u32 \<Rightarrow> nat set" where
  "block_span (k, a) = {unat a..<unat a + 2 ^ (k + 12)}"

definition block_ok :: "u32 \<Rightarrow> u32 \<Rightarrow> nat \<times> u32 \<Rightarrow> bool" where
  "block_ok start stop = (\<lambda>(k, a). unat start \<le> unat a \<and> unat a + 2 ^ (k + 12) \<le> unat stop \<and>
     2 ^ (k + 12) dvd (unat a - unat start))"

definition free_blocks :: "(nat \<Rightarrow> u32 list) \<Rightarrow> (nat \<times> u32) set" where
  "free_blocks fl = {(k, a). k < BUDDY_NUM_ORDERS \<and> a \<in> set (fl k)}"

definition free_region :: "(nat \<Rightarrow> u32 list) \<Rightarrow> nat set" where
  "free_region fl = \<Union> (block_span ` free_blocks fl)"

definition lists_inv :: "u32 \<Rightarrow> u32 \<Rightarrow> (nat \<Rightarrow> u32 list) \<Rightarrow> bool" where
  "lists_inv start stop fl \<longleftrightarrow>
     (\<forall>k < BUDDY_NUM_ORDERS. distinct (fl k)) \<and>
     (\<forall>x \<in> free_blocks fl. block_ok start stop x) \<and>
     pairwise (\<lambda>x y. block_span x \<inter> block_span y = {}) (free_blocks fl)"

definition buddy_inv :: "buddy \<Rightarrow> bool" where
  "buddy_inv b \<longleftrightarrow> buddy_start b \<noteq> 0 \<and> lists_inv (buddy_start b) (buddy_end b) (buddy_lists b)"

lemma block_span_nonempty: "unat a \<in> block_span (k, a)"
  by simp

declare block_span.simps [simp del]

lemma free_blocks_push:
  "k < 17 \<Longrightarrow> free_blocks (fl(k := a # fl k)) = insert (k, a) (free_blocks fl)"
  by (auto simp: free_blocks_def split: if_splits)

lemma free_blocks_remove:
  "k < 17 \<Longrightarrow> distinct (fl k) \<Longrightarrow> free_blocks (fl(k := remove1 a (fl k))) = free_blocks fl - {(k, a)}"
  by (auto simp: free_blocks_def split: if_splits)

lemma free_region_push:
  "k < 17 \<Longrightarrow> free_region (fl(k := a # fl k)) = free_region fl \<union> block_span (k, a)"
  by (simp add: free_region_def free_blocks_push Un_commute)

lemma lists_inv_push:
  assumes inv: "lists_inv start stop fl" and k: "k < 17" and ok: "block_ok start stop (k, a)"
    and dis: "block_span (k, a) \<inter> free_region fl = {}"
  shows "lists_inv start stop (fl(k := a # fl k))"
proof -
  have new: "block_span (k, a) \<inter> block_span x = {}" if "x \<in> free_blocks fl" for x
    using that dis unfolding free_region_def by blast
  have "a \<notin> set (fl k)"
    using new [of "(k, a)"] block_span_nonempty [of a k] k by (auto simp: free_blocks_def)
  with inv k ok new show ?thesis
    by (simp add: lists_inv_def free_blocks_push pairwise_insert Int_commute)
qed

lemma lists_inv_remove:
  assumes inv: "lists_inv start stop fl" and k: "k < 17" and a: "a \<in> set (fl k)"
  shows "lists_inv start stop (fl(k := remove1 a (fl k)))"
    and "free_region (fl(k := remove1 a (fl k))) = free_region fl - block_span (k, a)"
    and "block_ok start stop (k, a)" and "block_span (k, a) \<subseteq> free_region fl"
proof -
  have d: "distinct (fl k)" using inv k by (simp add: lists_inv_def)
  have m: "(k, a) \<in> free_blocks fl" using k a by (simp add: free_blocks_def)
  show "lists_inv start stop (fl(k := remove1 a (fl k)))"
    using inv k d by (auto simp: lists_inv_def free_blocks_remove intro: pairwise_subset)
  have "block_span x \<inter> block_span (k, a) = {}" if "x \<in> free_blocks fl - {(k, a)}" for x
    using inv m that by (auto simp: lists_inv_def pairwise_def)
  then show "free_region (fl(k := remove1 a (fl k))) = free_region fl - block_span (k, a)"
    unfolding free_region_def free_blocks_remove [of k fl, OF k d] by blast
  show "block_ok start stop (k, a)" using inv m by (auto simp: lists_inv_def)
  show "block_span (k, a) \<subseteq> free_region fl" using m by (auto simp: free_region_def)
qed

section \<open>Splitting\<close>

lemma double_order: "(2::nat) ^ (Suc k + 12) = 2 * 2 ^ (k + 12)"
  by (simp only: add_Suc power_Suc)

lemma block_ok_lower:
  assumes "block_ok start stop (Suc k, a)"
  shows "block_ok start stop (k, a)"
proof -
  have "2 * 2 ^ (k + 12) dvd unat a - unat start" "unat a + 2 * 2 ^ (k + 12) \<le> unat stop"
    "unat start \<le> unat a"
    using assms unfolding block_ok_def prod.case double_order by simp_all
  then show ?thesis unfolding block_ok_def prod.case by (auto dest: dvd_mult_right)
qed

lemma upper_half:
  assumes ok: "block_ok start stop (Suc k, a)"
  defines "u \<equiv> a + 2 ^ (k + 12)"
  shows "unat u = unat a + 2 ^ (k + 12)" and "block_ok start stop (k, u)"
    and "block_span (Suc k, a) = block_span (k, a) \<union> block_span (k, u)"
    and "block_span (k, a) \<inter> block_span (k, u) = {}"
proof -
  have le: "unat a + 2 * 2 ^ (k + 12) \<le> unat stop"
    using ok unfolding block_ok_def prod.case double_order by simp
  moreover have "unat stop < 2 ^ 32" using unat_u32_less [of stop] by simp
  ultimately have lt: "(2::nat) * 2 ^ (k + 12) < 2 ^ 32" "unat a + 2 ^ (k + 12) < 2 ^ 32" by simp_all
  from lt(1) have "Suc (k + 12) < 32" by (simp only: power_Suc [symmetric] power_strict_increasing_iff)
  then have p: "unat (2 ^ (k + 12) :: u32) = 2 ^ (k + 12)" by (intro unat_word_two_power) simp
  show u: "unat u = unat a + 2 ^ (k + 12)"
    unfolding u_def using lt(2) by (simp add: unat_word_ariths p)
  have sa: "unat start \<le> unat a" "2 ^ (k + 12) dvd (unat a - unat start)"
    using block_ok_lower [OF ok] unfolding block_ok_def by simp_all
  then have "unat u - unat start = unat a - unat start + 2 ^ (k + 12)" using u by simp
  with sa(2) have "2 ^ (k + 12) dvd (unat u - unat start)" by (simp only: dvd_add_triv_right_iff)
  with sa(1) u le show "block_ok start stop (k, u)"
    unfolding block_ok_def prod.case by (intro conjI) linarith+
  show "block_span (Suc k, a) = block_span (k, a) \<union> block_span (k, u)" "block_span (k, a) \<inter> block_span (k, u) = {}"
    unfolding block_span.simps double_order u by auto
qed

lemma split_down_spec:
  "idx \<le> i \<Longrightarrow> i < 17 \<Longrightarrow> lists_inv start stop fl \<Longrightarrow> block_ok start stop (i, a) \<Longrightarrow>
   block_span (i, a) \<inter> free_region fl = {} \<Longrightarrow>
   lists_inv start stop (split_down a i idx fl) \<and> block_ok start stop (idx, a) \<and>
   block_span (idx, a) \<subseteq> block_span (i, a) \<and>
   free_region (split_down a i idx fl) = free_region fl \<union> (block_span (i, a) - block_span (idx, a))"
proof (induction i arbitrary: fl)
  case 0
  then show ?case by simp
next
  case (Suc i)
  show ?case
  proof (cases "idx \<le> i")
    case False
    with Suc.prems have "idx = Suc i" by simp
    with Suc.prems show ?thesis by simp
  next
    case True
    let ?u = "a + 2 ^ (i + 12)" and ?fl = "fl(i := (a + 2 ^ (i + 12)) # fl i)"
    note h = upper_half [OF Suc.prems(4)]
    have i: "i < 17" using Suc.prems(2) by simp
    have d: "block_span (i, ?u) \<inter> free_region fl = {}" using Suc.prems(5) h(3) by blast
    have inv: "lists_inv start stop ?fl"
      by (rule lists_inv_push [OF Suc.prems(3) i h(2) d])
    have reg: "free_region ?fl = free_region fl \<union> block_span (i, ?u)"
      by (rule free_region_push [OF i])
    have "block_span (i, a) \<inter> free_region ?fl = {}" using reg Suc.prems(5) h(3,4) by blast
    note IH0 = Suc.IH [OF True i inv block_ok_lower [OF Suc.prems(4)] this]
    have IH: "lists_inv start stop (split_down a i idx ?fl)" "block_ok start stop (idx, a)"
      "block_span (idx, a) \<subseteq> block_span (i, a)"
      "free_region (split_down a i idx ?fl) = free_region ?fl \<union> (block_span (i, a) - block_span (idx, a))"
      using IH0 by blast+
    have e: "split_down a (Suc i) idx fl = split_down a i idx ?fl" using True by simp
    have "block_span (i, ?u) \<inter> block_span (idx, a) = {}" using IH(3) h(4) by blast
    then have "free_region ?fl \<union> (block_span (i, a) - block_span (idx, a)) =
        free_region fl \<union> (block_span (Suc i, a) - block_span (idx, a))"
      unfolding reg h(3) by blast
    then show ?thesis unfolding e IH(4) using IH(1,2,3) h(3) by (intro conjI) auto
  qed
qed

section \<open>Allocation\<close>

lemma buddy_alloc_cases:
  assumes inv: "buddy_inv b" and al: "buddy_alloc b sz = Some (p, b')"
  obtains (fail) "p = 0" "b' = b"
  | (block) k where "k < 17" "p \<noteq> 0" "unat sz \<le> 2 ^ (k + 12)" "k = 0 \<or> 2 ^ (k + 11) < unat sz"
      "block_ok (buddy_start b) (buddy_end b) (k, p)"
      "buddy_inv b'" "buddy_start b' = buddy_start b" "buddy_end b' = buddy_end b"
      "block_span (k, p) \<subseteq> free_region (buddy_lists b)"
      "free_region (buddy_lists b') = free_region (buddy_lists b) - block_span (k, p)"
proof -
  have "get_order sz \<noteq> None" using al by (cases "get_order sz") (simp_all add: buddy_alloc_def)
  then have sz: "unat sz \<le> 2 ^ 31" by (simp add: get_order_None_iff)
  from get_order_returns [OF sz] obtain r where
    r: "get_order sz = Some r" "unat sz \<le> 2 ^ r" "r = 0 \<or> 2 ^ (r - 1) < unat sz" by metis
  define k where "k = clamp_order r - 12"
  have k: "unat sz \<le> 2 ^ (k + 12)" "k = 0 \<or> 2 ^ (k + 11) < unat sz"
  proof -
    have "(2::nat) ^ r \<le> 2 ^ (k + 12)" by (rule power_increasing) (auto simp: k_def clamp_order_def)
    with r(2) show "unat sz \<le> 2 ^ (k + 12)" by linarith
    have "k \<noteq> 0 \<Longrightarrow> r - 1 = k + 11" "k \<noteq> 0 \<Longrightarrow> r \<noteq> 0" by (auto simp: k_def clamp_order_def split: if_splits)
    with r(3) show "k = 0 \<or> 2 ^ (k + 11) < unat sz" by metis
  qed
  let ?f = "find (\<lambda>i. buddy_lists b i \<noteq> []) [k..<17]"
  show ?thesis
  proof (cases "17 \<le> k \<or> ?f = None")
    case True
    with al r(1) show ?thesis
      by (intro fail) (auto simp: buddy_alloc_def Let_def k_def [symmetric] split: if_splits)
  next
    case False
    then obtain i where f: "?f = Some i" by auto
    from find_upt_SomeD [OF f] have i: "k \<le> i" "i < 17" "buddy_lists b i \<noteq> []" by auto
    let ?a = "hd (buddy_lists b i)"
    let ?fl = "(buddy_lists b)(i := tl (buddy_lists b i))"
    have t: "tl (buddy_lists b i) = remove1 ?a (buddy_lists b i)" using i(3) by (cases "buddy_lists b i") auto
    have a: "?a \<in> set (buddy_lists b i)" using i(3) by simp
    have linv: "lists_inv (buddy_start b) (buddy_end b) (buddy_lists b)" using inv by (simp add: buddy_inv_def)
    note rem = lists_inv_remove [OF linv i(2) a, folded t]
    have "block_span (i, ?a) \<inter> free_region ?fl = {}" using rem(2) by blast
    note sp = split_down_spec [OF i(1,2) rem(1,3) this]
    have res: "p = ?a" "b' = b\<lparr>buddy_lists := split_down ?a i k ?fl\<rparr>"
      using al r(1) False f by (auto simp: buddy_alloc_def Let_def k_def [symmetric])
    have "?a \<noteq> 0"
    proof
      assume "?a = 0"
      with rem(3) have "unat (buddy_start b) = 0" by (simp add: block_ok_def)
      with inv show False by (simp add: buddy_inv_def unat_eq_0)
    qed
    with False k sp res inv rem(2,4) show ?thesis
      by (intro block [of k]) (auto simp: buddy_inv_def)
  qed
qed

section \<open>Coalescing\<close>

lemma xor_two_power: "w XOR 2 ^ n = (if bit w n then w - 2 ^ n else w + 2 ^ n)" for w :: u32
proof -
  have "w XOR 2 ^ n = flip_bit n w" by (simp add: flip_bit_eq_xor)
  then show ?thesis by (simp add: flip_bit_eq_if set_bit_eq unset_bit_eq)
qed

lemma bit_odd_quotient: "n < 32 \<Longrightarrow> unat w = 2 ^ n * q \<Longrightarrow> bit w n = odd q" for w :: u32
proof -
  assume n: "n < 32" and q: "unat w = 2 ^ n * q"
  have "bit w n = bit (unat w) n" using n by (simp add: bit_unsigned_iff)
  also have "\<dots> = odd q" by (simp add: bit_iff_odd q)
  finally show ?thesis .
qed

text \<open>The address computed in \<open>buddy_free\<close> is the other half of the next larger block.\<close>

lemma buddy_pair:
  assumes a: "block_ok start stop (k, a)" and c: "block_ok start stop (k, c)"
    and b: "c = ((a - start) XOR 2 ^ (k + 12)) + start"
  defines "m \<equiv> if c < a then c else a"
  shows "block_ok start stop (Suc k, m)"
    and "block_span (Suc k, m) = block_span (k, a) \<union> block_span (k, c)"
proof -
  let ?p = "2 ^ (k + 12) :: nat"
  have ab: "unat start \<le> unat a" "unat a + ?p \<le> unat stop" "?p dvd unat a - unat start"
    and cb: "unat start \<le> unat c" "unat c + ?p \<le> unat stop"
    using a c by (simp_all add: block_ok_def)
  have stop: "unat stop < 2 ^ 32" using unat_u32_less [of stop] by simp
  then have "?p < 2 ^ 32" using ab(2) by linarith
  then have n: "k + 12 < 32" by (simp only: power_strict_increasing_iff)
  have p: "unat (2 ^ (k + 12) :: u32) = ?p" using n by (intro unat_word_two_power) simp
  have rel: "unat (a - start) = unat a - unat start" using ab(1) by (simp add: unat_sub word_le_nat_alt)
  from ab(3) obtain q where q: "unat a - unat start = ?p * q" by (auto simp: dvd_def)
  have bit: "bit (a - start) (k + 12) = odd q"
    by (rule bit_odd_quotient [OF n]) (simp only: rel q)
  show "block_ok start stop (Suc k, m)" and "block_span (Suc k, m) = block_span (k, a) \<union> block_span (k, c)"
  proof -
    have "(unat c + ?p = unat a \<and> m = c \<and> odd q) \<or> (unat a + ?p = unat c \<and> m = a \<and> even q)"
    proof (cases "odd q")
      case True
      then have cc: "c = a - 2 ^ (k + 12)" using b bit by (simp add: xor_two_power)
      have "?p \<le> ?p * q" using True by (cases q) auto
      then have "?p \<le> unat a" using q by linarith
      then have "unat c = unat a - ?p" unfolding cc by (simp only: p word_le_nat_alt unat_sub)
      moreover have "0 < ?p" by simp
      ultimately have "unat c + ?p = unat a" "unat c < unat a" using \<open>?p \<le> unat a\<close> by linarith+
      then have "unat c + ?p = unat a" "c < a" by (simp_all only: word_less_nat_alt)
      with True show ?thesis by (simp add: m_def)
    next
      case False
      then have cc: "c = a + 2 ^ (k + 12)" using b bit by (simp add: xor_two_power)
      have "unat a + ?p < 2 ^ 32" using ab(2) stop by linarith
      then have "unat c = unat a + ?p" unfolding cc by (simp add: unat_word_ariths p)
      moreover from this have "\<not> c < a" by (simp add: word_less_nat_alt)
      ultimately show ?thesis using False by (simp add: m_def)
    qed
    then have *: "block_ok start stop (Suc k, m) \<and> block_span (Suc k, m) = block_span (k, a) \<union> block_span (k, c)"
    proof (elim disjE conjE)
      assume h: "unat c + ?p = unat a" "m = c" "odd q"
      have "unat c - unat start = ?p * (q - 1)" using h(1) q cb(1) by (simp add: diff_mult_distrib2)
      moreover from h(3) obtain t where "q - 1 = 2 * t" by (auto elim: oddE)
      ultimately have "unat c - unat start = (2 * ?p) * t" by simp
      then have "2 * ?p dvd unat c - unat start" by (metis dvd_triv_left)
      with h ab(2) cb(1) show ?thesis
        unfolding block_ok_def prod.case block_span.simps double_order by auto
    next
      assume h: "unat a + ?p = unat c" "m = a" "even q"
      from h(3) obtain t where "q = 2 * t" by (auto elim: evenE)
      then have "unat a - unat start = (2 * ?p) * t" using q by simp
      then have "2 * ?p dvd unat a - unat start" by (metis dvd_triv_left)
      with h cb(2) ab(1) show ?thesis
        unfolding block_ok_def prod.case block_span.simps double_order by auto
    qed
    then show "block_ok start stop (Suc k, m)" "block_span (Suc k, m) = block_span (k, a) \<union> block_span (k, c)"
      by simp_all
  qed
qed

lemma coalesce_spec:
  "12 \<le> order \<Longrightarrow> order \<le> 28 \<Longrightarrow> lists_inv start stop fl \<Longrightarrow> block_ok start stop (order - 12, addr) \<Longrightarrow>
   block_span (order - 12, addr) \<inter> free_region fl = {} \<Longrightarrow> coalesce start addr order fl = (addr', order', fl') \<Longrightarrow>
   order \<le> order' \<and> order' \<le> 28 \<and> lists_inv start stop fl' \<and> block_ok start stop (order' - 12, addr') \<and>
   block_span (order' - 12, addr') \<inter> free_region fl' = {} \<and>
   free_region fl' \<union> block_span (order' - 12, addr') = free_region fl \<union> block_span (order - 12, addr)"
proof (induction start addr order fl rule: coalesce.induct)
  case (1 start addr order fl)
  let ?k = "order - 12" and ?c = "((addr - start) XOR 2 ^ order) + start"
  show ?case
  proof (cases "order < 28 \<and> ?c \<in> set (fl ?k)")
    case False
    with 1(7) 1(3) have "addr' = addr" "order' = order" "fl' = fl"
      by (subst (asm) coalesce.simps; simp add: Let_def split: if_splits)+
    with 1 show ?thesis by simp
  next
    case True
    let ?m = "if ?c < addr then ?c else addr" and ?fl = "fl(?k := remove1 ?c (fl ?k))"
    have k: "?k < 17" "\<not> 17 \<le> ?k" "order = ?k + 12" "Suc order - 12 = Suc ?k"
      using conjunct1 [OF True] 1(2) by linarith+
    note rem = lists_inv_remove [OF 1(4) k(1) conjunct2 [OF True]]
    note bp = buddy_pair [OF 1(5) rem(3), folded k(3), OF refl]
    have call: "coalesce start ?m (Suc order) ?fl = (addr', order', fl')"
      using 1(7) True k(2) by (subst (asm) coalesce.simps) (simp add: Let_def)
    have ok: "block_ok start stop (Suc order - 12, ?m)" unfolding k(4) by (rule bp(1))
    have dis: "block_span (Suc order - 12, ?m) \<inter> free_region ?fl = {}"
      unfolding k(4) using bp(2) rem(2) 1(6) by blast
    have reg: "free_region ?fl \<union> block_span (Suc ?k, ?m) = free_region fl \<union> block_span (?k, addr)"
      using bp(2) rem(2,4) by blast
    have "Suc order \<le> order' \<and> order' \<le> 28 \<and> lists_inv start stop fl' \<and>
        block_ok start stop (order' - 12, addr') \<and>
        block_span (order' - 12, addr') \<inter> free_region fl' = {} \<and>
        free_region fl' \<union> block_span (order' - 12, addr') = free_region ?fl \<union> block_span (Suc order - 12, ?m)"
      by (rule "1.IH" [OF conjunct1 [OF True] refl refl refl refl k(2) conjunct2 [OF True]
            _ _ rem(1) ok dis call]) (use 1(2) True in simp_all)
    with reg k(4) show ?thesis by simp
  qed
qed

text \<open>A size that fits a block of order \<open>k + 12\<close> and no smaller one has that order.\<close>

lemma get_order_of_block:
  assumes k: "k < 17" and sz: "unat sz \<le> 2 ^ (k + 12)" "k = 0 \<or> 2 ^ (k + 11) < unat sz"
  obtains r where "get_order sz = Some r" "clamp_order r = k + 12"
proof -
  have "(2::nat) ^ (k + 12) \<le> 2 ^ 31" by (rule power_increasing) (use k in simp_all)
  with sz(1) have "unat sz \<le> 2 ^ 31" by linarith
  from get_order_returns [OF this] obtain r where
    r: "get_order sz = Some r" "unat sz \<le> 2 ^ r" "r = 0 \<or> 2 ^ (r - 1) < unat sz" by metis
  have co: "clamp_order r = k + 12"
  proof (cases "k = 0")
    case True
    have "r \<le> 12"
    proof (rule ccontr)
      assume "\<not> r \<le> 12"
      then have "(2::nat) ^ 12 \<le> 2 ^ (r - 1)" by (intro power_increasing) auto
      with r(3) \<open>\<not> r \<le> 12\<close> sz(1) True show False by simp
    qed
    with True show ?thesis by (simp add: clamp_order_def)
  next
    case False
    then have lo: "2 ^ (k + 11) < unat sz" using sz(2) by simp
    have "(2::nat) ^ (k + 11) < 2 ^ r" using lo r(2) by linarith
    then have "k + 11 < r" by (simp only: power_strict_increasing_iff)
    moreover have "r \<le> k + 12"
    proof (rule ccontr)
      assume "\<not> r \<le> k + 12"
      then have "(2::nat) ^ (k + 12) \<le> 2 ^ (r - 1)" by (intro power_increasing) auto
      moreover have "2 ^ (r - 1) < unat sz" using r(3) \<open>\<not> r \<le> k + 12\<close> by auto
      ultimately show False using sz(1) by linarith
    qed
    ultimately show ?thesis using False by (simp add: clamp_order_def)
  qed
  from that [OF r(1) co] show ?thesis .
qed

lemma buddy_free_spec:
  assumes inv: "buddy_inv b" and k: "k < 17" and ok: "block_ok (buddy_start b) (buddy_end b) (k, p)"
    and dis: "block_span (k, p) \<inter> free_region (buddy_lists b) = {}"
    and sz: "unat sz \<le> 2 ^ (k + 12)" "k = 0 \<or> 2 ^ (k + 11) < unat sz"
  obtains b' where "buddy_free b p sz = Some b'" "buddy_inv b'"
    "buddy_start b' = buddy_start b" "buddy_end b' = buddy_end b"
    "free_region (buddy_lists b') = free_region (buddy_lists b) \<union> block_span (k, p)"
proof -
  from get_order_of_block [OF k sz] obtain r where r: "get_order sz = Some r" and co: "clamp_order r = k + 12" .
  obtain a' o' fl' where c: "coalesce (buddy_start b) p (k + 12) (buddy_lists b) = (a', o', fl')"
    by (metis prod_cases3)
  have linv: "lists_inv (buddy_start b) (buddy_end b) (buddy_lists b)" and nz: "buddy_start b \<noteq> 0"
    using inv by (simp_all add: buddy_inv_def)
  have cs: "12 \<le> o'" "o' \<le> 28" "lists_inv (buddy_start b) (buddy_end b) fl'"
    "block_ok (buddy_start b) (buddy_end b) (o' - 12, a')"
    "block_span (o' - 12, a') \<inter> free_region fl' = {}"
    "free_region fl' \<union> block_span (o' - 12, a') = free_region (buddy_lists b) \<union> block_span (k, p)"
    using coalesce_spec [OF _ _ linv _ _ c] k ok dis by auto
  have i: "o' - 12 < 17" using cs(1,2) by simp
  have "p \<noteq> 0"
  proof
    assume "p = 0"
    with ok have "unat (buddy_start b) = 0" by (simp add: block_ok_def)
    with nz show False by (simp add: unat_eq_0)
  qed
  with r co c i have f: "buddy_free b p sz = Some (b\<lparr>buddy_lists := fl'(o' - 12 := a' # fl' (o' - 12))\<rparr>)"
    by (simp add: buddy_free_def Let_def)
  show ?thesis
    by (rule that [OF f])
       (use nz lists_inv_push [OF cs(3) i cs(4,5)] free_region_push [OF i, of fl' a'] cs(6)
        in \<open>simp_all add: buddy_inv_def\<close>)
qed

section \<open>Initialisation\<close>

lemma get_order_floor_loop_returns:
  "unat n < 2 ^ 31 \<Longrightarrow> k \<le> 30 \<Longrightarrow> k = 0 \<or> 2 ^ k \<le> unat n \<Longrightarrow>
   \<exists>r. get_order_floor_loop n (2 ^ k) k = Some r \<and> r \<le> 30 \<and> unat n < 2 ^ Suc r \<and>
       (r = 0 \<or> 2 ^ r \<le> unat n)"
proof (induction "31 - k" arbitrary: k)
  case 0
  then show ?case by simp
next
  case (Suc m)
  have d: "unat (2 ^ k * 2 :: u32) = 2 ^ Suc k"
    using Suc.prems(2) unat_two_power [of "Suc k"] by (simp add: mult.commute)
  show ?case
  proof (cases "(2 ^ k * 2 :: u32) \<le> n")
    case True
    then have le: "2 ^ Suc k \<le> unat n" by (simp only: word_le_nat_alt d)
    then have "(2::nat) ^ Suc k < 2 ^ 31" using Suc.prems(1) by linarith
    then have "Suc k < 31" by (simp only: power_strict_increasing_iff)
    then have "\<exists>r. get_order_floor_loop n (2 ^ Suc k) (Suc k) = Some r \<and> r \<le> 30 \<and> unat n < 2 ^ Suc r \<and>
       (r = 0 \<or> 2 ^ r \<le> unat n)"
      using Suc le by (intro Suc.hyps(1)) auto
    with True show ?thesis by (subst get_order_floor_loop.simps) (simp add: mult.commute)
  next
    case False
    then have "unat n < 2 ^ Suc k" by (simp only: word_le_nat_alt d not_le)
    with False Suc.prems show ?thesis by (subst get_order_floor_loop.simps) auto
  qed
qed

lemma get_order_floor_returns:
  assumes "unat n < 2 ^ 31"
  obtains r where "get_order_floor n = Some r" "r \<le> 30" "unat n < 2 ^ Suc r" "r = 0 \<or> 2 ^ r \<le> unat n"
  using get_order_floor_loop_returns [OF assms, of 0] by (auto simp: get_order_floor_def)

text \<open>
  The blocks are carved in non-increasing sizes, which keeps each one aligned to its size:
  \<open>m\<close> bounds the order of the next block.
\<close>

lemma buddy_init_loop_spec:
  "unat stop - unat start < 2 ^ 31 \<Longrightarrow> start \<le> cur \<Longrightarrow> cur \<le> stop \<Longrightarrow> lists_inv start stop fl \<Longrightarrow>
   free_region fl = {unat start..<unat cur} \<Longrightarrow> 2 ^ m dvd unat cur - unat start \<Longrightarrow>
   m = 28 \<or> (m < 28 \<and> unat stop - unat cur < 2 ^ Suc m) \<Longrightarrow>
   \<exists>fl' e. buddy_init_loop stop cur fl = Some fl' \<and> lists_inv start stop fl' \<and>
      free_region fl' = {unat start..<e} \<and> unat cur \<le> e \<and> e \<le> unat stop \<and> unat stop - e < 4096"
proof (induction "unat stop - unat cur" arbitrary: cur fl m rule: less_induct)
  case less
  show ?case
  proof (cases "cur < stop")
    case False
    with less.prems(3) have "cur = stop" by simp
    then show ?thesis
      by (subst buddy_init_loop.simps) (use less.prems in auto)
  next
    case True
    have av: "unat (stop - cur) = unat stop - unat cur" using less.prems(3) by (simp add: unat_sub)
    with less.prems(1,2) have "unat (stop - cur) < 2 ^ 31" by (simp add: word_le_nat_alt)
    from get_order_floor_returns [OF this] obtain r where r: "get_order_floor (stop - cur) = Some r"
      "unat stop - unat cur < 2 ^ Suc r" "r = 0 \<or> 2 ^ r \<le> unat stop - unat cur" unfolding av by metis
    define order where "order = (if 28 < r then 28 else r)"
    show ?thesis
    proof (cases "order < 12")
      case small: True
      then have "r < 12" by (auto simp: order_def split: if_splits)
      then have "(2::nat) ^ Suc r \<le> 2 ^ 12" by (intro power_increasing) auto
      with r(2) have "unat stop - unat cur < 4096" by simp
      with True small r(1) less.prems show ?thesis
        by (subst buddy_init_loop.simps) (auto simp: order_def Let_def word_less_nat_alt)
    next
      case big: False
      define k where "k = order - 12"
      have k: "order = k + 12" "k < 17" "order \<le> r" using big by (auto simp: k_def order_def)
      have "(2::nat) ^ order \<le> 2 ^ r" using k(3) by (intro power_increasing) auto
      moreover have "2 ^ r \<le> unat stop - unat cur" using r(3) big k(3) by auto
      ultimately have fits: "2 ^ order \<le> unat stop - unat cur" by linarith
      have "order \<le> m"
      proof (rule ccontr)
        assume "\<not> order \<le> m"
        then have "m < 28" "unat stop - unat cur < 2 ^ Suc m" using less.prems(7) k by auto
        moreover have "(2::nat) ^ Suc m \<le> 2 ^ order" using \<open>\<not> order \<le> m\<close> by (intro power_increasing) auto
        ultimately show False using fits by linarith
      qed
      then have dv: "2 ^ order dvd unat cur - unat start"
        using less.prems(6) by (metis dvd_trans le_imp_power_dvd)
      have lt: "unat cur + 2 ^ order < 2 ^ 32" using fits unat_u32_less [of stop] True by (simp add: word_less_nat_alt)
      have "order < 32" using k by simp
      then have nx: "unat (cur + 2 ^ order) = unat cur + 2 ^ order"
        using lt by (simp add: unat_word_ariths unat_word_two_power)
      let ?fl = "fl(k := cur # fl k)"
      have ok: "block_ok start stop (k, cur)"
        using dv fits less.prems(2) True unfolding block_ok_def prod.case k(1) [symmetric]
        by (simp add: word_le_nat_alt word_less_nat_alt)
      have sp: "block_span (k, cur) = {unat cur..<unat cur + 2 ^ order}"
        unfolding block_span.simps k(1) by simp
      have dis: "block_span (k, cur) \<inter> free_region fl = {}" unfolding sp less.prems(5) by auto
      have reg: "free_region ?fl = {unat start..<unat (cur + 2 ^ order)}"
        unfolding free_region_push [OF k(2)] sp less.prems(5) nx
        using less.prems(2) by (auto simp: word_le_nat_alt)
      have m': "order = 28 \<or> (order < 28 \<and> unat stop - unat (cur + 2 ^ order) < 2 ^ Suc order)"
        unfolding nx using r(2) by (auto simp: order_def)
      have "unat (cur + 2 ^ order) - unat start = (unat cur - unat start) + 2 ^ order"
        unfolding nx using less.prems(2) by (simp add: word_le_nat_alt)
      with dv have dv': "2 ^ order dvd unat (cur + 2 ^ order) - unat start" by simp
      have step: "unat stop - unat (cur + 2 ^ order) < unat stop - unat cur"
      proof -
        have "(0::nat) < 2 ^ order" by simp
        moreover have "unat cur < unat stop" using True by (simp add: word_less_nat_alt)
        ultimately show ?thesis unfolding nx by linarith
      qed
      have "start \<le> cur + 2 ^ order" "cur + 2 ^ order \<le> stop"
        using less.prems(2) fits True by (simp_all add: word_le_nat_alt word_less_nat_alt nx)
      from less.hyps [OF step less.prems(1) this lists_inv_push [OF less.prems(4) k(2) ok dis] reg dv' m']
      obtain fl' e where "buddy_init_loop stop (cur + 2 ^ order) ?fl = Some fl'" "lists_inv start stop fl'"
        "free_region fl' = {unat start..<e}" "unat (cur + 2 ^ order) \<le> e" "e \<le> unat stop" "unat stop - e < 4096"
        by blast
      moreover have "buddy_init_loop stop cur fl = buddy_init_loop stop (cur + 2 ^ order) ?fl"
        using True big r(1) k
        by (subst buddy_init_loop.simps) (simp add: order_def [symmetric] k_def [symmetric] Let_def)
      ultimately show ?thesis unfolding nx by auto
    qed
  qed
qed

lemma buddy_init_spec:
  assumes "start \<noteq> 0" "start \<le> stop" "unat stop - unat start < 2 ^ 31"
  obtains b e where "buddy_init start stop = Some b" "buddy_inv b" "buddy_start b = start"
    "buddy_end b = stop" "free_region (buddy_lists b) = {unat start..<e}" "e \<le> unat stop" "unat stop - e < 4096"
proof -
  have "lists_inv start stop (\<lambda>_. [])" "free_region (\<lambda>_. []) = {unat start..<unat start}"
    by (simp_all add: lists_inv_def free_blocks_def free_region_def)
  from buddy_init_loop_spec [OF assms(3) order_refl assms(2) this, of 28]
  obtain fl' e where "buddy_init_loop stop start (\<lambda>_. []) = Some fl'" "lists_inv start stop fl'"
    "free_region fl' = {unat start..<e}" "e \<le> unat stop" "unat stop - e < 4096" by auto
  with assms(1) show ?thesis
    by (intro that [of "\<lparr>buddy_start = start, buddy_end = stop, buddy_lists = fl'\<rparr>" e])
       (simp_all add: buddy_init_def buddy_inv_def)
qed

section \<open>Properties\<close>

text \<open>The pool of the kernel heap after \<open>init_kheap\<close>: one block of 256 MB at \<open>0xC1000000\<close>.\<close>

definition buddy_example :: buddy where
  "buddy_example = \<lparr>buddy_start = 0xC1000000, buddy_end = 0xD1000000,
     buddy_lists = (\<lambda>i. if i = 16 then [0xC1000000] else [])\<rparr>"

lemma buddy_example_init: "buddy_init 0xC1000000 0xD1000000 = Some buddy_example"
proof -
  have "(\<lambda>_. [])(Suc (Suc (Suc (Suc (Suc (Suc (Suc (Suc (Suc (Suc (Suc (Suc (Suc (Suc (Suc (Suc 0))))))))))))))) :=
    [0xC1000000 :: u32]) = (\<lambda>i. if i = 16 then [0xC1000000] else [])"
    by (rule ext) (simp only: fun_upd_apply eval_nat_numeral BitM.simps)
  then show ?thesis
    by (simp add: buddy_example_def buddy_init_def buddy_init_loop.simps get_order_floor_def
          get_order_floor_loop.simps Let_def)
qed

lemma buddy_example_inv: "buddy_inv buddy_example"
proof -
  have "free_blocks (buddy_lists buddy_example) = {(16, 0xC1000000)}"
    by (auto simp: free_blocks_def buddy_example_def split: if_splits)
  then show ?thesis
    by (simp add: buddy_inv_def lists_inv_def block_ok_def) (simp add: buddy_example_def)
qed

lemma buddy_example_alloc: "map_option fst (buddy_alloc buddy_example 5000) = Some 0xC1000000"
  by (simp add: buddy_alloc_def get_order_def get_order_loop.simps buddy_example_def clamp_order_def
        upt_rec)

text \<open>
  \<open>buddy_init\<close> on a pool below 2 GB returns with well-formed lists whose free blocks are
  exactly the addresses from the start of the pool up to a tail of less than 4 KB.
\<close>

theorem buddy_init_covers_pool:
  assumes "start \<noteq> 0" and "start \<le> stop" and "unat stop - unat start < 2 ^ 31"
  shows "\<exists>b e. buddy_init start stop = Some b \<and> buddy_inv b \<and> buddy_start b = start \<and> buddy_end b = stop \<and>
    free_region (buddy_lists b) = {unat start..<e} \<and> e \<le> unat stop \<and> unat stop - e < 4096"
  using buddy_init_spec [OF assms] by metis

theorem buddy_init_covers_pool_witness:
  "\<exists>e. free_region (buddy_lists buddy_example) = {0xC1000000..<e} \<and> e \<le> 0xD1000000 \<and> 0xD1000000 - e < 4096"
  using buddy_init_covers_pool [of "0xC1000000" "0xD1000000"] by (simp add: buddy_example_init)

text \<open>
  C3: a non-null answer of \<open>buddy_alloc\<close> is a block of the smallest order (at least 4 KB) that
  holds the requested size, aligned to its size from the start of the pool; exactly its
  addresses leave the free blocks, which stay well formed.
\<close>

theorem buddy_alloc_correct:
  assumes "buddy_inv b" and "buddy_alloc b sz = Some (p, b')" and "p \<noteq> 0"
  shows "\<exists>k < 17. unat sz \<le> 2 ^ (k + 12) \<and> (k = 0 \<or> 2 ^ (k + 11) < unat sz) \<and>
    2 ^ (k + 12) dvd (unat p - unat (buddy_start b)) \<and>
    block_span (k, p) \<subseteq> free_region (buddy_lists b) \<and>
    free_region (buddy_lists b') = free_region (buddy_lists b) - block_span (k, p) \<and> buddy_inv b'"
  using assms(1,2)
proof (cases rule: buddy_alloc_cases)
  case fail
  with assms(3) show ?thesis by simp
next
  case (block k)
  then show ?thesis by (intro exI [of _ k]) (auto simp: block_ok_def)
qed

theorem buddy_alloc_correct_witness:
  "\<exists>b'. buddy_alloc buddy_example 5000 = Some (0xC1000000, b') \<and> buddy_inv b' \<and>
     (\<exists>k < 17. 5000 \<le> (2::nat) ^ (k + 12) \<and> block_span (k, 0xC1000000) \<subseteq> free_region (buddy_lists buddy_example))"
proof -
  obtain b' where b': "buddy_alloc buddy_example 5000 = Some (0xC1000000, b')"
    using buddy_example_alloc by auto
  have "(0xC1000000::u32) \<noteq> 0" by simp
  from buddy_alloc_correct [OF buddy_example_inv b' this] b' show ?thesis by (auto simp del: power_Suc)
qed

text \<open>
  Freeing a block that \<open>buddy_alloc\<close> just returned, with the size it was asked for, always
  returns, keeps the lists well formed and gives back exactly the addresses that were taken.
\<close>

theorem buddy_free_after_alloc:
  assumes "buddy_inv b" and "buddy_alloc b sz = Some (p, b')" and "p \<noteq> 0"
  shows "\<exists>b''. buddy_free b' p sz = Some b'' \<and> buddy_inv b'' \<and>
    free_region (buddy_lists b'') = free_region (buddy_lists b)"
  using assms(1,2)
proof (cases rule: buddy_alloc_cases)
  case fail
  with assms(3) show ?thesis by simp
next
  case (block k)
  have "block_span (k, p) \<inter> free_region (buddy_lists b') = {}" using block by blast
  moreover have "block_ok (buddy_start b') (buddy_end b') (k, p)" using block by simp
  ultimately obtain b'' where "buddy_free b' p sz = Some b''" "buddy_inv b''"
    "free_region (buddy_lists b'') = free_region (buddy_lists b') \<union> block_span (k, p)"
    using buddy_free_spec [OF block(6) block(1)] block(3,4) by metis
  moreover have "free_region (buddy_lists b') \<union> block_span (k, p) = free_region (buddy_lists b)"
    using block by blast
  ultimately show ?thesis by simp
qed

theorem buddy_free_after_alloc_witness:
  "\<exists>b' b''. buddy_alloc buddy_example 5000 = Some (0xC1000000, b') \<and>
     buddy_free b' 0xC1000000 5000 = Some b'' \<and>
     free_region (buddy_lists b'') = free_region (buddy_lists buddy_example)"
proof -
  obtain b' where b': "buddy_alloc buddy_example 5000 = Some (0xC1000000, b')"
    using buddy_example_alloc by auto
  have "(0xC1000000::u32) \<noteq> 0" by simp
  from buddy_free_after_alloc [OF buddy_example_inv b' this] b' show ?thesis by blast
qed

text \<open>
  C4: \<open>buddy_alloc\<close> does not return exactly when the size exceeds 2 GB: the doubling in
  \<open>get_order\<close> wraps to 0 on a 32-bit \<open>size_t\<close> and never reaches the size.
\<close>

theorem buddy_alloc_returns_iff: "buddy_alloc b sz = None \<longleftrightarrow> 2 ^ 31 < unat sz"
proof
  assume "buddy_alloc b sz = None"
  then have "get_order sz = None"
    by (cases "get_order sz") (auto simp: buddy_alloc_def Let_def split: option.splits if_splits)
  then show "2 ^ 31 < unat sz" by (simp only: get_order_None_iff)
next
  assume "2 ^ 31 < unat sz"
  then have "get_order sz = None" by (simp only: get_order_None_iff)
  then show "buddy_alloc b sz = None" by (simp add: buddy_alloc_def)
qed

end
