(* ===== verification/FsBridge.thy ===== *)
theory FsBridge
  imports Prelude
begin

text \<open>
  The file-system bridge between the GUI and the kernel (\<open>src/src/kernel/fs_kernel_bridge.c\<close>):
  the table of kernel files, the pool of cache pages, the request dispatcher and the calls of
  the GUI side.  Fixed-size character arrays are byte lists of that length and are walked by
  index the way the C loops walk them; \<open>char_at\<close> reads a C string, whose terminator follows
  its last byte.  The static page pool is one flat array, because its rows are adjacent in
  memory and a write that is too long runs into the next page.  An access the C program may
  not make (through a null cache pointer, past the pool, past the caller's buffer) makes the
  whole operation \<open>None\<close>.
\<close>

section \<open>C strings in arrays\<close>

definition char_at :: "u8 list \<Rightarrow> nat \<Rightarrow> u8" where
  "char_at s j = (if j < length s then s ! j else 0)"

definition cstr :: "u8 list \<Rightarrow> u8 list" where
  "cstr s = takeWhile (\<lambda>c. c \<noteq> 0) s"

abbreviation MAX_PATH :: nat where "MAX_PATH \<equiv> 256"
abbreviation MAX_FILES :: nat where "MAX_FILES \<equiv> 1024"
abbreviation PAGE_SIZE :: nat where "PAGE_SIZE \<equiv> 4096"

text \<open>\<open>while (path[j] && j < MAX_PATH - 1) { dst[j] = path[j]; j++; } dst[j] = 0;\<close>\<close>

function copy_path :: "u8 list \<Rightarrow> u8 list \<Rightarrow> nat \<Rightarrow> u8 list" where
  "copy_path src dst j =
     (if char_at src j \<noteq> 0 \<and> j < MAX_PATH - 1
      then copy_path src (dst[j := char_at src j]) (Suc j)
      else dst[j := 0])"
  by pat_completeness auto
termination by (relation "measure (\<lambda>(src, dst, j). MAX_PATH - 1 - j)") auto

text \<open>\<open>while (p[j] || q[j]) { if (p[j] != q[j]) { match = false; break; } j++; }\<close>\<close>

function path_match :: "u8 list \<Rightarrow> u8 list \<Rightarrow> nat \<Rightarrow> bool" where
  "path_match p q j =
     (if char_at p j \<noteq> 0 \<or> char_at q j \<noteq> 0
      then char_at p j = char_at q j \<and> path_match p q (Suc j)
      else True)"
  by pat_completeness auto
termination
  by (relation "measure (\<lambda>(p, q, j). max (length p) (length q) - j)")
     (auto simp: char_at_def split: if_splits)

declare copy_path.simps [simp del] path_match.simps [simp del]

section \<open>The kernel's state\<close>

datatype fs_req_type =
  FS_REQ_CREATE | FS_REQ_DELETE | FS_REQ_OPEN | FS_REQ_READDIR | FS_REQ_READ | FS_REQ_WRITE | FS_REQ_CLOSE

abbreviation FS_OK :: int where "FS_OK \<equiv> 0"
abbreviation FS_ERR :: int where "FS_ERR \<equiv> -1"
abbreviation FS_NOENT :: int where "FS_NOENT \<equiv> -2"

text \<open>The cache pointer is an offset into the page pool, \<open>None\<close> for \<open>NULL\<close>.\<close>

record kernel_file =
  kf_id :: int
  kf_path :: "u8 list"
  kf_size :: u32
  kf_cache :: "nat option"
  kf_dirty :: bool
  kf_in_use :: bool

record fs_request =
  rq_type :: fs_req_type
  rq_path :: "u8 list"
  rq_buffer :: "u8 list"
  rq_length :: u32

record fs_response =
  rs_status :: int
  rs_out_count :: u32

record fs_kernel =
  kernel_files :: "kernel_file list"
  next_file_id :: int
  memory_pool :: "nat \<Rightarrow> u8"
  pool_used :: nat

definition kf_zero :: kernel_file where
  "kf_zero = \<lparr>kf_id = 0, kf_path = replicate MAX_PATH 0, kf_size = 0, kf_cache = None,
              kf_dirty = False, kf_in_use = False\<rparr>"

definition fs_kernel_init :: fs_kernel where
  "fs_kernel_init = \<lparr>kernel_files = replicate MAX_FILES kf_zero, next_file_id = 1,
                     memory_pool = (\<lambda>_. 0), pool_used = 0\<rparr>"

section \<open>The kernel's operations\<close>

definition kmem_alloc_page :: "fs_kernel \<Rightarrow> nat option \<times> fs_kernel" where
  "kmem_alloc_page k =
     (if pool_used k \<ge> MAX_FILES then (None, k)
      else (Some (pool_used k * PAGE_SIZE), k\<lparr>pool_used := Suc (pool_used k)\<rparr>))"

definition kf_create :: "fs_kernel \<Rightarrow> u8 list \<Rightarrow> int \<times> fs_kernel" where
  "kf_create k path =
     (case find (\<lambda>i. \<not> kf_in_use (kernel_files k ! i)) [0..<MAX_FILES] of
        None \<Rightarrow> (FS_ERR, k)
      | Some i \<Rightarrow>
          (let kf = kernel_files k ! i;
               (page, k1) = kmem_alloc_page k;
               kf' = kf\<lparr>kf_in_use := True, kf_id := next_file_id k,
                        kf_path := copy_path path (kf_path kf) 0,
                        kf_size := 0, kf_cache := page, kf_dirty := True\<rparr>
           in (next_file_id k,
               k1\<lparr>kernel_files := (kernel_files k)[i := kf'], next_file_id := next_file_id k + 1\<rparr>)))"

definition kf_lookup :: "fs_kernel \<Rightarrow> u8 list \<Rightarrow> nat option" where
  "kf_lookup k path =
     find (\<lambda>i. kf_in_use (kernel_files k ! i) \<and> path_match path (kf_path (kernel_files k ! i)) 0)
       [0..<MAX_FILES]"

text \<open>\<open>for (i < len) buffer[i] = cache[i]\<close>, and the copy in the other direction.\<close>

definition copy_out :: "(nat \<Rightarrow> u8) \<Rightarrow> nat option \<Rightarrow> u8 list \<Rightarrow> nat \<Rightarrow> u8 list option" where
  "copy_out mem cache buf len =
     (if len = 0 then Some buf
      else case cache of
        None \<Rightarrow> None
      | Some p \<Rightarrow>
          if p + len \<le> MAX_FILES * PAGE_SIZE \<and> len \<le> length buf
          then Some (map (\<lambda>i. mem (p + i)) [0..<len] @ drop len buf)
          else None)"

definition copy_in :: "(nat \<Rightarrow> u8) \<Rightarrow> nat option \<Rightarrow> u8 list \<Rightarrow> nat \<Rightarrow> (nat \<Rightarrow> u8) option" where
  "copy_in mem cache buf len =
     (if len = 0 then Some mem
      else case cache of
        None \<Rightarrow> None
      | Some p \<Rightarrow>
          if p + len \<le> MAX_FILES * PAGE_SIZE \<and> len \<le> length buf
          then Some (\<lambda>a. if p \<le> a \<and> a < p + len then buf ! (a - p) else mem a)
          else None)"

text \<open>
  The dispatcher answers the status, the request (its buffer may be filled), the response and
  the state; the pointers \<open>req\<close> and \<open>res\<close> may be null.
\<close>

definition fs_dispatch_request ::
    "fs_request \<Rightarrow> fs_response \<Rightarrow> fs_kernel \<Rightarrow> (int \<times> fs_request \<times> fs_response \<times> fs_kernel) option" where
  "fs_dispatch_request req res k =
     (case rq_type req of
        FS_REQ_CREATE \<Rightarrow>
          (let (id, k') = kf_create k (rq_path req);
               st = (if id > 0 then FS_OK else FS_ERR)
           in Some (st, req, res\<lparr>rs_status := st\<rparr>, k'))
      | FS_REQ_OPEN \<Rightarrow>
          (let st = (if kf_lookup k (rq_path req) \<noteq> None then FS_OK else FS_NOENT)
           in Some (st, req, res\<lparr>rs_status := st\<rparr>, k))
      | FS_REQ_READ \<Rightarrow>
          (case kf_lookup k (rq_path req) of
             None \<Rightarrow> Some (FS_NOENT, req, res, k)
           | Some i \<Rightarrow>
               (let kf = kernel_files k ! i;
                    len = (if rq_length req > kf_size kf then kf_size kf else rq_length req)
                in map_option (\<lambda>buf. (FS_OK, req\<lparr>rq_buffer := buf\<rparr>, res\<lparr>rs_out_count := len\<rparr>, k))
                     (copy_out (memory_pool k) (kf_cache kf) (rq_buffer req) (unat len))))
      | FS_REQ_WRITE \<Rightarrow>
          (case kf_lookup k (rq_path req) of
             None \<Rightarrow> Some (FS_NOENT, req, res, k)
           | Some i \<Rightarrow>
               (let kf = kernel_files k ! i
                in map_option (\<lambda>mem. (FS_OK, req, res,
                       k\<lparr>memory_pool := mem,
                         kernel_files := (kernel_files k)[i := kf\<lparr>kf_size := rq_length req, kf_dirty := True\<rparr>]\<rparr>))
                     (copy_in (memory_pool k) (kf_cache kf) (rq_buffer req) (unat (rq_length req)))))
      | _ \<Rightarrow> Some (FS_ERR, req, res, k))"

type_synonym fs_call =
  "fs_request option \<Rightarrow> fs_response option \<Rightarrow> fs_kernel \<Rightarrow>
   (int \<times> fs_request option \<times> fs_response option \<times> fs_kernel) option"

definition kernel_fs_dispatch :: fs_call where
  "kernel_fs_dispatch reqp resp k =
     (case (reqp, resp) of
        (Some req, Some res) \<Rightarrow>
          map_option (\<lambda>(st, req', res', k'). (st, Some req', Some res', k')) (fs_dispatch_request req res k)
      | _ \<Rightarrow> Some (FS_ERR, reqp, resp, k))"

definition sys_fs_call_impl :: fs_call where
  "sys_fs_call_impl reqp resp k = kernel_fs_dispatch reqp resp k"

section \<open>The GUI side\<close>

text \<open>
  \<open>sys_fs_call\<close> is only declared in the file; it is the argument \<open>call\<close>.  The request is
  zeroed, its type set and the path copied.  A read leaves its bytes in the caller's buffer.
\<close>

definition gui_request :: "fs_req_type \<Rightarrow> u8 list \<Rightarrow> fs_request" where
  "gui_request t path = \<lparr>rq_type = t, rq_path = copy_path path (replicate MAX_PATH 0) 0,
                         rq_buffer = [], rq_length = 0\<rparr>"

definition gui_response :: fs_response where
  "gui_response = \<lparr>rs_status = 0, rs_out_count = 0\<rparr>"

definition gui_create_file :: "fs_call \<Rightarrow> u8 list \<Rightarrow> fs_kernel \<Rightarrow> (bool \<times> fs_kernel) option" where
  "gui_create_file call path k =
     map_option (\<lambda>(r, _, _, k'). (r = FS_OK, k'))
       (call (Some (gui_request FS_REQ_CREATE path)) (Some gui_response) k)"

definition gui_read_file ::
    "fs_call \<Rightarrow> u8 list \<Rightarrow> u8 list \<Rightarrow> u32 \<Rightarrow> fs_kernel \<Rightarrow> (bool \<times> u8 list \<times> fs_kernel) option" where
  "gui_read_file call path buf len k =
     map_option (\<lambda>(r, req, _, k'). (r = FS_OK, (case req of Some q \<Rightarrow> rq_buffer q | None \<Rightarrow> buf), k'))
       (call (Some ((gui_request FS_REQ_READ path)\<lparr>rq_buffer := buf, rq_length := len\<rparr>)) (Some gui_response) k)"

definition gui_write_file ::
    "fs_call \<Rightarrow> u8 list \<Rightarrow> u8 list \<Rightarrow> u32 \<Rightarrow> fs_kernel \<Rightarrow> (bool \<times> fs_kernel) option" where
  "gui_write_file call path buf len k =
     map_option (\<lambda>(r, _, _, k'). (r = FS_OK, k'))
       (call (Some ((gui_request FS_REQ_WRITE path)\<lparr>rq_buffer := buf, rq_length := len\<rparr>)) (Some gui_response) k)"

section \<open>Strings\<close>

lemma cstr_drop:
  "cstr (drop j p) = (if char_at p j = 0 then [] else char_at p j # cstr (drop (Suc j) p))"
proof (cases "j < length p")
  case True
  then have "drop j p = p ! j # drop (Suc j) p" by (rule Cons_nth_drop_Suc [symmetric])
  with True show ?thesis by (simp add: cstr_def char_at_def)
qed (simp add: cstr_def char_at_def)

lemma cstr_append_0: "0 \<notin> set xs \<Longrightarrow> cstr (xs @ 0 # ys) = xs"
  by (induction xs) (auto simp: cstr_def)

lemma zero_notin_cstr [simp]: "0 \<notin> set (cstr s)"
  by (auto simp: cstr_def dest: set_takeWhileD)

lemma path_match_drop: "path_match p q j = (cstr (drop j p) = cstr (drop j q))"
proof (induction p q j rule: path_match.induct)
  case (1 p q j)
  then show ?case
    by (subst path_match.simps) (auto simp: cstr_drop [of j])
qed

lemma path_match_iff [simp]: "path_match p q 0 = (cstr p = cstr q)"
  using path_match_drop [of p q 0] by simp

lemma char_at_cstr: "j < length (cstr s) \<Longrightarrow> char_at s j = cstr s ! j \<and> cstr s ! j \<noteq> 0"
  using length_takeWhile_le [of "\<lambda>c. c \<noteq> 0" s] nth_mem [of j "cstr s"]
  by (auto simp: cstr_def char_at_def takeWhile_nth dest: set_takeWhileD)

lemma char_at_cstr_end: "char_at s (length (cstr s)) = 0"
  by (auto simp: char_at_def cstr_def dest: nth_length_takeWhile)

lemma copy_path_eq:
  assumes "j \<le> m" "m = min 255 (length (cstr src))" "length dst = 256"
  shows "copy_path src dst j = take j dst @ map (char_at src) [j..<m] @ 0 # drop (Suc m) dst"
  using assms(1,3)
proof (induction "m - j" arbitrary: j dst)
  case 0
  then have j: "j = m" by simp
  then have "\<not> (char_at src j \<noteq> 0 \<and> j < 255)"
    using assms(2) char_at_cstr_end [of src] by (auto simp: min_def split: if_splits)
  then have "copy_path src dst j = dst[j := 0]" by (subst copy_path.simps, intro if_not_P) simp
  then show ?case using j 0 assms(2) by (simp add: upd_conv_take_nth_drop)
next
  case (Suc d)
  then have j: "j < m" by simp
  then have c: "char_at src j \<noteq> 0" "j < 255" using assms(2) char_at_cstr [of j src] by auto
  have "copy_path src dst j = copy_path src (dst[j := char_at src j]) (Suc j)"
    using c by (subst copy_path.simps) simp
  also have "\<dots> = take (Suc j) (dst[j := char_at src j]) @ map (char_at src) [Suc j..<m] @
      0 # drop (Suc m) (dst[j := char_at src j])"
    using Suc.hyps Suc.prems j by (intro Suc.hyps(1)) simp_all
  also have "\<dots> = take j dst @ map (char_at src) [j..<m] @ 0 # drop (Suc m) dst"
    using j c(2) Suc.prems by (simp add: take_Suc_conv_app_nth upt_conv_Cons)
  finally show ?case .
qed

lemma copy_path_spec:
  assumes "length dst = 256"
  shows "cstr (copy_path src dst 0) = take 255 (cstr src)" and "length (copy_path src dst 0) = 256"
    and "copy_path src dst 0 ! length (take 255 (cstr src)) = 0"
proof -
  define m where "m = min 255 (length (cstr src))"
  have "map (char_at src) [0..<m] = take 255 (cstr src)"
    by (rule nth_equalityI) (auto simp: m_def char_at_cstr)
  then have eq: "copy_path src dst 0 = take 255 (cstr src) @ 0 # drop (Suc m) dst"
    using copy_path_eq [of 0 m src dst] assms m_def by simp
  have "0 \<notin> set (take 255 (cstr src))" by (meson in_set_takeD zero_notin_cstr)
  then show "cstr (copy_path src dst 0) = take 255 (cstr src)"
    unfolding eq by (rule cstr_append_0)
  show "length (copy_path src dst 0) = 256" unfolding eq using assms by (simp add: m_def min_def)
  show "copy_path src dst 0 ! length (take 255 (cstr src)) = 0" unfolding eq by (simp only: nth_append_length)
qed

section \<open>The invariant and the abstract file store\<close>

definition kf_ok :: "nat \<Rightarrow> nat \<Rightarrow> kernel_file \<Rightarrow> bool" where
  "kf_ok used i kf \<longleftrightarrow> (kf_in_use kf \<longleftrightarrow> i < used) \<and> length (kf_path kf) = MAX_PATH \<and>
     (i < used \<longrightarrow> kf_id kf = int i + 1 \<and> kf_cache kf = Some (i * PAGE_SIZE) \<and>
        length (cstr (kf_path kf)) < MAX_PATH \<and> i * PAGE_SIZE + unat (kf_size kf) \<le> MAX_FILES * PAGE_SIZE)"

definition fs_inv :: "fs_kernel \<Rightarrow> bool" where
  "fs_inv k \<longleftrightarrow> length (kernel_files k) = MAX_FILES \<and> pool_used k \<le> MAX_FILES \<and>
     next_file_id k = int (pool_used k) + 1 \<and> (\<forall>i < MAX_FILES. kf_ok (pool_used k) i (kernel_files k ! i))"

text \<open>No file has grown past its own cache page.\<close>

definition fs_fits :: "fs_kernel \<Rightarrow> bool" where
  "fs_fits k \<longleftrightarrow> (\<forall>i < pool_used k. unat (kf_size (kernel_files k ! i)) \<le> PAGE_SIZE)"

definition file_bytes :: "fs_kernel \<Rightarrow> nat \<Rightarrow> u8 list" where
  "file_bytes k i = map (\<lambda>j. memory_pool k (i * PAGE_SIZE + j)) [0..<unat (kf_size (kernel_files k ! i))]"

text \<open>What the bridge stores: the bytes under each path, the oldest file of a path first.\<close>

definition fs_files :: "fs_kernel \<Rightarrow> u8 list \<Rightarrow> u8 list option" where
  "fs_files k path = map_option (file_bytes k) (kf_lookup k path)"

definition short_path :: "u8 list \<Rightarrow> u8 list" where
  "short_path path = take (MAX_PATH - 1) (cstr path)"

definition store_upd :: "(u8 list \<Rightarrow> u8 list option) \<Rightarrow> u8 list \<Rightarrow> u8 list \<Rightarrow> u8 list \<Rightarrow> u8 list option" where
  "store_upd m path bs = (\<lambda>q. if cstr q = path then Some bs else m q)"

lemma fs_invD:
  assumes "fs_inv k" and "i < MAX_FILES"
  shows "kf_in_use (kernel_files k ! i) \<longleftrightarrow> i < pool_used k" and "length (kf_path (kernel_files k ! i)) = MAX_PATH"
    and "i < pool_used k \<Longrightarrow> kf_cache (kernel_files k ! i) = Some (i * PAGE_SIZE)"
    and "i < pool_used k \<Longrightarrow> length (cstr (kf_path (kernel_files k ! i))) < MAX_PATH"
    and "i < pool_used k \<Longrightarrow> i * PAGE_SIZE + unat (kf_size (kernel_files k ! i)) \<le> MAX_FILES * PAGE_SIZE"
  using assms by (auto simp: fs_inv_def kf_ok_def)

lemma fs_inv_init: "fs_inv fs_kernel_init"
  by (simp add: fs_inv_def kf_ok_def fs_kernel_init_def kf_zero_def)

lemma cstr_idem [simp]: "cstr (cstr s) = cstr s"
  by (simp add: cstr_def takeWhile_eq_all_conv)

lemma cstr_short_path [simp]: "cstr (short_path p) = short_path p"
proof -
  have "0 \<notin> set (short_path p)" by (metis in_set_takeD short_path_def zero_notin_cstr)
  then show ?thesis by (auto simp: cstr_def takeWhile_eq_all_conv)
qed

lemma kf_lookup_eq:
  assumes "fs_inv k"
  shows "kf_lookup k path = find (\<lambda>i. cstr path = cstr (kf_path (kernel_files k ! i))) [0..<pool_used k]"
proof -
  let ?P = "\<lambda>i. kf_in_use (kernel_files k ! i) \<and> path_match path (kf_path (kernel_files k ! i)) 0"
  have used: "pool_used k \<le> MAX_FILES" using assms by (simp add: fs_inv_def)
  have "find ?P [0..<MAX_FILES] = find ?P [0..<pool_used k]"
    by (rule find_upt_restrict [OF used]) (use fs_invD(1) [OF assms] in blast)
  also have "\<dots> = find (\<lambda>i. cstr path = cstr (kf_path (kernel_files k ! i))) [0..<pool_used k]"
    using used fs_invD(1) [OF assms] by (intro find_cong_on) auto
  finally show ?thesis by (simp only: kf_lookup_def)
qed

lemma kf_lookup_cong: "cstr p = cstr q \<Longrightarrow> kf_lookup k p = kf_lookup k q"
  by (simp add: kf_lookup_def)

lemma kf_lookup_SomeD:
  assumes "fs_inv k" and "kf_lookup k path = Some i"
  shows "i < pool_used k" and "i < MAX_FILES" and "cstr path = cstr (kf_path (kernel_files k ! i))"
proof -
  have "0 \<le> i \<and> i < pool_used k \<and> cstr path = cstr (kf_path (kernel_files k ! i)) \<and>
      (\<forall>j. 0 \<le> j \<and> j < i \<longrightarrow> cstr path \<noteq> cstr (kf_path (kernel_files k ! j)))"
    using assms(2) unfolding kf_lookup_eq [OF assms(1)] by (rule find_upt_SomeD)
  then show "i < pool_used k" "cstr path = cstr (kf_path (kernel_files k ! i))" by simp_all
  then show "i < MAX_FILES" using assms(1) unfolding fs_inv_def by linarith
qed

lemma file_bytes_length [simp]: "length (file_bytes k i) = unat (kf_size (kernel_files k ! i))"
  by (simp add: file_bytes_def)

subsection \<open>Creation\<close>

lemma free_slot:
  assumes "fs_inv k"
  shows "find (\<lambda>i. \<not> kf_in_use (kernel_files k ! i)) [0..<MAX_FILES] =
    (if pool_used k < MAX_FILES then Some (pool_used k) else None)"
proof (cases "find (\<lambda>i. \<not> kf_in_use (kernel_files k ! i)) [0..<MAX_FILES]")
  case None
  then have "\<forall>i. 0 \<le> i \<and> i < MAX_FILES \<longrightarrow> \<not> \<not> kf_in_use (kernel_files k ! i)"
    unfolding find_upt_None_iff .
  then show ?thesis using fs_invD(1) [OF assms, of "pool_used k"] unfolding None by auto
next
  case (Some i)
  from find_upt_SomeD [OF Some] have i: "i < MAX_FILES" "\<not> kf_in_use (kernel_files k ! i)"
    and before: "\<forall>j<i. kf_in_use (kernel_files k ! j)" by auto
  have "\<not> i < pool_used k" "\<not> pool_used k < i"
    using i fs_invD(1) [OF assms] before by (metis less_trans less_irrefl)+
  then have "i = pool_used k" by simp
  then show ?thesis unfolding Some using i by simp
qed

lemma kf_create_eq:
  assumes "fs_inv k" and "pool_used k < MAX_FILES"
  shows "kf_create k path = (next_file_id k,
    \<lparr>kernel_files = (kernel_files k)[pool_used k :=
        (kernel_files k ! pool_used k)\<lparr>kf_in_use := True, kf_id := next_file_id k,
          kf_path := copy_path path (kf_path (kernel_files k ! pool_used k)) 0, kf_size := 0,
          kf_cache := Some (pool_used k * PAGE_SIZE), kf_dirty := True\<rparr>],
     next_file_id = next_file_id k + 1, memory_pool = memory_pool k, pool_used = Suc (pool_used k)\<rparr>)"
  using assms(2) unfolding kf_create_def free_slot [OF assms(1)]
  by (simp add: kmem_alloc_page_def Let_def)

lemma kf_create_full:
  assumes "fs_inv k" and "\<not> pool_used k < MAX_FILES"
  shows "kf_create k path = (FS_ERR, k)"
  using assms(2) unfolding kf_create_def free_slot [OF assms(1)] by simp

lemma kf_create_inv:
  assumes "fs_inv k"
  shows "fs_inv (snd (kf_create k path))"
proof (cases "pool_used k < MAX_FILES")
  case True
  have path: "length (kf_path (kernel_files k ! pool_used k)) = 256" using fs_invD(2) [OF assms True] .
  have "length (take 255 (cstr path)) < 256" by simp
  then show ?thesis
    using True assms copy_path_spec(1,2) [OF path, of path]
    unfolding kf_create_eq [OF assms True] fs_inv_def kf_ok_def
    by (auto simp: nth_list_update less_Suc_eq)
qed (use assms in \<open>simp add: kf_create_full\<close>)

lemma kf_create_files:
  assumes inv: "fs_inv k" and room: "pool_used k < MAX_FILES"
  shows "fs_files (snd (kf_create k path)) =
    (if fs_files k (short_path path) = None then store_upd (fs_files k) (short_path path) [] else fs_files k)"
proof
  fix q
  let ?k = "snd (kf_create k path)" and ?n = "pool_used k"
  have len: "length (kernel_files k) = MAX_FILES" using inv by (simp add: fs_inv_def)
  have eq: "kernel_files ?k ! i = kernel_files k ! i" if "i < ?n" for i
    using that by (simp add: kf_create_eq [OF inv room])
  have new: "cstr (kf_path (kernel_files ?k ! ?n)) = short_path path" "kf_size (kernel_files ?k ! ?n) = 0"
    using len room copy_path_spec(1) [OF fs_invD(2) [OF inv room], of path]
    by (simp_all add: kf_create_eq [OF inv room] short_path_def)
  have pool: "pool_used ?k = Suc ?n" "memory_pool ?k = memory_pool k"
    by (simp_all add: kf_create_eq [OF inv room])
  have bytes: "file_bytes ?k i = file_bytes k i" if "i < ?n" for i
    using eq [OF that] by (simp add: file_bytes_def pool)
  have "find (\<lambda>i. cstr q = cstr (kf_path (kernel_files ?k ! i))) [0..<?n] =
        find (\<lambda>i. cstr q = cstr (kf_path (kernel_files k ! i))) [0..<?n]"
    by (rule find_cong_on) (simp add: eq)
  then have look: "kf_lookup ?k q = (case kf_lookup k q of None \<Rightarrow>
      if cstr q = short_path path then Some ?n else None | Some i \<Rightarrow> Some i)"
    unfolding kf_lookup_eq [OF inv] kf_lookup_eq [OF kf_create_inv [OF inv]] pool
    by (simp add: find_append_eq new split: option.split)
  have "fs_files ?k q = (case fs_files k q of None \<Rightarrow>
      if cstr q = short_path path then Some [] else None | Some bs \<Rightarrow> Some bs)"
    using kf_lookup_SomeD(1) [OF inv, of q] bytes new
    by (auto simp: fs_files_def look file_bytes_def split: option.split)
  moreover have "fs_files k q = fs_files k (short_path path)" if "cstr q = short_path path"
    using that by (simp add: fs_files_def kf_lookup_cong [of q "short_path path"])
  ultimately show "fs_files ?k q = (if fs_files k (short_path path) = None
      then store_upd (fs_files k) (short_path path) [] else fs_files k) q"
    by (auto simp: store_upd_def split: option.split)
qed

subsection \<open>Reading and writing\<close>

text \<open>The state after a successful write of \<open>len\<close> bytes to the file in slot \<open>i\<close>.\<close>

definition written :: "fs_kernel \<Rightarrow> nat \<Rightarrow> u8 list \<Rightarrow> u32 \<Rightarrow> fs_kernel" where
  "written k i buf len = k\<lparr>
     memory_pool := (\<lambda>a. if i * PAGE_SIZE \<le> a \<and> a < i * PAGE_SIZE + unat len
                          then buf ! (a - i * PAGE_SIZE) else memory_pool k a),
     kernel_files := (kernel_files k)[i := (kernel_files k ! i)\<lparr>kf_size := len, kf_dirty := True\<rparr>]\<rparr>"

lemma written_simps [simp]:
  "pool_used (written k i buf len) = pool_used k" "next_file_id (written k i buf len) = next_file_id k"
  "kf_path (kernel_files (written k i buf len) ! j) = kf_path (kernel_files k ! j)"
  "kf_in_use (kernel_files (written k i buf len) ! j) = kf_in_use (kernel_files k ! j)"
  by (cases "i < length (kernel_files k)"; simp add: written_def nth_list_update list_update_beyond)+

lemma kf_lookup_written [simp]: "kf_lookup (written k i buf len) p = kf_lookup k p"
  by (simp only: kf_lookup_def written_simps)

lemma written_inv:
  assumes "fs_inv k" and "i < pool_used k" and "i * PAGE_SIZE + unat len \<le> MAX_FILES * PAGE_SIZE"
  shows "fs_inv (written k i buf len)"
  using assms by (auto simp: fs_inv_def kf_ok_def written_def nth_list_update)

lemma written_fits:
  assumes "fs_inv k" and "fs_fits k" and "unat len \<le> PAGE_SIZE"
  shows "fs_fits (written k i buf len)"
proof -
  have "length (kernel_files k) = MAX_FILES" "pool_used k \<le> MAX_FILES" using assms(1) by (auto simp: fs_inv_def)
  then show ?thesis using assms(2,3)
    by (cases "i < length (kernel_files k)")
       (auto simp: fs_fits_def written_def nth_list_update list_update_beyond)
qed

lemma file_bytes_written_self:
  assumes "i < length (kernel_files k)" and "unat len \<le> length buf"
  shows "file_bytes (written k i buf len) i = take (unat len) buf"
  using assms by (intro nth_equalityI) (auto simp: file_bytes_def written_def)

lemma file_bytes_written_other:
  assumes "fs_fits k" and "j < pool_used k" and "j \<noteq> i" and "unat len \<le> PAGE_SIZE"
  shows "file_bytes (written k i buf len) j = file_bytes k j"
proof -
  have size: "unat (kf_size (kernel_files k ! j)) \<le> PAGE_SIZE" using assms(1,2) by (simp add: fs_fits_def)
  have "\<not> (i * PAGE_SIZE \<le> j * PAGE_SIZE + x \<and> j * PAGE_SIZE + x < i * PAGE_SIZE + unat len)"
    if "x < unat (kf_size (kernel_files k ! j))" for x
  proof (cases "j < i")
    case True
    then have "(j + 1) * PAGE_SIZE \<le> i * PAGE_SIZE" by (intro mult_le_mono1) simp
    then show ?thesis using that size by simp
  next
    case False
    then have "(i + 1) * PAGE_SIZE \<le> j * PAGE_SIZE" using assms(3) by (intro mult_le_mono1) simp
    then show ?thesis using assms(4) by simp
  qed
  then show ?thesis using assms(3) by (auto simp: file_bytes_def written_def)
qed

lemma fs_files_written:
  assumes inv: "fs_inv k" and "fs_fits k" and look: "kf_lookup k p = Some i" and "unat len \<le> PAGE_SIZE"
    and "unat len \<le> length buf"
  shows "fs_files (written k i buf len) = store_upd (fs_files k) (cstr p) (take (unat len) buf)"
proof
  fix q
  have i: "i < length (kernel_files k)" using kf_lookup_SomeD(2) [OF inv look] inv by (simp add: fs_inv_def)
  show "fs_files (written k i buf len) q = store_upd (fs_files k) (cstr p) (take (unat len) buf) q"
  proof (cases "cstr q = cstr p")
    case True
    then show ?thesis
      using look file_bytes_written_self [OF i assms(5)]
      by (simp add: fs_files_def store_upd_def kf_lookup_cong [of q p])
  next
    case False
    have "j \<noteq> i" "j < pool_used k" if "kf_lookup k q = Some j" for j
      using False kf_lookup_SomeD [OF inv look] kf_lookup_SomeD [OF inv that] by auto
    then show ?thesis
      using False assms(2,4) file_bytes_written_other
      by (cases "kf_lookup k q") (auto simp: fs_files_def store_upd_def)
  qed
qed

lemma gui_request_path [simp]: "cstr (rq_path (gui_request t path)) = short_path path"
  by (simp add: gui_request_def copy_path_spec short_path_def)

lemma kf_lookup_request [simp]: "kf_lookup k (rq_path (gui_request t path)) = kf_lookup k (short_path path)"
  by (rule kf_lookup_cong) simp

lemma gui_request_simps [simp]:
  "rq_type (gui_request t path) = t" "rq_buffer (gui_request t path) = []" "rq_length (gui_request t path) = 0"
  by (simp_all add: gui_request_def)

lemma gui_write_eq:
  assumes inv: "fs_inv k" and "unat len \<le> length buf"
  shows "gui_write_file sys_fs_call_impl path buf len k =
    (case kf_lookup k (short_path path) of
       None \<Rightarrow> Some (False, k)
     | Some i \<Rightarrow> if len = 0 \<or> i * PAGE_SIZE + unat len \<le> MAX_FILES * PAGE_SIZE
                  then Some (True, written k i buf len) else None)"
proof (cases "kf_lookup k (short_path path)")
  case None
  then show ?thesis
    by (simp add: gui_write_file_def sys_fs_call_impl_def kernel_fs_dispatch_def fs_dispatch_request_def)
next
  case (Some i)
  have "kf_cache (kernel_files k ! i) = Some (i * PAGE_SIZE)"
    using fs_invD(3) [OF inv] kf_lookup_SomeD [OF inv Some] by simp
  moreover have "unat len = 0 \<longleftrightarrow> len = 0" by (simp add: unat_eq_0)
  moreover have "(\<lambda>a. if i * PAGE_SIZE \<le> a \<and> a < i * PAGE_SIZE + 0 then f a else m a) = m"
    for f m :: "nat \<Rightarrow> u8" by (rule ext) auto
  ultimately show ?thesis using Some assms(2)
    by (simp add: gui_write_file_def sys_fs_call_impl_def kernel_fs_dispatch_def fs_dispatch_request_def
          copy_in_def written_def Let_def)
qed

lemma gui_read_eq:
  assumes inv: "fs_inv k" and "unat len \<le> length buf"
  shows "gui_read_file sys_fs_call_impl path buf len k =
    (case fs_files k (short_path path) of
       None \<Rightarrow> Some (False, buf, k)
     | Some bs \<Rightarrow> Some (True, take (unat len) bs @ drop (length (take (unat len) bs)) buf, k))"
proof (cases "kf_lookup k (short_path path)")
  case None
  then show ?thesis
    by (simp add: gui_read_file_def sys_fs_call_impl_def kernel_fs_dispatch_def fs_dispatch_request_def
          fs_files_def)
next
  case (Some i)
  let ?kf = "kernel_files k ! i"
  note i = kf_lookup_SomeD [OF inv Some]
  have cache: "kf_cache ?kf = Some (i * PAGE_SIZE)" using fs_invD(3) [OF inv i(2,1)] .
  have size: "i * PAGE_SIZE + unat (kf_size ?kf) \<le> MAX_FILES * PAGE_SIZE" using fs_invD(5) [OF inv i(2,1)] .
  define n where "n = (if len > kf_size ?kf then kf_size ?kf else len)"
  have n: "unat n = min (unat len) (unat (kf_size ?kf))" by (auto simp: n_def word_less_nat_alt)
  have "take (unat len) (file_bytes k i) = map (\<lambda>j. memory_pool k (i * PAGE_SIZE + j)) [0..<unat n]"
    by (simp add: file_bytes_def take_map n take_upt min_def)
  then have "copy_out (memory_pool k) (Some (i * PAGE_SIZE)) buf (unat n) =
      Some (take (unat len) (file_bytes k i) @ drop (unat n) buf)"
    using size assms(2) n by (auto simp: copy_out_def)
  moreover have "length (take (unat len) (file_bytes k i)) = unat n" by (simp add: n min.commute)
  ultimately show ?thesis using Some cache
    by (simp add: gui_read_file_def sys_fs_call_impl_def kernel_fs_dispatch_def fs_dispatch_request_def
          fs_files_def Let_def n_def del: file_bytes_length length_take split: if_splits)
qed

section \<open>Properties\<close>

text \<open>The kernel after the GUI has created the file \<open>a\<close>, and then also the file \<open>b\<close>.\<close>

definition one_file :: fs_kernel where
  "one_file = snd (kf_create fs_kernel_init [97])"

definition two_files :: fs_kernel where
  "two_files = snd (kf_create one_file [98])"

lemma one_file_inv: "fs_inv one_file" and two_files_inv: "fs_inv two_files"
  by (simp_all add: one_file_def two_files_def kf_create_inv fs_inv_init)

lemma used_init: "pool_used fs_kernel_init = 0"
  by (simp add: fs_kernel_init_def)

lemma one_file_used: "pool_used one_file = 1"
  by (simp add: one_file_def kf_create_eq [OF fs_inv_init] used_init)

lemma two_files_used: "pool_used two_files = 2"
  by (simp add: two_files_def kf_create_eq [OF one_file_inv] one_file_used)

lemma two_files_first_path: "cstr (kf_path (kernel_files two_files ! 0)) = [97]"
proof -
  have "length (kernel_files fs_kernel_init) = 1024" "length (kf_path (kernel_files fs_kernel_init ! 0)) = 256"
    using fs_inv_init fs_invD(2) [OF fs_inv_init, of 0] by (simp_all add: fs_inv_def)
  then have "cstr (kf_path (kernel_files one_file ! 0)) = [97]"
    by (simp add: one_file_def kf_create_eq [OF fs_inv_init] used_init copy_path_spec)
       (simp add: cstr_def)
  moreover have "kernel_files two_files ! 0 = kernel_files one_file ! 0"
    by (simp add: two_files_def kf_create_eq [OF one_file_inv] one_file_used)
  ultimately show ?thesis by simp
qed

lemma kf_create_fits:
  assumes "fs_inv k" and "fs_fits k"
  shows "fs_fits (snd (kf_create k path))"
proof (cases "pool_used k < MAX_FILES")
  case True
  moreover have "length (kernel_files k) = MAX_FILES" using assms(1) by (simp add: fs_inv_def)
  ultimately show ?thesis
    using assms by (auto simp: fs_fits_def kf_create_eq nth_list_update less_Suc_eq)
qed (use assms in \<open>simp add: kf_create_full\<close>)

lemma short_path_single: "c \<noteq> 0 \<Longrightarrow> short_path [c] = [c]"
  by (simp add: short_path_def cstr_def)

lemma two_files_files:
  "fs_files two_files = store_upd (store_upd (fs_files fs_kernel_init) [97] []) [98] []"
proof -
  have none: "fs_files fs_kernel_init p = None" for p
    by (simp add: fs_files_def kf_lookup_eq [OF fs_inv_init] used_init)
  have "fs_files one_file = store_upd (fs_files fs_kernel_init) [97] []"
    using kf_create_files [OF fs_inv_init, of "[97]"] by (simp add: one_file_def used_init none short_path_single)
  then show ?thesis
    using kf_create_files [OF one_file_inv, of "[98]"]
    by (simp add: two_files_def one_file_used none short_path_single store_upd_def cstr_def)
qed

lemma two_files_fits: "fs_fits two_files"
proof -
  have "fs_fits fs_kernel_init" by (simp add: fs_fits_def used_init)
  then show ?thesis by (simp add: two_files_def one_file_def kf_create_fits fs_inv_init kf_create_inv)
qed

text \<open>
  C11: \<open>gui_create_file\<close> through the kernel's dispatcher never fails to return; it succeeds
  exactly while one of the 1024 slots is free, keeps the invariant, and then the store has an
  empty file under the path cut to 255 bytes, unless that path existed: an existing file keeps
  its contents and the new slot is unreachable.
\<close>

theorem gui_create_file_refines:
  assumes "fs_inv k"
  shows "\<exists>k'. gui_create_file sys_fs_call_impl path k = Some (pool_used k < MAX_FILES, k') \<and> fs_inv k' \<and>
    (fs_fits k \<longrightarrow> fs_fits k') \<and>
    fs_files k' = (if pool_used k < MAX_FILES \<and> fs_files k (short_path path) = None
                   then store_upd (fs_files k) (short_path path) [] else fs_files k)"
proof -
  let ?p = "rq_path (gui_request FS_REQ_CREATE path)"
  let ?k = "snd (kf_create k ?p)"
  have "fst (kf_create k ?p) > 0 \<longleftrightarrow> pool_used k < MAX_FILES"
  proof (cases "pool_used k < MAX_FILES")
    case True
    then show ?thesis using assms by (simp add: kf_create_eq fs_inv_def)
  qed (simp add: kf_create_full [OF assms])
  then have call: "gui_create_file sys_fs_call_impl path k = Some (pool_used k < MAX_FILES, ?k)"
    by (simp add: gui_create_file_def sys_fs_call_impl_def kernel_fs_dispatch_def fs_dispatch_request_def
          split_beta Let_def)
  have path: "short_path ?p = short_path path" by (simp add: short_path_def [of ?p]) (simp add: short_path_def)
  have "fs_files ?k = (if pool_used k < MAX_FILES \<and> fs_files k (short_path path) = None
      then store_upd (fs_files k) (short_path path) [] else fs_files k)"
    using kf_create_files [OF assms, of ?p] kf_create_full [OF assms, of ?p] unfolding path
    by (cases "pool_used k < MAX_FILES") auto
  with call kf_create_inv [OF assms, of ?p] kf_create_fits [OF assms, of ?p] show ?thesis by blast
qed

theorem gui_create_file_refines_witness:
  "\<exists>k'. gui_create_file sys_fs_call_impl [97] fs_kernel_init = Some (True, k') \<and> fs_inv k'"
  using gui_create_file_refines [OF fs_inv_init, of "[97]"] by (auto simp: used_init)

text \<open>
  C12: writing at most one page to a file and reading it back: the write answers true exactly
  when the path names a file, the store then differs from before only in that file, which has
  the bytes written, the invariant and the page bound are kept, and a following read of any
  length up to the buffer's answers the prefix of those bytes that was asked for and leaves the
  rest of the reader's buffer alone.
\<close>

theorem gui_write_read_roundtrip:
  assumes "fs_inv k" and "fs_fits k" and "unat len \<le> length buf" and "unat len \<le> PAGE_SIZE"
    and "unat len' \<le> length buf'"
  shows "\<exists>k'. gui_write_file sys_fs_call_impl path buf len k = Some (fs_files k (short_path path) \<noteq> None, k') \<and>
    fs_inv k' \<and> fs_fits k' \<and>
    fs_files k' = (if fs_files k (short_path path) \<noteq> None
                   then store_upd (fs_files k) (short_path path) (take (unat len) buf) else fs_files k) \<and>
    gui_read_file sys_fs_call_impl path buf' len' k' =
      Some (if fs_files k (short_path path) = None then (False, buf', k')
            else (True, take (unat len') (take (unat len) buf) @ drop (min (unat len') (unat len)) buf', k'))"
proof (cases "kf_lookup k (short_path path)")
  case None
  then have "gui_write_file sys_fs_call_impl path buf len k = Some (False, k)"
    and none: "fs_files k (short_path path) = None"
    by (simp_all add: gui_write_eq [OF assms(1,3)] fs_files_def)
  moreover have "gui_read_file sys_fs_call_impl path buf' len' k = Some (False, buf', k)"
    by (simp add: gui_read_eq [OF assms(1,5)] none)
  ultimately show ?thesis using assms(1,2) by simp
next
  case (Some i)
  note i = kf_lookup_SomeD [OF assms(1) Some]
  have "(i + 1) * PAGE_SIZE \<le> MAX_FILES * PAGE_SIZE" using i(2) by (intro mult_le_mono1) simp
  then have room: "i * PAGE_SIZE + unat len \<le> MAX_FILES * PAGE_SIZE" using assms(4) by simp
  let ?k = "written k i buf len"
  have inv: "fs_inv ?k" by (rule written_inv [OF assms(1) i(1) room])
  have files: "fs_files ?k = store_upd (fs_files k) (short_path path) (take (unat len) buf)"
    using fs_files_written [OF assms(1,2) Some assms(4,3)] by simp
  have "gui_write_file sys_fs_call_impl path buf len k = Some (True, ?k)"
    using room by (simp add: gui_write_eq [OF assms(1,3)] Some)
  moreover have "fs_files k (short_path path) \<noteq> None" by (simp add: fs_files_def Some)
  moreover have "fs_files ?k (short_path path) = Some (take (unat len) buf)"
    by (simp add: files store_upd_def)
  ultimately show ?thesis
    using inv written_fits [OF assms(1,2,4)] files assms(3)
    by (simp add: gui_read_eq [OF inv assms(5)] min_def)
qed

theorem gui_write_read_roundtrip_witness:
  "\<exists>k'. gui_write_file sys_fs_call_impl [97] [104, 105, 33] 3 two_files = Some (True, k') \<and>
    fs_files k' [98] = Some [] \<and> gui_read_file sys_fs_call_impl [97] [0, 0, 9, 9] 2 k' = Some (True, [104, 105, 9, 9], k')"
  using gui_write_read_roundtrip [OF two_files_inv two_files_fits, of 3 "[104, 105, 33]" 2 "[0, 0, 9, 9]" "[97]"]
  by (auto simp: two_files_files short_path_single store_upd_def cstr_def)

text \<open>
  The page bound of the previous property is not enforced by the code: a write of one byte
  more than a page to any file that is not in the last slot is answered with success and its
  last byte becomes the first byte of the next file's cache.
\<close>

theorem oversized_write_hits_next_file:
  assumes "fs_inv k" and "kf_lookup k (short_path path) = Some i" and "Suc i < MAX_FILES" and "length buf = 4097"
  shows "\<exists>k'. gui_write_file sys_fs_call_impl path buf 4097 k = Some (True, k') \<and>
    memory_pool k' (Suc i * PAGE_SIZE) = buf ! PAGE_SIZE \<and>
    (0 < kf_size (kernel_files k ! Suc i) \<longrightarrow> hd (file_bytes k' (Suc i)) = buf ! PAGE_SIZE)"
proof -
  have "(i + 2) * PAGE_SIZE \<le> MAX_FILES * PAGE_SIZE" using assms(3) by (intro mult_le_mono1) simp
  then have "gui_write_file sys_fs_call_impl path buf 4097 k = Some (True, written k i buf 4097)"
    using assms(4) by (simp add: gui_write_eq [OF assms(1)] assms(2))
  moreover have pool: "memory_pool (written k i buf 4097) (Suc i * PAGE_SIZE) = buf ! PAGE_SIZE"
    by (simp add: written_def)
  moreover have "hd (file_bytes (written k i buf 4097) (Suc i)) = buf ! PAGE_SIZE"
    if "0 < kf_size (kernel_files k ! Suc i)"
  proof -
    have "0 < unat (kf_size (kernel_files k ! Suc i))" using that by (simp add: word_less_nat_alt)
    then have "[0..<unat (kf_size (kernel_files k ! Suc i))] = 0 # [1..<unat (kf_size (kernel_files k ! Suc i))]"
      by (simp add: upt_conv_Cons)
    then show ?thesis using pool by (simp add: file_bytes_def written_def)
  qed
  ultimately show ?thesis by blast
qed

theorem oversized_write_hits_next_file_witness:
  "\<exists>k'. gui_write_file sys_fs_call_impl [97] (replicate 4097 7) 4097 two_files = Some (True, k') \<and>
    memory_pool k' 4096 = 7"
proof -
  have "kf_lookup two_files (short_path [97]) = Some 0"
    by (simp add: kf_lookup_eq [OF two_files_inv] two_files_used two_files_first_path numeral_2_eq_2)
       (simp add: short_path_single)
  from oversized_write_hits_next_file [OF two_files_inv this, of "replicate 4097 7"] show ?thesis
    by (auto simp: nth_replicate)
qed

end
