(* ===== verification/Fifo.thy ===== *)
theory Fifo
  imports Prelude
begin

text \<open>
  The contract of the kernel's byte channels (pipes, pseudo-terminal buffers, raw terminal
  input, the terminal of the reference contract).  Each of them is a ring with a routine that
  stores one byte and one that takes one byte; their transfer routines are the loops \<open>fill\<close>
  and \<open>drain\<close> over these.  The locale \<open>byte_fifo\<close> states what the single steps promise and
  derives what the loops, and any interleaving of them, do; each channel's theory interprets it.
\<close>

section \<open>The transfer loops\<close>

text \<open>
  \<open>while (written < size) { if (full) break; store(buf[written++]); }\<close>: the answer is the
  number of bytes stored and the new state.  \<open>put\<close> answers \<open>None\<close> when the loop stops.
\<close>

fun fill :: "('s \<Rightarrow> u8 \<Rightarrow> 's option) \<Rightarrow> 's \<Rightarrow> u8 list \<Rightarrow> nat \<times> 's" where
  "fill put s [] = (0, s)"
| "fill put s (c # cs) =
     (case put s c of
        None \<Rightarrow> (0, s)
      | Some s' \<Rightarrow> (let (n, s'') = fill put s' cs in (Suc n, s'')))"

text \<open>\<open>while (read < size && !empty) buf[read++] = take();\<close>\<close>

fun drain :: "('s \<Rightarrow> (u8 \<times> 's) option) \<Rightarrow> 's \<Rightarrow> nat \<Rightarrow> u8 list \<times> 's" where
  "drain get s 0 = ([], s)"
| "drain get s (Suc n) =
     (case get s of
        None \<Rightarrow> ([], s)
      | Some (c, s') \<Rightarrow> (let (cs, s'') = drain get s' n in (c # cs, s'')))"

lemma drain_numeral [simp]:
  "drain get s (numeral k) =
     (case get s of
        None \<Rightarrow> ([], s)
      | Some (c, s') \<Rightarrow> (let (cs, s'') = drain get s' (pred_numeral k) in (c # cs, s'')))"
  by (simp add: numeral_eq_Suc)

text \<open>A schedule of transfers, with the bytes accepted and the bytes delivered on the way.\<close>

datatype transfer = Send "u8 list" | Receive nat

fun transfers ::
    "('s \<Rightarrow> u8 \<Rightarrow> 's option) \<Rightarrow> ('s \<Rightarrow> (u8 \<times> 's) option) \<Rightarrow> transfer list \<Rightarrow> 's \<Rightarrow> u8 list \<times> u8 list \<times> 's" where
  "transfers put get [] s = ([], [], s)"
| "transfers put get (Send bs # ts) s =
     (let (n, s1) = fill put s bs; (sent, got, s2) = transfers put get ts s1
      in (take n bs @ sent, got, s2))"
| "transfers put get (Receive n # ts) s =
     (let (bs, s1) = drain get s n; (sent, got, s2) = transfers put get ts s1
      in (sent, bs @ got, s2))"

section \<open>The contract\<close>

locale byte_fifo =
  fixes put :: "'s \<Rightarrow> u8 \<Rightarrow> 's option"
    and get :: "'s \<Rightarrow> (u8 \<times> 's) option"
    and contents :: "'s \<Rightarrow> u8 list"
    and room :: "'s \<Rightarrow> nat"
    and inv :: "'s \<Rightarrow> bool"
  assumes put_ok: "inv s \<Longrightarrow> 0 < room s \<Longrightarrow>
      \<exists>s'. put s c = Some s' \<and> inv s' \<and> contents s' = contents s @ [c] \<and> room s' = room s - 1"
    and get_None: "inv s \<Longrightarrow> get s = None \<longleftrightarrow> contents s = []"
    and get_Some: "inv s \<Longrightarrow> get s = Some (c, s') \<Longrightarrow>
      inv s' \<and> contents s = c # contents s' \<and> room s \<le> room s'"
begin

lemma fill_fits:
  assumes "inv s" and "length bs \<le> room s"
  shows "\<exists>s'. fill put s bs = (length bs, s') \<and> inv s' \<and> contents s' = contents s @ bs \<and>
    room s' = room s - length bs"
  using assms
proof (induction bs arbitrary: s)
  case (Cons c cs)
  from put_ok [OF Cons.prems(1), of c] Cons.prems(2)
  obtain s1 where s1: "put s c = Some s1" "inv s1" "contents s1 = contents s @ [c]" "room s1 = room s - 1"
    by auto
  from Cons.prems(2) s1(4) have "length cs \<le> room s1" by simp
  from Cons.IH [OF s1(2) this] obtain s2 where "fill put s1 cs = (length cs, s2)" "inv s2"
    "contents s2 = contents s1 @ cs" "room s2 = room s1 - length cs" by auto
  with s1 show ?case by simp
qed simp

lemma drain_spec:
  assumes "inv s"
  shows "\<exists>s'. drain get s n = (take n (contents s), s') \<and> inv s' \<and> contents s' = drop n (contents s) \<and>
    room s \<le> room s'"
  using assms
proof (induction n arbitrary: s)
  case (Suc n)
  show ?case
  proof (cases "get s")
    case None
    then show ?thesis using get_None [OF Suc.prems] Suc.prems by simp
  next
    case (Some p)
    then obtain c s1 where p: "get s = Some (c, s1)" by (cases p) auto
    note g = get_Some [OF Suc.prems p]
    then have "inv s1" by simp
    from Suc.IH [OF this] obtain s2 where "drain get s1 n = (take n (contents s1), s2)" "inv s2"
      "contents s2 = drop n (contents s1)" "room s1 \<le> room s2" by auto
    then show ?thesis using p g by simp
  qed
qed simp

lemma fill_drain:
  assumes "inv s" and "contents s = []" and "length bs \<le> room s"
  shows "\<exists>s'. fill put s bs = (length bs, s') \<and> fst (drain get s' n) = take n bs"
  using fill_fits [OF assms(1,3)] drain_spec [of _ n] assms(2) by (metis append_Nil fst_conv)

end

text \<open>A channel that refuses bytes exactly when it has no room.\<close>

locale bounded_byte_fifo = byte_fifo +
  assumes put_full: "inv s \<Longrightarrow> room s = 0 \<Longrightarrow> put s c = None"
begin

lemma fill_spec:
  assumes "inv s"
  shows "\<exists>s'. fill put s bs = (min (length bs) (room s), s') \<and> inv s' \<and>
    contents s' = contents s @ take (room s) bs \<and> room s' = room s - length bs"
  using assms
proof (induction bs arbitrary: s)
  case (Cons c cs)
  show ?case
  proof (cases "room s")
    case 0
    then show ?thesis using put_full [OF Cons.prems] Cons.prems by simp
  next
    case (Suc r)
    then obtain s1 where s1: "put s c = Some s1" "inv s1" "contents s1 = contents s @ [c]" "room s1 = r"
      using put_ok [OF Cons.prems, of c] by auto
    from Cons.IH [OF s1(2)] obtain s2 where "fill put s1 cs = (min (length cs) r, s2)" "inv s2"
      "contents s2 = contents s1 @ take r cs" "room s2 = r - length cs" by (auto simp: s1(4))
    then show ?thesis using s1 Suc by simp
  qed
qed simp

text \<open>Whatever the schedule, the bytes delivered and those still inside are the bytes accepted, in order.\<close>

lemma transfers_in_order:
  assumes "inv s" and "transfers put get ts s = (sent, got, s')"
  shows "inv s' \<and> contents s @ sent = got @ contents s'"
  using assms
proof (induction ts arbitrary: s sent got s')
  case (Cons t ts)
  show ?case
  proof (cases t)
    case (Send bs)
    obtain s1 where s1: "fill put s bs = (min (length bs) (room s), s1)" "inv s1"
        "contents s1 = contents s @ take (room s) bs"
      using fill_spec [OF Cons.prems(1)] by metis
    obtain sent1 got1 s2 where t: "transfers put get ts s1 = (sent1, got1, s2)" by (metis prod_cases3)
    have "take (min (length bs) (room s)) bs = take (room s) bs" by (simp add: min_def)
    then have "s' = s2" "got = got1" "sent = take (room s) bs @ sent1"
      using Cons.prems(2) s1(1) t by (simp_all add: Send)
    then show ?thesis using Cons.IH [OF s1(2) t] s1(3) by simp
  next
    case (Receive n)
    obtain s1 where s1: "drain get s n = (take n (contents s), s1)" "inv s1" "contents s1 = drop n (contents s)"
      using drain_spec [OF Cons.prems(1)] by metis
    obtain sent1 got1 s2 where t: "transfers put get ts s1 = (sent1, got1, s2)" by (metis prod_cases3)
    have eq: "s' = s2" "got = take n (contents s) @ got1" "sent = sent1"
      using Cons.prems(2) s1(1) t by (simp_all add: Receive)
    have "contents s @ sent = take n (contents s) @ (contents s1 @ sent1)" by (simp add: s1(3) eq(3))
    then show ?thesis using Cons.IH [OF s1(2) t] by (simp add: eq)
  qed
qed simp

end

section \<open>Rings\<close>

text \<open>The bytes of a ring \<open>buf\<close> of \<open>n\<close> cells between index \<open>i\<close> and \<open>k\<close> cells later.\<close>

definition ring_slice :: "u8 list \<Rightarrow> nat \<Rightarrow> nat \<Rightarrow> u8 list" where
  "ring_slice buf i k = map (\<lambda>j. buf ! ((i + j) mod length buf)) [0..<k]"

lemma ring_slice_length [simp]: "length (ring_slice buf i k) = k"
  by (simp add: ring_slice_def)

lemma ring_slice_0 [simp]: "ring_slice buf i 0 = []"
  by (simp add: ring_slice_def)

lemma ring_slice_Suc: "ring_slice buf i (Suc k) = ring_slice buf i k @ [buf ! ((i + k) mod length buf)]"
  by (simp add: ring_slice_def)

lemma ring_slice_mod: "ring_slice buf (i mod length buf) k = ring_slice buf i k"
  by (simp add: ring_slice_def mod_add_left_eq)

lemma ring_slice_rec: "ring_slice buf i (Suc k) = buf ! (i mod length buf) # ring_slice buf (Suc i) k"
  by (rule nth_equalityI) (auto simp: ring_slice_def nth_Cons' simp del: upt_Suc split: nat.split)

lemma mod_add_cancel_less:
  fixes i j k n :: nat
  assumes "j < n" and "k < n" and "(i + j) mod n = (i + k) mod n"
  shows "j = k"
proof -
  have no: False if "a < b" "b < n" "(i + b) mod n = (i + a) mod n" for a b
  proof -
    have "n dvd (i + b) - (i + a)" using that by (subst mod_eq_dvd_iff_nat [symmetric]) simp_all
    then have "n dvd b - a" by simp
    with that show False by (auto dest: dvd_imp_le)
  qed
  from no [of j k] no [of k j] assms show ?thesis by (cases j k rule: linorder_cases) auto
qed

lemma ring_slice_update:
  assumes "k < length buf"
  shows "ring_slice (buf[(i + k) mod length buf := c]) i (Suc k) = ring_slice buf i k @ [c]"
proof -
  have ne: "(i + j) mod length buf \<noteq> (i + k) mod length buf" if "j < k" for j
    using mod_add_cancel_less [of j "length buf" k i] that assms by auto
  have "0 < length buf" using assms by linarith
  then have "(i + k) mod length buf < length buf" by simp
  with ne show ?thesis by (auto simp: ring_slice_def nth_list_update) metis
qed

end
