(* ===== verification/WaitQueue.thy ===== *)
theory WaitQueue
  imports Prelude
begin

text \<open>
  Processes as the blocking primitives see them, and the wait queues
  (\<open>src/src/kernel/wait_queue.cpp\<close>).  The processes are a list in the order of the ready
  queue's \<open>next\<close> pointers and a process pointer is a position in it; a wait queue, a linked
  list from \<open>head\<close> to \<open>tail\<close>, is the list of its entries' processes.
\<close>

datatype process_state =
  PROCESS_RUNNING | PROCESS_READY | PROCESS_ZOMBIE | PROCESS_WAITING | PROCESS_SLEEPING

text \<open>The walk over the ready queue that ends each pipe operation.\<close>

definition wake_waiting :: "process_state list \<Rightarrow> process_state list" where
  "wake_waiting ps = map (\<lambda>s. if s = PROCESS_WAITING then PROCESS_READY else s) ps"

lemma wake_waiting_none [simp]: "PROCESS_WAITING \<notin> set (wake_waiting ps)"
  by (auto simp: wake_waiting_def)

record process =
  proc_id :: u32
  proc_state :: process_state
  proc_pending :: u64

definition set_state :: "nat \<Rightarrow> process_state \<Rightarrow> process list \<Rightarrow> process list" where
  "set_state i st ps = ps[i := (ps ! i)\<lparr>proc_state := st\<rparr>]"

type_synonym wait_queue = "nat list"

text \<open>The flag is whether \<open>kmalloc\<close> has memory for the entry; without it the call returns at once.\<close>

definition sleep_on :: "nat \<Rightarrow> bool \<Rightarrow> wait_queue \<Rightarrow> process list \<Rightarrow> wait_queue \<times> process list" where
  "sleep_on me mem wq ps = (if mem then (wq @ [me], set_state me PROCESS_WAITING ps) else (wq, ps))"

fun wake_up :: "wait_queue \<Rightarrow> process list \<Rightarrow> wait_queue \<times> process list" where
  "wake_up [] ps = ([], ps)"
| "wake_up (p # wq) ps = (wq, set_state p PROCESS_READY ps)"

fun wake_up_all :: "wait_queue \<Rightarrow> process list \<Rightarrow> wait_queue \<times> process list" where
  "wake_up_all [] ps = ([], ps)"
| "wake_up_all (p # wq) ps = wake_up_all wq (set_state p PROCESS_READY ps)"

definition wait_queue_empty :: "wait_queue \<Rightarrow> bool" where
  "wait_queue_empty wq \<longleftrightarrow> wq = []"

text \<open>Every sleeper is entered once, and exactly the entered processes are waiting.\<close>

definition wq_inv :: "wait_queue \<Rightarrow> process list \<Rightarrow> bool" where
  "wq_inv wq ps \<longleftrightarrow> distinct wq \<and> set wq \<subseteq> {..<length ps} \<and>
     (\<forall>i \<in> set wq. proc_state (ps ! i) = PROCESS_WAITING)"

lemma set_state_simps [simp]:
  "length (set_state i st ps) = length ps"
  "i < length ps \<Longrightarrow> proc_state (set_state i st ps ! j) = (if j = i then st else proc_state (ps ! j))"
  "proc_id (set_state i st ps ! j) = proc_id (ps ! j)"
  "proc_pending (set_state i st ps ! j) = proc_pending (ps ! j)"
  by (cases "i < length ps"; auto simp: set_state_def nth_list_update list_update_beyond)+

lemma wake_up_inv [inv_intros]: "wq_inv wq ps \<Longrightarrow> wake_up wq ps = (wq', ps') \<Longrightarrow> wq_inv wq' ps'"
  by (cases wq) (auto simp: wq_inv_def)

lemma sleep_on_inv [inv_intros]:
  "wq_inv wq ps \<Longrightarrow> me < length ps \<Longrightarrow> me \<notin> set wq \<Longrightarrow> sleep_on me mem wq ps = (wq', ps') \<Longrightarrow> wq_inv wq' ps'"
  by (auto simp: wq_inv_def sleep_on_def split: if_splits)

lemma wake_up_length: "wake_up wq ps = (wq', ps') \<Longrightarrow> length ps' = length ps"
  by (cases wq) auto

lemma wake_up_all_spec:
  "set wq \<subseteq> {..<length ps} \<Longrightarrow> \<exists>ps'. wake_up_all wq ps = ([], ps') \<and> length ps' = length ps \<and>
    (\<forall>i < length ps. proc_state (ps' ! i) = (if i \<in> set wq then PROCESS_READY else proc_state (ps ! i)))"
proof (induction wq ps rule: wake_up_all.induct)
  case (2 p wq ps)
  then obtain ps' where "wake_up_all wq (set_state p PROCESS_READY ps) = ([], ps')" "length ps' = length ps"
    "\<forall>i < length ps. proc_state (ps' ! i) =
       (if i \<in> set wq then PROCESS_READY else proc_state (set_state p PROCESS_READY ps ! i))" by auto
  then show ?case using 2(2) by auto
qed simp

end
