(* ===== verification/Pipe.thy ===== *)
theory Pipe
  imports Fifo WaitQueue
begin

text \<open>
  Pipes (\<open>src/src/kernel/pipe.cpp\<close>): the 4096-byte ring that keeps one cell empty, the two
  transfer calls with their blocking conditions and the wake-up of waiting processes, closing,
  and \<open>sys_pipe\<close>.  A call that cannot proceed marks the current process as waiting and enters
  the scheduler; the model then answers \<open>None\<close>, and the loop of the call is run again when the
  process continues.
\<close>

section \<open>State\<close>

abbreviation PIPE_SIZE :: nat where "PIPE_SIZE \<equiv> 4096"

record pipe =
  pipe_buffer :: "u8 list"
  pipe_head :: nat
  pipe_tail :: nat
  pipe_read_closed :: bool
  pipe_write_closed :: bool

section \<open>Operations\<close>

text \<open>One round of the loops: take the byte at \<open>head\<close>; store a byte at \<open>tail\<close>.\<close>

definition pipe_get :: "pipe \<Rightarrow> (u8 \<times> pipe) option" where
  "pipe_get p =
     (if pipe_head p = pipe_tail p then None
      else Some (pipe_buffer p ! pipe_head p, p\<lparr>pipe_head := (pipe_head p + 1) mod PIPE_SIZE\<rparr>))"

definition pipe_put :: "pipe \<Rightarrow> u8 \<Rightarrow> pipe option" where
  "pipe_put p c =
     (let next_tail = (pipe_tail p + 1) mod PIPE_SIZE
      in if next_tail = pipe_head p then None
         else Some (p\<lparr>pipe_buffer := (pipe_buffer p)[pipe_tail p := c], pipe_tail := next_tail\<rparr>))"

text \<open>The current process is number \<open>me\<close> of the ready queue.\<close>

definition pipe_read_loop ::
    "nat \<Rightarrow> u32 \<Rightarrow> pipe \<Rightarrow> process_state list \<Rightarrow> u8 list option \<times> pipe \<times> process_state list" where
  "pipe_read_loop me sz p ps =
     (if 0 < sz \<and> pipe_head p = pipe_tail p \<and> \<not> pipe_write_closed p
      then (None, p, ps[me := PROCESS_WAITING])
      else (let (bs, p') = drain pipe_get p (unat sz) in (Some bs, p', wake_waiting ps)))"

definition pipe_read ::
    "nat \<Rightarrow> u32 \<Rightarrow> pipe \<Rightarrow> process_state list \<Rightarrow> u8 list option \<times> pipe \<times> process_state list" where
  "pipe_read me sz p ps =
     (if pipe_read_closed p then (Some [], p, ps) else pipe_read_loop me sz p ps)"

definition pipe_write_loop ::
    "nat \<Rightarrow> u8 list \<Rightarrow> pipe \<Rightarrow> process_state list \<Rightarrow> nat option \<times> pipe \<times> process_state list" where
  "pipe_write_loop me bs p ps =
     (if bs \<noteq> [] \<and> (pipe_tail p + 1) mod PIPE_SIZE = pipe_head p
      then (None, p, ps[me := PROCESS_WAITING])
      else (let (n, p') = fill pipe_put p bs in (Some n, p', wake_waiting ps)))"

definition pipe_write ::
    "nat \<Rightarrow> u8 list \<Rightarrow> pipe \<Rightarrow> process_state list \<Rightarrow> nat option \<times> pipe \<times> process_state list" where
  "pipe_write me bs p ps =
     (if pipe_write_closed p \<or> pipe_read_closed p then (Some 0, p, ps) else pipe_write_loop me bs p ps)"

text \<open>Closing one end; \<open>None\<close> when the second end closes and the pipe is freed.\<close>

definition pipe_close :: "u32 \<Rightarrow> pipe \<Rightarrow> process_state list \<Rightarrow> pipe option \<times> process_state list" where
  "pipe_close flags p ps =
     (let p1 = (if flags AND 1 \<noteq> 0 then p\<lparr>pipe_read_closed := True\<rparr> else p);
          p2 = (if flags AND 2 \<noteq> 0 then p1\<lparr>pipe_write_closed := True\<rparr> else p1)
      in (if pipe_read_closed p2 \<and> pipe_write_closed p2 then None else Some p2, wake_waiting ps))"

subsection \<open>The system call\<close>

text \<open>
  Pipes and file descriptions are kernel-heap objects addressed by their position; a slot of
  the descriptor table is null or the address of a description.  A node is the pipe it belongs
  to and its side (\<open>flags\<close> 1 for the reading, 2 for the writing end).
\<close>

abbreviation MAX_PROCESS_FILES :: nat where "MAX_PROCESS_FILES \<equiv> 16"

record pipe_node =
  node_impl :: nat
  node_flags :: u32
  node_ref_count :: u32

record pipe_desc =
  desc_node :: pipe_node
  desc_offset :: u64
  desc_flags :: u32
  desc_ref_count :: u32

record pipe_files =
  pipe_heap :: "pipe list"
  desc_heap :: "pipe_desc list"
  proc_fds :: "nat option list"

definition new_pipe :: "u8 list \<Rightarrow> pipe" where
  "new_pipe mem = \<lparr>pipe_buffer = mem, pipe_head = 0, pipe_tail = 0,
                   pipe_read_closed = False, pipe_write_closed = False\<rparr>"

text \<open>The scan for two free slots, with the local variables \<open>f1\<close> and \<open>f2\<close>.\<close>

fun two_free_fds :: "'a option list \<Rightarrow> nat list \<Rightarrow> int \<Rightarrow> int \<Rightarrow> int \<times> int" where
  "two_free_fds fds [] f1 f2 = (f1, f2)"
| "two_free_fds fds (i # is) f1 f2 =
     (if fds ! i = None then
        if f1 = -1 then two_free_fds fds is (int i) f2
        else if f2 = -1 then (f1, int i)
        else two_free_fds fds is f1 f2
      else two_free_fds fds is f1 f2)"

text \<open>
  \<open>filedes\<close> may be null; \<open>pipe_mem\<close> and \<open>buf_mem\<close> are what the two checked calls of
  \<open>kmalloc\<close> answer (the buffer with the bytes the heap had there).  The answer is the return
  value and what is stored through \<open>filedes\<close>.
\<close>

definition sys_pipe ::
    "bool \<Rightarrow> bool \<Rightarrow> u8 list option \<Rightarrow> pipe_files \<Rightarrow> int \<times> (u32 \<times> u32) option \<times> pipe_files" where
  "sys_pipe filedes pipe_mem buf_mem s =
     (if \<not> filedes \<or> \<not> pipe_mem then (-1, None, s)
      else case buf_mem of
        None \<Rightarrow> (-1, None, s)
      | Some mem \<Rightarrow>
          (let pipe = length (pipe_heap s);
               read_node = \<lparr>node_impl = pipe, node_flags = 1, node_ref_count = 1\<rparr>;
               write_node = \<lparr>node_impl = pipe, node_flags = 2, node_ref_count = 1\<rparr>;
               (f1, f2) = two_free_fds (proc_fds s) [0..<MAX_PROCESS_FILES] (-1) (-1)
           in if f1 = -1 \<or> f2 = -1 then (-1, None, s)
              else (let d = length (desc_heap s);
                        desc1 = \<lparr>desc_node = read_node, desc_offset = 0, desc_flags = 0, desc_ref_count = 1\<rparr>;
                        desc2 = \<lparr>desc_node = write_node, desc_offset = 0, desc_flags = 1, desc_ref_count = 1\<rparr>
                    in (0, Some (of_int f1, of_int f2),
                        \<lparr>pipe_heap = pipe_heap s @ [new_pipe mem],
                         desc_heap = desc_heap s @ [desc1, desc2],
                         proc_fds = (proc_fds s)[nat f1 := Some d, nat f2 := Some (Suc d)]\<rparr>))))"

section \<open>The ring as a queue\<close>

definition pipe_count :: "pipe \<Rightarrow> nat" where
  "pipe_count p = (pipe_tail p + PIPE_SIZE - pipe_head p) mod PIPE_SIZE"

definition pipe_contents :: "pipe \<Rightarrow> u8 list" where
  "pipe_contents p = ring_slice (pipe_buffer p) (pipe_head p) (pipe_count p)"

definition pipe_room :: "pipe \<Rightarrow> nat" where
  "pipe_room p = PIPE_SIZE - 1 - pipe_count p"

definition pipe_inv :: "pipe \<Rightarrow> bool" where
  "pipe_inv p \<longleftrightarrow> length (pipe_buffer p) = PIPE_SIZE \<and> pipe_head p < PIPE_SIZE \<and> pipe_tail p < PIPE_SIZE"

lemma pipe_count_less: "pipe_count p < PIPE_SIZE"
  by (simp add: pipe_count_def)

lemma pipe_count_0: "pipe_inv p \<Longrightarrow> pipe_count p = 0 \<longleftrightarrow> pipe_head p = pipe_tail p"
  unfolding pipe_count_def pipe_inv_def
  by (cases "pipe_head p \<le> pipe_tail p") (auto simp: mod_if)

lemma pipe_tail_eq: "pipe_inv p \<Longrightarrow> pipe_tail p = (pipe_head p + pipe_count p) mod PIPE_SIZE"
  unfolding pipe_count_def pipe_inv_def
  by (cases "pipe_head p \<le> pipe_tail p") (auto simp: mod_if)

lemma pipe_full: "pipe_inv p \<Longrightarrow> (pipe_tail p + 1) mod PIPE_SIZE = pipe_head p \<longleftrightarrow> pipe_room p = 0"
  unfolding pipe_room_def pipe_count_def pipe_inv_def
  by (cases "pipe_head p \<le> pipe_tail p") (auto simp: mod_if)

lemma pipe_put_ok:
  assumes inv: "pipe_inv p" and "0 < pipe_room p"
  shows "\<exists>p'. pipe_put p c = Some p' \<and> pipe_inv p' \<and> pipe_contents p' = pipe_contents p @ [c] \<and>
    pipe_room p' = pipe_room p - 1"
proof -
  let ?p = "p\<lparr>pipe_buffer := (pipe_buffer p)[pipe_tail p := c], pipe_tail := (pipe_tail p + 1) mod PIPE_SIZE\<rparr>"
  have put: "pipe_put p c = Some ?p"
    using pipe_full [OF inv] assms(2) by (simp add: pipe_put_def Let_def)
  have count: "pipe_count ?p = Suc (pipe_count p)"
    using assms unfolding pipe_count_def pipe_inv_def pipe_room_def
    by (cases "pipe_head p \<le> pipe_tail p") (auto simp: mod_if split: if_splits)
  have "pipe_contents ?p = pipe_contents p @ [c]"
    using ring_slice_update [of "pipe_count p" "pipe_buffer p" "pipe_head p" c] pipe_count_less [of p]
      inv pipe_tail_eq [OF inv] unfolding pipe_contents_def count by (simp add: pipe_inv_def)
  then show ?thesis using put inv count by (simp add: pipe_inv_def pipe_room_def)
qed

lemma pipe_get_Some:
  assumes inv: "pipe_inv p" and "pipe_get p = Some (c, p')"
  shows "pipe_inv p' \<and> pipe_contents p = c # pipe_contents p' \<and> pipe_room p \<le> pipe_room p'"
proof -
  have ne: "pipe_head p \<noteq> pipe_tail p" and c: "c = pipe_buffer p ! pipe_head p"
    and p': "p' = p\<lparr>pipe_head := (pipe_head p + 1) mod PIPE_SIZE\<rparr>"
    using assms(2) by (auto simp: pipe_get_def split: if_splits)
  have count: "pipe_count p = Suc (pipe_count p')"
    using inv ne unfolding p' pipe_count_def pipe_inv_def
    by (cases "pipe_head p \<le> pipe_tail p") (auto simp: mod_if split: if_splits)
  have len: "length (pipe_buffer p) = PIPE_SIZE" "pipe_head p < PIPE_SIZE" using inv by (simp_all add: pipe_inv_def)
  have "pipe_contents p = c # ring_slice (pipe_buffer p) (Suc (pipe_head p)) (pipe_count p')"
    using len by (simp add: pipe_contents_def count ring_slice_rec c)
  moreover have "ring_slice (pipe_buffer p) (Suc (pipe_head p)) (pipe_count p') = pipe_contents p'"
    using ring_slice_mod [of "pipe_buffer p" "Suc (pipe_head p)"] len by (simp add: pipe_contents_def p')
  ultimately show ?thesis using inv count by (simp add: pipe_inv_def p' pipe_room_def)
qed

interpretation pipe_fifo: bounded_byte_fifo pipe_put pipe_get pipe_contents pipe_room pipe_inv
proof unfold_locales
  show "(pipe_get s = None) = (pipe_contents s = [])" if "pipe_inv s" for s
    using pipe_count_0 [OF that] by (auto simp: pipe_get_def pipe_contents_def ring_slice_def)
  show "pipe_put s c = None" if "pipe_inv s" "pipe_room s = 0" for s c
    using pipe_full [OF that(1)] that(2) by (simp add: pipe_put_def Let_def)
qed (use pipe_put_ok pipe_get_Some in blast)+

section \<open>The calls\<close>

lemma pipe_room_contents: "pipe_room p = PIPE_SIZE - 1 - length (pipe_contents p)"
  by (simp add: pipe_room_def pipe_contents_def)

lemma pipe_contents_bound: "length (pipe_contents p) \<le> PIPE_SIZE - 1"
  using pipe_count_less [of p] by (simp add: pipe_contents_def)

lemma pipe_empty: "pipe_inv p \<Longrightarrow> pipe_head p = pipe_tail p \<longleftrightarrow> pipe_contents p = []"
  using pipe_count_0 [of p] by (auto simp: pipe_contents_def ring_slice_def)

lemma pipe_put_closed:
  "pipe_put p c = Some p' \<Longrightarrow> pipe_read_closed p' = pipe_read_closed p \<and> pipe_write_closed p' = pipe_write_closed p"
  by (auto simp: pipe_put_def Let_def split: if_splits)

lemma pipe_read_loop_spec:
  assumes "pipe_inv p"
  shows "\<exists>p'. pipe_read_loop me sz p ps =
    (if 0 < sz \<and> pipe_contents p = [] \<and> \<not> pipe_write_closed p then (None, p, ps[me := PROCESS_WAITING])
     else (Some (take (unat sz) (pipe_contents p)), p', wake_waiting ps)) \<and>
    pipe_inv p' \<and> pipe_contents p' = drop (unat sz) (pipe_contents p)"
proof -
  obtain p' where "drain pipe_get p (unat sz) = (take (unat sz) (pipe_contents p), p')" "pipe_inv p'"
    "pipe_contents p' = drop (unat sz) (pipe_contents p)"
    using pipe_fifo.drain_spec [OF assms] by metis
  then show ?thesis using pipe_empty [OF assms] by (auto simp: pipe_read_loop_def)
qed

lemma pipe_write_loop_spec:
  assumes "pipe_inv p"
  shows "\<exists>p'. pipe_write_loop me bs p ps =
    (if bs \<noteq> [] \<and> pipe_room p = 0 then (None, p, ps[me := PROCESS_WAITING])
     else (Some (min (length bs) (pipe_room p)), p', wake_waiting ps)) \<and>
    pipe_inv p' \<and> pipe_contents p' = pipe_contents p @ take (pipe_room p) bs"
proof -
  obtain p' where "fill pipe_put p bs = (min (length bs) (pipe_room p), p')" "pipe_inv p'"
    "pipe_contents p' = pipe_contents p @ take (pipe_room p) bs"
    using pipe_fifo.fill_spec [OF assms] by metis
  then show ?thesis using pipe_full [OF assms] by (auto simp: pipe_write_loop_def)
qed

text \<open>A history of calls made by the processes, with the bytes accepted and delivered.\<close>

datatype pipe_call = PipeRead nat u32 | PipeWrite nat "u8 list"

fun pipe_calls ::
    "pipe_call list \<Rightarrow> pipe \<Rightarrow> process_state list \<Rightarrow> u8 list \<times> u8 list \<times> pipe \<times> process_state list" where
  "pipe_calls [] p ps = ([], [], p, ps)"
| "pipe_calls (PipeRead me sz # cs) p ps =
     (let (r, p1, ps1) = pipe_read me sz p ps; (sent, got, q) = pipe_calls cs p1 ps1
      in (sent, (case r of None \<Rightarrow> [] | Some bs \<Rightarrow> bs) @ got, q))"
| "pipe_calls (PipeWrite me bs # cs) p ps =
     (let (r, p1, ps1) = pipe_write me bs p ps; (sent, got, q) = pipe_calls cs p1 ps1
      in (take (case r of None \<Rightarrow> 0 | Some n \<Rightarrow> n) bs @ sent, got, q))"

lemma pipe_read_step:
  assumes "pipe_inv p" and "pipe_read me sz p ps = (r, p1, ps1)"
  shows "pipe_inv p1 \<and> pipe_contents p = (case r of None \<Rightarrow> [] | Some bs \<Rightarrow> bs) @ pipe_contents p1"
  using assms pipe_read_loop_spec [OF assms(1), of me sz ps] unfolding pipe_read_def
  by (auto split: if_splits)

lemma pipe_write_step:
  assumes "pipe_inv p" and "pipe_write me bs p ps = (r, p1, ps1)"
  shows "pipe_inv p1 \<and> pipe_contents p1 = pipe_contents p @ take (case r of None \<Rightarrow> 0 | Some n \<Rightarrow> n) bs"
proof -
  have "take (min (length bs) n) bs = take n bs" for n by (simp add: min_def)
  then show ?thesis
    using assms pipe_write_loop_spec [OF assms(1), of me bs ps] unfolding pipe_write_def
    by (auto split: if_splits)
qed

lemma new_pipe_inv: "length mem = PIPE_SIZE \<Longrightarrow> pipe_inv (new_pipe mem)"
  and new_pipe_contents: "pipe_contents (new_pipe mem) = []"
  by (simp_all add: pipe_inv_def new_pipe_def pipe_contents_def pipe_count_def)

lemma two_free_fds_second:
  "f1 \<noteq> -1 \<Longrightarrow> two_free_fds fds is f1 (-1) =
    (f1, case find (\<lambda>i. fds ! i = None) is of None \<Rightarrow> -1 | Some j \<Rightarrow> int j)"
  by (induction "is") auto

lemma two_free_fds_spec:
  "two_free_fds fds is (-1) (-1) =
    (case filter (\<lambda>i. fds ! i = None) is of
       [] \<Rightarrow> (-1, -1)
     | [i] \<Rightarrow> (int i, -1)
     | i # j # _ \<Rightarrow> (int i, int j))"
proof (induction "is")
  case (Cons i "is")
  have find: "find P xs = (case filter P xs of [] \<Rightarrow> None | j # _ \<Rightarrow> Some j)" for P :: "nat \<Rightarrow> bool" and xs
    by (induction xs) auto
  show ?case using Cons.IH by (simp add: two_free_fds_second find split: list.split)
qed simp

section \<open>Properties\<close>

text \<open>
  C13: over any history of read and write calls by any processes, blocked calls included, the
  bytes delivered followed by the bytes still in the ring are the bytes that were there followed
  by the bytes the write calls reported as written: nothing is lost, repeated or reordered, and
  the ring never holds more than 4095 bytes.
\<close>

theorem pipe_calls_in_order:
  assumes "pipe_inv p" and "pipe_calls cs p ps = (sent, got, p', ps')"
  shows "pipe_inv p' \<and> pipe_contents p @ sent = got @ pipe_contents p' \<and>
    length (pipe_contents p') \<le> PIPE_SIZE - 1"
proof -
  have "pipe_inv p' \<and> pipe_contents p @ sent = got @ pipe_contents p'" using assms
  proof (induction cs arbitrary: p ps sent got)
    case (Cons c cs)
    show ?case
    proof (cases c)
      case (PipeRead me sz)
      obtain r p1 ps1 where r: "pipe_read me sz p ps = (r, p1, ps1)" by (metis prod_cases3)
      obtain sent1 got1 q where t: "pipe_calls cs p1 ps1 = (sent1, got1, q)" by (metis prod_cases3)
      have eq: "sent = sent1" "got = (case r of None \<Rightarrow> [] | Some bs \<Rightarrow> bs) @ got1" "q = (p', ps')"
        using Cons.prems(2) r t by (simp_all add: PipeRead)
      then show ?thesis
        using pipe_read_step [OF Cons.prems(1) r] Cons.IH [of p1 ps1 sent1 got1] t by simp
    next
      case (PipeWrite me bs)
      obtain r p1 ps1 where r: "pipe_write me bs p ps = (r, p1, ps1)" by (metis prod_cases3)
      obtain sent1 got1 q where t: "pipe_calls cs p1 ps1 = (sent1, got1, q)" by (metis prod_cases3)
      have eq: "sent = take (case r of None \<Rightarrow> 0 | Some n \<Rightarrow> n) bs @ sent1" "got = got1" "q = (p', ps')"
        using Cons.prems(2) r t by (simp_all add: PipeWrite)
      then show ?thesis
        using pipe_write_step [OF Cons.prems(1) r] Cons.IH [of p1 ps1 sent1 got1] t by simp
    qed
  qed simp
  then show ?thesis using pipe_contents_bound by blast
qed

theorem pipe_calls_in_order_witness:
  "\<exists>p' ps'. pipe_calls [PipeRead 0 2, PipeWrite 1 [1, 2, 3], PipeRead 0 2]
      (new_pipe (replicate 4096 0)) [PROCESS_RUNNING, PROCESS_READY] = ([1, 2, 3], [1, 2], p', ps') \<and>
    pipe_contents p' = [3] \<and> ps' = [PROCESS_READY, PROCESS_READY]"
proof -
  let ?p = "new_pipe (replicate 4096 0)"
  obtain sent got p' ps' where run: "pipe_calls [PipeRead 0 2, PipeWrite 1 [1, 2, 3], PipeRead 0 2] ?p
      [PROCESS_RUNNING, PROCESS_READY] = (sent, got, p', ps')" by (metis prod_cases4)
  have "pipe_inv ?p" by (rule new_pipe_inv) simp
  from pipe_calls_in_order [OF this run] have "sent = got @ pipe_contents p'"
    by (simp add: new_pipe_contents)
  moreover have "sent = [1, 2, 3]" "got = [1, 2]" "ps' = [PROCESS_READY, PROCESS_READY]"
    using run by (auto simp: pipe_read_def pipe_read_loop_def pipe_write_def pipe_write_loop_def pipe_put_def
        pipe_get_def new_pipe_def Let_def wake_waiting_def nth_list_update)
  ultimately show ?thesis using run by simp
qed

text \<open>
  Exactly when the calls wait, what they answer otherwise, and that no wake-up is missed:
  a read waits only on an empty pipe whose writing end is open, a write only on a full pipe
  (4095 bytes), never both; otherwise a read answers the bytes asked for as far as they are
  there, a write the number that fitted, and after either no process of the ready queue is left
  waiting.
\<close>

theorem pipe_call_outcomes:
  assumes "pipe_inv p" and "\<not> pipe_read_closed p" and "\<not> pipe_write_closed p"
  shows "fst (pipe_read me sz p ps) =
      (if 0 < sz \<and> pipe_contents p = [] then None else Some (take (unat sz) (pipe_contents p))) \<and>
    fst (pipe_write me bs p ps) =
      (if bs \<noteq> [] \<and> length (pipe_contents p) = PIPE_SIZE - 1 then None
       else Some (min (length bs) (PIPE_SIZE - 1 - length (pipe_contents p)))) \<and>
    (fst (pipe_read me sz p ps) = None \<or> PROCESS_WAITING \<notin> set (snd (snd (pipe_read me sz p ps)))) \<and>
    (fst (pipe_write me bs p ps) = None \<or> PROCESS_WAITING \<notin> set (snd (snd (pipe_write me bs p ps)))) \<and>
    (fst (pipe_read me sz p ps) \<noteq> None \<or> fst (pipe_write me bs p ps) \<noteq> None)"
proof -
  have room: "pipe_room p = 0 \<longleftrightarrow> length (pipe_contents p) = PIPE_SIZE - 1"
    using pipe_contents_bound [of p] by (auto simp: pipe_room_contents)
  from pipe_read_loop_spec [OF assms(1), of me sz ps] assms(2,3)
  have r: "fst (pipe_read me sz p ps) =
      (if 0 < sz \<and> pipe_contents p = [] then None else Some (take (unat sz) (pipe_contents p)))"
    and rw: "fst (pipe_read me sz p ps) = None \<or> PROCESS_WAITING \<notin> set (snd (snd (pipe_read me sz p ps)))"
    by (auto simp: pipe_read_def split: if_splits)
  from pipe_write_loop_spec [OF assms(1), of me bs ps] assms(2,3) pipe_contents_bound [of p]
  have w: "fst (pipe_write me bs p ps) =
      (if bs \<noteq> [] \<and> length (pipe_contents p) = PIPE_SIZE - 1 then None
       else Some (min (length bs) (PIPE_SIZE - 1 - length (pipe_contents p))))"
    and ww: "fst (pipe_write me bs p ps) = None \<or> PROCESS_WAITING \<notin> set (snd (snd (pipe_write me bs p ps)))"
    by (auto simp: pipe_write_def room pipe_room_contents split: if_splits)
  have "fst (pipe_read me sz p ps) \<noteq> None \<or> fst (pipe_write me bs p ps) \<noteq> None"
    unfolding r w by auto
  with r w rw ww show ?thesis by blast
qed

theorem pipe_call_outcomes_witness:
  "fst (pipe_read 0 2 (new_pipe (replicate 4096 0)) [PROCESS_RUNNING]) = None \<and>
   fst (pipe_write 0 [5, 6] (new_pipe (replicate 4096 0)) [PROCESS_RUNNING]) = Some 2"
proof -
  have "pipe_inv (new_pipe (replicate 4096 0))" by (rule new_pipe_inv) simp
  from pipe_call_outcomes [OF this, of 0 2 "[PROCESS_RUNNING]" "[5, 6]"] show ?thesis
    by (simp add: new_pipe_contents) (simp add: new_pipe_def)
qed

text \<open>
  \<open>sys_pipe\<close> fails without changing anything exactly when the result pointer is null,
  memory is short or fewer than two descriptor slots are free; otherwise it takes the two
  lowest free slots, the first for the reading and the second for the writing end of one new
  empty pipe, and answers their numbers.
\<close>

theorem sys_pipe_correct:
  assumes "length (proc_fds s) = MAX_PROCESS_FILES"
  shows "case filter (\<lambda>i. proc_fds s ! i = None) [0..<MAX_PROCESS_FILES] of
      f1 # f2 # _ \<Rightarrow>
        (if filedes \<and> pipe_mem \<and> buf_mem \<noteq> None then
           (\<exists>s'. sys_pipe filedes pipe_mem buf_mem s = (0, Some (of_nat f1, of_nat f2), s') \<and>
              f1 < f2 \<and> f2 < MAX_PROCESS_FILES \<and>
              pipe_heap s' = pipe_heap s @ [new_pipe (the buf_mem)] \<and>
              (\<exists>d1 d2. desc_heap s' = desc_heap s @ [d1, d2] \<and>
                 proc_fds s' = (proc_fds s)[f1 := Some (length (desc_heap s)), f2 := Some (Suc (length (desc_heap s)))] \<and>
                 node_impl (desc_node d1) = length (pipe_heap s) \<and> node_flags (desc_node d1) = 1 \<and>
                 node_impl (desc_node d2) = length (pipe_heap s) \<and> node_flags (desc_node d2) = 2))
         else sys_pipe filedes pipe_mem buf_mem s = (-1, None, s))
    | _ \<Rightarrow> sys_pipe filedes pipe_mem buf_mem s = (-1, None, s)"
proof -
  define free where "free = filter (\<lambda>i. proc_fds s ! i = None) [0..<MAX_PROCESS_FILES]"
  have scan: "two_free_fds (proc_fds s) [0..<MAX_PROCESS_FILES] (-1) (-1) =
      (case free of [] \<Rightarrow> (-1, -1) | [i] \<Rightarrow> (int i, -1) | i # j # _ \<Rightarrow> (int i, int j))"
    unfolding free_def by (rule two_free_fds_spec)
  have "sorted_wrt (<) free" "set free \<subseteq> {0..<MAX_PROCESS_FILES}"
    unfolding free_def by (simp_all only: sorted_wrt_filter sorted_wrt_upt) auto
  then show ?thesis
    unfolding free_def [symmetric] sys_pipe_def scan
    by (cases buf_mem) (auto simp: Let_def split: list.split)
qed

definition pipe_files_example :: pipe_files where
  "pipe_files_example = \<lparr>pipe_heap = [], desc_heap = [], proc_fds = Some 7 # replicate 15 None\<rparr>"

lemma pipe_files_example_free:
  "filter (\<lambda>i. proc_fds pipe_files_example ! i = None) [0..<16] = 1 # 2 # [3..<16]"
proof -
  have "proc_fds pipe_files_example ! i = None \<longleftrightarrow> i \<noteq> 0" if "i \<in> set [0..<16]" for i
    using that by (auto simp: pipe_files_example_def nth_Cons')
  then have "filter (\<lambda>i. proc_fds pipe_files_example ! i = None) [0..<16] = filter (\<lambda>i. i \<noteq> 0) [0..<16]"
    by (rule filter_cong [OF refl])
  then show ?thesis by (simp add: upt_rec)
qed

theorem sys_pipe_correct_witness:
  "fst (sys_pipe True True (Some (replicate 4096 0)) pipe_files_example) = 0"
proof -
  have "length (proc_fds pipe_files_example) = MAX_PROCESS_FILES" by (simp add: pipe_files_example_def)
  from sys_pipe_correct [OF this, of True True "Some (replicate 4096 0)"]
  show ?thesis unfolding pipe_files_example_free by auto
qed

end
