(* ===== verification/Tty.thy ===== *)
theory Tty
  imports Fifo WaitQueue
begin

text \<open>
  The terminal device (\<open>src/src/kernel/tty.cpp\<close>, \<open>tty.h\<close>): the line discipline with its line
  buffer, the raw input ring, echo, and the interrupt key.  The driver behind a terminal is its
  write callback, here a function over a driver state of any type.  A store past the end of the
  line buffer is not a value of the program; the input routine then answers \<open>None\<close>.
\<close>

section \<open>State\<close>

abbreviation TTY_BUFFER_SIZE :: nat where "TTY_BUFFER_SIZE \<equiv> 256"
abbreviation TTY_ECHO :: u32 where "TTY_ECHO \<equiv> 1"
abbreviation TTY_CANON :: u32 where "TTY_CANON \<equiv> 2"
abbreviation TTY_ISIG :: u32 where "TTY_ISIG \<equiv> 4"
abbreviation SIGINT :: nat where "SIGINT \<equiv> 2"

record tty =
  input_buffer :: "u8 list"
  input_head :: nat
  input_tail :: nat
  input_count :: nat
  line_buffer :: "u8 list"
  line_len :: nat
  line_ready :: bool
  tty_flags :: u32
  read_wait :: wait_queue
  fg_pgid :: u32

text \<open>A callback may change its driver's state and wake processes.\<close>

type_synonym 'd world = "'d \<times> process list"
type_synonym 'd write_callback = "('d world \<Rightarrow> u8 list \<Rightarrow> int \<times> 'd world) option"

text \<open>A terminal after \<open>memset\<close> and the assignment of its flags and foreground group.\<close>

definition tty_reset :: "u32 \<Rightarrow> u32 \<Rightarrow> tty" where
  "tty_reset flags pgid = \<lparr>input_buffer = replicate TTY_BUFFER_SIZE 0, input_head = 0, input_tail = 0,
     input_count = 0, line_buffer = replicate TTY_BUFFER_SIZE 0, line_len = 0, line_ready = False,
     tty_flags = flags, read_wait = [], fg_pgid = pgid\<rparr>"

definition tty_init :: tty where
  "tty_init = tty_reset (TTY_ECHO OR TTY_CANON OR TTY_ISIG) 1"

section \<open>Operations\<close>

definition serial_tty_write :: "u8 list world \<Rightarrow> u8 list \<Rightarrow> int \<times> u8 list world" where
  "serial_tty_write w bs = (int (length bs), fst w @ bs, snd w)"

definition tty_write :: "'d write_callback \<Rightarrow> 'd world \<Rightarrow> u8 list \<Rightarrow> int \<times> 'd world" where
  "tty_write cb w bs = (case cb of Some f \<Rightarrow> f w bs | None \<Rightarrow> (-1, w))"

text \<open>The two ends of the raw input ring.\<close>

definition tty_put :: "tty \<Rightarrow> u8 \<Rightarrow> tty option" where
  "tty_put t c =
     (if input_count t < TTY_BUFFER_SIZE
      then Some (t\<lparr>input_buffer := (input_buffer t)[input_head t := c],
                   input_head := (input_head t + 1) mod TTY_BUFFER_SIZE,
                   input_count := input_count t + 1\<rparr>)
      else None)"

definition tty_get :: "tty \<Rightarrow> (u8 \<times> tty) option" where
  "tty_get t =
     (if input_count t = 0 then None
      else Some (input_buffer t ! input_tail t,
                 t\<lparr>input_tail := (input_tail t + 1) mod TTY_BUFFER_SIZE, input_count := input_count t - 1\<rparr>))"

definition tty_read_raw :: "nat \<Rightarrow> tty \<Rightarrow> u8 list \<times> tty" where
  "tty_read_raw len t = drain tty_get t len"

definition tty_read_line :: "nat \<Rightarrow> tty \<Rightarrow> u8 list \<times> tty" where
  "tty_read_line len t =
     (let copy_len = (if len < line_len t then len else line_len t)
      in (take copy_len (line_buffer t), t\<lparr>line_len := 0, line_ready := False\<rparr>))"

text \<open>
  Reading as process \<open>me\<close>; \<open>None\<close> when it goes to sleep.  The canonical loop tests \<open>line_ready\<close>
  again after each wake-up, the raw branch does not test again: it continues with
  \<open>tty_read_raw\<close>, \<open>tty_read\<close> being the call up to the first sleep.  The \<open>int\<close> length is
  a natural number here: a negative one, with which the canonical branch would copy as many bytes as
  its unsigned value says, is not modelled.
\<close>

definition tty_read ::
    "nat \<Rightarrow> bool \<Rightarrow> nat \<Rightarrow> tty \<Rightarrow> process list \<Rightarrow> u8 list option \<times> tty \<times> process list" where
  "tty_read me mem len t ps =
     (if tty_flags t AND TTY_CANON \<noteq> 0 then
        (if \<not> line_ready t then
           (let (wq, ps') = sleep_on me mem (read_wait t) ps in (None, t\<lparr>read_wait := wq\<rparr>, ps'))
         else (let (bs, t') = tty_read_line len t in (Some bs, t', ps)))
      else
        (if input_count t = 0 \<and> mem then
           (let (wq, ps') = sleep_on me mem (read_wait t) ps in (None, t\<lparr>read_wait := wq\<rparr>, ps'))
         else (let (bs, t') = tty_read_raw len t in (Some bs, t', ps))))"

definition tty_wake :: "tty \<Rightarrow> process list \<Rightarrow> tty \<times> process list" where
  "tty_wake t ps = (let (wq, ps') = wake_up (read_wait t) ps in (t\<lparr>read_wait := wq\<rparr>, ps'))"

definition raise_sigint :: "u32 \<Rightarrow> process list \<Rightarrow> process list" where
  "raise_sigint pgid ps =
     map (\<lambda>p. if proc_id p = pgid then p\<lparr>proc_pending := proc_pending p OR push_bit SIGINT 1\<rparr> else p) ps"

text \<open>The canonical branch of the input routine.\<close>

definition tty_input_line :: "tty \<Rightarrow> u8 \<Rightarrow> process list \<Rightarrow> (tty \<times> process list) option" where
  "tty_input_line t c ps =
     (if c = 8 \<or> c = 127 then
        Some (if line_len t > 0 then t\<lparr>line_len := line_len t - 1\<rparr> else t, ps)
      else if c = 13 \<or> c = 10 then
        (if line_len t + 1 < TTY_BUFFER_SIZE then
           Some (tty_wake (t\<lparr>line_buffer := (line_buffer t)[line_len t := 10, line_len t + 1 := 0],
                             line_len := line_len t + 1, line_ready := True\<rparr>) ps)
         else None)
      else if line_len t < TTY_BUFFER_SIZE - 1 then
        Some (t\<lparr>line_buffer := (line_buffer t)[line_len t := c], line_len := line_len t + 1\<rparr>, ps)
      else Some (t, ps))"

definition tty_input_raw :: "tty \<Rightarrow> u8 \<Rightarrow> process list \<Rightarrow> tty \<times> process list" where
  "tty_input_raw t c ps = (case tty_put t c of Some t' \<Rightarrow> tty_wake t' ps | None \<Rightarrow> (t, ps))"

definition echo_key :: "'d write_callback \<Rightarrow> tty \<Rightarrow> 'd world \<Rightarrow> u8 \<Rightarrow> 'd world" where
  "echo_key cb t w c =
     (if tty_flags t AND TTY_ECHO \<noteq> 0 then snd (tty_write cb w [if c = 13 then 10 else c]) else w)"

definition tty_input_char :: "'d write_callback \<Rightarrow> tty \<Rightarrow> u8 \<Rightarrow> 'd world \<Rightarrow> (tty \<times> 'd world) option" where
  "tty_input_char cb t c w =
     (if tty_flags t AND TTY_ISIG \<noteq> 0 \<and> c = 3 then Some (t, fst w, raise_sigint (fg_pgid t) (snd w))
      else
        (let (d, ps) = echo_key cb t w c
         in if tty_flags t AND TTY_CANON \<noteq> 0
            then map_option (\<lambda>(t', ps'). (t', d, ps')) (tty_input_line t c ps)
            else (let (t', ps') = tty_input_raw t c ps in Some (t', d, ps'))))"

definition tty_set_flags :: "tty \<Rightarrow> u32 \<Rightarrow> tty" where
  "tty_set_flags t flags = t\<lparr>tty_flags := flags\<rparr>"

text \<open>Characters arriving one after the other.\<close>

fun tty_input ::
    "'d write_callback \<Rightarrow> tty \<Rightarrow> u8 list \<Rightarrow> 'd world \<Rightarrow> (tty \<times> 'd world) option" where
  "tty_input cb t [] w = Some (t, w)"
| "tty_input cb t (c # cs) w =
     (case tty_input_char cb t c w of None \<Rightarrow> None | Some (t', w') \<Rightarrow> tty_input cb t' cs w')"

section \<open>The raw ring as a queue\<close>

definition tty_raw_contents :: "tty \<Rightarrow> u8 list" where
  "tty_raw_contents t = ring_slice (input_buffer t) (input_tail t) (input_count t)"

definition tty_raw_room :: "tty \<Rightarrow> nat" where
  "tty_raw_room t = TTY_BUFFER_SIZE - input_count t"

definition tty_inv :: "tty \<Rightarrow> bool" where
  "tty_inv t \<longleftrightarrow> length (input_buffer t) = TTY_BUFFER_SIZE \<and> length (line_buffer t) = TTY_BUFFER_SIZE \<and>
     input_tail t < TTY_BUFFER_SIZE \<and> input_count t \<le> TTY_BUFFER_SIZE \<and>
     input_head t = (input_tail t + input_count t) mod TTY_BUFFER_SIZE \<and> line_len t < TTY_BUFFER_SIZE"

lemma tty_put_ok:
  assumes inv: "tty_inv t" and "0 < tty_raw_room t"
  shows "\<exists>t'. tty_put t c = Some t' \<and> tty_inv t' \<and> tty_raw_contents t' = tty_raw_contents t @ [c] \<and>
    tty_raw_room t' = tty_raw_room t - 1"
proof -
  have "input_count t < length (input_buffer t)" using assms by (simp add: tty_inv_def tty_raw_room_def)
  from ring_slice_update [OF this, of "input_tail t" c] inv assms(2) show ?thesis
    by (auto simp: tty_put_def tty_inv_def tty_raw_contents_def tty_raw_room_def mod_simps)
qed

lemma tty_get_Some:
  assumes "tty_inv t" and "tty_get t = Some (c, t')"
  shows "tty_inv t' \<and> tty_raw_contents t = c # tty_raw_contents t' \<and> tty_raw_room t \<le> tty_raw_room t'"
proof -
  from assms(2) obtain n where n: "input_count t = Suc n" by (cases "input_count t") (auto simp: tty_get_def)
  have t': "t' = t\<lparr>input_tail := (input_tail t + 1) mod TTY_BUFFER_SIZE, input_count := n\<rparr>"
    and c: "c = input_buffer t ! input_tail t" using assms(2) n by (auto simp: tty_get_def)
  show ?thesis
    using assms(1) n ring_slice_mod [of "input_buffer t" "Suc (input_tail t)" n]
    by (auto simp: t' c tty_inv_def tty_raw_contents_def tty_raw_room_def ring_slice_rec mod_simps)
qed

interpretation tty_fifo: bounded_byte_fifo tty_put tty_get tty_raw_contents tty_raw_room tty_inv
proof unfold_locales
  show "(tty_get t = None) = (tty_raw_contents t = [])" if "tty_inv t" for t
    by (auto simp: tty_get_def tty_raw_contents_def ring_slice_def)
  show "tty_put t c = None" if "tty_inv t" "tty_raw_room t = 0" for t c
    using that by (simp add: tty_put_def tty_raw_room_def)
qed (use tty_put_ok tty_get_Some in blast)+

section \<open>The line discipline\<close>

definition line_text :: "tty \<Rightarrow> u8 list" where
  "line_text t = take (line_len t) (line_buffer t)"

text \<open>What a key does to the line being typed, away from Enter and the interrupt key.\<close>

definition edit :: "u8 list \<Rightarrow> u8 \<Rightarrow> u8 list" where
  "edit l c = (if c = 8 \<or> c = 127 then butlast l else if length l < TTY_BUFFER_SIZE - 1 then l @ [c] else l)"

definition plain_key :: "tty \<Rightarrow> u8 \<Rightarrow> bool" where
  "plain_key t c \<longleftrightarrow> c \<noteq> 10 \<and> c \<noteq> 13 \<and> (tty_flags t AND TTY_ISIG \<noteq> 0 \<longrightarrow> c \<noteq> 3)"

lemma tty_wake_fields [simp]:
  "fst (tty_wake t ps) = t\<lparr>read_wait := tl (read_wait t)\<rparr>"
  by (cases "read_wait t") (simp_all add: tty_wake_def)

lemma line_text_length [simp]: "tty_inv t \<Longrightarrow> length (line_text t) = line_len t"
  by (simp add: line_text_def tty_inv_def)

lemma take_update_last: "n < length xs \<Longrightarrow> take (Suc n) (xs[n := x]) = take n xs @ [x]"
  by (simp add: take_Suc_conv_app_nth)

lemma tty_input_char_plain:
  assumes inv: "tty_inv t" and canon: "tty_flags t AND TTY_CANON \<noteq> 0" and key: "plain_key t c"
  shows "\<exists>t'. tty_input_char cb t c w = Some (t', echo_key cb t w c) \<and> tty_inv t' \<and>
    tty_flags t' = tty_flags t \<and> line_text t' = edit (line_text t) c"
proof -
  have noint: "\<not> (tty_flags t AND TTY_ISIG \<noteq> 0 \<and> c = 3)" "\<not> (c = 13 \<or> c = 10)"
    using key by (auto simp: plain_key_def)
  have "\<exists>t'. (\<forall>ps. tty_input_line t c ps = Some (t', ps)) \<and> tty_inv t' \<and>
      tty_flags t' = tty_flags t \<and> line_text t' = edit (line_text t) c"
  proof (cases "c = 8 \<or> c = 127")
    case True
    then show ?thesis using inv
      by (auto simp: tty_input_line_def edit_def tty_inv_def line_text_def butlast_take butlast_conv_take min_def)
  next
    case False
    then show ?thesis using inv noint(2)
      by (auto simp: tty_input_line_def edit_def tty_inv_def line_text_def take_update_last)
  qed
  then show ?thesis using canon noint(1) unfolding tty_input_char_def by (auto simp: split_beta)
qed

lemma tty_input_plain:
  assumes "tty_inv t" and "tty_flags t AND TTY_CANON \<noteq> 0" and "\<forall>c \<in> set cs. plain_key t c"
  shows "\<exists>t'. tty_input cb t cs w = Some (t', foldl (echo_key cb t) w cs) \<and> tty_inv t' \<and>
    tty_flags t' = tty_flags t \<and> line_text t' = foldl edit (line_text t) cs"
  using assms
proof (induction cs arbitrary: t w)
  case (Cons c cs)
  from tty_input_char_plain [OF Cons.prems(1,2), of c cb w] Cons.prems(3)
  obtain t1 where t1: "tty_input_char cb t c w = Some (t1, echo_key cb t w c)" "tty_inv t1"
    "tty_flags t1 = tty_flags t" "line_text t1 = edit (line_text t) c" by auto
  have same: "plain_key t1 = plain_key t" "echo_key cb t1 = echo_key cb t"
    by (simp_all add: fun_eq_iff plain_key_def echo_key_def t1(3))
  have "tty_flags t1 AND TTY_CANON \<noteq> 0" "\<forall>c \<in> set cs. plain_key t1 c"
    using Cons.prems(2,3) by (simp_all add: t1(3) same)
  from Cons.IH [OF t1(2) this, of "echo_key cb t w c"] t1 show ?case by (auto simp: same)
qed simp

lemma tty_input_append:
  "tty_input cb t (cs @ ds) w = (case tty_input cb t cs w of None \<Rightarrow> None | Some (t', w') \<Rightarrow> tty_input cb t' ds w')"
  by (induction cs arbitrary: t w) (auto split: option.split)

lemma edit_length: "length l \<le> 255 \<Longrightarrow> length (edit l c) \<le> 255"
  by (auto simp: edit_def)

lemma tty_input_enter:
  assumes inv: "tty_inv t" and canon: "tty_flags t AND TTY_CANON \<noteq> 0" and short: "line_len t < 255"
    and c: "c = 13 \<or> c = 10"
  shows "\<exists>t' ps'. tty_input_char cb t c w = Some (t', fst (echo_key cb t w c), ps') \<and> tty_inv t' \<and>
    tty_flags t' = tty_flags t \<and> line_ready t' \<and> line_text t' = line_text t @ [10]"
proof -
  let ?t = "t\<lparr>line_buffer := (line_buffer t)[line_len t := 10, line_len t + 1 := 0],
              line_len := line_len t + 1, line_ready := True\<rparr>"
  obtain d ps where e: "echo_key cb t w c = (d, ps)" by (cases "echo_key cb t w c")
  obtain t' ps' where w: "tty_wake ?t ps = (t', ps')" by (cases "tty_wake ?t ps")
  have t': "t' = ?t\<lparr>read_wait := tl (read_wait t)\<rparr>" using arg_cong [OF w, of fst] by simp
  have "tty_input_line t c ps = Some (t', ps')" using c short w by (auto simp: tty_input_line_def)
  moreover have "c \<noteq> 3" using c by auto
  ultimately have "tty_input_char cb t c w = Some (t', fst (echo_key cb t w c), ps')"
    using canon unfolding tty_input_char_def e by auto
  moreover have "line_text t' = line_text t @ [10]" "tty_inv t'"
    using inv short by (auto simp: t' line_text_def tty_inv_def take_Suc_conv_app_nth nth_list_update)
  ultimately show ?thesis by (auto simp: t')
qed

lemma tty_line_discipline:
  assumes "tty_inv t" and "tty_flags t AND TTY_CANON \<noteq> 0" and "line_len t = 0"
    and "\<forall>c \<in> set cs. plain_key t c" and "length (foldl edit [] cs) < 255"
  shows "\<exists>t' ps' t''. tty_input cb t (cs @ [13]) w = Some (t', fst (foldl (echo_key cb t) w (cs @ [13])), ps') \<and>
    tty_read me mem len t' ps' = (Some (take len (foldl edit [] cs @ [10])), t'', ps') \<and>
    line_text t'' = [] \<and> \<not> line_ready t''"
proof -
  obtain t1 where t1: "tty_input cb t cs w = Some (t1, foldl (echo_key cb t) w cs)" "tty_inv t1"
    "tty_flags t1 = tty_flags t" "line_text t1 = foldl edit [] cs"
    using tty_input_plain [OF assms(1,2,4), of cb w] assms(3) by (auto simp: line_text_def)
  have "line_len t1 < 255" using assms(5) line_text_length [OF t1(2)] by (simp add: t1(4))
  from tty_input_enter [OF t1(2) _ this, of 13 cb "foldl (echo_key cb t) w cs"] assms(2)
  obtain t2 ps2 where t2: "tty_input_char cb t1 13 (foldl (echo_key cb t) w cs) =
      Some (t2, fst (echo_key cb t1 (foldl (echo_key cb t) w cs) 13), ps2)"
    "tty_inv t2" "tty_flags t2 = tty_flags t" "line_ready t2" "line_text t2 = foldl edit [] cs @ [10]"
    by (auto simp: t1(3,4))
  have echo: "echo_key cb t1 = echo_key cb t" by (simp add: fun_eq_iff echo_key_def t1(3))
  have "take (if len < line_len t2 then len else line_len t2) (line_buffer t2) = take len (line_text t2)"
    by (simp add: line_text_def)
  with t1(1) t2 assms(2) show ?thesis
    by (auto simp: tty_input_append tty_read_def tty_read_line_def echo line_text_def)
qed

section \<open>Properties\<close>

lemma tty_init_inv: "tty_inv (tty_reset flags pgid)"
  by (simp add: tty_inv_def tty_reset_def)

text \<open>
  C14: in canonical mode, from an empty line: any keys without Enter and the interrupt key, then
  Enter, then a read of \<open>len\<close> bytes answers the line as edited (backspace and delete remove
  the last character, a full line takes no more) with a newline, cut to \<open>len\<close> bytes; every key
  was echoed; the read leaves an empty line, so a part that was cut off is gone.
\<close>

theorem tty_line_roundtrip:
  assumes "tty_inv t" and "tty_flags t AND TTY_CANON \<noteq> 0" and "line_len t = 0"
    and "\<forall>c \<in> set cs. plain_key t c" and "length (foldl edit [] cs) < 255"
  shows "\<exists>t' ps' t''. tty_input cb t (cs @ [13]) w = Some (t', fst (foldl (echo_key cb t) w (cs @ [13])), ps') \<and>
    tty_read me mem len t' ps' = (Some (take len (foldl edit [] cs @ [10])), t'', ps') \<and>
    line_text t'' = [] \<and> \<not> line_ready t''"
  using assms by (rule tty_line_discipline)

theorem tty_line_roundtrip_witness:
  "\<exists>t' ps' t''. tty_input (Some serial_tty_write) tty_init [108, 111, 8, 115, 13] ([], []) =
      Some (t', [108, 111, 8, 115, 10], ps') \<and>
    tty_read 0 True 10 t' ps' = (Some [108, 115, 10], t'', ps')"
  using tty_line_roundtrip [of tty_init "[108, 111, 8, 115]" "Some serial_tty_write" "([], [])" 0 True 10]
    tty_init_inv [of "TTY_ECHO OR TTY_CANON OR TTY_ISIG" 1]
  by (simp add: tty_init_def [symmetric])
     (simp add: tty_init_def tty_reset_def plain_key_def edit_def echo_key_def tty_write_def serial_tty_write_def,
      blast)

text \<open>
  From a well-formed terminal the input routine fails in exactly one way: Enter in canonical
  mode on a line that already has 255 characters stores behind the line buffer; typing 255
  characters gets there.
\<close>

theorem tty_input_overflow_iff:
  assumes "tty_inv t"
  shows "(tty_input_char cb t c w = None \<longleftrightarrow>
      tty_flags t AND TTY_CANON \<noteq> 0 \<and> (c = 10 \<or> c = 13) \<and> line_len t = 255) \<and>
    tty_input cb tty_init (replicate 255 97 @ [13]) w = None"
proof -
  have iff: "tty_input_char cb t c w = None \<longleftrightarrow>
      tty_flags t AND TTY_CANON \<noteq> 0 \<and> (c = 10 \<or> c = 13) \<and> line_len t = 255" if "tty_inv t" for t c w
    using that
    by (auto simp: tty_input_char_def tty_input_line_def tty_inv_def Let_def split_beta split: if_splits)
  have fold: "length (foldl edit l (replicate n 97)) = length l + n" if "length l + n \<le> 255" for l n
    using that by (induction n arbitrary: l) (auto simp: edit_def)
  have canon: "tty_flags tty_init AND TTY_CANON \<noteq> 0" by (simp add: tty_init_def tty_reset_def)
  have inv: "tty_inv tty_init" by (simp add: tty_init_def tty_init_inv)
  have "\<forall>c \<in> set (replicate 255 97). plain_key tty_init c" by (simp only: set_replicate_conv_if) (simp add: plain_key_def)
  from tty_input_plain [OF inv canon this, of cb w]
  obtain t1 w1 where t1: "tty_input cb tty_init (replicate 255 97) w = Some (t1, w1)" "tty_inv t1"
    "tty_flags t1 = tty_flags tty_init" "line_text t1 = foldl edit (line_text tty_init) (replicate 255 97)" by blast
  have "length (line_text tty_init) = 0" by (simp add: line_text_def tty_init_def tty_reset_def)
  with fold [of "line_text tty_init" 255] have "length (line_text t1) = 255" by (simp only: t1(4))
  then have "line_len t1 = 255" by (simp only: line_text_length [OF t1(2)])
  then have "tty_input_char cb t1 13 w1 = None" using canon by (simp add: iff [OF t1(2)] t1(3))
  then have "tty_input cb tty_init (replicate 255 97 @ [13]) w = None"
    by (simp only: tty_input_append t1(1) option.case prod.case tty_input.simps)
  then show ?thesis by (rule conjI [OF iff [OF assms]])
qed

theorem tty_input_overflow_iff_witness:
  "tty_input_char None (tty_init\<lparr>line_len := 255\<rparr>) 13 ((), []) = None \<and>
   tty_input_char None (tty_init\<lparr>line_len := 255\<rparr>) 97 ((), []) \<noteq> None"
proof -
  have "tty_inv (tty_init\<lparr>line_len := 255\<rparr>)" by (simp add: tty_inv_def tty_init_def tty_reset_def)
  from tty_input_overflow_iff [OF this, of None 13 "((), [])"]
    tty_input_overflow_iff [OF this, of None 97 "((), [])"] show ?thesis
    by (simp add: tty_init_def tty_reset_def)
qed

end
