(* ===== verification/Pty.thy ===== *)
theory Pty
  imports Tty Pipe
begin

text \<open>
  Pseudo-terminals (\<open>src/src/kernel/pty.cpp\<close>, \<open>pty.h\<close>): the 4096-byte rings with a count, the
  transfer routines of the master and the slave end, whose slave is a terminal of theory Tty
  writing into the ring towards the master, and the table of pseudo-terminals with creation,
  closing and the queries on it.
\<close>

section \<open>The rings\<close>

abbreviation PTY_BUFFER_SIZE :: nat where "PTY_BUFFER_SIZE \<equiv> 4096"
abbreviation EAGAIN :: int where "EAGAIN \<equiv> 11"
abbreviation ENOMEM :: int where "ENOMEM \<equiv> 12"
abbreviation EINVAL :: int where "EINVAL \<equiv> 22"
abbreviation EMFILE :: int where "EMFILE \<equiv> 24"

record pty_fifo =
  fifo_buffer :: "u8 list"
  fifo_head :: nat
  fifo_tail :: nat
  fifo_count :: nat
  fifo_wait :: wait_queue

definition pty_fifo_zero :: pty_fifo where
  "pty_fifo_zero = \<lparr>fifo_buffer = replicate PTY_BUFFER_SIZE 0, fifo_head = 0, fifo_tail = 0,
                    fifo_count = 0, fifo_wait = []\<rparr>"

definition pty_fifo_put :: "pty_fifo \<Rightarrow> u8 \<Rightarrow> pty_fifo option" where
  "pty_fifo_put f c =
     (if fifo_count f < PTY_BUFFER_SIZE
      then Some (f\<lparr>fifo_buffer := (fifo_buffer f)[fifo_head f := c],
                   fifo_head := (fifo_head f + 1) mod PTY_BUFFER_SIZE,
                   fifo_count := fifo_count f + 1\<rparr>)
      else None)"

definition pty_fifo_get :: "pty_fifo \<Rightarrow> (u8 \<times> pty_fifo) option" where
  "pty_fifo_get f =
     (if fifo_count f = 0 then None
      else Some (fifo_buffer f ! fifo_tail f,
                 f\<lparr>fifo_tail := (fifo_tail f + 1) mod PTY_BUFFER_SIZE, fifo_count := fifo_count f - 1\<rparr>))"

definition pty_fifo_write :: "pty_fifo world \<Rightarrow> u8 list \<Rightarrow> int \<times> pty_fifo world" where
  "pty_fifo_write w bs =
     (let (written, f) = fill pty_fifo_put (fst w) bs
      in if written > 0
         then (let (wq, ps) = wake_up (fifo_wait f) (snd w) in (int written, f\<lparr>fifo_wait := wq\<rparr>, ps))
         else (int written, f, snd w))"

text \<open>
  Reading: \<open>None\<close> when the process sleeps (it then continues with \<open>pty_fifo_take\<close>, the count
  is not tested again), \<open>Inl\<close> an error number.
\<close>

definition pty_fifo_take :: "nat \<Rightarrow> pty_fifo \<Rightarrow> u8 list \<times> pty_fifo" where
  "pty_fifo_take len f = drain pty_fifo_get f len"

definition pty_fifo_read ::
    "nat \<Rightarrow> bool \<Rightarrow> nat \<Rightarrow> bool \<Rightarrow> pty_fifo world \<Rightarrow> (int + u8 list) option \<times> pty_fifo world" where
  "pty_fifo_read me mem len nonblock w =
     (let (f, ps) = w
      in if fifo_count f = 0 \<and> nonblock then (Some (Inl (- EAGAIN)), w)
         else if fifo_count f = 0 \<and> mem then
           (let (wq, ps') = sleep_on me mem (fifo_wait f) ps in (None, f\<lparr>fifo_wait := wq\<rparr>, ps'))
         else (let (bs, f') = pty_fifo_take len f in (Some (Inr bs), f', ps)))"

definition fifo_contents :: "pty_fifo \<Rightarrow> u8 list" where
  "fifo_contents f = ring_slice (fifo_buffer f) (fifo_tail f) (fifo_count f)"

definition fifo_room :: "pty_fifo \<Rightarrow> nat" where
  "fifo_room f = PTY_BUFFER_SIZE - fifo_count f"

definition fifo_inv :: "pty_fifo \<Rightarrow> bool" where
  "fifo_inv f \<longleftrightarrow> length (fifo_buffer f) = PTY_BUFFER_SIZE \<and> fifo_tail f < PTY_BUFFER_SIZE \<and>
     fifo_count f \<le> PTY_BUFFER_SIZE \<and> fifo_head f = (fifo_tail f + fifo_count f) mod PTY_BUFFER_SIZE"

lemma pty_fifo_put_ok:
  assumes inv: "fifo_inv f" and "0 < fifo_room f"
  shows "\<exists>f'. pty_fifo_put f c = Some f' \<and> fifo_inv f' \<and> fifo_contents f' = fifo_contents f @ [c] \<and>
    fifo_room f' = fifo_room f - 1"
proof -
  have "fifo_count f < length (fifo_buffer f)" using assms by (simp add: fifo_inv_def fifo_room_def)
  from ring_slice_update [OF this, of "fifo_tail f" c] inv assms(2) show ?thesis
    by (auto simp: pty_fifo_put_def fifo_inv_def fifo_contents_def fifo_room_def mod_simps)
qed

lemma pty_fifo_get_Some:
  assumes "fifo_inv f" and "pty_fifo_get f = Some (c, f')"
  shows "fifo_inv f' \<and> fifo_contents f = c # fifo_contents f' \<and> fifo_room f \<le> fifo_room f'"
proof -
  from assms(2) obtain n where n: "fifo_count f = Suc n" by (cases "fifo_count f") (auto simp: pty_fifo_get_def)
  have f': "f' = f\<lparr>fifo_tail := (fifo_tail f + 1) mod PTY_BUFFER_SIZE, fifo_count := n\<rparr>"
    and c: "c = fifo_buffer f ! fifo_tail f" using assms(2) n by (auto simp: pty_fifo_get_def)
  show ?thesis
    using assms(1) n ring_slice_mod [of "fifo_buffer f" "Suc (fifo_tail f)" n]
    by (auto simp: f' c fifo_inv_def fifo_contents_def fifo_room_def ring_slice_rec mod_simps)
qed

interpretation pty_ring: bounded_byte_fifo pty_fifo_put pty_fifo_get fifo_contents fifo_room fifo_inv
proof unfold_locales
  show "(pty_fifo_get f = None) = (fifo_contents f = [])" if "fifo_inv f" for f
    by (auto simp: pty_fifo_get_def fifo_contents_def ring_slice_def)
  show "pty_fifo_put f c = None" if "fifo_inv f" "fifo_room f = 0" for f c
    using that by (simp add: pty_fifo_put_def fifo_room_def)
qed (use pty_fifo_put_ok pty_fifo_get_Some in blast)+

lemma fifo_wait_update [simp]:
  "fifo_inv (f\<lparr>fifo_wait := wq\<rparr>) = fifo_inv f" "fifo_contents (f\<lparr>fifo_wait := wq\<rparr>) = fifo_contents f"
  "fifo_room (f\<lparr>fifo_wait := wq\<rparr>) = fifo_room f"
  by (simp_all add: fifo_inv_def fifo_contents_def fifo_room_def)

lemma pty_fifo_write_spec:
  assumes "fifo_inv f"
  shows "\<exists>f' ps'. pty_fifo_write (f, ps) bs = (int (min (length bs) (fifo_room f)), f', ps') \<and> fifo_inv f' \<and>
    fifo_contents f' = fifo_contents f @ take (fifo_room f) bs \<and> fifo_room f' = fifo_room f - length bs"
proof -
  obtain f1 where "fill pty_fifo_put f bs = (min (length bs) (fifo_room f), f1)" "fifo_inv f1"
    "fifo_contents f1 = fifo_contents f @ take (fifo_room f) bs" "fifo_room f1 = fifo_room f - length bs"
    using pty_ring.fill_spec [OF assms] by metis
  then show ?thesis by (auto simp: pty_fifo_write_def Let_def split_beta)
qed

section \<open>The two ends\<close>

record pty =
  pty_id :: nat
  master_to_slave :: pty_fifo
  slave_to_master :: pty_fifo
  slave_tty :: tty
  master_open :: bool
  slave_open :: bool
  master_nonblock :: bool
  slave_nonblock :: bool

definition pty_slave_tty_write :: "pty_fifo write_callback" where
  "pty_slave_tty_write = Some pty_fifo_write"

definition pty_master_read ::
    "nat \<Rightarrow> bool \<Rightarrow> nat \<Rightarrow> pty \<Rightarrow> process list \<Rightarrow> (int + u8 list) option \<times> pty \<times> process list" where
  "pty_master_read me mem sz p ps =
     (let (r, f, ps') = pty_fifo_read me mem sz (master_nonblock p) (slave_to_master p, ps)
      in (r, p\<lparr>slave_to_master := f\<rparr>, ps'))"

definition pty_master_write :: "u8 list \<Rightarrow> pty \<Rightarrow> process list \<Rightarrow> (int \<times> pty \<times> process list) option" where
  "pty_master_write bs p ps =
     map_option (\<lambda>(t, f, ps'). (int (length bs), p\<lparr>slave_tty := t, slave_to_master := f\<rparr>, ps'))
       (tty_input pty_slave_tty_write (slave_tty p) bs (slave_to_master p, ps))"

definition pty_slave_read ::
    "nat \<Rightarrow> bool \<Rightarrow> nat \<Rightarrow> pty \<Rightarrow> process list \<Rightarrow> u8 list option \<times> pty \<times> process list" where
  "pty_slave_read me mem sz p ps =
     (let (r, t, ps') = tty_read me mem sz (slave_tty p) ps in (r, p\<lparr>slave_tty := t\<rparr>, ps'))"

definition pty_slave_write :: "u8 list \<Rightarrow> pty \<Rightarrow> process list \<Rightarrow> int \<times> pty \<times> process list" where
  "pty_slave_write bs p ps =
     (let (n, f, ps') = tty_write pty_slave_tty_write (slave_to_master p, ps) bs
      in (n, p\<lparr>slave_to_master := f\<rparr>, ps'))"

text \<open>\<open>argp\<close> is null or points to an integer.\<close>

definition pty_ioctl :: "bool \<Rightarrow> int \<Rightarrow> int option \<Rightarrow> pty \<Rightarrow> int \<times> pty" where
  "pty_ioctl is_master request argp p =
     (if request = 0x5421 then
        (let on = (case argp of None \<Rightarrow> False | Some v \<Rightarrow> v \<noteq> 0)
         in (0, if is_master then p\<lparr>master_nonblock := on\<rparr> else p\<lparr>slave_nonblock := on\<rparr>))
      else (- EINVAL, p))"

section \<open>The table\<close>

abbreviation MAX_PTYS :: nat where "MAX_PTYS \<equiv> 16"

text \<open>
  The pseudo-terminals in the kernel heap (\<open>None\<close> once freed), the table of pointers to them,
  the file descriptions made for their ends, and the calling process's descriptor table.
\<close>

record pty_desc =
  pd_pty :: nat
  pd_master :: bool
  pd_offset :: u64
  pd_flags :: u32
  pd_ref_count :: u32

record pty_sys =
  ptys :: "pty option list"
  pty_table :: "nat option list"
  pty_descs :: "pty_desc list"
  pty_fds :: "nat option list"

definition pty_init :: "pty_sys \<Rightarrow> pty_sys" where
  "pty_init s = s\<lparr>pty_table := replicate MAX_PTYS None\<rparr>"

definition new_pty :: "nat \<Rightarrow> pty" where
  "new_pty idx = \<lparr>pty_id = idx, master_to_slave = pty_fifo_zero, slave_to_master = pty_fifo_zero,
     slave_tty = tty_reset (TTY_ECHO OR TTY_CANON OR TTY_ISIG) 0, master_open = True, slave_open = True,
     master_nonblock = False, slave_nonblock = False\<rparr>"

definition sys_pty_create :: "pty_sys \<Rightarrow> int \<times> (int \<times> int) option \<times> pty_sys" where
  "sys_pty_create s =
     (case find (\<lambda>i. pty_table s ! i = None) [0..<MAX_PTYS] of
        None \<Rightarrow> (- ENOMEM, None, s)
      | Some idx \<Rightarrow>
          (let p = length (ptys s);
               s1 = s\<lparr>ptys := ptys s @ [Some (new_pty idx)], pty_table := (pty_table s)[idx := Some p]\<rparr>;
               (mfd, sfd) = two_free_fds (pty_fds s) [0..<MAX_PROCESS_FILES] (-1) (-1)
           in if mfd = -1 \<or> sfd = -1 then (- EMFILE, None, s1)
              else (let d = length (pty_descs s);
                        mdesc = \<lparr>pd_pty = p, pd_master = True, pd_offset = 0, pd_flags = 3, pd_ref_count = 1\<rparr>;
                        sdesc = \<lparr>pd_pty = p, pd_master = False, pd_offset = 0, pd_flags = 3, pd_ref_count = 1\<rparr>
                    in (0, Some (mfd, sfd),
                        s1\<lparr>pty_descs := pty_descs s @ [mdesc, sdesc],
                           pty_fds := (pty_fds s)[nat mfd := Some d, nat sfd := Some (Suc d)]\<rparr>))))"

text \<open>Closing an end of the pseudo-terminal at \<open>a\<close>.\<close>

definition pty_close :: "nat \<Rightarrow> bool \<Rightarrow> pty_sys \<Rightarrow> pty_sys" where
  "pty_close a is_master s =
     (case ptys s ! a of
        None \<Rightarrow> s
      | Some p \<Rightarrow>
          (let p' = (if is_master then p\<lparr>master_open := False\<rparr> else p\<lparr>slave_open := False\<rparr>)
           in if \<not> master_open p' \<and> \<not> slave_open p'
              then s\<lparr>ptys := (ptys s)[a := None], pty_table := (pty_table s)[pty_id p' := None]\<rparr>
              else s\<lparr>ptys := (ptys s)[a := Some p']\<rparr>))"

definition pty_is_active :: "pty_sys \<Rightarrow> int \<Rightarrow> bool" where
  "pty_is_active s index \<longleftrightarrow> index \<ge> 0 \<and> index < int MAX_PTYS \<and> pty_table s ! nat index \<noteq> None"

definition pty_get_slave_node :: "pty_sys \<Rightarrow> int \<Rightarrow> nat option" where
  "pty_get_slave_node s index =
     (if index < 0 \<or> index \<ge> int MAX_PTYS then None else pty_table s ! nat index)"

section \<open>Properties\<close>

text \<open>An idle pseudo-terminal: no line begun, nothing waiting for the master.\<close>

definition pty_ok :: "pty \<Rightarrow> bool" where
  "pty_ok p \<longleftrightarrow> tty_inv (slave_tty p) \<and> fifo_inv (slave_to_master p)"

lemma new_pty_ok: "pty_ok (new_pty i)"
  by (simp add: pty_ok_def new_pty_def tty_init_inv fifo_inv_def pty_fifo_zero_def)

lemma echo_fills:
  assumes "fifo_inv f" and "tty_flags t AND TTY_ECHO \<noteq> 0" and "length cs \<le> fifo_room f"
  shows "\<exists>f' ps'. foldl (echo_key pty_slave_tty_write t) (f, ps) cs = (f', ps') \<and> fifo_inv f' \<and>
    fifo_contents f' = fifo_contents f @ map (\<lambda>c. if c = 13 then 10 else c) cs"
  using assms
proof (induction cs arbitrary: f ps)
  case (Cons c cs)
  let ?e = "if c = 13 then 10 else c"
  obtain n f1 ps1 where w: "pty_fifo_write (f, ps) [?e] = (n, f1, ps1)" "fifo_inv f1"
    "fifo_contents f1 = fifo_contents f @ take (fifo_room f) [?e]" "fifo_room f1 = fifo_room f - length [?e]"
    using pty_fifo_write_spec [OF Cons.prems(1), of ps "[?e]"] by blast
  have room: "length cs \<le> fifo_room f1" "fifo_contents f1 = fifo_contents f @ [?e]"
    using Cons.prems(3) w(3,4) by (auto simp: take_Cons')
  have "echo_key pty_slave_tty_write t (f, ps) c = (f1, ps1)"
    using Cons.prems(2) w(1) by (simp add: echo_key_def tty_write_def pty_slave_tty_write_def)
  then show ?case using Cons.IH [OF w(2) Cons.prems(2) room(1), of ps1] room(2) by auto
qed simp

text \<open>
  A line typed at the master of a pseudo-terminal with echo in canonical mode: the slave
  reads the edited line with a newline and the master reads back what was typed, carriage return
  as newline, when both rings have room for it.
\<close>

theorem pty_line_session:
  assumes "pty_ok p" and "tty_flags (slave_tty p) AND TTY_CANON \<noteq> 0" and "tty_flags (slave_tty p) AND TTY_ECHO \<noteq> 0"
    and "line_len (slave_tty p) = 0" and "fifo_contents (slave_to_master p) = []"
    and "\<forall>c \<in> set cs. plain_key (slave_tty p) c" and "length (foldl edit [] cs) < 255"
    and "Suc (length cs) \<le> fifo_room (slave_to_master p)"
  shows "\<exists>p1 ps1 p2 p3 ps3. pty_master_write (cs @ [13]) p ps = Some (int (length cs) + 1, p1, ps1) \<and>
    pty_slave_read me mem sz p1 ps1 = (Some (take sz (foldl edit [] cs @ [10])), p2, ps1) \<and>
    pty_master_read me' mem' sz' p2 ps1 = (Some (Inr (take sz' (cs @ [10]))), p3, ps3)"
proof -
  let ?w = "(slave_to_master p, ps)"
  note inv = assms(1) [unfolded pty_ok_def]
  obtain t1 ps1 t2 where t: "tty_input pty_slave_tty_write (slave_tty p) (cs @ [13]) ?w =
      Some (t1, fst (foldl (echo_key pty_slave_tty_write (slave_tty p)) ?w (cs @ [13])), ps1)"
    "tty_read me mem sz t1 ps1 = (Some (take sz (foldl edit [] cs @ [10])), t2, ps1)"
    using tty_line_discipline [of "slave_tty p" cs pty_slave_tty_write ?w me mem sz] inv assms(2,4,6,7) by blast
  have "map (\<lambda>c. if c = 13 then 10 else c) cs = cs"
    using assms(6) by (intro map_idI) (auto simp: plain_key_def)
  then obtain f ps' where f: "foldl (echo_key pty_slave_tty_write (slave_tty p)) ?w (cs @ [13]) = (f, ps')"
    "fifo_inv f" "fifo_contents f = cs @ [10]"
    using echo_fills [of "slave_to_master p" "slave_tty p" "cs @ [13]" ps] inv assms(3,5,8) by auto
  define p2 where "p2 = p\<lparr>slave_to_master := f, slave_tty := t2\<rparr>"
  have "fifo_count f \<noteq> 0" using f(3) by (cases "fifo_count f") (auto simp: fifo_contents_def)
  moreover obtain f' where "drain pty_fifo_get f sz' = (take sz' (cs @ [10]), f')"
    using pty_ring.drain_spec [OF f(2), of sz'] f(3) by auto
  ultimately have "pty_master_read me' mem' sz' p2 ps1 =
      (Some (Inr (take sz' (cs @ [10]))), p2\<lparr>slave_to_master := f'\<rparr>, ps1)"
    by (simp add: pty_master_read_def pty_fifo_read_def pty_fifo_take_def p2_def)
  moreover have "pty_master_write (cs @ [13]) p ps =
      Some (int (length cs) + 1, p\<lparr>slave_tty := t1, slave_to_master := f\<rparr>, ps1)"
    using t(1) f(1) by (simp add: pty_master_write_def)
  ultimately show ?thesis using t(2) by (auto simp: pty_slave_read_def p2_def)
qed

theorem pty_line_session_witness:
  "\<exists>p1 ps1 p2 p3 ps3. pty_master_write [108, 115, 13] (new_pty 0) [] = Some (3, p1, ps1) \<and>
    pty_slave_read 0 True 80 p1 ps1 = (Some [108, 115, 10], p2, ps1) \<and>
    pty_master_read 0 True 80 p2 ps1 = (Some (Inr [108, 115, 10]), p3, ps3)"
  using pty_line_session [OF new_pty_ok [of 0], of "[108, 115]" "[]" 0 True 80 0 True 80]
  by (simp add: new_pty_def tty_reset_def plain_key_def edit_def fifo_room_def pty_fifo_zero_def fifo_contents_def)

text \<open>
  When the process has fewer than two free descriptors, \<open>sys_pty_create\<close> answers
  \<open>-EMFILE\<close> and makes no description, but one slot of the table of pseudo-terminals stays taken:
  sixteen such calls leave none.
\<close>

theorem sys_pty_create_leaks:
  assumes "length (pty_table s) = MAX_PTYS"
    and "length (filter (\<lambda>i. pty_fds s ! i = None) [0..<MAX_PROCESS_FILES]) < 2"
    and "sys_pty_create s = (r, out, s')"
  shows "out = None \<and> pty_fds s' = pty_fds s \<and> pty_descs s' = pty_descs s \<and>
    (if \<exists>i < MAX_PTYS. pty_table s ! i = None
     then r = - EMFILE \<and> (\<exists>i < MAX_PTYS. \<not> pty_is_active s (int i) \<and> pty_is_active s' (int i) \<and>
        (\<forall>j < MAX_PTYS. j \<noteq> i \<longrightarrow> pty_is_active s' (int j) = pty_is_active s (int j)))
     else r = - ENOMEM \<and> s' = s)"
proof -
  obtain mfd sfd where scan: "two_free_fds (pty_fds s) [0..<MAX_PROCESS_FILES] (-1) (-1) = (mfd, sfd)"
    and none: "mfd = -1 \<or> sfd = -1"
    using assms(2) two_free_fds_spec [of "pty_fds s" "[0..<MAX_PROCESS_FILES]"]
    by (cases "filter (\<lambda>i. pty_fds s ! i = None) [0..<MAX_PROCESS_FILES]" rule: remdups_adj.cases) auto
  show ?thesis
  proof (cases "find (\<lambda>i. pty_table s ! i = None) [0..<MAX_PTYS]")
    case None
    then have "\<forall>i. 0 \<le> i \<and> i < MAX_PTYS \<longrightarrow> pty_table s ! i \<noteq> None" unfolding find_upt_None_iff .
    then show ?thesis using assms(3) None unfolding sys_pty_create_def by auto
  next
    case (Some i)
    from find_upt_SomeD [OF Some] have i: "i < MAX_PTYS" "pty_table s ! i = None" by auto
    have "s' = s\<lparr>ptys := ptys s @ [Some (new_pty i)], pty_table := (pty_table s)[i := Some (length (ptys s))]\<rparr>"
      "r = - EMFILE" "out = None"
      using assms(3) none unfolding sys_pty_create_def Some by (auto simp: scan Let_def)
    moreover from this(1) have "pty_is_active s' (int j) = (j = i \<or> pty_is_active s (int j))" if "j < MAX_PTYS" for j
      using i assms(1) that by (auto simp: pty_is_active_def nth_list_update)
    moreover have "\<not> pty_is_active s (int i)" using i by (simp add: pty_is_active_def)
    ultimately show ?thesis using i by auto
  qed
qed

theorem sys_pty_create_leaks_witness:
  "\<exists>s'. sys_pty_create \<lparr>ptys = [], pty_table = replicate 16 None, pty_descs = [], pty_fds = replicate 16 (Some 0)\<rparr> =
    (- EMFILE, None, s') \<and> pty_is_active s' 0"
proof -
  let ?s = "\<lparr>ptys = [], pty_table = replicate 16 None, pty_descs = [], pty_fds = replicate 16 (Some 0)\<rparr>"
  obtain r out s' where run: "sys_pty_create ?s = (r, out, s')" by (metis prod_cases3)
  have "filter (\<lambda>i. pty_fds ?s ! i = None) [0..<MAX_PROCESS_FILES] = []" by (auto simp: filter_empty_conv)
  moreover have "\<exists>i < MAX_PTYS. pty_table ?s ! i = None" by (rule exI [of _ 0]) simp
  ultimately have "out = None" "r = - EMFILE"
    using sys_pty_create_leaks [OF _ _ run] by simp_all
  moreover have "pty_is_active s' 0"
    using run by (auto simp: sys_pty_create_def Let_def pty_is_active_def upt_rec split: if_splits prod.splits)
  ultimately show ?thesis using run by auto
qed

end
