(* ===== verification/FdContract.thy ===== *)
theory FdContract
  imports Fifo
begin

text \<open>
  The reference contract for file offsets and terminals
  (\<open>src/fd_offset_and_terminal_contract.c\<close>): open file descriptions shared by descriptors, the
  calls that move their cursor, the unbounded-index terminal ring, and the shell that copies
  files through descriptors.  A vnode is known by its size and its two function pointers, which
  are drivers outside the file: they are the argument \<open>ops\<close>, over a vnode state of any type.
\<close>

section \<open>File descriptions\<close>

abbreviation MAX_FD :: int where "MAX_FD \<equiv> 256"
abbreviation O_APPEND :: u32 where "O_APPEND \<equiv> 8"

text \<open>
  \<open>read\<close> takes the vnode, the offset and the size and answers a count, the bytes stored in the
  buffer and the vnode afterwards; \<open>write\<close> takes the bytes to write.
\<close>

record 'v vnode_ops =
  v_size :: "'v \<Rightarrow> u64"
  v_read :: "'v \<Rightarrow> u64 \<Rightarrow> nat \<Rightarrow> int \<times> u8 list \<times> 'v"
  v_write :: "'v \<Rightarrow> u64 \<Rightarrow> u8 list \<Rightarrow> int \<times> 'v"

record file_description =
  fd_vnode :: nat
  fd_offset :: u64
  fd_flags :: u32
  fd_ref_count :: int

text \<open>Vnodes and descriptions live in the heap; \<open>fd_table\<close> is the current process's table.\<close>

record 'v fd_kernel =
  vnodes :: "nat \<Rightarrow> 'v"
  fd_heap :: "file_description list"
  fd_table :: "nat option list"

definition sys_open :: "'v vnode_ops \<Rightarrow> nat option \<Rightarrow> u32 \<Rightarrow> 'v fd_kernel \<Rightarrow> int \<times> 'v fd_kernel" where
  "sys_open ops vnode flags k =
     (case vnode of
        None \<Rightarrow> (-1, k)
      | Some v \<Rightarrow>
          (let desc = \<lparr>fd_vnode = v,
                       fd_offset = (if flags AND O_APPEND \<noteq> 0 then v_size ops (vnodes k v) else 0),
                       fd_flags = flags, fd_ref_count = 1\<rparr>;
               d = length (fd_heap k);
               k1 = k\<lparr>fd_heap := fd_heap k @ [desc]\<rparr>
           in case find (\<lambda>i. fd_table k ! i = None) [0..<nat MAX_FD] of
                Some i \<Rightarrow> (int i, k1\<lparr>fd_table := (fd_table k)[i := Some d]\<rparr>)
              | None \<Rightarrow> (-1, k1)))"

text \<open>The description behind a descriptor, when the checks at the top of each call pass.\<close>

definition fd_lookup :: "'v fd_kernel \<Rightarrow> int \<Rightarrow> nat option" where
  "fd_lookup k fd = (if fd < 0 \<or> fd \<ge> MAX_FD then None else fd_table k ! nat fd)"

definition sys_read :: "'v vnode_ops \<Rightarrow> int \<Rightarrow> nat \<Rightarrow> 'v fd_kernel \<Rightarrow> int \<times> u8 list \<times> 'v fd_kernel" where
  "sys_read ops fd sz k =
     (case fd_lookup k fd of
        None \<Rightarrow> (-1, [], k)
      | Some d \<Rightarrow>
          (let f = fd_heap k ! d;
               (n, bs, v) = v_read ops (vnodes k (fd_vnode f)) (fd_offset f) sz;
               k1 = k\<lparr>vnodes := (vnodes k)(fd_vnode f := v)\<rparr>
           in (n, bs, if n > 0
                      then k1\<lparr>fd_heap := (fd_heap k)[d := f\<lparr>fd_offset := fd_offset f + of_int n\<rparr>]\<rparr>
                      else k1)))"

definition sys_write :: "'v vnode_ops \<Rightarrow> int \<Rightarrow> u8 list \<Rightarrow> 'v fd_kernel \<Rightarrow> int \<times> 'v fd_kernel" where
  "sys_write ops fd buf k =
     (case fd_lookup k fd of
        None \<Rightarrow> (-1, k)
      | Some d \<Rightarrow>
          (let f = fd_heap k ! d;
               off = (if fd_flags f AND O_APPEND \<noteq> 0 then v_size ops (vnodes k (fd_vnode f)) else fd_offset f);
               (n, v) = v_write ops (vnodes k (fd_vnode f)) off buf;
               off' = (if n > 0 then off + of_int n else off)
           in (n, k\<lparr>vnodes := (vnodes k)(fd_vnode f := v),
                    fd_heap := (fd_heap k)[d := f\<lparr>fd_offset := off'\<rparr>]\<rparr>)))"

definition sys_lseek :: "'v vnode_ops \<Rightarrow> int \<Rightarrow> u64 \<Rightarrow> int \<Rightarrow> 'v fd_kernel \<Rightarrow> int \<times> 'v fd_kernel" where
  "sys_lseek ops fd off whence k =
     (case fd_lookup k fd of
        None \<Rightarrow> (-1, k)
      | Some d \<Rightarrow>
          (let f = fd_heap k ! d;
               new_offset = (if whence = 0 then off
                             else if whence = 1 then fd_offset f + off
                             else if whence = 2 then v_size ops (vnodes k (fd_vnode f)) + off
                             else fd_offset f)
           in (sint (ucast new_offset :: u32), k\<lparr>fd_heap := (fd_heap k)[d := f\<lparr>fd_offset := new_offset\<rparr>]\<rparr>)))"

section \<open>The terminal ring\<close>

text \<open>
  \<open>head\<close> and \<open>tail\<close> count all bytes ever written and read in C integers; incrementing
  2147483647 is undefined and makes the operation \<open>None\<close>.
\<close>

record contract_pty =
  cp_buffer :: "u8 list"
  cp_head :: nat
  cp_tail :: nat

definition cp_put :: "contract_pty \<Rightarrow> u8 \<Rightarrow> contract_pty option" where
  "cp_put p c =
     (if cp_head p < 2147483647
      then Some (p\<lparr>cp_buffer := (cp_buffer p)[cp_head p mod 4096 := c], cp_head := cp_head p + 1\<rparr>)
      else None)"

definition cp_get :: "contract_pty \<Rightarrow> (u8 \<times> contract_pty) option" where
  "cp_get p =
     (if cp_tail p = cp_head p then None
      else Some (cp_buffer p ! (cp_tail p mod 4096), p\<lparr>cp_tail := cp_tail p + 1\<rparr>))"

definition pty_read :: "contract_pty \<Rightarrow> nat \<Rightarrow> int \<times> u8 list \<times> contract_pty" where
  "pty_read p sz = (let (bs, p') = drain cp_get p sz in (int (length bs), bs, p'))"

definition pty_write :: "contract_pty \<Rightarrow> u8 list \<Rightarrow> (int \<times> contract_pty) option" where
  "pty_write p buf =
     (let (n, p') = fill cp_put p buf in if n = length buf then Some (int n, p') else None)"

section \<open>The shell\<close>

text \<open>\<open>while ((bytes = read(fd, buf, sizeof(buf))) > 0) write(1, buf, bytes);\<close>\<close>

partial_function (option) cat_loop :: "'v vnode_ops \<Rightarrow> int \<Rightarrow> 'v fd_kernel \<Rightarrow> 'v fd_kernel option" where
  "cat_loop ops fd k =
     (let (n, buf, k1) = sys_read ops fd 128 k
      in if n > 0 then cat_loop ops fd (snd (sys_write ops 1 (take (nat n) buf) k1)) else Some k1)"

text \<open>
  The shell's loop; \<open>open_path\<close> and \<open>close_fd\<close> are the C library's \<open>open\<close> (read-only) and
  \<open>close\<close>.  The rest of the line after \<open>cat\<close> and a blank, up to a zero byte, is the file name.
\<close>

partial_function (option) shell_main ::
    "'v vnode_ops \<Rightarrow> (u8 list \<Rightarrow> 'v fd_kernel \<Rightarrow> int \<times> 'v fd_kernel) \<Rightarrow>
     (int \<Rightarrow> 'v fd_kernel \<Rightarrow> 'v fd_kernel) \<Rightarrow> 'v fd_kernel \<Rightarrow> 'v fd_kernel option" where
  "shell_main ops open_path close_fd k =
     (let k1 = snd (sys_write ops 1 [36, 32] k);
          (n, line, k2) = sys_read ops 0 255 k1
      in if n \<le> 0 then Some k2
         else if take 4 (take (nat n) line) = [99, 97, 116, 32] then
           (let (fd, k3) = open_path (takeWhile (\<lambda>c. c \<noteq> 0) (drop 4 (take (nat n) line))) k2
            in if fd \<ge> 0 then Option.bind (cat_loop ops fd k3) (\<lambda>k4. shell_main ops open_path close_fd (close_fd fd k4))
               else shell_main ops open_path close_fd k3)
         else shell_main ops open_path close_fd k2)"

text \<open>The terminal window: a key goes to the master, a refresh draws at most 128 bytes from it.\<close>

definition terminal_on_key_event :: "'v vnode_ops \<Rightarrow> int \<Rightarrow> u8 \<Rightarrow> 'v fd_kernel \<Rightarrow> 'v fd_kernel" where
  "terminal_on_key_event ops pty_master_fd c k = snd (sys_write ops pty_master_fd [c] k)"

definition terminal_on_paint :: "'v vnode_ops \<Rightarrow> int \<Rightarrow> 'v fd_kernel \<Rightarrow> u8 list \<times> 'v fd_kernel" where
  "terminal_on_paint ops pty_master_fd k =
     (let (n, incoming, k1) = sys_read ops pty_master_fd 128 k
      in (if n > 0 then take (nat n) incoming else [], k1))"

section \<open>The ring as a queue\<close>

definition cp_contents :: "contract_pty \<Rightarrow> u8 list" where
  "cp_contents p = ring_slice (cp_buffer p) (cp_tail p) (cp_head p - cp_tail p)"

definition cp_room :: "contract_pty \<Rightarrow> nat" where
  "cp_room p = min (4096 - (cp_head p - cp_tail p)) (2147483647 - cp_head p)"

definition cp_inv :: "contract_pty \<Rightarrow> bool" where
  "cp_inv p \<longleftrightarrow> length (cp_buffer p) = 4096 \<and> cp_tail p \<le> cp_head p \<and> cp_head p - cp_tail p \<le> 4096"

lemma cp_put_ok:
  assumes "cp_inv p" and "0 < cp_room p"
  shows "\<exists>p'. cp_put p c = Some p' \<and> cp_inv p' \<and> cp_contents p' = cp_contents p @ [c] \<and> cp_room p' = cp_room p - 1"
proof -
  have "cp_head p - cp_tail p < length (cp_buffer p)" using assms by (simp add: cp_inv_def cp_room_def less_diff_conv2)
  from ring_slice_update [OF this, of "cp_tail p" c] assms show ?thesis
    by (auto simp: cp_put_def cp_inv_def cp_room_def cp_contents_def Suc_diff_le)
qed

lemma cp_get_Some:
  assumes "cp_inv p" and "cp_get p = Some (c, p')"
  shows "cp_inv p' \<and> cp_contents p = c # cp_contents p' \<and> cp_room p \<le> cp_room p'"
proof -
  have lt: "cp_tail p < cp_head p" and p': "p' = p\<lparr>cp_tail := cp_tail p + 1\<rparr>"
    and c: "c = cp_buffer p ! (cp_tail p mod 4096)"
    using assms by (auto simp: cp_get_def cp_inv_def split: if_splits)
  then obtain n where "cp_head p - cp_tail p = Suc n" "cp_head p - Suc (cp_tail p) = n"
    by (metis Suc_diff_Suc)
  with assms(1) lt show ?thesis
    by (auto simp: p' c cp_inv_def cp_room_def cp_contents_def ring_slice_rec)
qed

interpretation cp_fifo: byte_fifo cp_put cp_get cp_contents cp_room cp_inv
proof unfold_locales
  show "(cp_get p = None) = (cp_contents p = [])" if "cp_inv p" for p
    using that by (auto simp: cp_get_def cp_contents_def cp_inv_def ring_slice_def)
qed (use cp_put_ok cp_get_Some in blast)+

subsection \<open>Beyond the room of the ring\<close>

primrec ring_write :: "u8 list \<Rightarrow> nat \<Rightarrow> u8 list \<Rightarrow> u8 list" where
  "ring_write buf h [] = buf"
| "ring_write buf h (c # cs) = ring_write (buf[h mod 4096 := c]) (Suc h) cs"

lemma ring_write_length [simp]: "length (ring_write buf h bs) = length buf"
  by (induction bs arbitrary: buf h) auto

lemma fill_cp_put:
  "cp_head p + length bs \<le> 2147483647 \<Longrightarrow> fill cp_put p bs =
    (length bs, p\<lparr>cp_buffer := ring_write (cp_buffer p) (cp_head p) bs, cp_head := cp_head p + length bs\<rparr>)"
  by (induction bs arbitrary: p) (auto simp: cp_put_def)

lemma ring_write_other:
  "\<forall>j < length bs. (h + j) mod 4096 \<noteq> r \<Longrightarrow> ring_write buf h bs ! r = buf ! r"
proof (induction bs arbitrary: buf h)
  case (Cons c cs)
  then have "h mod 4096 \<noteq> r" "\<forall>j < length cs. (Suc h + j) mod 4096 \<noteq> r" by force+
  with Cons.IH [of "Suc h" "buf[h mod 4096 := c]"] show ?case by simp
qed simp

lemma ring_write_last:
  assumes "length buf = 4096" and "i < length bs"
    and "\<forall>j. i < j \<and> j < length bs \<longrightarrow> (h + j) mod 4096 \<noteq> (h + i) mod 4096"
  shows "ring_write buf h bs ! ((h + i) mod 4096) = bs ! i"
  using assms
proof (induction bs arbitrary: buf h i)
  case (Cons c cs)
  show ?case
  proof (cases i)
    case 0
    have "\<forall>j < length cs. (Suc h + j) mod 4096 \<noteq> h mod 4096" using Cons.prems(3) 0 by (auto dest: spec [of _ "Suc _"])
    then show ?thesis using Cons.prems(1) 0 by (simp add: ring_write_other)
  next
    case (Suc n)
    have "\<forall>j. n < j \<and> j < length cs \<longrightarrow> (Suc h + j) mod 4096 \<noteq> (Suc h + n) mod 4096"
      using Cons.prems(3) Suc by (auto dest: spec [of _ "Suc _"])
    then show ?thesis using Cons.IH [of "buf[h mod 4096 := c]" n "Suc h"] Cons.prems Suc by simp
  qed
qed simp

lemma drain_cp_get:
  assumes "length (cp_buffer p) = 4096" and "cp_tail p + n \<le> cp_head p"
  shows "fst (drain cp_get p n) = ring_slice (cp_buffer p) (cp_tail p) n"
  using assms
proof (induction n arbitrary: p)
  case (Suc n)
  have "fst (drain cp_get (p\<lparr>cp_tail := cp_tail p + 1\<rparr>) n) = ring_slice (cp_buffer p) (Suc (cp_tail p)) n"
    using Suc.IH [of "p\<lparr>cp_tail := cp_tail p + 1\<rparr>"] Suc.prems by simp
  moreover have "cp_get p = Some (cp_buffer p ! (cp_tail p mod 4096), p\<lparr>cp_tail := cp_tail p + 1\<rparr>)"
    using Suc.prems by (simp add: cp_get_def)
  ultimately show ?case using Suc.prems by (simp add: split_beta ring_slice_rec)
qed simp

section \<open>What the drivers promise\<close>

text \<open>A regular file with the bytes \<open>content\<close>: reading answers the slice at the offset.\<close>

definition file_vnode :: "'v vnode_ops \<Rightarrow> 'v \<Rightarrow> u8 list \<Rightarrow> bool" where
  "file_vnode ops v content \<longleftrightarrow> length content < 2 ^ 31 \<and> v_size ops v = of_nat (length content) \<and>
     (\<forall>off n. v_read ops v off n =
        (int (length (take n (drop (unat off) content))), take n (drop (unat off) content), v))"

text \<open>A sink takes all bytes, whatever the offset, and keeps them in \<open>out\<close>.\<close>

definition sink_vnode :: "'v vnode_ops \<Rightarrow> ('v \<Rightarrow> bool) \<Rightarrow> ('v \<Rightarrow> u8 list) \<Rightarrow> bool" where
  "sink_vnode ops ok out \<longleftrightarrow> (\<forall>v off bs. ok v \<longrightarrow>
     (\<exists>v'. v_write ops v off bs = (int (length bs), v') \<and> ok v' \<and> out v' = out v @ bs))"

text \<open>A vnode that is just a byte list, for examples.\<close>

definition list_vnode :: "u8 list vnode_ops" where
  "list_vnode = \<lparr>v_size = (\<lambda>v. of_nat (length v)),
     v_read = (\<lambda>v off n. let bs = take n (drop (unat off) v) in (int (length bs), bs, v)),
     v_write = (\<lambda>v off bs. let v' = v @ replicate (unat off - length v) 0
                in (int (length bs), take (unat off) v' @ bs @ drop (unat off + length bs) v'))\<rparr>"

lemma list_vnode_file: "length v < 2 ^ 31 \<Longrightarrow> file_vnode list_vnode v v"
  by (simp add: file_vnode_def list_vnode_def Let_def)

lemma fd_lookup_update [simp]:
  "fd_lookup (k\<lparr>vnodes := vs\<rparr>) fd = fd_lookup k fd" "fd_lookup (k\<lparr>fd_heap := h\<rparr>) fd = fd_lookup k fd"
  by (simp_all add: fd_lookup_def)

lemma fd_lookup_cong: "fd_table k' = fd_table k \<Longrightarrow> fd_lookup k' fd = fd_lookup k fd"
  by (simp add: fd_lookup_def)

lemma unat_offset_add:
  fixes off :: u64
  assumes "k \<le> c - unat off" and "c < 2 ^ 31"
  shows "unat (off + of_int (int k)) = unat off + (if unat off \<le> c then k else 0)"
proof (cases "unat off \<le> c")
  case True
  then have "unat off + k < 2 ^ 64" using assms by simp
  then have "unat (off + of_nat k) = unat off + k"
    by (simp add: unat_word_ariths unsigned_of_nat take_bit_eq_mod)
  with True show ?thesis by simp
next
  case False
  with assms(1) have "k = 0" by simp
  then show ?thesis by simp
qed

text \<open>One read of a regular file.\<close>

lemma sys_read_file:
  assumes "fd_lookup k fd = Some d" and "d < length (fd_heap k)"
    and "file_vnode ops (vnodes k (fd_vnode (fd_heap k ! d))) content"
    and bs: "bs = take n (drop (unat (fd_offset (fd_heap k ! d))) content)"
  shows "\<exists>k'. sys_read ops fd n k = (int (length bs), bs, k') \<and> vnodes k' = vnodes k \<and> fd_table k' = fd_table k \<and>
    (\<exists>off. fd_heap k' = (fd_heap k)[d := (fd_heap k ! d)\<lparr>fd_offset := off\<rparr>] \<and>
       unat off = unat (fd_offset (fd_heap k ! d)) + length bs)"
proof -
  let ?f = "fd_heap k ! d"
  have c: "length content < 2 ^ 31" using assms(3) by (simp add: file_vnode_def)
  have len: "length bs \<le> length content - unat (fd_offset ?f)"
    "length bs = 0 \<or> unat (fd_offset ?f) \<le> length content" by (auto simp: bs)
  have off: "unat (fd_offset ?f + of_int (int (length bs))) = unat (fd_offset ?f) + length bs"
    using unat_offset_add [OF len(1) c] len(2) by auto
  have read: "v_read ops (vnodes k (fd_vnode ?f)) (fd_offset ?f) n = (int (length bs), bs, vnodes k (fd_vnode ?f))"
    using assms(3) by (simp add: file_vnode_def bs)
  show ?thesis
  proof (cases "bs = []")
    case True
    have "(fd_heap k)[d := ?f\<lparr>fd_offset := fd_offset ?f\<rparr>] = fd_heap k" by simp
    with True read assms(1) show ?thesis
      by (auto simp: sys_read_def Let_def intro!: exI [of _ "fd_offset ?f"])
  next
    case False
    with read assms(1) off show ?thesis by (auto simp: sys_read_def Let_def)
  qed
qed

text \<open>One round of the copy loop: what it leaves for the next round.\<close>

definition copying :: "'v vnode_ops \<Rightarrow> ('v \<Rightarrow> bool) \<Rightarrow> int \<Rightarrow> nat \<Rightarrow> nat \<Rightarrow> nat \<Rightarrow> nat \<Rightarrow> u8 list \<Rightarrow> 'v fd_kernel \<Rightarrow> bool" where
  "copying ops ok fd d e f g content k \<longleftrightarrow>
     fd_lookup k fd = Some d \<and> fd_lookup k 1 = Some e \<and> d \<noteq> e \<and> d < length (fd_heap k) \<and> e < length (fd_heap k) \<and>
     fd_vnode (fd_heap k ! d) = f \<and> fd_vnode (fd_heap k ! e) = g \<and> f \<noteq> g \<and>
     file_vnode ops (vnodes k f) content \<and> ok (vnodes k g)"

lemma sink_write_step:
  assumes "fd_lookup k 1 = Some e" and "e < length (fd_heap k)" and "bs \<noteq> []"
    and "sink_vnode ops ok out" and "ok (vnodes k (fd_vnode (fd_heap k ! e)))"
  shows "\<exists>v' off. snd (sys_write ops 1 bs k) = k\<lparr>vnodes := (vnodes k)(fd_vnode (fd_heap k ! e) := v'),
      fd_heap := (fd_heap k)[e := (fd_heap k ! e)\<lparr>fd_offset := off\<rparr>]\<rparr> \<and>
    ok v' \<and> out v' = out (vnodes k (fd_vnode (fd_heap k ! e))) @ bs"
proof -
  let ?f = "fd_heap k ! e"
  define off where "off = (if fd_flags ?f AND O_APPEND \<noteq> 0 then v_size ops (vnodes k (fd_vnode ?f)) else fd_offset ?f)"
  obtain v' where v': "v_write ops (vnodes k (fd_vnode ?f)) off bs = (int (length bs), v')" "ok v'"
      "out v' = out (vnodes k (fd_vnode ?f)) @ bs"
    using assms(4) [unfolded sink_vnode_def] assms(5) by blast
  then show ?thesis using assms(1,3)
    by (cases "fd_flags ?f AND O_APPEND = 0") (auto simp: sys_write_def Let_def off_def)
qed

lemma cat_loop_round:
  assumes c: "copying ops ok fd d e f g content k" and sink: "sink_vnode ops ok out"
    and more: "unat (fd_offset (fd_heap k ! d)) < length content"
  shows "\<exists>k2. cat_loop ops fd k = cat_loop ops fd k2 \<and> copying ops ok fd d e f g content k2 \<and>
    vnodes k2 f = vnodes k f \<and>
    out (vnodes k2 g) = out (vnodes k g) @ take 128 (drop (unat (fd_offset (fd_heap k ! d))) content) \<and>
    unat (fd_offset (fd_heap k2 ! d)) = min (unat (fd_offset (fd_heap k ! d)) + 128) (length content)"
proof -
  let ?o = "unat (fd_offset (fd_heap k ! d))"
  define bs where "bs = take 128 (drop ?o content)"
  note c' = c [unfolded copying_def]
  have fil: "file_vnode ops (vnodes k (fd_vnode (fd_heap k ! d))) content" using c' by simp
  obtain k1 off where k1: "sys_read ops fd 128 k = (int (length bs), bs, k1)" "vnodes k1 = vnodes k"
    "fd_table k1 = fd_table k" "fd_heap k1 = (fd_heap k)[d := (fd_heap k ! d)\<lparr>fd_offset := off\<rparr>]"
    "unat off = ?o + length bs"
    using sys_read_file [OF _ _ fil bs_def, of fd] c' by auto
  have ne: "bs \<noteq> []" using more by (simp add: bs_def)
  have look: "fd_lookup k1 x = fd_lookup k x" for x using k1(3) by (rule fd_lookup_cong)
  have e1: "fd_heap k1 ! e = fd_heap k ! e" "e < length (fd_heap k1)" "fd_lookup k1 1 = Some e"
    using c' by (simp_all add: k1(4) look)
  have "ok (vnodes k1 (fd_vnode (fd_heap k1 ! e)))" using c' by (simp add: e1(1) k1(2))
  from sink_write_step [OF e1(3,2) ne sink this]
  obtain v' off3 where k2: "snd (sys_write ops 1 bs k1) = k1\<lparr>vnodes := (vnodes k)(g := v'),
      fd_heap := (fd_heap k1)[e := (fd_heap k ! e)\<lparr>fd_offset := off3\<rparr>]\<rparr>"
    "ok v'" "out v' = out (vnodes k g) @ bs"
    using c' by (auto simp: e1(1) k1(2))
  let ?k2 = "snd (sys_write ops 1 bs k1)"
  have "cat_loop ops fd k = cat_loop ops fd ?k2"
    using ne by (subst cat_loop.simps) (simp add: k1(1))
  moreover have "copying ops ok fd d e f g content ?k2"
    using c' k2(2) unfolding copying_def k2(1) by (simp add: look k1(4))
  moreover have "unat (fd_offset (fd_heap ?k2 ! d)) = min (?o + 128) (length content)"
    using c' more unfolding k2(1) by (auto simp: k1(4,5) bs_def)
  ultimately show ?thesis using c' k2 by (auto simp: bs_def)
qed

lemma cat_loop_end:
  assumes c: "copying ops ok fd d e f g content k" and "length content \<le> unat (fd_offset (fd_heap k ! d))"
  shows "\<exists>k'. cat_loop ops fd k = Some k' \<and> vnodes k' = vnodes k"
proof -
  have "file_vnode ops (vnodes k (fd_vnode (fd_heap k ! d))) content" "fd_lookup k fd = Some d" "d < length (fd_heap k)"
    using c by (simp_all add: copying_def)
  from sys_read_file [OF this(2,3,1) refl, of 128] assms(2) show ?thesis
    by (subst cat_loop.simps) auto
qed

section \<open>Properties\<close>

text \<open>
  The shell's copy loop ends and copies: on a descriptor of a regular file whose cursor is
  at \<open>o\<close>, with a sink behind descriptor 1, it returns, the sink has received exactly the bytes
  of the file from \<open>o\<close> on, and the file is as it was.
\<close>

theorem cat_loop_copies_file:
  assumes "fd_lookup k fd = Some d" and "fd_lookup k 1 = Some e" and "d \<noteq> e"
    and "d < length (fd_heap k)" and "e < length (fd_heap k)"
    and "fd_vnode (fd_heap k ! d) = f" and "fd_vnode (fd_heap k ! e) = g" and "f \<noteq> g"
    and "file_vnode ops (vnodes k f) content" and sink: "sink_vnode ops ok out" and "ok (vnodes k g)"
  shows "\<exists>k'. cat_loop ops fd k = Some k' \<and> vnodes k' f = vnodes k f \<and>
    out (vnodes k' g) = out (vnodes k g) @ drop (unat (fd_offset (fd_heap k ! d))) content"
proof -
  have "copying ops ok fd d e f g content k" using assms by (simp add: copying_def)
  then show ?thesis
  proof (induction "length content - unat (fd_offset (fd_heap k ! d))" arbitrary: k rule: less_induct)
    case less
    let ?o = "unat (fd_offset (fd_heap k ! d))"
    show ?case
    proof (cases "?o < length content")
      case False
      then show ?thesis using cat_loop_end [OF less.prems] by auto
    next
      case True
      from cat_loop_round [OF less.prems sink True] obtain k2 where k2: "cat_loop ops fd k = cat_loop ops fd k2"
        "copying ops ok fd d e f g content k2" "vnodes k2 f = vnodes k f"
        "out (vnodes k2 g) = out (vnodes k g) @ take 128 (drop ?o content)"
        "unat (fd_offset (fd_heap k2 ! d)) = min (?o + 128) (length content)" by blast
      have "length content - unat (fd_offset (fd_heap k2 ! d)) < length content - ?o" using True k2(5) by simp
      moreover have "take 128 (drop ?o content) @ drop (min (?o + 128) (length content)) content = drop ?o content"
        using append_take_drop_id [of 128 "drop ?o content"] by (auto simp: min_def add.commute)
      ultimately show ?thesis using less.hyps [OF _ k2(2)] k2 by auto
    qed
  qed
qed

definition cat_example :: "u8 list fd_kernel" where
  "cat_example = \<lparr>vnodes = (\<lambda>i. if i = 0 then [104, 105, 10] else []),
     fd_heap = [\<lparr>fd_vnode = 1, fd_offset = 0, fd_flags = 9, fd_ref_count = 1\<rparr>,
                \<lparr>fd_vnode = 0, fd_offset = 1, fd_flags = 0, fd_ref_count = 1\<rparr>],
     fd_table = [None, Some 0, Some 1] @ replicate 253 None\<rparr>"

text \<open>A driver whose writes append and whose reads are those of a byte list.\<close>

definition append_vnode :: "u8 list vnode_ops" where
  "append_vnode = list_vnode\<lparr>v_write := (\<lambda>v off bs. (int (length bs), v @ bs))\<rparr>"

theorem cat_loop_copies_file_witness:
  "\<exists>k'. cat_loop append_vnode 2 cat_example = Some k' \<and> vnodes k' 1 = [105, 10]"
proof -
  have "file_vnode append_vnode (vnodes cat_example 0) [104, 105, 10]"
    using list_vnode_file [of "[104, 105, 10]"] by (simp add: file_vnode_def append_vnode_def cat_example_def)
  moreover have "sink_vnode append_vnode (\<lambda>_. True) (\<lambda>v. v)" by (simp add: sink_vnode_def append_vnode_def)
  moreover have "fd_lookup cat_example 2 = Some 1" "fd_lookup cat_example 1 = Some 0"
    by (simp_all add: fd_lookup_def cat_example_def)
  ultimately obtain k' where "cat_loop append_vnode 2 cat_example = Some k'"
    "vnodes k' 1 = vnodes cat_example 1 @ drop (unat (fd_offset (fd_heap cat_example ! 1))) [104, 105, 10]"
    using cat_loop_copies_file [of cat_example 2 1 0 0 1 append_vnode "[104, 105, 10]" "\<lambda>_. True" "\<lambda>v. v"]
    by (auto simp: cat_example_def)
  then show ?thesis by (simp add: cat_example_def)
qed

text \<open>
  Descriptors that share a description (after a duplication or a fork) share its cursor: a
  read through one and then a read through the other deliver consecutive parts of the file,
  together what one read of both lengths would have delivered.
\<close>

theorem shared_description_shares_cursor:
  assumes "fd_lookup k a = Some d" and "fd_lookup k b = Some d" and "d < length (fd_heap k)"
    and "file_vnode ops (vnodes k (fd_vnode (fd_heap k ! d))) content"
  shows "\<exists>n1 bs1 k1 n2 bs2 k2. sys_read ops a m k = (n1, bs1, k1) \<and> sys_read ops b n k1 = (n2, bs2, k2) \<and>
    bs1 @ bs2 = take (m + n) (drop (unat (fd_offset (fd_heap k ! d))) content) \<and>
    n1 = int (length bs1) \<and> n2 = int (length bs2)"
proof -
  let ?o = "unat (fd_offset (fd_heap k ! d))"
  obtain k1 off where k1: "sys_read ops a m k = (int (length (take m (drop ?o content))), take m (drop ?o content), k1)"
    "vnodes k1 = vnodes k" "fd_table k1 = fd_table k" "fd_heap k1 = (fd_heap k)[d := (fd_heap k ! d)\<lparr>fd_offset := off\<rparr>]"
    "unat off = ?o + length (take m (drop ?o content))"
    using sys_read_file [OF assms(1,3,4) refl, of m] by blast
  have "fd_lookup k1 b = Some d" using assms(2) fd_lookup_cong [OF k1(3)] by simp
  moreover have "d < length (fd_heap k1)" "fd_vnode (fd_heap k1 ! d) = fd_vnode (fd_heap k ! d)"
    "fd_offset (fd_heap k1 ! d) = off" using assms(3) by (simp_all add: k1(4))
  ultimately obtain k2 where k2: "sys_read ops b n k1 =
      (int (length (take n (drop (unat off) content))), take n (drop (unat off) content), k2)"
    using sys_read_file [of k1 b d ops content _ n] assms(4) by (auto simp: k1(2))
  have "drop (unat off) content = drop m (drop ?o content)"
    by (cases "m \<le> length content - ?o") (simp_all add: k1(5) add.commute)
  then have "take m (drop ?o content) @ take n (drop (unat off) content) = take (m + n) (drop ?o content)"
    by (simp only: take_add)
  with k1(1) k2 show ?thesis by blast
qed

theorem shared_description_shares_cursor_witness:
  "\<exists>k1 k2. sys_read list_vnode 2 1 cat_example = (1, [105], k1) \<and> sys_read list_vnode 2 5 k1 = (1, [10], k2)"
proof -
  have "file_vnode list_vnode (vnodes cat_example (fd_vnode (fd_heap cat_example ! 1))) [104, 105, 10]"
    using list_vnode_file [of "[104, 105, 10]"] by (simp add: cat_example_def)
  moreover have "fd_lookup cat_example 2 = Some 1" by (simp add: fd_lookup_def cat_example_def)
  ultimately obtain n1 bs1 k1 n2 bs2 k2 where r: "sys_read list_vnode 2 1 cat_example = (n1, bs1, k1)"
    "sys_read list_vnode 2 5 k1 = (n2, bs2, k2)"
    "bs1 @ bs2 = take (1 + 5) (drop (unat (fd_offset (fd_heap cat_example ! 1))) [104, 105, 10])"
    "n1 = int (length bs1)" "n2 = int (length bs2)"
    using shared_description_shares_cursor [of cat_example 2 1 2 list_vnode "[104, 105, 10]" 1 5]
    by (auto simp: cat_example_def)
  moreover have "bs1 = [105]"
    using r(1) by (simp add: sys_read_def fd_lookup_def cat_example_def list_vnode_def Let_def)
  ultimately show ?thesis by (auto simp: cat_example_def)
qed

text \<open>
  A description opened with \<open>O_APPEND\<close> writes at the end wherever the cursor has been moved:
  after any \<open>lseek\<close> the bytes of a write follow the whole old contents of the file, and the
  cursor stands at the new end.
\<close>

theorem append_after_seek:
  assumes "fd_lookup k fd = Some d" and "d < length (fd_heap k)" and "fd_flags (fd_heap k ! d) AND O_APPEND \<noteq> 0"
    and "v_size ops (vnodes k (fd_vnode (fd_heap k ! d))) = of_nat (length content)"
    and "\<forall>bs. v_write ops (vnodes k (fd_vnode (fd_heap k ! d))) (of_nat (length content)) bs =
           (int (length bs), store (content @ bs))"
  shows "\<exists>k'. sys_write ops fd bs (snd (sys_lseek ops fd off whence k)) = (int (length bs), k') \<and>
    vnodes k' (fd_vnode (fd_heap k ! d)) = store (content @ bs) \<and>
    fd_offset (fd_heap k' ! d) = of_nat (length (content @ bs))"
proof -
  obtain o' where seek: "snd (sys_lseek ops fd off whence k) =
      k\<lparr>fd_heap := (fd_heap k)[d := (fd_heap k ! d)\<lparr>fd_offset := o'\<rparr>]\<rparr>"
    using assms(1) by (auto simp: sys_lseek_def Let_def)
  show ?thesis
    unfolding seek using assms by (simp add: sys_write_def Let_def)
qed

theorem append_after_seek_witness:
  "\<exists>k'. sys_write list_vnode 1 [7] (snd (sys_lseek list_vnode 1 0 0 (cat_example\<lparr>vnodes := (\<lambda>_. [5, 6])\<rparr>))) = (1, k') \<and>
    vnodes k' 1 = [5, 6, 7]"
  using append_after_seek [of "cat_example\<lparr>vnodes := (\<lambda>_. [5, 6])\<rparr>" 1 0 list_vnode "[5, 6]" "\<lambda>v. v" "[7]" 0 0]
  by (auto simp: fd_lookup_def cat_example_def list_vnode_def)

text \<open>
  The reference terminal ring delivers what was written in order as long as at most 4096
  bytes are outstanding (and fewer than \<open>2^31\<close> have been written in all).
\<close>

theorem contract_pty_in_order:
  assumes "cp_inv p" and "length bs \<le> cp_room p"
  shows "\<exists>p' p''. pty_write p bs = Some (int (length bs), p') \<and>
    pty_read p' n = (int (min n (length (cp_contents p @ bs))), take n (cp_contents p @ bs), p'') \<and> cp_inv p''"
proof -
  obtain p' where p': "fill cp_put p bs = (length bs, p')" "cp_inv p'" "cp_contents p' = cp_contents p @ bs"
    using cp_fifo.fill_fits [OF assms] by blast
  obtain p'' where "drain cp_get p' n = (take n (cp_contents p'), p'')" "cp_inv p''"
    using cp_fifo.drain_spec [OF p'(2)] by blast
  with p' show ?thesis by (auto simp: pty_write_def pty_read_def min.commute)
qed

definition cp_new :: contract_pty where
  "cp_new = \<lparr>cp_buffer = replicate 4096 0, cp_head = 0, cp_tail = 0\<rparr>"

theorem contract_pty_in_order_witness:
  "\<exists>p' p''. pty_write cp_new [108, 115] = Some (2, p') \<and> pty_read p' 1 = (1, [108], p'')"
  using contract_pty_in_order [of cp_new "[108, 115]" 1]
  by (simp add: cp_new_def cp_inv_def cp_room_def cp_contents_def) blast

text \<open>
  The writer is never refused: from an empty ring a write of \<open>4096 + m\<close> bytes
  (\<open>m \<le> 4096\<close>) succeeds, and reading everything back delivers \<open>4096 + m\<close> bytes whose first
  \<open>m\<close> are the last \<open>m\<close> written, so the first \<open>m\<close> bytes written are lost.
\<close>

theorem contract_pty_overrun:
  assumes "length (cp_buffer p) = 4096" and "cp_tail p = cp_head p"
    and "length bs = 4096 + m" and "m \<le> 4096" and "cp_head p + length bs \<le> 2147483647"
  shows "\<exists>p'. pty_write p bs = Some (int (length bs), p') \<and>
    fst (snd (pty_read p' (length bs))) = drop 4096 bs @ drop m bs"
proof -
  let ?h = "cp_head p"
  let ?B = "ring_write (cp_buffer p) ?h bs"
  define p' where "p' = p\<lparr>cp_buffer := ?B, cp_head := ?h + length bs\<rparr>"
  have wr: "pty_write p bs = Some (int (length bs), p')"
    by (simp add: pty_write_def fill_cp_put [OF assms(5)] p'_def)
  have "fst (drain cp_get p' (length bs)) = ring_slice ?B ?h (length bs)"
    using drain_cp_get [of p' "length bs"] assms(1,2) by (simp add: p'_def)
  moreover have "ring_slice ?B ?h (length bs) = drop 4096 bs @ drop m bs"
  proof (rule nth_equalityI)
    fix i assume "i < length (ring_slice ?B ?h (length bs))"
    then have i: "i < 4096 + m" by (simp add: assms(3))
    define j where "j = (if i < m then 4096 + i else i)"
    have same: "(?h + i) mod 4096 = (?h + j) mod 4096"
      by (simp add: j_def) (metis add.assoc add.commute mod_add_self1)
    have "(?h + l) mod 4096 \<noteq> (?h + j) mod 4096" if "j < l" "l < length bs" for l
    proof -
      have "l - j < 4096" using that assms(3,4) i by (auto simp: j_def split: if_splits)
      then show ?thesis using mod_add_cancel_less [of 0 4096 "l - j" "?h + j"] that by auto
    qed
    then have "?B ! ((?h + j) mod 4096) = bs ! j"
      using i assms(1,3) by (intro ring_write_last) (auto simp: j_def)
    then show "ring_slice ?B ?h (length bs) ! i = (drop 4096 bs @ drop m bs) ! i"
      using i assms(1,3) same by (auto simp: ring_slice_def j_def nth_append)
  qed (simp add: assms(3))
  ultimately have "fst (snd (pty_read p' (length bs))) = drop 4096 bs @ drop m bs"
    by (simp add: pty_read_def split_beta)
  with wr show ?thesis by blast
qed

theorem contract_pty_overrun_witness:
  "\<exists>p'. pty_write cp_new (replicate 4096 1 @ [2]) = Some (4097, p') \<and>
    fst (snd (pty_read p' 4097)) = 2 # replicate 4095 1 @ [2]"
proof -
  have "length (replicate 4096 (1 :: u8) @ [2]) = 4096 + 1" by simp
  moreover have "drop 4096 (replicate 4096 1 @ [2]) @ drop 1 (replicate 4096 1 @ [2]) = 2 # replicate 4095 (1 :: u8) @ [2]"
    by (simp add: drop_replicate)
  ultimately show ?thesis
    using contract_pty_overrun [of cp_new "replicate 4096 1 @ [2]" 1] by (auto simp: cp_new_def)
qed

end
