(* ===== verification/HttpTypes.thy ===== *)
theory HttpTypes
  imports Prelude
begin

text \<open>
  The data of the HTTP parser (\<open>src/src/kernel/http_parser.c\<close>, \<open>http_parser.h\<close>): its states and
  error numbers, the parser structure, the character classes and tables, and the transition
  function of the URL grammar that request parsing and URL splitting share.  The build does not
  define \<open>HTTP_PARSER_STRICT\<close>, so the header's default, strict mode, is modelled.
\<close>

section \<open>Enumerations\<close>

text \<open>The states, in the order of the source.\<close>

datatype (plugins only: code) http_state =
    s_dead | s_start_req_or_res | s_res_or_resp_H | s_start_res | s_res_H | s_res_HT | s_res_HTT
  | s_res_HTTP | s_res_http_major | s_res_http_dot | s_res_http_minor | s_res_http_end
  | s_res_first_status_code | s_res_status_code | s_res_status_start | s_res_status
  | s_res_line_almost_done | s_start_req | s_req_method | s_req_spaces_before_url | s_req_schema
  | s_req_schema_slash | s_req_schema_slash_slash | s_req_server_start | s_req_server
  | s_req_server_with_at | s_req_path | s_req_query_string_start | s_req_query_string
  | s_req_fragment_start | s_req_fragment | s_req_http_start | s_req_http_H | s_req_http_HT
  | s_req_http_HTT | s_req_http_HTTP | s_req_http_I | s_req_http_IC | s_req_http_major
  | s_req_http_dot | s_req_http_minor | s_req_http_end | s_req_line_almost_done
  | s_header_field_start | s_header_field | s_header_value_discard_ws
  | s_header_value_discard_ws_almost_done | s_header_value_discard_lws | s_header_value_start
  | s_header_value | s_header_value_lws | s_header_almost_done | s_chunk_size_start | s_chunk_size
  | s_chunk_parameters | s_chunk_size_almost_done | s_headers_almost_done | s_headers_done
  | s_chunk_data | s_chunk_data_almost_done | s_chunk_data_done | s_body_identity
  | s_body_identity_eof | s_message_done

text \<open>\<open>PARSING_HEADER(state)\<close> is \<open>state <= s_headers_done\<close>.\<close>

definition parsing_header :: "http_state \<Rightarrow> bool" where
  "parsing_header s \<longleftrightarrow> s \<notin> {s_chunk_data, s_chunk_data_almost_done, s_chunk_data_done,
                             s_body_identity, s_body_identity_eof, s_message_done}"

datatype (plugins only: code) header_state =
    h_general | h_C | h_CO | h_CON | h_matching_connection | h_matching_proxy_connection
  | h_matching_content_length | h_matching_transfer_encoding | h_matching_upgrade | h_connection
  | h_content_length | h_content_length_num | h_content_length_ws | h_transfer_encoding | h_upgrade
  | h_matching_transfer_encoding_token_start | h_matching_transfer_encoding_chunked
  | h_matching_transfer_encoding_token | h_matching_connection_token_start
  | h_matching_connection_keep_alive | h_matching_connection_close | h_matching_connection_upgrade
  | h_matching_connection_token | h_transfer_encoding_chunked | h_connection_keep_alive
  | h_connection_close | h_connection_upgrade

datatype (plugins only: code) http_method =
    HTTP_DELETE | HTTP_GET | HTTP_HEAD | HTTP_POST | HTTP_PUT | HTTP_CONNECT | HTTP_OPTIONS
  | HTTP_TRACE | HTTP_COPY | HTTP_LOCK | HTTP_MKCOL | HTTP_MOVE | HTTP_PROPFIND | HTTP_PROPPATCH
  | HTTP_SEARCH | HTTP_UNLOCK | HTTP_BIND | HTTP_REBIND | HTTP_UNBIND | HTTP_ACL | HTTP_REPORT
  | HTTP_MKACTIVITY | HTTP_CHECKOUT | HTTP_MERGE | HTTP_MSEARCH | HTTP_NOTIFY | HTTP_SUBSCRIBE
  | HTTP_UNSUBSCRIBE | HTTP_PATCH | HTTP_PURGE | HTTP_MKCALENDAR | HTTP_LINK | HTTP_UNLINK
  | HTTP_SOURCE

datatype http_parser_type = HTTP_REQUEST | HTTP_RESPONSE | HTTP_BOTH

datatype (plugins only: code) http_errno =
    HPE_OK | HPE_CB_message_begin | HPE_CB_url | HPE_CB_header_field | HPE_CB_header_value
  | HPE_CB_headers_complete | HPE_CB_body | HPE_CB_message_complete | HPE_CB_status
  | HPE_CB_chunk_header | HPE_CB_chunk_complete | HPE_INVALID_EOF_STATE | HPE_HEADER_OVERFLOW
  | HPE_CLOSED_CONNECTION | HPE_INVALID_VERSION | HPE_INVALID_STATUS | HPE_INVALID_METHOD
  | HPE_INVALID_URL | HPE_INVALID_HOST | HPE_INVALID_PORT | HPE_INVALID_PATH
  | HPE_INVALID_QUERY_STRING | HPE_INVALID_FRAGMENT | HPE_LF_EXPECTED | HPE_INVALID_HEADER_TOKEN
  | HPE_INVALID_CONTENT_LENGTH | HPE_UNEXPECTED_CONTENT_LENGTH | HPE_INVALID_CHUNK_SIZE
  | HPE_INVALID_CONSTANT | HPE_INVALID_INTERNAL_STATE | HPE_STRICT | HPE_PAUSED | HPE_UNKNOWN
  | HPE_INVALID_TRANSFER_ENCODING

abbreviation F_CHUNKED :: u8 where "F_CHUNKED \<equiv> 1"
abbreviation F_CONNECTION_KEEP_ALIVE :: u8 where "F_CONNECTION_KEEP_ALIVE \<equiv> 2"
abbreviation F_CONNECTION_CLOSE :: u8 where "F_CONNECTION_CLOSE \<equiv> 4"
abbreviation F_CONNECTION_UPGRADE :: u8 where "F_CONNECTION_UPGRADE \<equiv> 8"
abbreviation F_TRAILING :: u8 where "F_TRAILING \<equiv> 16"
abbreviation F_UPGRADE :: u8 where "F_UPGRADE \<equiv> 32"
abbreviation F_SKIPBODY :: u8 where "F_SKIPBODY \<equiv> 64"
abbreviation F_CONTENTLENGTH :: u8 where "F_CONTENTLENGTH \<equiv> 128"

section \<open>The parser structure\<close>

text \<open>
  The bit fields keep their width: \<open>index\<close> is incremented modulo 32, \<open>flags\<close> has eight bits.
  The application's \<open>data\<close> pointer is not part of the structure here; the callbacks thread a
  value of their own.
\<close>

record http_parser =
  hp_type :: http_parser_type
  hp_flags :: u8
  hp_state :: http_state
  hp_header_state :: header_state
  hp_index :: nat
  hp_uses_transfer_encoding :: bool
  hp_allow_chunked_length :: bool
  hp_lenient :: bool
  hp_nread :: u32
  hp_content_length :: u64
  hp_http_major :: u16
  hp_http_minor :: u16
  hp_status_code :: u16
  hp_method :: http_method
  hp_errno :: http_errno
  hp_upgrade :: bool

definition ULLONG_MAX :: u64 where "ULLONG_MAX = - 1"

definition has_flag :: "http_parser \<Rightarrow> u8 \<Rightarrow> bool" where
  "has_flag parser f \<longleftrightarrow> hp_flags parser AND f \<noteq> 0"

definition set_flag :: "u8 \<Rightarrow> http_parser \<Rightarrow> http_parser" where
  "set_flag f parser = parser\<lparr>hp_flags := hp_flags parser OR f\<rparr>"

definition incr_index :: "http_parser \<Rightarrow> http_parser" where
  "incr_index parser = parser\<lparr>hp_index := (hp_index parser + 1) mod 32\<rparr>"

definition start_state :: "http_parser \<Rightarrow> http_state" where
  "start_state parser = (if hp_type parser = HTTP_REQUEST then s_start_req else s_start_res)"

definition http_parser_init :: "http_parser_type \<Rightarrow> http_parser" where
  "http_parser_init t = \<lparr>hp_type = t, hp_flags = 0,
     hp_state = (if t = HTTP_REQUEST then s_start_req else if t = HTTP_RESPONSE then s_start_res
                 else s_start_req_or_res),
     hp_header_state = h_general, hp_index = 0, hp_uses_transfer_encoding = False,
     hp_allow_chunked_length = False, hp_lenient = False, hp_nread = 0, hp_content_length = 0,
     hp_http_major = 0, hp_http_minor = 0, hp_status_code = 0, hp_method = HTTP_DELETE,
     hp_errno = HPE_OK, hp_upgrade = False\<rparr>"

definition http_message_needs_eof :: "http_parser \<Rightarrow> bool" where
  "http_message_needs_eof parser =
     (if hp_type parser = HTTP_REQUEST then False
      else if hp_status_code parser div 100 = 1 \<or> hp_status_code parser = 204 \<or>
              hp_status_code parser = 304 \<or> has_flag parser F_SKIPBODY then False
      else if hp_uses_transfer_encoding parser \<and> \<not> has_flag parser F_CHUNKED then True
      else if has_flag parser F_CHUNKED \<or> hp_content_length parser \<noteq> ULLONG_MAX then False
      else True)"

definition http_should_keep_alive :: "http_parser \<Rightarrow> bool" where
  "http_should_keep_alive parser =
     (if hp_http_major parser > 0 \<and> hp_http_minor parser > 0
      then if has_flag parser F_CONNECTION_CLOSE then False else \<not> http_message_needs_eof parser
      else if \<not> has_flag parser F_CONNECTION_KEEP_ALIVE then False else \<not> http_message_needs_eof parser)"

text \<open>\<open>NEW_MESSAGE()\<close> of strict mode.\<close>

definition new_message :: "http_parser \<Rightarrow> http_state" where
  "new_message parser = (if http_should_keep_alive parser then start_state parser else s_dead)"

definition http_parser_pause :: "http_parser \<Rightarrow> bool \<Rightarrow> http_parser" where
  "http_parser_pause parser paused =
     (if hp_errno parser = HPE_OK \<or> hp_errno parser = HPE_PAUSED
      then parser\<lparr>hp_errno := (if paused then HPE_PAUSED else HPE_OK)\<rparr> else parser)"

definition http_body_is_final :: "http_parser \<Rightarrow> bool" where
  "http_body_is_final parser \<longleftrightarrow> hp_state parser = s_message_done"

section \<open>Characters\<close>

abbreviation chr :: "char \<Rightarrow> u8" where "chr \<equiv> of_char"
abbreviation CR :: u8 where "CR \<equiv> 13"
abbreviation LF :: u8 where "LF \<equiv> 10"
abbreviation SP :: u8 where "SP \<equiv> 32"
abbreviation HT :: u8 where "HT \<equiv> 9"

definition lower_char :: "u8 \<Rightarrow> u8" where "lower_char c = c OR 0x20"

definition is_alpha :: "u8 \<Rightarrow> bool" where
  "is_alpha c \<longleftrightarrow> chr CHR ''a'' \<le> lower_char c \<and> lower_char c \<le> chr CHR ''z''"

definition is_num :: "u8 \<Rightarrow> bool" where "is_num c \<longleftrightarrow> chr CHR ''0'' \<le> c \<and> c \<le> chr CHR ''9''"

definition is_alphanum :: "u8 \<Rightarrow> bool" where "is_alphanum c \<longleftrightarrow> is_alpha c \<or> is_num c"

definition is_hex :: "u8 \<Rightarrow> bool" where
  "is_hex c \<longleftrightarrow> is_num c \<or> chr CHR ''a'' \<le> lower_char c \<and> lower_char c \<le> chr CHR ''f''"

definition is_mark :: "u8 \<Rightarrow> bool" where
  "is_mark c \<longleftrightarrow> c \<in> {chr CHR ''-'', chr CHR ''_'', chr CHR ''.'', chr CHR ''!'', chr CHR ''~'',
                       chr CHR ''*'', chr (CHR 0x27), chr CHR ''('', chr CHR '')''}"

definition is_userinfo_char :: "u8 \<Rightarrow> bool" where
  "is_userinfo_char c \<longleftrightarrow> is_alphanum c \<or> is_mark c \<or>
     c \<in> {chr CHR ''%'', chr CHR '';'', chr CHR '':'', chr CHR ''&'', chr CHR ''='', chr CHR ''+'',
          chr CHR ''$'', chr CHR '',''}"

definition is_host_char :: "u8 \<Rightarrow> bool" where
  "is_host_char c \<longleftrightarrow> is_alphanum c \<or> c = chr CHR ''.'' \<or> c = chr CHR ''-''"

definition is_header_char :: "u8 \<Rightarrow> bool" where
  "is_header_char ch \<longleftrightarrow> ch = CR \<or> ch = LF \<or> ch = 9 \<or> ch > 31 \<and> ch \<noteq> 127"

text \<open>The table of token characters, lower-cased; 0 for the others and from 128 on.\<close>

definition tokens :: "u8 list" where
  "tokens =
    [0, 0, 0, 0, 0, 0, 0, 0,  0, 0, 0, 0, 0, 0, 0, 0,
     0, 0, 0, 0, 0, 0, 0, 0,  0, 0, 0, 0, 0, 0, 0, 0,
     32, 33, 0, 35, 36, 37, 38, 39,  0, 0, 42, 43, 0, 45, 46, 0,
     48, 49, 50, 51, 52, 53, 54, 55,  56, 57, 0, 0, 0, 0, 0, 0,
     0, 97, 98, 99, 100, 101, 102, 103,  104, 105, 106, 107, 108, 109, 110, 111,
     112, 113, 114, 115, 116, 117, 118, 119,  120, 121, 122, 0, 0, 0, 94, 95,
     96, 97, 98, 99, 100, 101, 102, 103,  104, 105, 106, 107, 108, 109, 110, 111,
     112, 113, 114, 115, 116, 117, 118, 119,  120, 121, 122, 0, 124, 0, 126, 0]
    @ replicate 128 0"

text \<open>\<open>TOKEN\<close> is \<open>STRICT_TOKEN\<close>: a blank is not a token character.\<close>

definition token :: "u8 \<Rightarrow> u8" where
  "token c = (if c = SP then 0 else tokens ! unat c)"

definition unhex :: "u8 list" where
  "unhex = replicate 48 (- 1) @ [0, 1, 2, 3, 4, 5, 6, 7, 8, 9] @ replicate 7 (- 1) @
     [10, 11, 12, 13, 14, 15] @ replicate 26 (- 1) @ [10, 11, 12, 13, 14, 15] @ replicate 25 (- 1) @
     replicate 128 0"

definition normal_url_char :: "u8 list" where
  "normal_url_char =
    [0, 0, 0, 0,
     0 OR 2 OR 4 OR 0 OR 16 OR 32 OR 64 OR 128,
     1 OR 2 OR 4 OR 8 OR 16 OR 32 OR 64 OR 128,
     1 OR 2 OR 4 OR 8 OR 16 OR 32 OR 64 OR 128,
     1 OR 2 OR 4 OR 8 OR 16 OR 32 OR 64 OR 0,
     1 OR 2 OR 4 OR 8 OR 16 OR 32 OR 64 OR 128,
     1 OR 2 OR 4 OR 8 OR 16 OR 32 OR 64 OR 128,
     1 OR 2 OR 4 OR 8 OR 16 OR 32 OR 64 OR 128,
     1 OR 2 OR 4 OR 8 OR 16 OR 32 OR 64 OR 128,
     1 OR 2 OR 4 OR 8 OR 16 OR 32 OR 64 OR 128,
     1 OR 2 OR 4 OR 8 OR 16 OR 32 OR 64 OR 128,
     1 OR 2 OR 4 OR 8 OR 16 OR 32 OR 64 OR 128,
     1 OR 2 OR 4 OR 8 OR 16 OR 32 OR 64 OR 0]
    @ replicate 16 0"

text \<open>\<open>BIT_AT(normal_url_char, c)\<close>.\<close>

definition is_url_char :: "u8 \<Rightarrow> bool" where
  "is_url_char c \<longleftrightarrow> normal_url_char ! unat (drop_bit 3 c) AND push_bit (unat (c AND 7)) 1 \<noteq> 0"

text \<open>A C string literal read at an index, with its terminator.\<close>

definition lit_at :: "string \<Rightarrow> nat \<Rightarrow> u8" where
  "lit_at s i = (if i < length s then chr (s ! i) else 0)"

definition method_string :: "http_method \<Rightarrow> string" where
  "method_string m = (case m of
      HTTP_DELETE \<Rightarrow> ''DELETE'' | HTTP_GET \<Rightarrow> ''GET'' | HTTP_HEAD \<Rightarrow> ''HEAD'' | HTTP_POST \<Rightarrow> ''POST''
    | HTTP_PUT \<Rightarrow> ''PUT'' | HTTP_CONNECT \<Rightarrow> ''CONNECT'' | HTTP_OPTIONS \<Rightarrow> ''OPTIONS''
    | HTTP_TRACE \<Rightarrow> ''TRACE'' | HTTP_COPY \<Rightarrow> ''COPY'' | HTTP_LOCK \<Rightarrow> ''LOCK'' | HTTP_MKCOL \<Rightarrow> ''MKCOL''
    | HTTP_MOVE \<Rightarrow> ''MOVE'' | HTTP_PROPFIND \<Rightarrow> ''PROPFIND'' | HTTP_PROPPATCH \<Rightarrow> ''PROPPATCH''
    | HTTP_SEARCH \<Rightarrow> ''SEARCH'' | HTTP_UNLOCK \<Rightarrow> ''UNLOCK'' | HTTP_BIND \<Rightarrow> ''BIND''
    | HTTP_REBIND \<Rightarrow> ''REBIND'' | HTTP_UNBIND \<Rightarrow> ''UNBIND'' | HTTP_ACL \<Rightarrow> ''ACL''
    | HTTP_REPORT \<Rightarrow> ''REPORT'' | HTTP_MKACTIVITY \<Rightarrow> ''MKACTIVITY'' | HTTP_CHECKOUT \<Rightarrow> ''CHECKOUT''
    | HTTP_MERGE \<Rightarrow> ''MERGE'' | HTTP_MSEARCH \<Rightarrow> ''M-SEARCH'' | HTTP_NOTIFY \<Rightarrow> ''NOTIFY''
    | HTTP_SUBSCRIBE \<Rightarrow> ''SUBSCRIBE'' | HTTP_UNSUBSCRIBE \<Rightarrow> ''UNSUBSCRIBE'' | HTTP_PATCH \<Rightarrow> ''PATCH''
    | HTTP_PURGE \<Rightarrow> ''PURGE'' | HTTP_MKCALENDAR \<Rightarrow> ''MKCALENDAR'' | HTTP_LINK \<Rightarrow> ''LINK''
    | HTTP_UNLINK \<Rightarrow> ''UNLINK'' | HTTP_SOURCE \<Rightarrow> ''SOURCE'')"

section \<open>The URL grammar\<close>

definition parse_url_char :: "http_state \<Rightarrow> u8 \<Rightarrow> http_state" where
  "parse_url_char s ch =
     (if ch = SP \<or> ch = CR \<or> ch = LF \<or> ch = HT \<or> ch = 12 then s_dead
      else if s = s_req_spaces_before_url then
        (if ch = chr CHR ''/'' \<or> ch = chr CHR ''*'' then s_req_path
         else if is_alpha ch then s_req_schema else s_dead)
      else if s = s_req_schema then
        (if is_alpha ch then s else if ch = chr CHR '':'' then s_req_schema_slash else s_dead)
      else if s = s_req_schema_slash then
        (if ch = chr CHR ''/'' then s_req_schema_slash_slash else s_dead)
      else if s = s_req_schema_slash_slash then
        (if ch = chr CHR ''/'' then s_req_server_start else s_dead)
      else if s = s_req_server_with_at \<and> ch = chr CHR ''@'' then s_dead
      else if s = s_req_server_with_at \<or> s = s_req_server_start \<or> s = s_req_server then
        (if ch = chr CHR ''/'' then s_req_path
         else if ch = chr CHR ''?'' then s_req_query_string_start
         else if ch = chr CHR ''@'' then s_req_server_with_at
         else if is_userinfo_char ch \<or> ch = chr CHR ''['' \<or> ch = chr CHR '']'' then s_req_server
         else s_dead)
      else if s = s_req_path then
        (if is_url_char ch then s
         else if ch = chr CHR ''?'' then s_req_query_string_start
         else if ch = chr CHR ''#'' then s_req_fragment_start else s_dead)
      else if s = s_req_query_string_start \<or> s = s_req_query_string then
        (if is_url_char ch then s_req_query_string
         else if ch = chr CHR ''?'' then s_req_query_string
         else if ch = chr CHR ''#'' then s_req_fragment_start else s_dead)
      else if s = s_req_fragment_start then
        (if is_url_char ch then s_req_fragment
         else if ch = chr CHR ''?'' then s_req_fragment
         else if ch = chr CHR ''#'' then s else s_dead)
      else if s = s_req_fragment then
        (if is_url_char ch then s
         else if ch = chr CHR ''?'' \<or> ch = chr CHR ''#'' then s else s_dead)
      else s_dead)"

end
