(* ===== verification/HttpStep.thy ===== *)
theory HttpStep
  imports HttpTypes
begin

text \<open>
  One pass through the state switch of \<open>http_parser_execute\<close>: the local variables of the
  function, the callback and error macros, and one definition per group of neighbouring states.
  A pass ends in one of three ways: it breaks out of the switch and the next byte follows, it
  executes the switch again on the same byte, or the function returns.
\<close>

section \<open>Local variables, callbacks and macros\<close>

type_synonym 'u notify_cb = "http_parser \<Rightarrow> 'u \<Rightarrow> int \<times> http_parser \<times> 'u"
type_synonym 'u data_cb = "u8 list \<Rightarrow> http_parser \<Rightarrow> 'u \<Rightarrow> int \<times> http_parser \<times> 'u"

record 'u http_settings =
  on_message_begin :: "'u notify_cb option"
  on_url :: "'u data_cb option"
  on_status :: "'u data_cb option"
  on_header_field :: "'u data_cb option"
  on_header_value :: "'u data_cb option"
  on_headers_complete :: "'u notify_cb option"
  on_body :: "'u data_cb option"
  on_message_complete :: "'u notify_cb option"
  on_chunk_header :: "'u notify_cb option"
  on_chunk_complete :: "'u notify_cb option"

text \<open>
  What does not change during a call: the settings, the bytes, the static \<open>max_header_size\<close>, and the
  two parser fields the function copies into constants when it starts.
\<close>

record 'u http_env =
  env_settings :: "'u http_settings"
  env_data :: "u8 list"
  env_max_header_size :: u32
  env_lenient :: bool
  env_allow_chunked_length :: bool

text \<open>The locals: the pointer \<open>p\<close> and the marks are offsets from \<open>data\<close>.\<close>

record 'u hx =
  hx_p :: int
  hx_ch :: u8
  hx_state :: http_state
  hx_nread :: u32
  hx_header_field_mark :: "int option"
  hx_header_value_mark :: "int option"
  hx_url_mark :: "int option"
  hx_body_mark :: "int option"
  hx_status_mark :: "int option"
  hx_parser :: http_parser
  hx_user :: 'u

datatype 'u flow = Break "'u hx" | Reexecute "'u hx" | Exit int "'u hx"

text \<open>The statements after a callback run only if it did not return from the function.\<close>

fun and_then :: "'u flow \<Rightarrow> ('u hx \<Rightarrow> 'u flow) \<Rightarrow> 'u flow" where
  "and_then (Break x) k = k x"
| "and_then (Reexecute x) k = Reexecute x"
| "and_then (Exit r x) k = Exit r x"

definition data_len :: "'u http_env \<Rightarrow> int" where
  "data_len env = int (length (env_data env))"

definition data_at :: "'u http_env \<Rightarrow> int \<Rightarrow> u8" where
  "data_at env p = env_data env ! nat p"

definition update_state :: "http_state \<Rightarrow> 'u hx \<Rightarrow> 'u hx" where
  "update_state s x = x\<lparr>hx_state := s\<rparr>"

definition with_parser :: "(http_parser \<Rightarrow> http_parser) \<Rightarrow> 'u hx \<Rightarrow> 'u hx" where
  "with_parser f x = x\<lparr>hx_parser := f (hx_parser x)\<rparr>"

definition set_errno :: "http_errno \<Rightarrow> 'u hx \<Rightarrow> 'u hx" where
  "set_errno e x = with_parser (\<lambda>q. q\<lparr>hp_nread := hx_nread x, hp_errno := e\<rparr>) x"

text \<open>The macro \<open>RETURN\<close>, and the code at the label \<open>error\<close>.\<close>

definition return_at :: "int \<Rightarrow> 'u hx \<Rightarrow> 'u flow" where
  "return_at r x = Exit r (with_parser (\<lambda>q. q\<lparr>hp_nread := hx_nread x, hp_state := hx_state x\<rparr>) x)"

definition error_exit :: "'u hx \<Rightarrow> 'u flow" where
  "error_exit x = return_at (hx_p x) (if hp_errno (hx_parser x) = HPE_OK then set_errno HPE_UNKNOWN x else x)"

definition fail_with :: "http_errno \<Rightarrow> 'u hx \<Rightarrow> 'u flow" where
  "fail_with e x = error_exit (set_errno e x)"

definition strict_check :: "bool \<Rightarrow> 'u hx \<Rightarrow> ('u hx \<Rightarrow> 'u flow) \<Rightarrow> 'u flow" where
  "strict_check bad x k = (if bad then fail_with HPE_STRICT x else k x)"

definition count_header_size :: "'u http_env \<Rightarrow> int \<Rightarrow> 'u hx \<Rightarrow> ('u hx \<Rightarrow> 'u flow) \<Rightarrow> 'u flow" where
  "count_header_size env v x k =
     (let x' = x\<lparr>hx_nread := hx_nread x + of_int v\<rparr>
      in if hx_nread x' > env_max_header_size env then fail_with HPE_HEADER_OVERFLOW x' else k x')"

text \<open>What happens after a callback has answered \<open>r\<close>.\<close>

definition after_callback :: "http_errno \<Rightarrow> int \<Rightarrow> int \<times> http_parser \<times> 'u \<Rightarrow> 'u hx \<Rightarrow> 'u flow" where
  "after_callback e er res x =
     (let (r, parser, u) = res;
          x1 = x\<lparr>hx_parser := parser, hx_user := u\<rparr>;
          x2 = (if r \<noteq> 0 then set_errno e x1 else x1);
          x3 = update_state (hp_state (hx_parser x2)) x2
      in if hp_errno (hx_parser x3) \<noteq> HPE_OK then Exit er x3 else Break x3)"

definition callback_notify :: "'u notify_cb option \<Rightarrow> http_errno \<Rightarrow> int \<Rightarrow> 'u hx \<Rightarrow> 'u flow" where
  "callback_notify cb e er x =
     (case cb of
        None \<Rightarrow> Break x
      | Some f \<Rightarrow> after_callback e er (f ((hx_parser x)\<lparr>hp_state := hx_state x\<rparr>) (hx_user x)) x)"

definition slice :: "'u http_env \<Rightarrow> int \<Rightarrow> int \<Rightarrow> u8 list" where
  "slice env at len = take (nat len) (drop (nat at) (env_data env))"

text \<open>
  \<open>CALLBACK_DATA_(FOR, LEN, ER)\<close>: \<open>mark\<close> is the mark of that kind, \<open>clear\<close> resets it, and the
  length is given as a function of the mark.
\<close>

definition callback_data ::
    "'u http_env \<Rightarrow> 'u data_cb option \<Rightarrow> http_errno \<Rightarrow> int option \<Rightarrow> ('u hx \<Rightarrow> 'u hx) \<Rightarrow> (int \<Rightarrow> int) \<Rightarrow> int \<Rightarrow>
     'u hx \<Rightarrow> 'u flow" where
  "callback_data env cb e mark clear len er x =
     (case mark of
        None \<Rightarrow> Break x
      | Some m \<Rightarrow>
          and_then
            (case cb of
               None \<Rightarrow> Break x
             | Some f \<Rightarrow> after_callback e er
                 (f (slice env m (len m)) ((hx_parser x)\<lparr>hp_state := hx_state x\<rparr>) (hx_user x)) x)
            (\<lambda>x'. Break (clear x')))"

definition cb_url :: "'u http_env \<Rightarrow> int \<Rightarrow> 'u hx \<Rightarrow> 'u flow" where
  "cb_url env er x = callback_data env (on_url (env_settings env)) HPE_CB_url (hx_url_mark x)
     (\<lambda>x. x\<lparr>hx_url_mark := None\<rparr>) (\<lambda>m. hx_p x - m) er x"

definition cb_status :: "'u http_env \<Rightarrow> int \<Rightarrow> 'u hx \<Rightarrow> 'u flow" where
  "cb_status env er x = callback_data env (on_status (env_settings env)) HPE_CB_status (hx_status_mark x)
     (\<lambda>x. x\<lparr>hx_status_mark := None\<rparr>) (\<lambda>m. hx_p x - m) er x"

definition cb_header_field :: "'u http_env \<Rightarrow> int \<Rightarrow> 'u hx \<Rightarrow> 'u flow" where
  "cb_header_field env er x = callback_data env (on_header_field (env_settings env)) HPE_CB_header_field
     (hx_header_field_mark x) (\<lambda>x. x\<lparr>hx_header_field_mark := None\<rparr>) (\<lambda>m. hx_p x - m) er x"

definition cb_header_value :: "'u http_env \<Rightarrow> int \<Rightarrow> 'u hx \<Rightarrow> 'u flow" where
  "cb_header_value env er x = callback_data env (on_header_value (env_settings env)) HPE_CB_header_value
     (hx_header_value_mark x) (\<lambda>x. x\<lparr>hx_header_value_mark := None\<rparr>) (\<lambda>m. hx_p x - m) er x"

text \<open>The body callback's length is given apart, as the source gives one byte more at the end.\<close>

definition cb_body :: "'u http_env \<Rightarrow> int \<Rightarrow> int \<Rightarrow> 'u hx \<Rightarrow> 'u flow" where
  "cb_body env extra er x = callback_data env (on_body (env_settings env)) HPE_CB_body (hx_body_mark x)
     (\<lambda>x. x\<lparr>hx_body_mark := None\<rparr>) (\<lambda>m. hx_p x - m + extra) er x"

definition set_mark :: "int \<Rightarrow> int option \<Rightarrow> int option" where
  "set_mark p m = (case m of None \<Rightarrow> Some p | Some q \<Rightarrow> Some q)"

definition mark_url :: "'u hx \<Rightarrow> 'u hx" where
  "mark_url x = x\<lparr>hx_url_mark := set_mark (hx_p x) (hx_url_mark x)\<rparr>"
definition mark_status :: "'u hx \<Rightarrow> 'u hx" where
  "mark_status x = x\<lparr>hx_status_mark := set_mark (hx_p x) (hx_status_mark x)\<rparr>"
definition mark_header_field :: "'u hx \<Rightarrow> 'u hx" where
  "mark_header_field x = x\<lparr>hx_header_field_mark := set_mark (hx_p x) (hx_header_field_mark x)\<rparr>"
definition mark_header_value :: "'u hx \<Rightarrow> 'u hx" where
  "mark_header_value x = x\<lparr>hx_header_value_mark := set_mark (hx_p x) (hx_header_value_mark x)\<rparr>"
definition mark_body :: "'u hx \<Rightarrow> 'u hx" where
  "mark_body x = x\<lparr>hx_body_mark := set_mark (hx_p x) (hx_body_mark x)\<rparr>"

definition cb_message_begin :: "'u http_env \<Rightarrow> 'u hx \<Rightarrow> 'u flow" where
  "cb_message_begin env x =
     callback_notify (on_message_begin (env_settings env)) HPE_CB_message_begin (hx_p x + 1) x"

definition cb_message_complete :: "'u http_env \<Rightarrow> 'u hx \<Rightarrow> 'u flow" where
  "cb_message_complete env x =
     callback_notify (on_message_complete (env_settings env)) HPE_CB_message_complete (hx_p x + 1) x"

section \<open>Status line\<close>

definition reset_message :: "'u hx \<Rightarrow> 'u hx" where
  "reset_message x = with_parser (\<lambda>q. q\<lparr>hp_flags := 0, hp_uses_transfer_encoding := False,
                                        hp_content_length := ULLONG_MAX\<rparr>) x"

definition step_start :: "'u http_env \<Rightarrow> u8 \<Rightarrow> 'u hx \<Rightarrow> 'u flow" where
  "step_start env ch x =
     (if hx_state x = s_dead then
        (if ch = CR \<or> ch = LF then Break x else fail_with HPE_CLOSED_CONNECTION x)
      else if hx_state x = s_start_req_or_res then
        (if ch = CR \<or> ch = LF then Break x
         else if ch = chr CHR ''H'' then cb_message_begin env (update_state s_res_or_resp_H (reset_message x))
         else Reexecute (update_state s_start_req (with_parser (\<lambda>q. q\<lparr>hp_type := HTTP_REQUEST\<rparr>) (reset_message x))))
      else if hx_state x = s_res_or_resp_H then
        (if ch = chr CHR ''T'' then
           Break (update_state s_res_HT (with_parser (\<lambda>q. q\<lparr>hp_type := HTTP_RESPONSE\<rparr>) x))
         else if ch \<noteq> chr CHR ''E'' then fail_with HPE_INVALID_CONSTANT x
         else Break (update_state s_req_method
                (with_parser (\<lambda>q. q\<lparr>hp_type := HTTP_REQUEST, hp_method := HTTP_HEAD, hp_index := 2\<rparr>) x)))
      else \<comment> \<open>\<open>s_start_res\<close>\<close>
        (if ch = CR \<or> ch = LF then Break x
         else if ch = chr CHR ''H'' then cb_message_begin env (update_state s_res_H (reset_message x))
         else fail_with HPE_INVALID_CONSTANT (reset_message x)))"

definition digit16 :: "u8 \<Rightarrow> u16" where "digit16 ch = ucast (ch - chr CHR ''0'')"

definition step_res :: "'u http_env \<Rightarrow> u8 \<Rightarrow> 'u hx \<Rightarrow> 'u flow" where
  "step_res env ch x =
     (if hx_state x = s_res_H then
        strict_check (ch \<noteq> chr CHR ''T'') x (\<lambda>x. Break (update_state s_res_HT x))
      else if hx_state x = s_res_HT then
        strict_check (ch \<noteq> chr CHR ''T'') x (\<lambda>x. Break (update_state s_res_HTT x))
      else if hx_state x = s_res_HTT then
        strict_check (ch \<noteq> chr CHR ''P'') x (\<lambda>x. Break (update_state s_res_HTTP x))
      else if hx_state x = s_res_HTTP then
        strict_check (ch \<noteq> chr CHR ''/'') x (\<lambda>x. Break (update_state s_res_http_major x))
      else if hx_state x = s_res_http_major then
        (if \<not> is_num ch then fail_with HPE_INVALID_VERSION x
         else Break (update_state s_res_http_dot (with_parser (\<lambda>q. q\<lparr>hp_http_major := digit16 ch\<rparr>) x)))
      else if hx_state x = s_res_http_dot then
        (if ch \<noteq> chr CHR ''.'' then fail_with HPE_INVALID_VERSION x
         else Break (update_state s_res_http_minor x))
      else if hx_state x = s_res_http_minor then
        (if \<not> is_num ch then fail_with HPE_INVALID_VERSION x
         else Break (update_state s_res_http_end (with_parser (\<lambda>q. q\<lparr>hp_http_minor := digit16 ch\<rparr>) x)))
      else if hx_state x = s_res_http_end then
        (if ch \<noteq> SP then fail_with HPE_INVALID_VERSION x
         else Break (update_state s_res_first_status_code x))
      else if hx_state x = s_res_first_status_code then
        (if \<not> is_num ch then (if ch = SP then Break x else fail_with HPE_INVALID_STATUS x)
         else Break (update_state s_res_status_code (with_parser (\<lambda>q. q\<lparr>hp_status_code := digit16 ch\<rparr>) x)))
      else if hx_state x = s_res_status_code then
        (if \<not> is_num ch then
           (if ch = SP then Break (update_state s_res_status_start x)
            else if ch = CR \<or> ch = LF then Reexecute (update_state s_res_status_start x)
            else fail_with HPE_INVALID_STATUS x)
         else (let x' = with_parser (\<lambda>q. q\<lparr>hp_status_code := hp_status_code q * 10 + digit16 ch\<rparr>) x
               in if hp_status_code (hx_parser x') > 999 then fail_with HPE_INVALID_STATUS x' else Break x'))
      else if hx_state x = s_res_status_start then
        (let x' = with_parser (\<lambda>q. q\<lparr>hp_index := 0\<rparr>) (update_state s_res_status (mark_status x))
         in if ch = CR \<or> ch = LF then Reexecute x' else Break x')
      else if hx_state x = s_res_status then
        (if ch = CR then cb_status env (hx_p x + 1) (update_state s_res_line_almost_done x)
         else if ch = LF then cb_status env (hx_p x + 1) (update_state s_header_field_start x)
         else Break x)
      else \<comment> \<open>\<open>s_res_line_almost_done\<close>\<close>
        strict_check (ch \<noteq> LF) x (\<lambda>x. Break (update_state s_header_field_start x)))"

section \<open>Request line\<close>

text \<open>The method a first letter suggests.\<close>

definition first_method :: "u8 \<Rightarrow> http_method option" where
  "first_method ch =
     (if ch = chr CHR ''A'' then Some HTTP_ACL else if ch = chr CHR ''B'' then Some HTTP_BIND
      else if ch = chr CHR ''C'' then Some HTTP_CONNECT else if ch = chr CHR ''D'' then Some HTTP_DELETE
      else if ch = chr CHR ''G'' then Some HTTP_GET else if ch = chr CHR ''H'' then Some HTTP_HEAD
      else if ch = chr CHR ''L'' then Some HTTP_LOCK else if ch = chr CHR ''M'' then Some HTTP_MKCOL
      else if ch = chr CHR ''N'' then Some HTTP_NOTIFY else if ch = chr CHR ''O'' then Some HTTP_OPTIONS
      else if ch = chr CHR ''P'' then Some HTTP_POST else if ch = chr CHR ''R'' then Some HTTP_REPORT
      else if ch = chr CHR ''S'' then Some HTTP_SUBSCRIBE else if ch = chr CHR ''T'' then Some HTTP_TRACE
      else if ch = chr CHR ''U'' then Some HTTP_UNLOCK else None)"

text \<open>The switch that changes the method when a later letter differs.\<close>

definition switch_method :: "http_method \<Rightarrow> nat \<Rightarrow> u8 \<Rightarrow> http_method option" where
  "switch_method m i ch = map_of
     [((HTTP_POST, 1, chr CHR ''U''), HTTP_PUT), ((HTTP_POST, 1, chr CHR ''A''), HTTP_PATCH),
      ((HTTP_POST, 1, chr CHR ''R''), HTTP_PROPFIND), ((HTTP_PUT, 2, chr CHR ''R''), HTTP_PURGE),
      ((HTTP_CONNECT, 1, chr CHR ''H''), HTTP_CHECKOUT), ((HTTP_CONNECT, 2, chr CHR ''P''), HTTP_COPY),
      ((HTTP_MKCOL, 1, chr CHR ''O''), HTTP_MOVE), ((HTTP_MKCOL, 1, chr CHR ''E''), HTTP_MERGE),
      ((HTTP_MKCOL, 1, chr CHR ''-''), HTTP_MSEARCH), ((HTTP_MKCOL, 2, chr CHR ''A''), HTTP_MKACTIVITY),
      ((HTTP_MKCOL, 3, chr CHR ''A''), HTTP_MKCALENDAR), ((HTTP_SUBSCRIBE, 1, chr CHR ''E''), HTTP_SEARCH),
      ((HTTP_SUBSCRIBE, 1, chr CHR ''O''), HTTP_SOURCE), ((HTTP_REPORT, 2, chr CHR ''B''), HTTP_REBIND),
      ((HTTP_PROPFIND, 4, chr CHR ''P''), HTTP_PROPPATCH), ((HTTP_LOCK, 1, chr CHR ''I''), HTTP_LINK),
      ((HTTP_UNLOCK, 2, chr CHR ''S''), HTTP_UNSUBSCRIBE), ((HTTP_UNLOCK, 2, chr CHR ''B''), HTTP_UNBIND),
      ((HTTP_UNLOCK, 3, chr CHR ''I''), HTTP_UNLINK)] (m, i, ch)"

definition step_req_method :: "'u http_env \<Rightarrow> u8 \<Rightarrow> 'u hx \<Rightarrow> 'u flow" where
  "step_req_method env ch x =
     (if hx_state x = s_start_req then
        (if ch = CR \<or> ch = LF then Break x
         else
           (let x1 = reset_message x
            in if \<not> is_alpha ch then fail_with HPE_INVALID_METHOD x1
               else
                 (let x2 = with_parser (\<lambda>q. q\<lparr>hp_method := HTTP_DELETE, hp_index := 1\<rparr>) x1
                  in case first_method ch of
                       None \<Rightarrow> fail_with HPE_INVALID_METHOD x2
                     | Some m \<Rightarrow> cb_message_begin env
                         (update_state s_req_method (with_parser (\<lambda>q. q\<lparr>hp_method := m\<rparr>) x2)))))
      else \<comment> \<open>\<open>s_req_method\<close>\<close>
        (if ch = 0 then fail_with HPE_INVALID_METHOD x
         else
           (let parser = hx_parser x;
                matcher = lit_at (method_string (hp_method parser)) (hp_index parser)
            in if ch = SP \<and> matcher = 0 then
                 Break (update_state s_req_spaces_before_url (with_parser incr_index x))
               else if ch = matcher then Break (with_parser incr_index x)
               else if chr CHR ''A'' \<le> ch \<and> ch \<le> chr CHR ''Z'' \<or> ch = chr CHR ''-'' then
                 (case switch_method (hp_method parser) (hp_index parser) ch of
                    None \<Rightarrow> fail_with HPE_INVALID_METHOD x
                  | Some m \<Rightarrow> Break (with_parser (\<lambda>q. incr_index (q\<lparr>hp_method := m\<rparr>)) x))
               else fail_with HPE_INVALID_METHOD x)))"

definition url_step :: "u8 \<Rightarrow> 'u hx \<Rightarrow> 'u flow" where
  "url_step ch x =
     (let x' = update_state (parse_url_char (hx_state x) ch) x
      in if hx_state x' = s_dead then fail_with HPE_INVALID_URL x' else Break x')"

definition step_url :: "'u http_env \<Rightarrow> u8 \<Rightarrow> 'u hx \<Rightarrow> 'u flow" where
  "step_url env ch x =
     (if hx_state x = s_req_spaces_before_url then
        (if ch = SP then Break x
         else url_step ch (let x1 = mark_url x
                           in if hp_method (hx_parser x1) = HTTP_CONNECT then update_state s_req_server_start x1 else x1))
      else if hx_state x \<in> {s_req_schema, s_req_schema_slash, s_req_schema_slash_slash, s_req_server_start} then
        (if ch = SP \<or> ch = CR \<or> ch = LF then fail_with HPE_INVALID_URL x else url_step ch x)
      else \<comment> \<open>server, path, query and fragment\<close>
        (if ch = SP then cb_url env (hx_p x + 1) (update_state s_req_http_start x)
         else if ch = CR \<or> ch = LF then
           cb_url env (hx_p x + 1)
             (update_state (if ch = CR then s_req_line_almost_done else s_header_field_start)
               (with_parser (\<lambda>q. q\<lparr>hp_http_major := 0, hp_http_minor := 9\<rparr>) x))
         else url_step ch x))"

definition step_req_http :: "u8 \<Rightarrow> 'u hx \<Rightarrow> 'u flow" where
  "step_req_http ch x =
     (if hx_state x = s_req_http_start then
        (if ch = SP then Break x
         else if ch = chr CHR ''H'' then Break (update_state s_req_http_H x)
         else if ch = chr CHR ''I'' \<and> hp_method (hx_parser x) = HTTP_SOURCE then Break (update_state s_req_http_I x)
         else fail_with HPE_INVALID_CONSTANT x)
      else if hx_state x = s_req_http_H then
        strict_check (ch \<noteq> chr CHR ''T'') x (\<lambda>x. Break (update_state s_req_http_HT x))
      else if hx_state x = s_req_http_HT then
        strict_check (ch \<noteq> chr CHR ''T'') x (\<lambda>x. Break (update_state s_req_http_HTT x))
      else if hx_state x = s_req_http_HTT then
        strict_check (ch \<noteq> chr CHR ''P'') x (\<lambda>x. Break (update_state s_req_http_HTTP x))
      else if hx_state x = s_req_http_I then
        strict_check (ch \<noteq> chr CHR ''C'') x (\<lambda>x. Break (update_state s_req_http_IC x))
      else if hx_state x = s_req_http_IC then
        strict_check (ch \<noteq> chr CHR ''E'') x (\<lambda>x. Break (update_state s_req_http_HTTP x))
      else if hx_state x = s_req_http_HTTP then
        strict_check (ch \<noteq> chr CHR ''/'') x (\<lambda>x. Break (update_state s_req_http_major x))
      else if hx_state x = s_req_http_major then
        (if \<not> is_num ch then fail_with HPE_INVALID_VERSION x
         else Break (update_state s_req_http_dot (with_parser (\<lambda>q. q\<lparr>hp_http_major := digit16 ch\<rparr>) x)))
      else if hx_state x = s_req_http_dot then
        (if ch \<noteq> chr CHR ''.'' then fail_with HPE_INVALID_VERSION x
         else Break (update_state s_req_http_minor x))
      else if hx_state x = s_req_http_minor then
        (if \<not> is_num ch then fail_with HPE_INVALID_VERSION x
         else Break (update_state s_req_http_end (with_parser (\<lambda>q. q\<lparr>hp_http_minor := digit16 ch\<rparr>) x)))
      else if hx_state x = s_req_http_end then
        (if ch = CR then Break (update_state s_req_line_almost_done x)
         else if ch = LF then Break (update_state s_header_field_start x)
         else fail_with HPE_INVALID_VERSION x)
      else \<comment> \<open>\<open>s_req_line_almost_done\<close>\<close>
        (if ch \<noteq> LF then fail_with HPE_LF_EXPECTED x else Break (update_state s_header_field_start x)))"

end
