(* ===== verification/HttpHeader.thy ===== *)
theory HttpHeader
  imports HttpStep
begin

text \<open>
  The header states of \<open>http_parser_execute\<close>: field names and the recognition of the fields that
  steer the parser, the values of those fields, folding, and the end of the headers.
\<close>

section \<open>Field names\<close>

definition step_header_field_start :: "'u http_env \<Rightarrow> u8 \<Rightarrow> 'u hx \<Rightarrow> 'u flow" where
  "step_header_field_start env ch x =
     (if ch = CR then Break (update_state s_headers_almost_done x)
      else if ch = LF then Reexecute (update_state s_headers_almost_done x)
      else
        (let c = token ch
         in if c = 0 then fail_with HPE_INVALID_HEADER_TOKEN x
            else Break (with_parser (\<lambda>q. q\<lparr>hp_index := 0, hp_header_state :=
                     (if c = chr CHR ''c'' then h_C
                      else if c = chr CHR ''p'' then h_matching_proxy_connection
                      else if c = chr CHR ''t'' then h_matching_transfer_encoding
                      else if c = chr CHR ''u'' then h_matching_upgrade
                      else h_general)\<rparr>)
                   (update_state s_header_field (mark_header_field x)))))"

text \<open>\<open>while (p + 1 < pe && TOKEN(p[1])) p++;\<close>\<close>

function skip_tokens :: "'u http_env \<Rightarrow> int \<Rightarrow> int \<Rightarrow> int" where
  "skip_tokens env pe p =
     (if p + 1 < pe \<and> token (data_at env (p + 1)) \<noteq> 0 then skip_tokens env pe (p + 1) else p)"
  by pat_completeness auto
termination by (relation "measure (\<lambda>(env, pe, p). nat (pe - p))") auto

text \<open>\<open>p + MIN(data + len - p, max_header_size)\<close>.\<close>

definition scan_limit :: "'u http_env \<Rightarrow> int \<Rightarrow> int" where
  "scan_limit env p = p + min (data_len env - p) (uint (env_max_header_size env))"

text \<open>Matching the next letter of a known field name; the last letter leads to \<open>found\<close>.\<close>

definition match_name :: "string \<Rightarrow> u8 \<Rightarrow> header_state \<Rightarrow> http_parser \<Rightarrow> http_parser" where
  "match_name name c found parser =
     (let q = incr_index parser
      in if hp_index q > length name \<or> c \<noteq> lit_at name (hp_index q) then q\<lparr>hp_header_state := h_general\<rparr>
         else if hp_index q = length name - 1 then q\<lparr>hp_header_state := found\<rparr>
         else q)"

text \<open>One round of the loop over a field name: the new pointer and parser.\<close>

definition header_field_byte :: "'u http_env \<Rightarrow> int \<Rightarrow> u8 \<Rightarrow> u8 \<Rightarrow> http_parser \<Rightarrow> int \<times> http_parser" where
  "header_field_byte env p ch c parser =
     (case hp_header_state parser of
        h_general \<Rightarrow> (skip_tokens env (scan_limit env p) p, parser)
      | h_C \<Rightarrow> (p, (incr_index parser)\<lparr>hp_header_state := (if c = chr CHR ''o'' then h_CO else h_general)\<rparr>)
      | h_CO \<Rightarrow> (p, (incr_index parser)\<lparr>hp_header_state := (if c = chr CHR ''n'' then h_CON else h_general)\<rparr>)
      | h_CON \<Rightarrow> (p, (incr_index parser)\<lparr>hp_header_state :=
                    (if c = chr CHR ''n'' then h_matching_connection
                     else if c = chr CHR ''t'' then h_matching_content_length else h_general)\<rparr>)
      | h_matching_connection \<Rightarrow> (p, match_name ''connection'' c h_connection parser)
      | h_matching_proxy_connection \<Rightarrow> (p, match_name ''proxy-connection'' c h_connection parser)
      | h_matching_content_length \<Rightarrow> (p, match_name ''content-length'' c h_content_length parser)
      | h_matching_transfer_encoding \<Rightarrow>
          (let q = match_name ''transfer-encoding'' c h_transfer_encoding parser
           in (p, if hp_header_state q = h_transfer_encoding then q\<lparr>hp_uses_transfer_encoding := True\<rparr> else q))
      | h_matching_upgrade \<Rightarrow> (p, match_name ''upgrade'' c h_upgrade parser)
      | h_connection \<Rightarrow> (p, if ch \<noteq> SP then parser\<lparr>hp_header_state := h_general\<rparr> else parser)
      | h_content_length \<Rightarrow> (p, if ch \<noteq> SP then parser\<lparr>hp_header_state := h_general\<rparr> else parser)
      | h_transfer_encoding \<Rightarrow> (p, if ch \<noteq> SP then parser\<lparr>hp_header_state := h_general\<rparr> else parser)
      | h_upgrade \<Rightarrow> (p, if ch \<noteq> SP then parser\<lparr>hp_header_state := h_general\<rparr> else parser)
      | _ \<Rightarrow> (p, parser))"

text \<open>The loop; it never goes back, so it ends at the first byte that is no token or at the end.\<close>

lemma skip_tokens_ge: "p \<le> skip_tokens env pe p"
proof (induction env pe p rule: skip_tokens.induct)
  case (1 env pe p)
  then show ?case by (subst skip_tokens.simps) (auto simp del: skip_tokens.simps)
qed

declare skip_tokens.simps [simp del]

lemma header_field_byte_ge: "p \<le> fst (header_field_byte env p ch c parser)"
  by (simp add: header_field_byte_def Let_def skip_tokens_ge split: header_state.split)

function header_field_loop :: "'u http_env \<Rightarrow> int \<Rightarrow> u8 \<Rightarrow> http_parser \<Rightarrow> int \<times> u8 \<times> http_parser" where
  "header_field_loop env p ch parser =
     (if p < data_len env then
        (let ch = data_at env p; c = token ch
         in if c = 0 then (p, ch, parser)
            else (let (p', parser') = header_field_byte env p ch c parser
                  in header_field_loop env (p' + 1) ch parser'))
      else (p, ch, parser))"
  by pat_completeness auto
termination
proof (relation "measure (\<lambda>(env, p, ch, parser). nat (data_len env - p))", goal_cases)
  case (2 env p ch parser ch' c pq p' q)
  then have "p \<le> p'" using header_field_byte_ge [of p env ch' c parser] by (metis fst_conv)
  with 2 show ?case by simp
qed simp

declare header_field_loop.simps [simp del]

definition step_header_field :: "'u http_env \<Rightarrow> u8 \<Rightarrow> 'u hx \<Rightarrow> 'u flow" where
  "step_header_field env ch x =
     (let start = hx_p x;
          (p, ch, parser) = header_field_loop env (hx_p x) ch (hx_parser x)
      in if p = data_len env then
           (let x1 = x\<lparr>hx_p := p - 1, hx_parser := parser\<rparr>
            in count_header_size env (hx_p x1 - start) x1 Break)
         else
           (let x1 = x\<lparr>hx_p := p, hx_parser := parser\<rparr>
            in count_header_size env (p - start) x1 (\<lambda>x2.
                 if ch = chr CHR '':'' then
                   cb_header_field env (hx_p x2 + 1) (update_state s_header_value_discard_ws x2)
                 else fail_with HPE_INVALID_HEADER_TOKEN x2)))"

section \<open>The first byte of a value\<close>

definition value_start :: "u8 \<Rightarrow> 'u hx \<Rightarrow> 'u flow" where
  "value_start ch x =
     (let x1 = with_parser (\<lambda>q. q\<lparr>hp_index := 0\<rparr>) (update_state s_header_value (mark_header_value x));
          c = lower_char ch;
          goto_state = (\<lambda>h. Break (with_parser (\<lambda>q. q\<lparr>hp_header_state := h\<rparr>) x1))
      in case hp_header_state (hx_parser x1) of
           h_upgrade \<Rightarrow> Break (with_parser (\<lambda>q. (set_flag F_UPGRADE q)\<lparr>hp_header_state := h_general\<rparr>) x1)
         | h_transfer_encoding \<Rightarrow>
             goto_state (if c = chr CHR ''c'' then h_matching_transfer_encoding_chunked
                         else h_matching_transfer_encoding_token)
         | h_matching_transfer_encoding_token_start \<Rightarrow> Break x1
         | h_content_length \<Rightarrow>
             (if \<not> is_num ch then fail_with HPE_INVALID_CONTENT_LENGTH x1
              else if has_flag (hx_parser x1) F_CONTENTLENGTH then fail_with HPE_UNEXPECTED_CONTENT_LENGTH x1
              else Break (with_parser (\<lambda>q. (set_flag F_CONTENTLENGTH q)
                     \<lparr>hp_content_length := ucast (ch - chr CHR ''0''), hp_header_state := h_content_length_num\<rparr>) x1))
         | h_content_length_ws \<Rightarrow> Break x1
         | h_connection \<Rightarrow>
             goto_state (if c = chr CHR ''k'' then h_matching_connection_keep_alive
                         else if c = chr CHR ''c'' then h_matching_connection_close
                         else if c = chr CHR ''u'' then h_matching_connection_upgrade
                         else h_matching_connection_token)
         | h_matching_connection_token_start \<Rightarrow> Break x1
         | _ \<Rightarrow> goto_state h_general)"

definition step_value_start :: "u8 \<Rightarrow> 'u hx \<Rightarrow> 'u flow" where
  "step_value_start ch x =
     (if hx_state x = s_header_value_discard_ws then
        (if ch = SP \<or> ch = HT then Break x
         else if ch = CR then Break (update_state s_header_value_discard_ws_almost_done x)
         else if ch = LF then Break (update_state s_header_value_discard_lws x)
         else value_start ch x)
      else value_start ch x)"

section \<open>The rest of a value\<close>

text \<open>
  The loop over the bytes of a value has the pointer, the header state \<open>h\<close> and the parser as its
  state; a byte may be an error, with or without storing \<open>h\<close> in the parser first.
\<close>

datatype value_error = ValueError http_errno bool

text \<open>Plain values: look for the end of the line or a forbidden byte up to \<open>pe\<close>.\<close>

function scan_value :: "'u http_env \<Rightarrow> bool \<Rightarrow> int \<Rightarrow> int \<Rightarrow> int + int" where
  "scan_value env lenient pe p =
     (if p < pe then
        (let ch = data_at env p
         in if ch = CR \<or> ch = LF then Inr (p - 1)
            else if \<not> lenient \<and> \<not> is_header_char ch then Inl p
            else scan_value env lenient pe (p + 1))
      else Inr p)"
  by pat_completeness auto
termination by (relation "measure (\<lambda>(env, lenient, pe, p). nat (pe - p))") auto

declare scan_value.simps [simp del]

definition value_general ::
    "'u http_env \<Rightarrow> int \<Rightarrow> http_parser \<Rightarrow> (value_error \<times> int) + int" where
  "value_general env p parser =
     (case scan_value env (env_lenient env) (scan_limit env p) p of
        Inl q \<Rightarrow> Inl (ValueError HPE_INVALID_HEADER_TOKEN False, q)
      | Inr q \<Rightarrow> Inr (if q = data_len env then q - 1 else q))"

text \<open>Content-Length.\<close>

definition value_content_length ::
    "u8 \<Rightarrow> header_state \<Rightarrow> http_parser \<Rightarrow> value_error + header_state \<times> http_parser" where
  "value_content_length ch h parser =
     (if h = h_content_length_ws then
        (if ch = SP then Inr (h, parser) else Inl (ValueError HPE_INVALID_CONTENT_LENGTH True))
      else if h = h_content_length \<and> ch = SP then Inr (h, parser)
      else if ch = SP then Inr (h_content_length_ws, parser)
      else if \<not> is_num ch then Inl (ValueError HPE_INVALID_CONTENT_LENGTH True)
      else
        (let t = hp_content_length parser * 10 + ucast (ch - chr CHR ''0'')
         in if (ULLONG_MAX - 10) div 10 < hp_content_length parser
            then Inl (ValueError HPE_INVALID_CONTENT_LENGTH True)
            else Inr (h_content_length_num, parser\<lparr>hp_content_length := t\<rparr>)))"

text \<open>Matching the next letter of a known value.\<close>

definition match_value ::
    "string \<Rightarrow> u8 \<Rightarrow> header_state \<Rightarrow> header_state \<Rightarrow> header_state \<Rightarrow> http_parser \<Rightarrow> header_state \<times> http_parser" where
  "match_value word c this other found parser =
     (let q = incr_index parser
      in (if hp_index q > length word \<or> c \<noteq> lit_at word (hp_index q) then other
          else if hp_index q = length word - 1 then found
          else this, q))"

text \<open>Transfer-Encoding.\<close>

definition value_transfer_encoding ::
    "u8 \<Rightarrow> u8 \<Rightarrow> header_state \<Rightarrow> http_parser \<Rightarrow> header_state \<times> http_parser" where
  "value_transfer_encoding ch c h parser =
     (case h of
        h_matching_transfer_encoding_token_start \<Rightarrow>
          (if c = chr CHR ''c'' then h_matching_transfer_encoding_chunked
           else if token c \<noteq> 0 then h_matching_transfer_encoding_token
           else if c = SP \<or> c = HT then h
           else h_general, parser)
      | h_matching_transfer_encoding_chunked \<Rightarrow>
          match_value ''chunked'' c h h_matching_transfer_encoding_token h_transfer_encoding_chunked parser
      | h_matching_transfer_encoding_token \<Rightarrow>
          (if ch = chr CHR '','' then (h_matching_transfer_encoding_token_start, parser\<lparr>hp_index := 0\<rparr>)
           else (h, parser))
      | _ \<Rightarrow> \<comment> \<open>\<open>h_transfer_encoding_chunked\<close>\<close>
          (if ch \<noteq> SP then h_matching_transfer_encoding_token else h, parser))"

text \<open>Connection.\<close>

definition connection_flag :: "header_state \<Rightarrow> http_parser \<Rightarrow> http_parser" where
  "connection_flag h parser =
     (if h = h_connection_keep_alive then set_flag F_CONNECTION_KEEP_ALIVE parser
      else if h = h_connection_close then set_flag F_CONNECTION_CLOSE parser
      else if h = h_connection_upgrade then set_flag F_CONNECTION_UPGRADE parser
      else parser)"

definition value_connection ::
    "u8 \<Rightarrow> u8 \<Rightarrow> header_state \<Rightarrow> http_parser \<Rightarrow> header_state \<times> http_parser" where
  "value_connection ch c h parser =
     (case h of
        h_matching_connection_token_start \<Rightarrow>
          (if c = chr CHR ''k'' then h_matching_connection_keep_alive
           else if c = chr CHR ''c'' then h_matching_connection_close
           else if c = chr CHR ''u'' then h_matching_connection_upgrade
           else if token c \<noteq> 0 then h_matching_connection_token
           else if c = SP \<or> c = HT then h
           else h_general, parser)
      | h_matching_connection_keep_alive \<Rightarrow>
          match_value ''keep-alive'' c h h_matching_connection_token h_connection_keep_alive parser
      | h_matching_connection_close \<Rightarrow>
          match_value ''close'' c h h_matching_connection_token h_connection_close parser
      | h_matching_connection_upgrade \<Rightarrow>
          match_value ''upgrade'' c h h_matching_connection_token h_connection_upgrade parser
      | h_matching_connection_token \<Rightarrow>
          (if ch = chr CHR '','' then (h_matching_connection_token_start, parser\<lparr>hp_index := 0\<rparr>)
           else (h, parser))
      | _ \<Rightarrow> \<comment> \<open>\<open>h_connection_keep_alive\<close>, \<open>h_connection_close\<close> and \<open>h_connection_upgrade\<close>\<close>
          (if ch = chr CHR '','' then
             (h_matching_connection_token_start, (connection_flag h parser)\<lparr>hp_index := 0\<rparr>)
           else if ch \<noteq> SP then (h_matching_connection_token, parser)
           else (h, parser)))"

text \<open>The switch over the header state for one byte of the value.\<close>

definition header_value_byte ::
    "'u http_env \<Rightarrow> int \<Rightarrow> u8 \<Rightarrow> header_state \<Rightarrow> http_parser \<Rightarrow>
     (value_error \<times> int) + int \<times> header_state \<times> http_parser" where
  "header_value_byte env p ch h parser =
     (let c = lower_char ch
      in if h = h_general then
           (case value_general env p parser of Inl e \<Rightarrow> Inl e | Inr q \<Rightarrow> Inr (q, h, parser))
         else if h = h_connection \<or> h = h_transfer_encoding then Inr (p, h, parser)
         else if h \<in> {h_content_length, h_content_length_num, h_content_length_ws} then
           (case value_content_length ch h parser of Inl e \<Rightarrow> Inl (e, p) | Inr (h', q) \<Rightarrow> Inr (p, h', q))
         else if h \<in> {h_matching_transfer_encoding_token_start, h_matching_transfer_encoding_chunked,
                      h_matching_transfer_encoding_token, h_transfer_encoding_chunked} then
           Inr (p, value_transfer_encoding ch c h parser)
         else if h \<in> {h_matching_connection_token_start, h_matching_connection_keep_alive,
                      h_matching_connection_close, h_matching_connection_upgrade, h_matching_connection_token,
                      h_connection_keep_alive, h_connection_close, h_connection_upgrade} then
           Inr (p, value_connection ch c h parser)
         else Inr (p, h_general, parser))"

lemma scan_value_Inr:
  "scan_value env lenient pe p = Inr q \<Longrightarrow> p - 1 \<le> q \<and> q \<le> max p pe \<and>
    (q < p \<longrightarrow> p < pe \<and> (data_at env p = CR \<or> data_at env p = LF))"
proof (induction env lenient pe p rule: scan_value.induct)
  case (1 env lenient pe p)
  show ?case
  proof (cases "p < pe \<and> data_at env p \<noteq> CR \<and> data_at env p \<noteq> LF")
    case True
    have "scan_value env lenient pe p = (if \<not> lenient \<and> \<not> is_header_char (data_at env p) then Inl p
            else scan_value env lenient pe (p + 1))"
      using True by (subst scan_value.simps) (simp add: Let_def)
    with "1.prems" have n: "\<not> (\<not> lenient \<and> \<not> is_header_char (data_at env p))"
      and s: "scan_value env lenient pe (p + 1) = Inr q"
      by (simp_all split: if_splits)
    from "1.IH" [OF _ refl _ n s] True show ?thesis by auto
  next
    case False
    with "1.prems" show ?thesis by (subst (asm) scan_value.simps) (auto simp: Let_def split: if_splits)
  qed
qed


text \<open>On a byte that does not end the line the pointer does not go back.\<close>

lemma value_general_Inr:
  assumes "value_general env p parser = Inr q" "p < data_len env" "data_at env p \<noteq> CR" "data_at env p \<noteq> LF"
  shows "p \<le> q \<and> q < data_len env"
proof -
  obtain r where r: "scan_value env (env_lenient env) (scan_limit env p) p = Inr r"
    and q: "q = (if r = data_len env then r - 1 else r)"
    using assms(1) by (auto simp: value_general_def split: sum.splits)
  from scan_value_Inr [OF r] assms(2-) have "p \<le> r" "r \<le> max p (scan_limit env p)" by fastforce+
  then show ?thesis using assms(2) q by (auto simp: scan_limit_def)
qed

lemma header_value_byte_Inr:
  assumes "header_value_byte env p ch h parser = Inr (q, h', parser')" "p < data_len env"
    "data_at env p \<noteq> CR" "data_at env p \<noteq> LF"
  shows "p \<le> q \<and> q < data_len env"
  using assms value_general_Inr [of env p parser q]
  by (auto simp: header_value_byte_def Let_def split: sum.splits if_splits)

text \<open>How the loop over the value ends: no more bytes, a carriage return, a line feed, or an error.\<close>

datatype value_result =
    ValueEnd int header_state http_parser
  | ValueCR int header_state http_parser
  | ValueLF int header_state http_parser
  | ValueFail value_error int header_state http_parser

function header_value_loop :: "'u http_env \<Rightarrow> int \<Rightarrow> header_state \<Rightarrow> http_parser \<Rightarrow> value_result" where
  "header_value_loop env p h parser =
     (if p < data_len env then
        (let ch = data_at env p
         in if ch = CR then ValueCR p h parser
            else if ch = LF then ValueLF p h parser
            else if \<not> env_lenient env \<and> \<not> is_header_char ch then
              ValueFail (ValueError HPE_INVALID_HEADER_TOKEN False) p h parser
            else case header_value_byte env p ch h parser of
                   Inl (e, q) \<Rightarrow> ValueFail e q h parser
                 | Inr (q, h', parser') \<Rightarrow> header_value_loop env (q + 1) h' parser')
      else ValueEnd p h parser)"
  by pat_completeness auto
termination
proof (relation "measure (\<lambda>(env, p, h, parser). nat (data_len env - p))", goal_cases)
  case 2
  then show ?case by (auto dest: header_value_byte_Inr)
qed simp

declare header_value_loop.simps [simp del]

definition step_header_value :: "'u http_env \<Rightarrow> 'u hx \<Rightarrow> 'u flow" where
  "step_header_value env x =
     (let start = hx_p x;
          at = (\<lambda>p parser. x\<lparr>hx_p := p, hx_parser := parser\<rparr>);
          store = (\<lambda>h. with_parser (\<lambda>q. q\<lparr>hp_header_state := h\<rparr>));
          last = (\<lambda>h x. let x1 = store h x;
                           x2 = (if hx_p x1 = data_len env then x1\<lparr>hx_p := hx_p x1 - 1\<rparr> else x1)
                       in count_header_size env (hx_p x2 - start) x2 Break)
      in case header_value_loop env (hx_p x) (hp_header_state (hx_parser x)) (hx_parser x) of
           ValueEnd p h parser \<Rightarrow> last h (at p parser)
         | ValueCR p h parser \<Rightarrow>
             and_then (cb_header_value env (p + 1) (store h (update_state s_header_almost_done (at p parser))))
               (last h)
         | ValueLF p h parser \<Rightarrow>
             count_header_size env (p - start) (update_state s_header_almost_done (at p parser)) (\<lambda>x1.
               and_then (cb_header_value env p (store h (x1\<lparr>hx_ch := LF\<rparr>))) Reexecute)
         | ValueFail (ValueError e stored) p h parser \<Rightarrow>
             fail_with e (if stored then store h (at p parser) else at p parser))"

section \<open>The end of a header and of the headers\<close>

definition finish_header_flags :: "http_parser \<Rightarrow> http_parser" where
  "finish_header_flags parser =
     (case hp_header_state parser of
        h_connection_keep_alive \<Rightarrow> set_flag F_CONNECTION_KEEP_ALIVE parser
      | h_connection_close \<Rightarrow> set_flag F_CONNECTION_CLOSE parser
      | h_transfer_encoding_chunked \<Rightarrow> set_flag F_CHUNKED parser
      | h_connection_upgrade \<Rightarrow> set_flag F_CONNECTION_UPGRADE parser
      | _ \<Rightarrow> parser)"

definition step_header_end :: "'u http_env \<Rightarrow> u8 \<Rightarrow> 'u hx \<Rightarrow> 'u flow" where
  "step_header_end env ch x =
     (if hx_state x = s_header_almost_done then
        (if ch \<noteq> LF then fail_with HPE_LF_EXPECTED x else Break (update_state s_header_value_lws x))
      else if hx_state x = s_header_value_lws then
        (if ch = SP \<or> ch = HT then
           Reexecute (update_state s_header_value_start
             (with_parser (\<lambda>q. if hp_header_state q = h_content_length_num
                               then q\<lparr>hp_header_state := h_content_length_ws\<rparr> else q) x))
         else Reexecute (update_state s_header_field_start (with_parser finish_header_flags x)))
      else if hx_state x = s_header_value_discard_ws_almost_done then
        strict_check (ch \<noteq> LF) x (\<lambda>x. Break (update_state s_header_value_discard_lws x))
      else \<comment> \<open>\<open>s_header_value_discard_lws\<close>\<close>
        (if ch = SP \<or> ch = HT then Break (update_state s_header_value_discard_ws x)
         else if hp_header_state (hx_parser x) = h_content_length then fail_with HPE_INVALID_CONTENT_LENGTH x
         else
           (let x1 = update_state s_header_field_start (mark_header_value (with_parser finish_header_flags x))
            in and_then (cb_header_value env (hx_p x1) x1) Reexecute)))"

text \<open>Whether a message that has both Transfer-Encoding and Content-Length is refused.\<close>

definition length_conflict :: "'u http_env \<Rightarrow> http_parser \<Rightarrow> bool" where
  "length_conflict env parser \<longleftrightarrow>
     hp_uses_transfer_encoding parser \<and> has_flag parser F_CONTENTLENGTH \<and>
     (if has_flag parser F_CHUNKED then \<not> env_allow_chunked_length env else \<not> env_lenient env)"

definition decide_upgrade :: "http_parser \<Rightarrow> http_parser" where
  "decide_upgrade parser =
     parser\<lparr>hp_upgrade :=
       (if has_flag parser F_UPGRADE \<and> has_flag parser F_CONNECTION_UPGRADE
        then hp_type parser = HTTP_REQUEST \<or> hp_status_code parser = 101
        else hp_method parser = HTTP_CONNECT)\<rparr>"

text \<open>The call of \<open>on_headers_complete\<close>, whose answers 1 and 2 have a meaning of their own.\<close>

definition call_headers_complete :: "'u http_env \<Rightarrow> 'u hx \<Rightarrow> ('u hx \<Rightarrow> 'u flow) \<Rightarrow> 'u flow" where
  "call_headers_complete env x k =
     (case on_headers_complete (env_settings env) of
        None \<Rightarrow> k x
      | Some f \<Rightarrow>
          (let (r, parser, u) = f (hx_parser x) (hx_user x);
               x1 = x\<lparr>hx_parser := parser, hx_user := u\<rparr>
           in if r = 0 then k x1
              else if r = 2 then k (with_parser (\<lambda>q. set_flag F_SKIPBODY (q\<lparr>hp_upgrade := True\<rparr>)) x1)
              else if r = 1 then k (with_parser (set_flag F_SKIPBODY) x1)
              else return_at (hx_p x1) (set_errno HPE_CB_headers_complete x1)))"

definition step_headers_almost_done :: "'u http_env \<Rightarrow> u8 \<Rightarrow> 'u hx \<Rightarrow> 'u flow" where
  "step_headers_almost_done env ch x =
     strict_check (ch \<noteq> LF) x (\<lambda>x.
       if has_flag (hx_parser x) F_TRAILING then
         and_then
           (callback_notify (on_chunk_complete (env_settings env)) HPE_CB_chunk_complete (hx_p x)
             (update_state s_message_done x))
           Reexecute
       else if length_conflict env (hx_parser x) then fail_with HPE_UNEXPECTED_CONTENT_LENGTH x
       else call_headers_complete env (with_parser decide_upgrade (update_state s_headers_done x)) (\<lambda>x1.
              if hp_errno (hx_parser x1) \<noteq> HPE_OK then return_at (hx_p x1) x1 else Reexecute x1))"

definition has_body :: "http_parser \<Rightarrow> bool" where
  "has_body parser \<longleftrightarrow> has_flag parser F_CHUNKED \<or>
     hp_content_length parser > 0 \<and> hp_content_length parser \<noteq> ULLONG_MAX"

definition finish_message :: "'u http_env \<Rightarrow> 'u hx \<Rightarrow> 'u flow" where
  "finish_message env x = cb_message_complete env (update_state (new_message (hx_parser x)) x)"

definition step_headers_done :: "'u http_env \<Rightarrow> u8 \<Rightarrow> 'u hx \<Rightarrow> 'u flow" where
  "step_headers_done env ch x =
     strict_check (ch \<noteq> LF) x (\<lambda>x.
       let x1 = with_parser (\<lambda>q. q\<lparr>hp_nread := 0\<rparr>) (x\<lparr>hx_nread := 0\<rparr>);
           parser = hx_parser x1
       in if hp_upgrade parser \<and> (hp_method parser = HTTP_CONNECT \<or> has_flag parser F_SKIPBODY \<or> \<not> has_body parser)
          then and_then (finish_message env x1) (\<lambda>x2. return_at (hx_p x2 + 1) x2)
          else if has_flag parser F_SKIPBODY then finish_message env x1
          else if has_flag parser F_CHUNKED then Break (update_state s_chunk_size_start x1)
          else if hp_uses_transfer_encoding parser then
            (if hp_type parser = HTTP_REQUEST \<and> \<not> env_lenient env
             then return_at (hx_p x1) (set_errno HPE_INVALID_TRANSFER_ENCODING x1)
             else Break (update_state s_body_identity_eof x1))
          else if hp_content_length parser = 0 then finish_message env x1
          else if hp_content_length parser \<noteq> ULLONG_MAX then Break (update_state s_body_identity x1)
          else if \<not> http_message_needs_eof parser then finish_message env x1
          else Break (update_state s_body_identity_eof x1))"

end
