(* ===== verification/HttpExec.thy ===== *)
theory HttpExec
  imports HttpHeader
begin

text \<open>
  Bodies, chunks, the whole state switch and \<open>http_parser_execute\<close> itself.
\<close>

section \<open>Bodies\<close>

text \<open>The bytes of the body that are there: marks them and moves the pointer to the last of them.\<close>

definition take_body :: "'u http_env \<Rightarrow> 'u hx \<Rightarrow> 'u hx" where
  "take_body env x =
     (let to_read = min (uint (hp_content_length (hx_parser x))) (data_len env - hx_p x);
          x1 = with_parser (\<lambda>q. q\<lparr>hp_content_length := hp_content_length q - of_int to_read\<rparr>) (mark_body x)
      in x1\<lparr>hx_p := hx_p x1 + (to_read - 1)\<rparr>)"

definition step_body :: "'u http_env \<Rightarrow> 'u hx \<Rightarrow> 'u flow" where
  "step_body env x =
     (if hx_state x = s_body_identity then
        (let x1 = take_body env x
         in if hp_content_length (hx_parser x1) = 0
            then and_then (cb_body env 1 (hx_p x1) (update_state s_message_done x1)) Reexecute
            else Break x1)
      else if hx_state x = s_body_identity_eof then Break ((mark_body x)\<lparr>hx_p := data_len env - 1\<rparr>)
      else \<comment> \<open>\<open>s_message_done\<close>\<close>
        and_then (finish_message env x) (\<lambda>x1.
          if hp_upgrade (hx_parser x1) then return_at (hx_p x1 + 1) x1 else Break x1))"

section \<open>Chunks\<close>

definition set_content_length :: "u64 \<Rightarrow> 'u hx \<Rightarrow> 'u hx" where
  "set_content_length n = with_parser (\<lambda>q. q\<lparr>hp_content_length := n\<rparr>)"

definition step_chunk_size :: "'u http_env \<Rightarrow> u8 \<Rightarrow> 'u hx \<Rightarrow> 'u flow" where
  "step_chunk_size env ch x =
     (if hx_state x = s_chunk_size_start then
        (let v = unhex ! unat ch
         in if v = - 1 then fail_with HPE_INVALID_CHUNK_SIZE x
            else Break (update_state s_chunk_size (set_content_length (ucast v) x)))
      else if hx_state x = s_chunk_size then
        (if ch = CR then Break (update_state s_chunk_size_almost_done x)
         else
           (let v = unhex ! unat ch
            in if v = - 1 then
                 (if ch = chr CHR '';'' \<or> ch = SP then Break (update_state s_chunk_parameters x)
                  else fail_with HPE_INVALID_CHUNK_SIZE x)
               else
                 (let t = hp_content_length (hx_parser x) * 16 + ucast v
                  in if (ULLONG_MAX - 16) div 16 < hp_content_length (hx_parser x)
                     then fail_with HPE_INVALID_CONTENT_LENGTH x
                     else Break (set_content_length t x))))
      else if hx_state x = s_chunk_parameters then
        (if ch = CR then Break (update_state s_chunk_size_almost_done x) else Break x)
      else \<comment> \<open>\<open>s_chunk_size_almost_done\<close>\<close>
        strict_check (ch \<noteq> LF) x (\<lambda>x.
          let x1 = with_parser (\<lambda>q. q\<lparr>hp_nread := 0\<rparr>) (x\<lparr>hx_nread := 0\<rparr>);
              x2 = (if hp_content_length (hx_parser x1) = 0
                    then update_state s_header_field_start (with_parser (set_flag F_TRAILING) x1)
                    else update_state s_chunk_data x1)
          in callback_notify (on_chunk_header (env_settings env)) HPE_CB_chunk_header (hx_p x2 + 1) x2))"

definition step_chunk_data :: "'u http_env \<Rightarrow> u8 \<Rightarrow> 'u hx \<Rightarrow> 'u flow" where
  "step_chunk_data env ch x =
     (if hx_state x = s_chunk_data then
        (let x1 = take_body env x
         in if hp_content_length (hx_parser x1) = 0
            then Break (update_state s_chunk_data_almost_done x1) else Break x1)
      else if hx_state x = s_chunk_data_almost_done then
        strict_check (ch \<noteq> CR) x (\<lambda>x. cb_body env 0 (hx_p x + 1) (update_state s_chunk_data_done x))
      else \<comment> \<open>\<open>s_chunk_data_done\<close>\<close>
        strict_check (ch \<noteq> LF) x (\<lambda>x.
          let x1 = with_parser (\<lambda>q. q\<lparr>hp_nread := 0\<rparr>) (x\<lparr>hx_nread := 0\<rparr>)
          in callback_notify (on_chunk_complete (env_settings env)) HPE_CB_chunk_complete (hx_p x1 + 1)
               (update_state s_chunk_size_start x1)))"

section \<open>The switch over the state\<close>

definition http_switch :: "'u http_env \<Rightarrow> u8 \<Rightarrow> 'u hx \<Rightarrow> 'u flow" where
  "http_switch env ch x =
     (let s = hx_state x
      in if s \<in> {s_dead, s_start_req_or_res, s_res_or_resp_H, s_start_res} then step_start env ch x
         else if s \<in> {s_res_H, s_res_HT, s_res_HTT, s_res_HTTP, s_res_http_major, s_res_http_dot,
                      s_res_http_minor, s_res_http_end, s_res_first_status_code, s_res_status_code,
                      s_res_status_start, s_res_status, s_res_line_almost_done} then step_res env ch x
         else if s \<in> {s_start_req, s_req_method} then step_req_method env ch x
         else if s \<in> {s_req_spaces_before_url, s_req_schema, s_req_schema_slash, s_req_schema_slash_slash,
                      s_req_server_start, s_req_server, s_req_server_with_at, s_req_path,
                      s_req_query_string_start, s_req_query_string, s_req_fragment_start,
                      s_req_fragment} then step_url env ch x
         else if s \<in> {s_req_http_start, s_req_http_H, s_req_http_HT, s_req_http_HTT, s_req_http_HTTP,
                      s_req_http_I, s_req_http_IC, s_req_http_major, s_req_http_dot, s_req_http_minor,
                      s_req_http_end, s_req_line_almost_done} then step_req_http ch x
         else if s = s_header_field_start then step_header_field_start env ch x
         else if s = s_header_field then step_header_field env ch x
         else if s \<in> {s_header_value_discard_ws, s_header_value_start} then step_value_start ch x
         else if s = s_header_value then step_header_value env x
         else if s \<in> {s_header_almost_done, s_header_value_lws, s_header_value_discard_ws_almost_done,
                      s_header_value_discard_lws} then step_header_end env ch x
         else if s = s_headers_almost_done then step_headers_almost_done env ch x
         else if s = s_headers_done then step_headers_done env ch x
         else if s \<in> {s_body_identity, s_body_identity_eof, s_message_done} then step_body env x
         else if s \<in> {s_chunk_size_start, s_chunk_size, s_chunk_parameters, s_chunk_size_almost_done}
         then step_chunk_size env ch x
         else step_chunk_data env ch x)"

section \<open>The loop over the bytes and the function\<close>

text \<open>
  \<open>again\<close> tells that the switch is executed again on the byte read before: the label \<open>reexecute\<close>
  stands behind the reading of the byte and the counting.
\<close>

partial_function (option) http_loop :: "'u http_env \<Rightarrow> bool \<Rightarrow> 'u hx \<Rightarrow> ('u flow) option" where
  "http_loop env again x =
     (if \<not> again \<and> hx_p x = data_len env then Some (Break x)
      else
        (let x0 = (if again then x else x\<lparr>hx_ch := data_at env (hx_p x)\<rparr>)
         in case (if \<not> again \<and> parsing_header (hx_state x0)
                  then count_header_size env 1 x0 (\<lambda>x1. http_switch env (hx_ch x1) x1)
                  else http_switch env (hx_ch x0) x0) of
              Exit r x' \<Rightarrow> Some (Exit r x')
            | Reexecute x' \<Rightarrow> http_loop env True x'
            | Break x' \<Rightarrow> http_loop env False (x'\<lparr>hx_p := hx_p x' + 1\<rparr>)))"

declare http_loop.simps [code]

text \<open>The local variables as the function sets them up.\<close>

definition initial_marks :: "'u hx \<Rightarrow> 'u hx" where
  "initial_marks x =
     (let s = hx_state x
      in x\<lparr>hx_header_field_mark := (if s = s_header_field then Some 0 else None),
           hx_header_value_mark := (if s = s_header_value then Some 0 else None),
           hx_url_mark := (if s \<in> {s_req_path, s_req_schema, s_req_schema_slash, s_req_schema_slash_slash,
                                   s_req_server_start, s_req_server, s_req_server_with_at,
                                   s_req_query_string_start, s_req_query_string, s_req_fragment_start,
                                   s_req_fragment} then Some 0 else None),
           hx_status_mark := (if s = s_res_status then Some 0 else None)\<rparr>)"

definition initial_hx :: "http_parser \<Rightarrow> 'u \<Rightarrow> 'u hx" where
  "initial_hx parser u =
     \<lparr>hx_p = 0, hx_ch = 0, hx_state = hp_state parser, hx_nread = hp_nread parser, hx_header_field_mark = None,
      hx_header_value_mark = None, hx_url_mark = None, hx_body_mark = None, hx_status_mark = None,
      hx_parser = parser, hx_user = u\<rparr>"

text \<open>The callbacks for the marks left over when the bytes ran out.\<close>

definition final_callbacks :: "'u http_env \<Rightarrow> 'u hx \<Rightarrow> 'u flow" where
  "final_callbacks env x =
     and_then (cb_header_field env (hx_p x) x) (\<lambda>x.
     and_then (cb_header_value env (hx_p x) x) (\<lambda>x.
     and_then (cb_url env (hx_p x) x) (\<lambda>x.
     and_then (cb_body env 0 (hx_p x) x) (\<lambda>x.
     and_then (cb_status env (hx_p x) x) (\<lambda>x.
     return_at (data_len env) x)))))"

definition flow_exit :: "'u flow \<Rightarrow> int \<times> http_parser \<times> 'u" where
  "flow_exit f = (case f of Exit r x \<Rightarrow> (r, hx_parser x, hx_user x)
                          | Break x \<Rightarrow> (hx_p x, hx_parser x, hx_user x)
                          | Reexecute x \<Rightarrow> (hx_p x, hx_parser x, hx_user x))"

text \<open>The call with no bytes, which tells the parser that the connection was closed.\<close>

definition execute_eof :: "'u http_env \<Rightarrow> 'u hx \<Rightarrow> 'u flow" where
  "execute_eof env x =
     (if hx_state x = s_body_identity_eof then
        and_then (callback_notify (on_message_complete (env_settings env)) HPE_CB_message_complete 0 x)
          (\<lambda>x1. Exit 0 x1)
      else if hx_state x \<in> {s_dead, s_start_req_or_res, s_start_res, s_start_req} then Exit 0 x
      else Exit 1 (set_errno HPE_INVALID_EOF_STATE x))"

definition execute_env :: "u32 \<Rightarrow> 'u http_settings \<Rightarrow> u8 list \<Rightarrow> http_parser \<Rightarrow> 'u http_env" where
  "execute_env max_header_size settings bytes parser =
     \<lparr>env_settings = settings, env_data = bytes, env_max_header_size = max_header_size,
      env_lenient = hp_lenient parser, env_allow_chunked_length = hp_allow_chunked_length parser\<rparr>"

text \<open>The answer is the return value, the parser and the application's state; \<open>None\<close> is a call that never returns.\<close>

definition http_parser_execute ::
    "u32 \<Rightarrow> 'u http_settings \<Rightarrow> u8 list \<Rightarrow> http_parser \<Rightarrow> 'u \<Rightarrow> (int \<times> http_parser \<times> 'u) option" where
  "http_parser_execute max_header_size settings bytes parser u =
     (let env = execute_env max_header_size settings bytes parser; x = initial_hx parser u
      in if hp_errno parser \<noteq> HPE_OK then Some (0, parser, u)
         else if bytes = [] then Some (flow_exit (execute_eof env x))
         else (case http_loop env False (initial_marks x) of
                 None \<Rightarrow> None
               | Some (Break x') \<Rightarrow> Some (flow_exit (final_callbacks env x'))
               | Some f \<Rightarrow> Some (flow_exit f)))"

text \<open>\<open>http_parser_set_max_header_size\<close> and its default.\<close>

abbreviation HTTP_MAX_HEADER_SIZE :: u32 where "HTTP_MAX_HEADER_SIZE \<equiv> 81920"

end
