(* ===== verification/HttpProps.thy ===== *)
theory HttpProps
  imports HttpExec
begin

text \<open>
  What \<open>http_parser_execute\<close> guarantees: every call returns, consumes at most the bytes it is
  given, and never lets the size of the headers pass the limit.
\<close>

section \<open>The contract of the callbacks\<close>

text \<open>A callback may answer, pause the parser or report an error; it changes no other field.\<close>

definition notify_ok :: "'u notify_cb \<Rightarrow> bool" where
  "notify_ok f \<longleftrightarrow> (\<forall>q u. fst (snd (f q u)) = q\<lparr>hp_errno := hp_errno (fst (snd (f q u)))\<rparr>)"

definition data_ok :: "'u data_cb \<Rightarrow> bool" where
  "data_ok f \<longleftrightarrow> (\<forall>d. notify_ok (f d))"

definition settings_ok :: "'u http_settings \<Rightarrow> bool" where
  "settings_ok st \<longleftrightarrow>
     pred_option notify_ok (on_message_begin st) \<and> pred_option data_ok (on_url st) \<and>
     pred_option data_ok (on_status st) \<and> pred_option data_ok (on_header_field st) \<and>
     pred_option data_ok (on_header_value st) \<and> pred_option notify_ok (on_headers_complete st) \<and>
     pred_option data_ok (on_body st) \<and> pred_option notify_ok (on_message_complete st) \<and>
     pred_option notify_ok (on_chunk_header st) \<and> pred_option notify_ok (on_chunk_complete st)"

section \<open>The invariant of the loop\<close>

text \<open>How often the switch can still be executed again on the same byte.\<close>

definition reexec_rank :: "http_state \<Rightarrow> nat" where
  "reexec_rank s =
     (if s \<in> {s_header_value_lws, s_header_value_discard_lws} then 3
      else if s \<in> {s_header_field_start, s_res_status_code} then 2
      else if s \<in> {s_start_req_or_res, s_res_status_start, s_header_value, s_headers_almost_done, s_body_identity}
      then 1 else 0)"

text \<open>
  What the assertions of the source state about the parser in each state: a body has bytes left and a
  length, and a chunk is only read in a message with the chunked coding.
\<close>

definition body_ok :: "http_state \<Rightarrow> http_parser \<Rightarrow> bool" where
  "body_ok s q \<longleftrightarrow>
     (s \<in> {s_body_identity, s_chunk_data} \<longrightarrow> hp_content_length q \<noteq> 0 \<and> hp_content_length q \<noteq> ULLONG_MAX) \<and>
     (s \<in> {s_chunk_size, s_chunk_parameters, s_chunk_size_almost_done} \<longrightarrow> hp_content_length q \<noteq> ULLONG_MAX) \<and>
     (s = s_chunk_data_almost_done \<longrightarrow> hp_content_length q = 0) \<and>
     (s = s_body_identity \<longrightarrow> \<not> hp_uses_transfer_encoding q \<and> \<not> has_flag q F_CHUNKED) \<and>
     (s \<in> {s_chunk_size_start, s_chunk_size, s_chunk_parameters, s_chunk_size_almost_done, s_chunk_data,
           s_chunk_data_almost_done, s_chunk_data_done} \<longrightarrow> has_flag q F_CHUNKED)"

definition body_state :: "http_state \<Rightarrow> bool" where
  "body_state s \<longleftrightarrow> s \<in> {s_body_identity, s_chunk_size_start, s_chunk_size, s_chunk_parameters,
     s_chunk_size_almost_done, s_chunk_data, s_chunk_data_almost_done, s_chunk_data_done}"

definition near :: "'u http_env \<Rightarrow> int \<Rightarrow> 'u hx \<Rightarrow> bool" where
  "near env p x \<longleftrightarrow> 0 \<le> p \<and> p \<le> hx_p x \<and> hx_p x < data_len env \<and> hx_nread x \<le> env_max_header_size env"

definition at_byte :: "'u http_env \<Rightarrow> int \<Rightarrow> 'u hx \<Rightarrow> bool" where
  "at_byte env p x \<longleftrightarrow> near env p x \<and> body_ok (hx_state x) (hx_parser x)"

text \<open>What a parser must satisfy for the next call: nothing if it has failed or is paused.\<close>

definition resumable :: "u32 \<Rightarrow> http_parser \<Rightarrow> bool" where
  "resumable max_header_size q \<longleftrightarrow>
     (hp_errno q = HPE_OK \<longrightarrow> hp_nread q \<le> max_header_size \<and> body_ok (hp_state q) q)"

fun post :: "'u http_env \<Rightarrow> int \<Rightarrow> nat \<Rightarrow> 'u flow \<Rightarrow> bool" where
  "post env p k (Break x) \<longleftrightarrow> at_byte env p x"
| "post env p k (Reexecute x) \<longleftrightarrow> at_byte env p x \<and> reexec_rank (hx_state x) < k"
| "post env p k (Exit r x) \<longleftrightarrow> 0 \<le> r \<and> r \<le> data_len env \<and> resumable (env_max_header_size env) (hx_parser x)"

text \<open>What a callback that lets the parser go on leaves of the state.\<close>

definition kept :: "'u hx \<Rightarrow> 'u hx \<Rightarrow> bool" where
  "kept x x' \<longleftrightarrow> hx_p x' = hx_p x \<and> hx_state x' = hx_state x \<and> hx_nread x' = hx_nread x \<and>
     hp_content_length (hx_parser x') = hp_content_length (hx_parser x) \<and>
     hp_flags (hx_parser x') = hp_flags (hx_parser x) \<and>
     hp_uses_transfer_encoding (hx_parser x') = hp_uses_transfer_encoding (hx_parser x) \<and>
     (hp_nread (hx_parser x') = hp_nread (hx_parser x) \<or> hp_nread (hx_parser x') = hx_nread x) \<and>
     (hp_state (hx_parser x') = hp_state (hx_parser x) \<or> hp_state (hx_parser x') = hx_state x)"

text \<open>Rules that walk down the statements of a state, and the small steps that keep the bounds.\<close>

named_theorems post_rules
named_theorems near_simps

lemma near_upd [near_simps]:
  "near env p (update_state s x) = near env p x" "near env p (with_parser f x) = near env p x"
  "near env p (reset_message x) = near env p x" "near env p (mark_url x) = near env p x"
  "near env p (mark_status x) = near env p x" "near env p (mark_header_field x) = near env p x"
  "near env p (mark_header_value x) = near env p x" "near env p (mark_body x) = near env p x"
  "near env p (set_errno e x) = near env p x" "near env p (x\<lparr>hx_ch := c\<rparr>) = near env p x"
  "near env p (x\<lparr>hx_parser := q\<rparr>) = near env p x" "near env p (x\<lparr>hx_user := u\<rparr>) = near env p x"
  by (simp_all add: near_def update_state_def with_parser_def reset_message_def mark_url_def mark_status_def
      mark_header_field_def mark_header_value_def mark_body_def set_errno_def)

lemma hx_state_upd [near_simps]:
  "hx_state (update_state s x) = s" "hx_state (with_parser f x) = hx_state x"
  "hx_state (reset_message x) = hx_state x" "hx_state (mark_url x) = hx_state x"
  "hx_state (mark_status x) = hx_state x" "hx_state (mark_header_field x) = hx_state x"
  "hx_state (mark_header_value x) = hx_state x" "hx_state (mark_body x) = hx_state x"
  by (simp_all add: update_state_def with_parser_def reset_message_def mark_url_def mark_status_def
      mark_header_field_def mark_header_value_def mark_body_def)

lemma hx_p_upd [near_simps]:
  "hx_p (update_state s x) = hx_p x" "hx_p (with_parser f x) = hx_p x"
  "hx_p (reset_message x) = hx_p x" "hx_p (mark_url x) = hx_p x"
  "hx_p (mark_status x) = hx_p x" "hx_p (mark_header_field x) = hx_p x"
  "hx_p (mark_header_value x) = hx_p x" "hx_p (mark_body x) = hx_p x"
  by (simp_all add: update_state_def with_parser_def reset_message_def mark_url_def mark_status_def
      mark_header_field_def mark_header_value_def mark_body_def)

lemma body_ok_other [near_simps]: "\<not> body_state s \<Longrightarrow> body_ok s q"
  by (simp add: body_ok_def body_state_def)

lemmas [near_simps] = body_state_def

lemma hx_parser_upd [near_simps]:
  "hx_parser (update_state s x) = hx_parser x" "hx_parser (with_parser f x) = f (hx_parser x)"
  "hx_parser (mark_body x) = hx_parser x"
  by (simp_all add: update_state_def with_parser_def mark_body_def)

lemma body_ok_upd [near_simps]:
  "body_ok s (q\<lparr>hp_nread := n\<rparr>) = body_ok s q" "body_ok s (q\<lparr>hp_state := t\<rparr>) = body_ok s q"
  "body_ok s (q\<lparr>hp_errno := e\<rparr>) = body_ok s q"
  by (simp_all add: body_ok_def has_flag_def)

lemma body_ok_cong:
  "hp_content_length q' = hp_content_length q \<Longrightarrow> hp_flags q' = hp_flags q \<Longrightarrow>
   hp_uses_transfer_encoding q' = hp_uses_transfer_encoding q \<Longrightarrow> body_ok s q' = body_ok s q"
  by (simp add: body_ok_def has_flag_def)

lemma at_byte_near: "at_byte env p x \<Longrightarrow> near env p x"
  by (simp add: at_byte_def)

lemma nearD:
  assumes "near env p x"
  shows "0 \<le> hx_p x" "hx_p x \<le> data_len env" "hx_p x < data_len env" "0 \<le> p" "p \<le> hx_p x"
    "hx_nread x \<le> env_max_header_size env"
  using assms by (auto simp: near_def)

lemma kept_refl [simp]: "kept x x"
  by (simp add: kept_def)

lemma kept_trans: "kept x y \<Longrightarrow> kept y z \<Longrightarrow> kept x z"
  by (auto simp: kept_def)

lemma body_ok_kept: "kept x x' \<Longrightarrow> body_ok s (hx_parser x') = body_ok s (hx_parser x)"
  by (rule body_ok_cong) (simp_all add: kept_def)

lemma near_kept: "kept x x' \<Longrightarrow> near env p x' = near env p x"
  by (simp add: kept_def near_def)

lemma kept_hx: "kept x x' \<Longrightarrow> hx_state x' = hx_state x" "kept x x' \<Longrightarrow> hx_p x' = hx_p x"
  by (simp_all add: kept_def)

lemmas kept_simps = near_kept body_ok_kept kept_hx

lemma post_if [post_rules]:
  "(c \<Longrightarrow> post env p k a) \<Longrightarrow> (\<not> c \<Longrightarrow> post env p k b) \<Longrightarrow> post env p k (if c then a else b)"
  by simp

lemma post_let [post_rules]: "post env p k (f v) \<Longrightarrow> post env p k (let x = v in f x)"
  by simp

lemma post_break [post_rules]:
  "near env p x \<Longrightarrow> body_ok (hx_state x) (hx_parser x) \<Longrightarrow> post env p k (Break x)"
  by (simp add: at_byte_def)

lemma post_reexecute [post_rules]:
  "near env p x \<Longrightarrow> body_ok (hx_state x) (hx_parser x) \<Longrightarrow>
   reexec_rank (hx_state x) < k \<Longrightarrow> post env p k (Reexecute x)"
  by (simp add: at_byte_def)

lemma post_fail_at:
  "e \<noteq> HPE_OK \<Longrightarrow> 0 \<le> hx_p x \<Longrightarrow> hx_p x \<le> data_len env \<Longrightarrow> post env p k (fail_with e x)"
  by (simp add: fail_with_def set_errno_def error_exit_def return_at_def with_parser_def resumable_def)

lemma post_fail_with [post_rules]:
  "near env p x \<Longrightarrow> e \<noteq> HPE_OK \<Longrightarrow> post env p k (fail_with e x)"
  by (simp add: post_fail_at nearD)

lemma post_return_at [post_rules]:
  "near env p x \<Longrightarrow> r = hx_p x \<or> r = hx_p x + 1 \<Longrightarrow>
   hp_errno (hx_parser x) \<noteq> HPE_OK \<or> body_ok (hx_state x) (hx_parser x) \<Longrightarrow>
   post env p k (return_at r x)"
  by (auto simp: return_at_def near_simps near_def resumable_def)

lemma post_strict_check [post_rules]:
  "near env p x \<Longrightarrow> (\<not> bad \<Longrightarrow> post env p k (f x)) \<Longrightarrow> post env p k (strict_check bad x f)"
  by (simp add: strict_check_def post_fail_with)

lemma post_count:
  assumes "0 \<le> hx_p x" "hx_p x \<le> data_len env"
    and "\<And>n. n \<le> env_max_header_size env \<Longrightarrow> post env p k (f (x\<lparr>hx_nread := n\<rparr>))"
  shows "post env p k (count_header_size env v x f)"
  using assms by (simp add: count_header_size_def Let_def not_less post_fail_at)

lemma after_callback_cases:
  assumes "fst (snd res) = (hx_parser x)\<lparr>hp_state := hx_state x, hp_errno := hp_errno (fst (snd res))\<rparr>"
  shows "(\<exists>x'. after_callback e er res x = Break x' \<and> kept x x') \<or>
         (\<exists>x'. after_callback e er res x = Exit er x' \<and> hp_errno (hx_parser x') \<noteq> HPE_OK)"
proof -
  obtain r q u where res: "res = (r, q, u)" by (cases res)
  with assms have q: "q = (hx_parser x)\<lparr>hp_state := hx_state x, hp_errno := hp_errno q\<rparr>" by simp
  have "hp_state q = hx_state x" "hp_content_length q = hp_content_length (hx_parser x)"
    "hp_nread q = hp_nread (hx_parser x)" "hp_flags q = hp_flags (hx_parser x)"
    "hp_uses_transfer_encoding q = hp_uses_transfer_encoding (hx_parser x)"
    by (subst q, simp)+
  then show ?thesis
    by (simp add: res after_callback_def Let_def kept_def update_state_def set_errno_def with_parser_def)
qed

lemma callback_notify_cases:
  assumes "pred_option notify_ok cb"
  shows "(\<exists>x'. callback_notify cb e er x = Break x' \<and> kept x x') \<or>
         (\<exists>x'. callback_notify cb e er x = Exit er x' \<and> hp_errno (hx_parser x') \<noteq> HPE_OK)"
proof (cases cb)
  case (Some f)
  with assms have "fst (snd (f ((hx_parser x)\<lparr>hp_state := hx_state x\<rparr>) (hx_user x))) =
      (hx_parser x)\<lparr>hp_state := hx_state x,
        hp_errno := hp_errno (fst (snd (f ((hx_parser x)\<lparr>hp_state := hx_state x\<rparr>) (hx_user x))))\<rparr>"
    by (simp add: notify_ok_def)
  from after_callback_cases [OF this] Some show ?thesis by (simp add: callback_notify_def)
qed (simp add: callback_notify_def)

lemma callback_data_cases:
  assumes "pred_option data_ok cb" and clear: "\<And>x. kept x (clear x)"
  shows "(\<exists>x'. callback_data env cb e mark clear len er x = Break x' \<and> kept x x') \<or>
         (\<exists>x'. callback_data env cb e mark clear len er x = Exit er x' \<and> hp_errno (hx_parser x') \<noteq> HPE_OK)"
proof (cases "mark = None \<or> cb = None")
  case True
  then show ?thesis using clear by (auto simp: callback_data_def split: option.split)
next
  case False
  then obtain m f where mf: "mark = Some m" "cb = Some f" by auto
  have "callback_notify (Some (f (slice env m (len m)))) e er x =
      after_callback e er (f (slice env m (len m)) ((hx_parser x)\<lparr>hp_state := hx_state x\<rparr>) (hx_user x)) x"
    by (simp add: callback_notify_def)
  moreover have "pred_option notify_ok (Some (f (slice env m (len m))))"
    using assms(1) mf by (simp add: data_ok_def)
  ultimately show ?thesis
    using callback_notify_cases [of "Some (f (slice env m (len m)))" e er x] mf clear
    by (auto simp: callback_data_def intro: kept_trans [OF _ clear])
qed

lemma post_callback:
  assumes "(\<exists>x'. f = Break x' \<and> kept x x') \<or> (\<exists>x'. f = Exit er x' \<and> hp_errno (hx_parser x') \<noteq> HPE_OK)"
    and "near env p x" "er = hx_p x \<or> er = hx_p x + 1"
  shows "body_ok (hx_state x) (hx_parser x) \<Longrightarrow> post env p k f"
    and "(\<And>x'. kept x x' \<Longrightarrow> near env p x' \<Longrightarrow> post env p k (g x')) \<Longrightarrow> post env p k (and_then f g)"
  using assms nearD [OF assms(2)] by (auto simp: kept_simps at_byte_def resumable_def)

lemmas post_notify [post_rules] = post_callback [OF callback_notify_cases]
lemmas post_data = post_callback [OF callback_data_cases]

lemma settings_okD:
  assumes "settings_ok st"
  shows "pred_option notify_ok (on_message_begin st)" "pred_option data_ok (on_url st)"
    "pred_option data_ok (on_status st)" "pred_option data_ok (on_header_field st)"
    "pred_option data_ok (on_header_value st)" "pred_option notify_ok (on_headers_complete st)"
    "pred_option data_ok (on_body st)" "pred_option notify_ok (on_message_complete st)"
    "pred_option notify_ok (on_chunk_header st)" "pred_option notify_ok (on_chunk_complete st)"
  using assms by (simp_all add: settings_ok_def)

lemma post_cbs [post_rules]:
  assumes "settings_ok (env_settings env)" "near env p x" "er = hx_p x \<or> er = hx_p x + 1"
  shows "body_ok (hx_state x) (hx_parser x) \<Longrightarrow> post env p k (cb_url env er x)"
    and "body_ok (hx_state x) (hx_parser x) \<Longrightarrow> post env p k (cb_status env er x)"
    and "body_ok (hx_state x) (hx_parser x) \<Longrightarrow> post env p k (cb_header_field env er x)"
    and "body_ok (hx_state x) (hx_parser x) \<Longrightarrow> post env p k (cb_header_value env er x)"
    and "body_ok (hx_state x) (hx_parser x) \<Longrightarrow> post env p k (cb_body env v er x)"
    and "(\<And>x'. kept x x' \<Longrightarrow> near env p x' \<Longrightarrow> post env p k (g x')) \<Longrightarrow>
         post env p k (and_then (cb_header_value env er x) g)"
    and "(\<And>x'. kept x x' \<Longrightarrow> near env p x' \<Longrightarrow> post env p k (g x')) \<Longrightarrow>
         post env p k (and_then (cb_body env v er x) g)"
  unfolding cb_url_def cb_status_def cb_header_field_def cb_header_value_def cb_body_def
  by (intro post_data settings_okD [OF assms(1)] assms(2,3); simp add: kept_def)+

section \<open>Every pass through the switch\<close>

lemma post_step_start:
  assumes "settings_ok (env_settings env)" "near env p x"
    "hx_state x \<in> {s_dead, s_start_req_or_res, s_res_or_resp_H, s_start_res}"
  shows "post env p (reexec_rank (hx_state x)) (step_start env ch x)"
  using assms unfolding step_start_def cb_message_begin_def
  by (intro post_rules settings_okD; simp add: near_simps reexec_rank_def)

lemma post_step_res:
  assumes "settings_ok (env_settings env)" "near env p x"
    "hx_state x \<in> {s_res_H, s_res_HT, s_res_HTT, s_res_HTTP, s_res_http_major, s_res_http_dot,
                      s_res_http_minor, s_res_http_end, s_res_first_status_code, s_res_status_code,
                      s_res_status_start, s_res_status, s_res_line_almost_done}"
  shows "post env p (reexec_rank (hx_state x)) (step_res env ch x)"
  using assms unfolding step_res_def
  by (intro post_rules settings_okD; simp add: near_simps reexec_rank_def)

lemma post_case_option [post_rules]:
  "(m = None \<Longrightarrow> post env p k a) \<Longrightarrow> (\<And>v. m = Some v \<Longrightarrow> post env p k (f v)) \<Longrightarrow>
   post env p k (case m of None \<Rightarrow> a | Some v \<Rightarrow> f v)"
  by (cases m) simp_all

lemma post_step_req_method:
  assumes "settings_ok (env_settings env)" "near env p x" "hx_state x \<in> {s_start_req, s_req_method}"
  shows "post env p k (step_req_method env ch x)"
  using assms unfolding step_req_method_def cb_message_begin_def
  by (intro post_rules settings_okD; simp add: near_simps)

lemma post_url_step: "near env p x \<Longrightarrow> post env p k (url_step ch x)"
proof -
  have "body_ok (parse_url_char s ch) n" for s n by (simp add: parse_url_char_def body_ok_def)
  then show "near env p x \<Longrightarrow> post env p k (url_step ch x)"
    unfolding url_step_def by (intro post_rules; simp add: near_simps)
qed

lemma post_step_url:
  assumes "settings_ok (env_settings env)" "near env p x"
  shows "post env p k (step_url env ch x)"
  using assms unfolding step_url_def
  by (intro post_rules post_url_step; simp add: near_simps Let_def)

lemma post_step_req_http:
  assumes "near env p x"
  shows "post env p k (step_req_http ch x)"
  using assms unfolding step_req_http_def
  by (intro post_rules; simp add: near_simps)

lemma post_step_header_field_start:
  assumes "near env p x"
  shows "post env p (reexec_rank s_header_field_start) (step_header_field_start env ch x)"
  using assms unfolding step_header_field_start_def
  by (intro post_rules; simp add: near_simps reexec_rank_def)

lemma post_value_start:
  assumes "near env p x"
  shows "post env p k (value_start ch x)"
  using assms unfolding value_start_def Let_def
  by (cases "hp_header_state (hx_parser (with_parser (hp_index_update (\<lambda>_. 0))
                 (update_state s_header_value (mark_header_value x))))";
      simp only: header_state.case if_distrib [of Break]; intro post_rules; simp add: near_simps)

lemma post_step_value_start:
  assumes "near env p x" "hx_state x \<in> {s_header_value_discard_ws, s_header_value_start}"
  shows "post env p k (step_value_start ch x)"
  using assms unfolding step_value_start_def
  by (intro post_rules post_value_start; simp add: near_simps)

lemma post_step_header_end:
  assumes "settings_ok (env_settings env)" "near env p x"
    "hx_state x \<in> {s_header_almost_done, s_header_value_lws, s_header_value_discard_ws_almost_done,
                    s_header_value_discard_lws}"
  shows "post env p (reexec_rank (hx_state x)) (step_header_end env ch x)"
  using assms unfolding step_header_end_def
  by (intro post_rules; simp add: near_simps reexec_rank_def kept_def)

lemma post_headers_complete:
  assumes "settings_ok (env_settings env)" "near env p x"
    and "\<And>x'. near env p x' \<Longrightarrow> hx_state x' = hx_state x \<Longrightarrow> post env p k (f x')"
  shows "post env p k (call_headers_complete env x f)"
proof (cases "on_headers_complete (env_settings env)")
  case (Some cb)
  obtain r q u where "cb (hx_parser x) (hx_user x) = (r, q, u)" by (cases "cb (hx_parser x) (hx_user x)")
  with Some assms(2) show ?thesis
    by (simp add: call_headers_complete_def Let_def near_simps assms(3) post_return_at set_errno_def)
qed (use assms in \<open>simp add: call_headers_complete_def\<close>)

lemma post_step_headers_almost_done:
  assumes "settings_ok (env_settings env)" "near env p x"
  shows "post env p (reexec_rank s_headers_almost_done) (step_headers_almost_done env ch x)"
  using assms unfolding step_headers_almost_done_def
  by (intro post_rules post_headers_complete settings_okD; simp add: near_simps reexec_rank_def kept_def)

lemma new_message_no_body [near_simps]: "body_ok (new_message q) q'"
  by (simp add: new_message_def start_state_def body_ok_def)

lemma near_reset_nread: "near env p x \<Longrightarrow> near env p (x\<lparr>hx_nread := 0\<rparr>)"
  by (simp add: near_def)

lemma post_finish_message:
  assumes "settings_ok (env_settings env)" "near env p x"
  shows "post env p k (finish_message env x)"
    and "(\<And>x'. near env p x' \<Longrightarrow> hx_state x' = new_message (hx_parser x) \<Longrightarrow> hx_p x' = hx_p x \<Longrightarrow> post env p k (g x')) \<Longrightarrow>
      post env p k (and_then (finish_message env x) g)"
  using assms new_message_no_body [of "hx_parser x"] unfolding finish_message_def cb_message_complete_def
  by (intro post_rules settings_okD; simp add: near_simps kept_def)+

lemma post_step_headers_done:
  assumes "settings_ok (env_settings env)" "near env p x"
  shows "post env p k (step_headers_done env ch x)"
  using assms unfolding step_headers_done_def
  by (intro post_rules post_finish_message;
      simp add: near_simps near_reset_nread set_errno_def;
      simp add: body_ok_def has_flag_def)

text \<open>The two loops over field names and values stay inside the buffer.\<close>

lemma skip_tokens_le: "skip_tokens env pe p \<le> max p (pe - 1)"
proof (induction env pe p rule: skip_tokens.induct)
  case (1 env pe p)
  then show ?case by (subst skip_tokens.simps) (auto simp: max_def split: if_splits)
qed

lemma header_field_byte_le:
  "p < data_len env \<Longrightarrow> fst (header_field_byte env p ch c parser) < data_len env"
  using skip_tokens_le [of env "scan_limit env p" p]
  by (auto simp: header_field_byte_def Let_def scan_limit_def split: header_state.split)

lemma header_field_loop_bounds:
  "p \<le> data_len env \<Longrightarrow> p \<le> fst (header_field_loop env p ch parser) \<and>
   fst (header_field_loop env p ch parser) \<le> data_len env"
proof (induction env p ch parser rule: header_field_loop.induct)
  case (1 env p ch parser)
  obtain p' parser' where b: "header_field_byte env p (data_at env p) (token (data_at env p)) parser = (p', parser')"
    by (cases "header_field_byte env p (data_at env p) (token (data_at env p)) parser")
  show ?case
  proof (cases "p < data_len env \<and> token (data_at env p) \<noteq> 0")
    case True
    moreover have "p \<le> p'" "p' < data_len env"
      using header_field_byte_ge [of p env "data_at env p" "token (data_at env p)" parser]
        header_field_byte_le [of p env "data_at env p" "token (data_at env p)" parser] b True by simp_all
    ultimately show ?thesis
      using "1.IH" [OF _ refl refl _ b [symmetric] refl] b
      by (subst (1 2) header_field_loop.simps) (simp add: Let_def)
  next
    case False
    with "1.prems" show ?thesis by (subst (1 2) header_field_loop.simps) (auto simp: Let_def)
  qed
qed

lemma near_moved:
  "0 \<le> p \<Longrightarrow> p \<le> p' \<Longrightarrow> p' < data_len env \<Longrightarrow> n \<le> env_max_header_size env \<Longrightarrow>
   near env p (x\<lparr>hx_p := p', hx_parser := q, hx_nread := n\<rparr>)"
  by (simp add: near_def)

lemma post_step_header_field:
  assumes "settings_ok (env_settings env)" "near env p x" "hx_state x = s_header_field"
  shows "post env p k (step_header_field env ch x)"
proof -
  obtain p' ch' q where l: "header_field_loop env (hx_p x) ch (hx_parser x) = (p', ch', q)"
    by (cases "header_field_loop env (hx_p x) ch (hx_parser x)") auto
  have b: "hx_p x \<le> p'" "p' \<le> data_len env"
    using header_field_loop_bounds [of "hx_p x" env ch "hx_parser x"] l nearD [OF assms(2)] by simp_all
  show ?thesis
  proof (cases "p' = data_len env")
    case True
    then show ?thesis
      using near_moved [of p "data_len env - 1" env] assms(2,3) nearD [OF assms(2)]
      unfolding step_header_field_def l by (auto simp: Let_def at_byte_def body_ok_def intro!: post_count)
  next
    case False
    then have "near env p (x\<lparr>hx_p := p', hx_parser := q, hx_nread := n\<rparr>)" if "n \<le> env_max_header_size env" for n
      using near_moved [of p p' env n] that b nearD [OF assms(2)] by simp
    then show ?thesis
      using assms(1) b False nearD [OF assms(2)] unfolding step_header_field_def l
      by (auto simp: Let_def near_simps intro!: post_count post_if post_cbs post_fail_with)
  qed
qed

primrec value_errno :: "value_error \<Rightarrow> http_errno" where
  "value_errno (ValueError e _) = e"

lemma value_content_length_Inl: "value_content_length ch h q = Inl e \<Longrightarrow> value_errno e \<noteq> HPE_OK"
  by (auto simp: value_content_length_def Let_def split: if_splits)

lemma header_value_byte_Inl:
  assumes "header_value_byte env p ch h parser = Inl e" "p < data_len env"
  shows "p \<le> snd e \<and> snd e \<le> data_len env \<and> value_errno (fst e) \<noteq> HPE_OK"
proof -
  have "scan_value env l pe p = Inl q \<Longrightarrow> p \<le> q \<and> q < pe" for l pe p q
    by (induction env l pe p rule: scan_value.induct)
      (subst (asm) (2) scan_value.simps, auto simp: Let_def split: if_splits)
  from this [of "env_lenient env" "scan_limit env p" p] assms show ?thesis
    by (auto simp: header_value_byte_def value_general_def Let_def scan_limit_def max_def
        dest!: value_content_length_Inl split: sum.splits if_splits)
qed

lemma header_value_loop_bounds:
  assumes "p \<le> data_len env"
  shows "case header_value_loop env p h parser of
      ValueEnd q h' parser' \<Rightarrow> q = data_len env
    | ValueCR q h' parser' \<Rightarrow> p \<le> q \<and> q < data_len env
    | ValueLF q h' parser' \<Rightarrow> p \<le> q \<and> q < data_len env
    | ValueFail e q h' parser' \<Rightarrow> p \<le> q \<and> q \<le> data_len env \<and> value_errno e \<noteq> HPE_OK"
  using assms
proof (induction env p h parser rule: header_value_loop.induct)
  case (1 env p h parser)
  consider "p = data_len env" | "p < data_len env" "data_at env p = CR" | "p < data_len env" "data_at env p = LF"
    | "p < data_len env" "data_at env p \<noteq> CR" "data_at env p \<noteq> LF"
    using "1.prems" by linarith
  then show ?case
  proof cases
    case 4
    show ?thesis
    proof (cases "header_value_byte env p (data_at env p) h parser")
      case (Inl e)
      then show ?thesis
        using 4 header_value_byte_Inl [OF Inl 4(1)]
        by (cases e) (subst header_value_loop.simps, auto simp: Let_def)
    next
      case (Inr r)
      obtain q h' parser' where r: "r = (q, h', parser')" by (cases r)
      have q: "p \<le> q" "q < data_len env" using header_value_byte_Inr [of env p _ h parser q h' parser'] Inr r 4 by auto
      show ?thesis
      proof (cases "\<not> env_lenient env \<and> \<not> is_header_char (data_at env p)")
        case False
        then have "header_value_loop env p h parser = header_value_loop env (q + 1) h' parser'"
          using 4 Inr r by (subst header_value_loop.simps) (auto simp: Let_def)
        then show ?thesis
          using "1.IH" [OF 4(1) refl 4(2,3) False Inr r [symmetric] refl] q
          by (auto split: value_result.splits)
      qed (use 4 in \<open>subst header_value_loop.simps, simp add: Let_def\<close>)
    qed
  qed (subst header_value_loop.simps, simp add: Let_def)+
qed

lemma post_step_header_value:
  assumes "settings_ok (env_settings env)" "near env p x" "hx_state x = s_header_value"
  shows "post env p (reexec_rank s_header_value) (step_header_value env x)"
proof -
  note b = header_value_loop_bounds [of "hx_p x" env "hp_header_state (hx_parser x)" "hx_parser x"]
  note n = nearD [OF assms(2)]
  let ?last = "\<lambda>h x. let x1 = with_parser (\<lambda>q. q\<lparr>hp_header_state := h\<rparr>) x;
                    x2 = (if hx_p x1 = data_len env then x1\<lparr>hx_p := hx_p x1 - 1\<rparr> else x1)
                in count_header_size env (hx_p x2 - start) x2 Break"
  have last: "post env p k (count_header_size env v y Break)"
    if "0 \<le> p" "p \<le> hx_p y" "hx_p y < data_len env" "\<not> body_state (hx_state y)" for y v k
    using that by (intro post_count) (auto simp: at_byte_def near_def body_ok_other)
  show ?thesis
  proof (cases "header_value_loop env (hx_p x) (hp_header_state (hx_parser x)) (hx_parser x)")
    case (ValueEnd q h parser)
    with b n assms(3) show ?thesis
      by (simp add: step_header_value_def Let_def near_simps last body_ok_def)
  next
    case (ValueCR q h parser)
    with b n have q: "hx_p x \<le> q" "q < data_len env" by simp_all
    have "near env p (x\<lparr>hx_p := q, hx_parser := parser\<rparr>)"
      using q n by (simp add: near_def)
    then show ?thesis
      using ValueCR assms(1) q n
      by (simp add: step_header_value_def Let_def)
        (intro post_cbs(6) last; simp add: near_simps kept_def; simp add: with_parser_def update_state_def body_ok_def)
  next
    case (ValueLF q h parser)
    with b n have q: "hx_p x \<le> q" "q < data_len env" by simp_all
    show ?thesis
      using ValueLF assms(1) q n
      by (simp add: step_header_value_def Let_def)
        (intro post_count post_cbs(6) post_reexecute; simp add: near_simps kept_def reexec_rank_def update_state_def; simp add: near_def)
  next
    case (ValueFail e q h parser)
    obtain e' stored where e: "e = ValueError e' stored" by (cases e)
    with b n ValueFail e have "e' \<noteq> HPE_OK" by simp
    with b n ValueFail e show ?thesis
      by (simp add: step_header_value_def Let_def near_simps post_fail_at)
  qed
qed

lemma uint_ULLONG_MAX: "uint ULLONG_MAX = 2 ^ 64 - 1"
  by (simp add: ULLONG_MAX_def unsigned_minus_1_eq_mask mask_eq_exp_minus_1)

lemma take_body_post:
  assumes "near env p x" "hp_content_length (hx_parser x) \<noteq> 0"
  shows "near env p (take_body env x)"
    and "hx_state (take_body env x) = hx_state x"
    and "hp_flags (hx_parser (take_body env x)) = hp_flags (hx_parser x)"
    and "hp_uses_transfer_encoding (hx_parser (take_body env x)) = hp_uses_transfer_encoding (hx_parser x)"
    and "hp_content_length (hx_parser (take_body env x)) \<noteq> ULLONG_MAX"
proof -
  let ?n = "min (uint (hp_content_length (hx_parser x))) (data_len env - hx_p x)"
  have pos: "uint (hp_content_length (hx_parser x)) > 0" using assms(2) by (simp add: order_less_le uint_0_iff)
  then show "near env p (take_body env x)" "hx_state (take_body env x) = hx_state x"
    using assms(1) by (auto simp: take_body_def Let_def near_def with_parser_def mark_body_def)
  show "hp_flags (hx_parser (take_body env x)) = hp_flags (hx_parser x)"
    "hp_uses_transfer_encoding (hx_parser (take_body env x)) = hp_uses_transfer_encoding (hx_parser x)"
    by (simp_all add: take_body_def Let_def with_parser_def mark_body_def)
  have n: "0 < ?n" "?n \<le> uint (hp_content_length (hx_parser x))" using pos nearD [OF assms(1)] by auto
  then have "uint (hp_content_length (hx_parser x) - of_int ?n) = uint (hp_content_length (hx_parser x)) - ?n"
    using uint_lt2p [of "hp_content_length (hx_parser x)"]
    by (subst uint_word_arith_bintrs(2)) (auto simp: uint_word_of_int_eq take_bit_eq_mod mod_pos_pos_trivial)
  then have "uint (hp_content_length (hx_parser x) - of_int ?n) < uint ULLONG_MAX"
    using n(1) uint_lt2p [of "hp_content_length (hx_parser x)"] unfolding uint_ULLONG_MAX by simp linarith
  then show "hp_content_length (hx_parser (take_body env x)) \<noteq> ULLONG_MAX"
    by (auto simp: take_body_def Let_def with_parser_def mark_body_def)
qed

lemma post_step_body:
  assumes "settings_ok (env_settings env)" "near env p x" "body_ok (hx_state x) (hx_parser x)"
    "hx_state x \<in> {s_body_identity, s_body_identity_eof, s_message_done}"
  shows "post env p (reexec_rank (hx_state x)) (step_body env x)"
proof -
  have eof: "near env p ((mark_body x)\<lparr>hx_p := data_len env - 1\<rparr>)"
    using assms(2) by (auto simp: near_def mark_body_def)
  show ?thesis
    using assms take_body_post [of env p x] eof new_message_no_body [of "hx_parser x"] unfolding step_body_def
    by (intro post_rules post_finish_message; simp add: near_simps reexec_rank_def kept_def body_ok_def has_flag_def)
qed

lemma unhex_le: "unhex ! unat (ch :: u8) = - 1 \<or> unhex ! unat ch \<le> 15"
proof -
  have "list_all (\<lambda>v. v = - 1 \<or> v \<le> 15) unhex" by (simp add: unhex_def list_all_iff)
  moreover have "unat ch < length unhex" using unsigned_less [of ch] by (simp add: unhex_def)
  ultimately show ?thesis by (simp add: list_all_length)
qed

lemma uint_ucast_u64 [simp]: "uint (ucast (v :: u8) :: u64) = uint v"
  using uint_lt2p [of v] by (simp add: unsigned_ucast_eq take_bit_int_eq_self)

text \<open>The overflow test of the chunk size is good enough: the new size does not wrap.\<close>

lemma hex_digit_no_wrap:
  fixes c :: u64
  assumes "\<not> (ULLONG_MAX - 16) div 16 < c" "v \<le> (15 :: u8)"
  shows "uint (c * 16 + ucast v) = uint c * 16 + uint v" "uint c * 16 + uint v < 2 ^ 64 - 1"
proof -
  have "uint c \<le> (2 ^ 64 - 17) div 16" using assms(1)
    by (simp add: ULLONG_MAX_def not_less word_le_def uint_div)
  moreover have "uint v \<le> 15" using assms(2) by (simp add: word_le_def)
  ultimately show "uint c * 16 + uint v < 2 ^ 64 - 1" by simp
  moreover have "0 \<le> uint c * 16 + uint v" by simp
  ultimately show "uint (c * 16 + ucast v) = uint c * 16 + uint v"
    by (simp add: uint_word_ariths mod_add_left_eq mod_pos_pos_trivial)
qed

lemma chunk_size_not_max:
  "ucast (v :: u8) \<noteq> ULLONG_MAX"
  "\<not> (ULLONG_MAX - 16) div 16 < c \<Longrightarrow> unhex ! unat (ch :: u8) \<noteq> - 1 \<Longrightarrow>
   c * 16 + ucast (unhex ! unat ch) \<noteq> ULLONG_MAX"
proof -
  note m = uint_ULLONG_MAX
  have "uint (ucast v :: u64) \<noteq> uint ULLONG_MAX" using uint_lt2p [of v] m by simp
  then show "ucast v \<noteq> ULLONG_MAX" by metis
  assume "\<not> (ULLONG_MAX - 16) div 16 < c" "unhex ! unat ch \<noteq> - 1"
  with hex_digit_no_wrap [of c "unhex ! unat ch"] unhex_le [of ch] m
  show "c * 16 + ucast (unhex ! unat ch) \<noteq> ULLONG_MAX" by auto
qed

lemma post_step_chunk_size:
  assumes "settings_ok (env_settings env)" "near env p x" "body_ok (hx_state x) (hx_parser x)"
    "hx_state x \<in> {s_chunk_size_start, s_chunk_size, s_chunk_parameters, s_chunk_size_almost_done}"
  shows "post env p k (step_chunk_size env ch x)"
  using assms unfolding step_chunk_size_def
  by (intro post_rules settings_okD; simp add: near_simps set_content_length_def near_reset_nread;
      simp add: body_ok_def has_flag_def chunk_size_not_max)

lemma post_step_chunk_data:
  assumes "settings_ok (env_settings env)" "near env p x" "body_ok (hx_state x) (hx_parser x)"
    "hx_state x \<in> {s_chunk_data, s_chunk_data_almost_done, s_chunk_data_done}"
  shows "post env p k (step_chunk_data env ch x)"
  using assms take_body_post [of env p x] unfolding step_chunk_data_def
  by (intro post_rules settings_okD; simp add: near_simps near_reset_nread body_ok_def has_flag_def)

lemma post_http_switch:
  assumes "settings_ok (env_settings env)" "near env p x" "body_ok (hx_state x) (hx_parser x)"
  shows "post env p (reexec_rank (hx_state x)) (http_switch env ch x)"
proof -
  have "post env p (reexec_rank (hx_state x)) (step_chunk_data env ch x)"
    if "hx_state x \<in> {s_chunk_data, s_chunk_data_almost_done, s_chunk_data_done}"
    using post_step_chunk_data that assms by blast
  then show ?thesis
    using assms unfolding http_switch_def Let_def
    apply (intro post_if)
    subgoal by (rule post_step_start)
    subgoal by (rule post_step_res)
    subgoal by (rule post_step_req_method)
    subgoal by (rule post_step_url)
    subgoal by (rule post_step_req_http)
    subgoal using post_step_header_field_start by simp
    subgoal by (rule post_step_header_field)
    subgoal by (rule post_step_value_start)
    subgoal using post_step_header_value by simp
    subgoal by (rule post_step_header_end)
    subgoal using post_step_headers_almost_done by simp
    subgoal by (rule post_step_headers_done)
    subgoal by (rule post_step_body)
    subgoal by (rule post_step_chunk_size)
    subgoal by (cases "hx_state x") simp_all
    done
qed

section \<open>The loop ends\<close>

text \<open>Between two bytes, before the next one is read.\<close>

definition between :: "'u http_env \<Rightarrow> 'u hx \<Rightarrow> bool" where
  "between env x \<longleftrightarrow> 0 \<le> hx_p x \<and> hx_p x \<le> data_len env \<and> hx_nread x \<le> env_max_header_size env \<and>
     body_ok (hx_state x) (hx_parser x)"

text \<open>How a run of the loop may end.\<close>

fun run_ok :: "'u http_env \<Rightarrow> 'u flow \<Rightarrow> bool" where
  "run_ok env (Break x) \<longleftrightarrow> hx_p x = data_len env \<and> hx_nread x \<le> env_max_header_size env \<and>
     body_ok (hx_state x) (hx_parser x)"
| "run_ok env (Reexecute x) \<longleftrightarrow> False"
| "run_ok env (Exit r x) \<longleftrightarrow> 0 \<le> r \<and> r \<le> data_len env \<and> resumable (env_max_header_size env) (hx_parser x)"

definition loop_measure :: "'u http_env \<Rightarrow> bool \<Rightarrow> 'u hx \<Rightarrow> nat" where
  "loop_measure env again x = nat (data_len env - hx_p x) * 5 + (if again then reexec_rank (hx_state x) else 4)"

lemma reexec_rank_le: "reexec_rank s \<le> 3"
  by (simp add: reexec_rank_def)

text \<open>One round of the loop, seen from the invariant.\<close>

definition http_round :: "'u http_env \<Rightarrow> bool \<Rightarrow> 'u hx \<Rightarrow> 'u flow" where
  "http_round env again x =
     (let x0 = (if again then x else x\<lparr>hx_ch := data_at env (hx_p x)\<rparr>)
      in if \<not> again \<and> parsing_header (hx_state x0)
         then count_header_size env 1 x0 (\<lambda>x1. http_switch env (hx_ch x1) x1)
         else http_switch env (hx_ch x0) x0)"

lemma http_loop_round:
  "http_loop env again x =
     (if \<not> again \<and> hx_p x = data_len env then Some (Break x)
      else case http_round env again x of
             Exit r x' \<Rightarrow> Some (Exit r x')
           | Reexecute x' \<Rightarrow> http_loop env True x'
           | Break x' \<Rightarrow> http_loop env False (x'\<lparr>hx_p := hx_p x' + 1\<rparr>))"
  by (subst http_loop.simps) (simp add: http_round_def Let_def)

lemma post_http_round:
  assumes "settings_ok (env_settings env)" "between env x" "hx_p x < data_len env"
  shows "post env (hx_p x) (reexec_rank (hx_state x)) (http_round env again x)"
proof -
  have near: "near env (hx_p x) x" "body_ok (hx_state x) (hx_parser x)"
    using assms by (auto simp: between_def near_def)
  have switch: "post env (hx_p x) (reexec_rank (hx_state x)) (http_switch env ch y)"
    if "near env (hx_p x) y" "hx_state y = hx_state x" "hx_parser y = hx_parser x" for ch y
    using post_http_switch [OF assms(1) that(1), of ch] near(2) that by simp
  show ?thesis
    using near assms(2,3) unfolding http_round_def Let_def
    by (intro post_if post_count switch; simp add: between_def near_simps; simp add: near_def)
qed

lemma http_loop_total:
  assumes "settings_ok (env_settings env)"
  shows "between env x \<Longrightarrow> again \<longrightarrow> hx_p x < data_len env \<Longrightarrow>
    \<exists>f. http_loop env again x = Some f \<and> run_ok env f"
proof (induction "loop_measure env again x" arbitrary: again x rule: less_induct)
  case less
  show ?case
  proof (cases "hx_p x = data_len env")
    case True
    with less.prems show ?thesis by (subst http_loop_round) (auto simp: between_def)
  next
    case False
    with less.prems have p: "hx_p x < data_len env" by (simp add: between_def)
    note round = post_http_round [OF assms less.prems(1) p, of again]
    show ?thesis
    proof (cases "http_round env again x")
      case (Exit r x')
      with round False show ?thesis by (subst http_loop_round) auto
    next
      case (Reexecute x')
      with round have r: "at_byte env (hx_p x) x'" "reexec_rank (hx_state x') < reexec_rank (hx_state x)" by simp_all
      then have "loop_measure env True x' < loop_measure env again x"
        using reexec_rank_le [of "hx_state x"] by (auto simp: loop_measure_def at_byte_def near_def)
      from less.hyps [OF this] r have "\<exists>f. http_loop env True x' = Some f \<and> run_ok env f"
        by (auto simp: between_def at_byte_def near_def)
      with Reexecute False show ?thesis by (subst http_loop_round) simp
    next
      case (Break x')
      with round have r: "at_byte env (hx_p x) x'" by simp
      then have "loop_measure env False (x'\<lparr>hx_p := hx_p x' + 1\<rparr>) < loop_measure env again x"
        by (auto simp: loop_measure_def at_byte_def near_def)
      from less.hyps [OF this] r have "\<exists>f. http_loop env False (x'\<lparr>hx_p := hx_p x' + 1\<rparr>) = Some f \<and> run_ok env f"
        by (auto simp: between_def at_byte_def near_def)
      with Break False show ?thesis by (subst http_loop_round) simp
    qed
  qed
qed

section \<open>The whole call\<close>

text \<open>The callbacks after the loop: each either ends the call with an error or goes on.\<close>

definition returns :: "'u http_env \<Rightarrow> 'u flow \<Rightarrow> bool" where
  "returns env f \<longleftrightarrow> (\<exists>r x. f = Exit r x \<and> 0 \<le> r \<and> r \<le> data_len env \<and>
     resumable (env_max_header_size env) (hx_parser x))"

lemma run_ok_kept: "kept x x' \<Longrightarrow> run_ok env (Break x) \<Longrightarrow> run_ok env (Break x')"
  by (simp add: kept_simps) (simp add: kept_def)

lemma returns_callback:
  assumes "pred_option data_ok cb" "\<And>x. kept x (clear x)" "run_ok env (Break x)" "er = hx_p x"
    and "\<And>x'. run_ok env (Break x') \<Longrightarrow> returns env (g x')"
  shows "returns env (and_then (callback_data env cb e mark clear len er x) g)"
proof -
  have "0 \<le> er" "er \<le> data_len env" using assms(3,4) by (simp_all add: data_len_def)
  with callback_data_cases [OF assms(1,2), of env e mark len er x] show ?thesis
    using run_ok_kept [OF _ assms(3)] assms(5) by (fastforce simp: returns_def resumable_def)
qed

lemma returns_final:
  assumes "settings_ok (env_settings env)" "run_ok env (Break x)"
  shows "returns env (final_callbacks env x)"
  using assms(2)
  unfolding final_callbacks_def cb_url_def cb_status_def cb_header_field_def cb_header_value_def cb_body_def
  by (intro returns_callback settings_okD [OF assms(1)] refl)
    (simp_all add: kept_def returns_def return_at_def near_simps resumable_def data_len_def)

lemma returns_eof:
  assumes "settings_ok (env_settings env)" "resumable (env_max_header_size env) parser" "hp_errno parser = HPE_OK"
  shows "\<exists>r y. execute_eof env (initial_hx parser u) = Exit r y \<and> 0 \<le> r \<and> r \<le> 1 \<and>
    resumable (env_max_header_size env) (hx_parser y)"
proof (cases "hp_state parser = s_body_identity_eof")
  case True
  let ?f = "callback_notify (on_message_complete (env_settings env)) HPE_CB_message_complete 0 (initial_hx parser u)"
  have e: "execute_eof env (initial_hx parser u) = and_then ?f (Exit 0)"
    using True by (simp add: execute_eof_def initial_hx_def)
  show ?thesis
    using callback_notify_cases [OF settings_okD(8) [OF assms(1)], of HPE_CB_message_complete 0 "initial_hx parser u"]
  proof (elim disjE exE conjE)
    fix y assume "?f = Break y" and k: "kept (initial_hx parser u) y"
    moreover have "resumable (env_max_header_size env) (hx_parser y)"
      using k assms(2,3) True by (auto simp: kept_def initial_hx_def resumable_def body_ok_def)
    ultimately show ?thesis using e by simp
  next
    fix y assume "?f = Exit 0 y" "hp_errno (hx_parser y) \<noteq> HPE_OK"
    then show ?thesis using e by (simp add: resumable_def)
  qed
next
  case False
  then show ?thesis
    using assms(2) by (simp add: execute_eof_def initial_hx_def set_errno_def with_parser_def) (simp add: resumable_def)
qed

text \<open>
  C15: every call of \<open>http_parser_execute\<close> returns, whatever the bytes: it consumes at most the
  bytes it was given (one when it is told of an unexpected end), and a parser that has not failed
  is left as the next call needs it, with the size of its headers within the limit.
\<close>

theorem http_parser_execute_returns:
  assumes "settings_ok settings" "resumable limit parser"
  shows "\<exists>n parser' u'. http_parser_execute limit settings bytes parser u = Some (n, parser', u') \<and>
    0 \<le> n \<and> n \<le> (if bytes = [] then 1 else int (length bytes)) \<and> resumable limit parser'"
proof -
  let ?env = "execute_env limit settings bytes parser"
  have env: "env_settings ?env = settings" "env_max_header_size ?env = limit" "data_len ?env = int (length bytes)"
    by (simp_all add: execute_env_def data_len_def)
  show ?thesis
  proof (cases "hp_errno parser = HPE_OK \<and> bytes \<noteq> []")
    case True
    have "between ?env (initial_marks (initial_hx parser u))"
      using True assms(2) env by (auto simp: between_def initial_marks_def initial_hx_def Let_def resumable_def)
    from http_loop_total [of ?env, OF _ this, of False] assms(1) env obtain f
      where f: "http_loop ?env False (initial_marks (initial_hx parser u)) = Some f" "run_ok ?env f" by auto
    show ?thesis
    proof (cases f)
      case (Break x')
      with f assms(1) env have "returns ?env (final_callbacks ?env x')" by (intro returns_final) auto
      with True f(1) Break env show ?thesis
        by (auto simp: http_parser_execute_def Let_def returns_def flow_exit_def)
    next
      case (Exit r x')
      with True f env show ?thesis by (auto simp: http_parser_execute_def Let_def flow_exit_def)
    qed (use f in simp)
  next
    case False
    then show ?thesis
      using returns_eof [of ?env parser u] assms env
      by (cases "hp_errno parser = HPE_OK") (auto simp: http_parser_execute_def Let_def flow_exit_def)
  qed
qed


definition no_callbacks :: "unit http_settings" where
  "no_callbacks = \<lparr>on_message_begin = None, on_url = None, on_status = None, on_header_field = None,
     on_header_value = None, on_headers_complete = None, on_body = None, on_message_complete = None,
     on_chunk_header = None, on_chunk_complete = None\<rparr>"

lemma no_callbacks_ok: "settings_ok no_callbacks"
  by (simp add: settings_ok_def no_callbacks_def)

lemma resumable_init: "resumable limit (http_parser_init t)"
  by (simp add: resumable_def http_parser_init_def body_ok_def)

theorem http_parser_execute_returns_witness:
  "\<exists>n parser' u'. http_parser_execute 81920 no_callbacks (map chr ''GET / HTTP/1.1'') (http_parser_init HTTP_REQUEST) ()
     = Some (n, parser', u') \<and> 0 \<le> n \<and> n \<le> 14 \<and> resumable 81920 parser'"
  using http_parser_execute_returns [OF no_callbacks_ok resumable_init, of 81920 "map chr ''GET / HTTP/1.1''" HTTP_REQUEST "()"]
  by simp

section \<open>The assertions of the source\<close>

text \<open>
  The configurations the loop passes through: before a byte is read (\<open>False\<close>), or about to execute the
  switch again (\<open>True\<close>).
\<close>

inductive http_reach :: "'u http_env \<Rightarrow> 'u hx \<Rightarrow> bool \<Rightarrow> 'u hx \<Rightarrow> bool" for env x0 where
  start: "http_reach env x0 False x0"
| next_byte: "http_reach env x0 again x \<Longrightarrow> again \<or> hx_p x \<noteq> data_len env \<Longrightarrow> http_round env again x = Break x' \<Longrightarrow>
    http_reach env x0 False (x'\<lparr>hx_p := hx_p x' + 1\<rparr>)"
| reexecute: "http_reach env x0 again x \<Longrightarrow> again \<or> hx_p x \<noteq> data_len env \<Longrightarrow>
    http_round env again x = Reexecute x' \<Longrightarrow> http_reach env x0 True x'"

text \<open>What the assertions of the switch on \<open>content_length\<close> and \<open>F_CHUNKED\<close> say, state by state.\<close>

definition switch_assertions :: "'u hx \<Rightarrow> bool" where
  "switch_assertions x \<longleftrightarrow>
     (case hx_state x of
        s_body_identity \<Rightarrow> hp_content_length (hx_parser x) \<noteq> 0 \<and> hp_content_length (hx_parser x) \<noteq> ULLONG_MAX
      | s_chunk_size_start \<Rightarrow> has_flag (hx_parser x) F_CHUNKED
      | s_chunk_size \<Rightarrow> has_flag (hx_parser x) F_CHUNKED
      | s_chunk_parameters \<Rightarrow> has_flag (hx_parser x) F_CHUNKED
      | s_chunk_size_almost_done \<Rightarrow> has_flag (hx_parser x) F_CHUNKED
      | s_chunk_data \<Rightarrow> has_flag (hx_parser x) F_CHUNKED \<and>
          hp_content_length (hx_parser x) \<noteq> 0 \<and> hp_content_length (hx_parser x) \<noteq> ULLONG_MAX
      | s_chunk_data_almost_done \<Rightarrow> has_flag (hx_parser x) F_CHUNKED \<and> hp_content_length (hx_parser x) = 0
      | s_chunk_data_done \<Rightarrow> has_flag (hx_parser x) F_CHUNKED
      | _ \<Rightarrow> True)"

lemma http_reach_between:
  assumes "settings_ok (env_settings env)" "between env x0" "http_reach env x0 again x"
  shows "between env x \<and> (again \<longrightarrow> hx_p x < data_len env)"
  using assms(3)
proof induction
  case (next_byte again x x')
  then have "hx_p x < data_len env" by (auto simp: between_def)
  with post_http_round [OF assms(1), of x again] next_byte show ?case
    by (auto simp: between_def at_byte_def near_def)
next
  case (reexecute again x x')
  then have "hx_p x < data_len env" by (auto simp: between_def)
  with post_http_round [OF assms(1), of x again] reexecute show ?case
    by (auto simp: between_def at_byte_def near_def)
qed (use assms in simp)

lemma reach_between:
  assumes "settings_ok settings" "resumable limit parser" "hp_errno parser = HPE_OK"
    and "http_reach (execute_env limit settings bytes parser) (initial_marks (initial_hx parser u)) again x"
  shows "between (execute_env limit settings bytes parser) x"
proof -
  have "between (execute_env limit settings bytes parser) (initial_marks (initial_hx parser u))"
    using assms(2,3)
    by (simp add: between_def initial_marks_def initial_hx_def Let_def resumable_def execute_env_def data_len_def)
  with http_reach_between [OF _ _ assms(4)] assms(1) show ?thesis by (simp add: execute_env_def)
qed

text \<open>
  C16: in every configuration the loop of \<open>http_parser_execute\<close> passes through, the pointer is inside the
  buffer and the assertions of the switch on \<open>content_length\<close> and \<open>F_CHUNKED\<close> hold (lines 1949, 1999, 2016,
  2051, 2062, 2083, 2084, 2102, 2103 and 2110 of http_parser.c), though the kernel's \<open>assert\<close> does not check
  them: a body being read has a known length with bytes left, and chunk states occur in chunked messages only.
  The assertions on the error code (82, 107), on \<open>nread\<close> (1998), on impossible header states and parser states
  (1370, 1534, 2119) and on the marks (2135) are not part of the statement.
\<close>

theorem http_assertions_hold:
  assumes "settings_ok settings" "resumable limit parser" "hp_errno parser = HPE_OK"
    and "http_reach (execute_env limit settings bytes parser) (initial_marks (initial_hx parser u)) again x"
  shows "switch_assertions x \<and> 0 \<le> hx_p x \<and> hx_p x \<le> int (length bytes)"
  using reach_between [OF assms]
  by (cases "hx_state x") (simp_all add: between_def switch_assertions_def body_ok_def execute_env_def data_len_def)

text \<open>A parser in the middle of a chunk of three bytes.\<close>

definition chunk_parser :: http_parser where
  "chunk_parser = (http_parser_init HTTP_REQUEST)
     \<lparr>hp_state := s_chunk_data, hp_flags := F_CHUNKED, hp_uses_transfer_encoding := True, hp_content_length := 3\<rparr>"

lemma chunk_parser_ok: "resumable 81920 chunk_parser" "hp_errno chunk_parser = HPE_OK"
  by (simp_all add: resumable_def chunk_parser_def http_parser_init_def body_ok_def has_flag_def ULLONG_MAX_def)

theorem http_assertions_hold_witness:
  "switch_assertions (initial_marks (initial_hx chunk_parser ())) \<and>
   0 \<le> hx_p (initial_marks (initial_hx chunk_parser ())) \<and>
   hx_p (initial_marks (initial_hx chunk_parser ())) \<le> int (length (map chr ''abc''))"
  by (rule http_assertions_hold [OF no_callbacks_ok chunk_parser_ok http_reach.start])

text \<open>
  A body is delimited by its Content-Length only in a message that has no Transfer-Encoding: when
  the loop of \<open>http_parser_execute\<close> reads a body of known length, no Transfer-Encoding field was seen,
  so the two framings can never be confused, lenient parsing included.
\<close>

theorem http_body_framing:
  assumes "settings_ok settings" "resumable limit parser" "hp_errno parser = HPE_OK"
    and "http_reach (execute_env limit settings bytes parser) (initial_marks (initial_hx parser u)) again x"
    and "hx_state x = s_body_identity"
  shows "\<not> hp_uses_transfer_encoding (hx_parser x) \<and> \<not> has_flag (hx_parser x) F_CHUNKED"
proof -
  have "between (execute_env limit settings bytes parser) x"
    by (rule reach_between [OF assms(1-4)])
  then show ?thesis using assms(5) by (simp add: between_def body_ok_def)
qed

definition body_parser :: http_parser where
  "body_parser = (http_parser_init HTTP_RESPONSE)
     \<lparr>hp_state := s_body_identity, hp_flags := F_CONTENTLENGTH, hp_content_length := 3\<rparr>"

theorem http_body_framing_witness:
  "\<not> hp_uses_transfer_encoding (hx_parser (initial_marks (initial_hx body_parser ()))) \<and>
   \<not> has_flag (hx_parser (initial_marks (initial_hx body_parser ()))) F_CHUNKED"
proof (rule http_body_framing [OF no_callbacks_ok _ _ http_reach.start [of "execute_env 81920 _ [] body_parser"]])
  show "resumable 81920 body_parser"
    by (simp add: resumable_def body_parser_def http_parser_init_def body_ok_def has_flag_def ULLONG_MAX_def)
qed (simp_all add: body_parser_def http_parser_init_def initial_marks_def initial_hx_def Let_def)

end
