(* ===== verification/HttpFraming.thy ===== *)
theory HttpFraming
  imports HttpProps
begin

text \<open>
  The numbers and words that delimit messages: the value of Content-Length, the size of a chunk, and
  the method of a request.
\<close>

section \<open>Content-Length\<close>

text \<open>The number a list of decimal digits denotes, after the digits that gave \<open>acc\<close>.\<close>

definition decimal_value :: "int \<Rightarrow> u8 list \<Rightarrow> int" where
  "decimal_value acc ds = foldl (\<lambda>a d. a * 10 + (uint d - 48)) acc ds"

text \<open>Where a run of the value loop that did not fail ended, with the header state and the parser.\<close>

definition value_stop :: "value_result \<Rightarrow> (int \<times> header_state \<times> http_parser) option" where
  "value_stop r = (case r of ValueEnd p h q \<Rightarrow> Some (p, h, q) | ValueCR p h q \<Rightarrow> Some (p, h, q)
                           | ValueLF p h q \<Rightarrow> Some (p, h, q) | ValueFail e p h q \<Rightarrow> None)"

lemma decimal_value_simps [simp]:
  "decimal_value acc [] = acc" "decimal_value acc (d # ds) = decimal_value (acc * 10 + (uint d - 48)) ds"
  by (simp_all add: decimal_value_def)

lemma slice_empty [simp]: "slice env p 0 = []"
  by (simp add: slice_def)

lemma slice_step:
  assumes "0 \<le> p" "p < data_len env" "0 < n"
  shows "slice env p n = data_at env p # slice env (p + 1) (n - 1)"
proof -
  have "nat p < length (env_data env)" "nat n = Suc (nat (n - 1))" "nat (p + 1) = Suc (nat p)"
    using assms by (simp_all add: data_len_def)
  then show ?thesis by (simp add: slice_def data_at_def Cons_nth_drop_Suc [symmetric])
qed

lemma digit_bounds: "is_num d \<Longrightarrow> 48 \<le> uint d \<and> uint d \<le> 57"
  by (simp add: is_num_def word_le_def of_char_def)

text \<open>The overflow test is good enough: the new length does not wrap.\<close>

lemma decimal_digit_no_wrap:
  fixes c :: u64
  assumes "\<not> (ULLONG_MAX - 10) div 10 < c" "is_num d"
  shows "uint (c * 10 + ucast (d - chr CHR ''0'')) = uint c * 10 + (uint d - 48)"
proof -
  have d: "uint (d - 48) = uint d - 48" using digit_bounds [OF assms(2)]
    by (simp add: uint_word_arith_bintrs(2) take_bit_eq_mod mod_pos_pos_trivial)
  have "uint c \<le> (2 ^ 64 - 11) div 10" using assms(1)
    by (simp add: ULLONG_MAX_def not_less word_le_def uint_div)
  then have "uint c * 10 + uint (d - 48) < 2 ^ 64" "0 \<le> uint c * 10"
    using d digit_bounds [OF assms(2)] by simp_all
  then have "uint (c * 10 + ucast (d - 48)) = uint c * 10 + uint (d - 48)"
    by (simp add: uint_word_ariths mod_add_left_eq mod_pos_pos_trivial)
  then show ?thesis by (simp add: d of_char_def)
qed

lemma content_length_byte:
  assumes "header_value_byte env p ch h q = Inr (p', h', q')" "h \<in> {h_content_length_num, h_content_length_ws}"
  shows "p' = p \<and>
    (ch = SP \<and> h' = h_content_length_ws \<and> q' = q \<or>
     h = h_content_length_num \<and> h' = h \<and> is_num ch \<and>
     uint (hp_content_length q') = uint (hp_content_length q) * 10 + (uint ch - 48))"
  using assms decimal_digit_no_wrap [of "hp_content_length q" ch]
  by (auto simp: header_value_byte_def value_content_length_def Let_def split: if_splits sum.splits)

text \<open>
  C17: an accepted Content-Length is what its digits say. When the loop over a header value that
  started behind the first digit ends without an error, the bytes it passed are decimal digits followed
  by spaces, and \<open>content_length\<close> is exactly the number the digits denote: it never wraps.
\<close>

theorem content_length_decimal:
  assumes "value_stop (header_value_loop env p h q) = Some (p', h', q')"
    and "h \<in> {h_content_length_num, h_content_length_ws}" "0 \<le> p" "p \<le> data_len env"
  shows "\<exists>ds n. slice env p (p' - p) = ds @ replicate n SP \<and> (\<forall>d \<in> set ds. is_num d) \<and>
    (h = h_content_length_ws \<longrightarrow> ds = []) \<and>
    uint (hp_content_length q') = decimal_value (uint (hp_content_length q)) ds"
  using assms
proof (induction env p h q rule: header_value_loop.induct)
  case (1 env p h q)
  let ?ch = "data_at env p"
  show ?case
  proof (cases "p < data_len env \<and> ?ch \<noteq> CR \<and> ?ch \<noteq> LF")
    case False
    then have "header_value_loop env p h q \<in> {ValueEnd p h q, ValueCR p h q, ValueLF p h q}"
      by (subst header_value_loop.simps) (auto simp: Let_def)
    with "1.prems"(1) have "p' = p \<and> q' = q" by (auto simp: value_stop_def)
    then show ?thesis by (intro exI [of _ "[]"] exI [of _ 0]) simp
  next
    case True
    then obtain r h1 q1 where byte: "header_value_byte env p ?ch h q = Inr (r, h1, q1)"
      and ok: "\<not> (\<not> env_lenient env \<and> \<not> is_header_char ?ch)"
      using "1.prems"(1) by (cases "header_value_byte env p ?ch h q")
        (subst (asm) header_value_loop.simps, auto simp: value_stop_def Let_def split: if_splits)+
    note b = content_length_byte [OF byte "1.prems"(2)]
    have loop: "header_value_loop env p h q = header_value_loop env (p + 1) h1 q1"
      using True byte ok b by (subst header_value_loop.simps) (auto simp: Let_def)
    from "1.IH" [OF _ refl _ _ ok byte refl refl] True b "1.prems" loop
    obtain ds n where ih: "slice env (p + 1) (p' - (p + 1)) = ds @ replicate n SP" "\<forall>d \<in> set ds. is_num d"
      "h1 = h_content_length_ws \<longrightarrow> ds = []"
      "uint (hp_content_length q') = decimal_value (uint (hp_content_length q1)) ds" by fastforce
    have "p + 1 \<le> p'"
      using header_value_loop_bounds [of "p + 1" env h1 q1] True "1.prems"(1) loop
      by (auto simp: value_stop_def split: value_result.splits)
    then have sl: "slice env p (p' - p) = ?ch # ds @ replicate n SP"
      using slice_step [of p env "p' - p"] True "1.prems"(3) ih(1) by (simp add: algebra_simps)
    show ?thesis
    proof (cases "h1 = h_content_length_ws \<and> ?ch = SP")
      case True
      with sl ih b show ?thesis by (intro exI [of _ "[]"] exI [of _ "Suc n"]) (auto simp: is_num_def of_char_def)
    next
      case False
      with sl ih b show ?thesis by (intro exI [of _ "?ch # ds"] exI [of _ n]) auto
    qed
  qed
qed

text \<open>The value \<open>123\<close>, of which the first digit has been read.\<close>

definition length_env :: "unit http_env" where
  "length_env = execute_env 81920 no_callbacks (map chr ''23 '') (http_parser_init HTTP_RESPONSE)"

definition length_parser :: "u64 \<Rightarrow> http_parser" where
  "length_parser n = (http_parser_init HTTP_RESPONSE)\<lparr>hp_content_length := n\<rparr>"

theorem content_length_decimal_witness:
  "\<exists>ds n. slice length_env 0 (3 - 0) = ds @ replicate n SP \<and> (\<forall>d \<in> set ds. is_num d) \<and>
    (h_content_length_num = h_content_length_ws \<longrightarrow> ds = []) \<and>
    uint (hp_content_length (length_parser 123)) = decimal_value (uint (hp_content_length (length_parser 1))) ds"
proof (rule content_length_decimal)
  show "value_stop (header_value_loop length_env 0 h_content_length_num (length_parser 1)) =
      Some (3, h_content_length_ws, length_parser 123)"
    by code_simp
qed (simp_all add: length_env_def execute_env_def data_len_def)

section \<open>The size of a chunk\<close>

definition hex_value :: "int \<Rightarrow> u8 list \<Rightarrow> int" where
  "hex_value acc ds = foldl (\<lambda>a d. a * 16 + uint (unhex ! unat d)) acc ds"

lemma hex_value_simps [simp]:
  "hex_value acc [] = acc" "hex_value acc (d # ds) = hex_value (acc * 16 + uint (unhex ! unat d)) ds"
  by (simp_all add: hex_value_def)

lemma hex_value_ge: "0 \<le> acc \<Longrightarrow> acc \<le> hex_value acc ds"
proof (induction ds arbitrary: acc)
  case (Cons d ds)
  have "0 \<le> acc * 16 + uint (unhex ! unat d)" "acc \<le> acc * 16 + uint (unhex ! unat d)"
    using Cons.prems by simp_all
  with Cons.IH [of "acc * 16 + uint (unhex ! unat d)"] show ?case by simp
qed simp

text \<open>One more digit of the size, through the loop.\<close>

lemma chunk_size_round:
  assumes "hx_state x = s_chunk_size" "0 \<le> hx_p x" "hx_p x < data_len env"
    and "uint (hx_nread x) < uint (env_max_header_size env)"
    and "data_at env (hx_p x) = d" "d \<noteq> CR" "unhex ! unat d \<noteq> - 1"
    and "uint (hp_content_length (hx_parser x)) \<le> (2 ^ 64 - 17) div 16"
  shows "\<exists>y. http_loop env False x = http_loop env False y \<and> hx_state y = s_chunk_size \<and> hx_p y = hx_p x + 1 \<and>
    uint (hx_nread y) = uint (hx_nread x) + 1 \<and>
    uint (hp_content_length (hx_parser y)) = uint (hp_content_length (hx_parser x)) * 16 + uint (unhex ! unat d)"
proof -
  let ?y = "(set_content_length (hp_content_length (hx_parser x) * 16 + ucast (unhex ! unat d))
      (x\<lparr>hx_ch := d, hx_nread := hx_nread x + 1\<rparr>))\<lparr>hx_p := hx_p x + 1\<rparr>"
  have guard: "\<not> (ULLONG_MAX - 16) div 16 < hp_content_length (hx_parser x)"
    using assms(8) by (simp add: ULLONG_MAX_def not_less word_le_def uint_div)
  have n: "uint (hx_nread x + 1) = uint (hx_nread x) + 1"
    using assms(4) uint_lt2p [of "env_max_header_size env"]
    by (simp add: uint_word_ariths mod_pos_pos_trivial)
  have le: "\<not> hx_nread x + 1 > env_max_header_size env" using n assms(4) by (simp add: not_less word_le_def)
  have "http_round env False x = Break (?y\<lparr>hx_p := hx_p x\<rparr>)"
    using assms(1,5,6,7) guard le
    by (simp add: http_round_def parsing_header_def count_header_size_def Let_def http_switch_def
        step_chunk_size_def set_content_length_def with_parser_def)
  then have "http_loop env False x = http_loop env False ?y"
    using assms(3) by (subst http_loop_round) (simp add: set_content_length_def with_parser_def)
  moreover have "uint (hp_content_length (hx_parser x) * 16 + ucast (unhex ! unat d)) =
      uint (hp_content_length (hx_parser x)) * 16 + uint (unhex ! unat d)"
    using hex_digit_no_wrap(1) [OF guard] unhex_le [of d] assms(7) by simp
  ultimately show ?thesis
    using assms(1) n by (intro exI [of _ ?y]) (simp add: set_content_length_def with_parser_def)
qed

text \<open>
  The size of a chunk is what its hexadecimal digits say. When the loop of \<open>http_parser_execute\<close>
  stands behind the first digit and the buffer goes on with more digits, it passes them all and leaves
  exactly the number they denote in \<open>content_length\<close>, as long as that number leaves the margin the
  overflow test asks for and the header limit is not reached.
\<close>

theorem chunk_size_hexadecimal:
  assumes "hx_state x = s_chunk_size" "0 \<le> hx_p x"
    and "hx_p x + int (length ds) \<le> data_len env"
    and "slice env (hx_p x) (int (length ds)) = ds"
    and "\<forall>d \<in> set ds. d \<noteq> CR \<and> unhex ! unat d \<noteq> - 1"
    and "uint (hx_nread x) + int (length ds) \<le> uint (env_max_header_size env)"
    and "hex_value (uint (hp_content_length (hx_parser x))) ds \<le> 2 ^ 64 - 17"
  shows "\<exists>y. http_loop env False x = http_loop env False y \<and> hx_state y = s_chunk_size \<and>
    hx_p y = hx_p x + int (length ds) \<and>
    uint (hp_content_length (hx_parser y)) = hex_value (uint (hp_content_length (hx_parser x))) ds"
  using assms
proof (induction ds arbitrary: x)
  case (Cons d ds)
  let ?c = "uint (hp_content_length (hx_parser x))"
  have sl: "slice env (hx_p x) (int (length (d # ds))) = data_at env (hx_p x) # slice env (hx_p x + 1) (int (length ds))"
    using slice_step [of "hx_p x" env "int (length (d # ds))"] Cons.prems(2,3) by simp
  have "0 \<le> ?c * 16 + uint (unhex ! unat d)" by simp
  from hex_value_ge [OF this, of ds] Cons.prems(7) have "?c * 16 + uint (unhex ! unat d) \<le> 2 ^ 64 - 17" by simp
  moreover have "0 \<le> uint (unhex ! unat d)" by simp
  ultimately have "?c \<le> (2 ^ 64 - 17) div 16" by linarith
  then obtain z where z: "http_loop env False x = http_loop env False z" "hx_state z = s_chunk_size"
    "hx_p z = hx_p x + 1" "uint (hx_nread z) = uint (hx_nread x) + 1"
    "uint (hp_content_length (hx_parser z)) = ?c * 16 + uint (unhex ! unat d)"
    using chunk_size_round [of x env d] Cons.prems sl by auto
  from Cons.IH [of z] z Cons.prems sl show ?case by (auto simp: algebra_simps)
qed auto

text \<open>
  The table \<open>unhex\<close> is initialised for 128 entries only: the upper half counts as the digit 0, so
  such a byte is taken as part of a chunk size instead of being refused.
\<close>

lemma unhex_high_bytes:
  assumes "128 \<le> unat (c :: u8)"
  shows "unhex ! unat c = 0"
proof -
  have "unat c < 256" using unsigned_less [of c] by simp
  with assms show ?thesis by (simp add: unhex_def nth_append) arith
qed

text \<open>A chunk of size \<open>0x3a7\<close>, of which the first digit has been read.\<close>

definition chunk_size_parser :: http_parser where
  "chunk_size_parser = chunk_parser\<lparr>hp_state := s_chunk_size\<rparr>"

lemma unhex_examples: "unhex ! 97 = 10" "unhex ! 55 = 7"
  by code_simp+

theorem chunk_size_hexadecimal_witness:
  "\<exists>y. http_loop (execute_env 81920 no_callbacks (map chr ''a7'') chunk_size_parser) False
        (initial_hx chunk_size_parser ()) =
      http_loop (execute_env 81920 no_callbacks (map chr ''a7'') chunk_size_parser) False y \<and>
    hx_state y = s_chunk_size \<and> hx_p y = hx_p (initial_hx chunk_size_parser ()) + int (length (map chr ''a7'')) \<and>
    uint (hp_content_length (hx_parser y)) =
      hex_value (uint (hp_content_length (hx_parser (initial_hx chunk_size_parser ())))) (map chr ''a7'')"
  by (rule chunk_size_hexadecimal)
    (simp_all add: initial_hx_def chunk_size_parser_def chunk_parser_def http_parser_init_def execute_env_def
      data_len_def slice_def of_char_def unhex_examples)

section \<open>Methods\<close>

text \<open>The parser after the bytes of a method, by the method states alone.\<close>

fun feed_method :: "'u http_env \<Rightarrow> u8 list \<Rightarrow> 'u hx \<Rightarrow> 'u hx option" where
  "feed_method env [] x = Some x"
| "feed_method env (c # cs) x =
     (case step_req_method env c x of Break x' \<Rightarrow> feed_method env cs x' | _ \<Rightarrow> None)"

text \<open>
  Each of the 34 methods is recognised. From the start of a request, the bytes of a method's name
  and a blank lead to the state before the URL with exactly this method in the parser, although
  the first letter only picks a candidate that later letters correct.
\<close>

theorem methods_recognised:
  assumes "on_message_begin (env_settings env) = None" "hx_state x = s_start_req"
  shows "\<exists>y. feed_method env (map chr (method_string m) @ [SP]) x = Some y \<and>
    hx_state y = s_req_spaces_before_url \<and> hp_method (hx_parser y) = m"
  using assms
  by (cases m)
    (simp_all add: method_string_def step_req_method_def cb_message_begin_def callback_notify_def reset_message_def
      update_state_def with_parser_def Let_def is_alpha_def lower_char_def first_method_def switch_method_def
      incr_index_def lit_at_def of_char_def)

theorem methods_recognised_witness:
  "\<exists>y. feed_method (execute_env 81920 no_callbacks [] (http_parser_init HTTP_REQUEST))
      (map chr (method_string HTTP_PROPPATCH) @ [SP]) (initial_hx (http_parser_init HTTP_REQUEST) ()) = Some y \<and>
    hx_state y = s_req_spaces_before_url \<and> hp_method (hx_parser y) = HTTP_PROPPATCH"
  by (rule methods_recognised) (simp_all add: execute_env_def no_callbacks_def initial_hx_def http_parser_init_def)

end
