(* ===== verification/HttpUrl.thy ===== *)
theory HttpUrl
  imports HttpFraming
begin

text \<open>
  The URL functions of \<open>http_parser.c\<close>: splitting a URL into its fields, the host with user
  information and port inside it, and the value of the port.
\<close>

section \<open>Data\<close>

datatype url_field = UF_SCHEMA | UF_HOST | UF_PORT | UF_PATH | UF_QUERY | UF_FRAGMENT | UF_USERINFO

definition uf_index :: "url_field \<Rightarrow> nat" where
  "uf_index f = (case f of UF_SCHEMA \<Rightarrow> 0 | UF_HOST \<Rightarrow> 1 | UF_PORT \<Rightarrow> 2 | UF_PATH \<Rightarrow> 3 | UF_QUERY \<Rightarrow> 4
                         | UF_FRAGMENT \<Rightarrow> 5 | UF_USERINFO \<Rightarrow> 6)"

text \<open>The array \<open>field_data\<close> holds an offset and a length for every field.\<close>

record http_parser_url =
  field_set :: u16
  url_port :: u16
  field_off :: "url_field \<Rightarrow> u16"
  field_len :: "url_field \<Rightarrow> u16"

definition http_parser_url_init :: http_parser_url where
  "http_parser_url_init = \<lparr>field_set = 0, url_port = 0, field_off = (\<lambda>_. 0), field_len = (\<lambda>_. 0)\<rparr>"

definition has_field :: "http_parser_url \<Rightarrow> url_field \<Rightarrow> bool" where
  "has_field u f \<longleftrightarrow> field_set u AND push_bit (uf_index f) 1 \<noteq> 0"

definition grow_field :: "url_field \<Rightarrow> http_parser_url \<Rightarrow> http_parser_url" where
  "grow_field f u = u\<lparr>field_len := (field_len u)(f := field_len u f + 1)\<rparr>"

text \<open>Begin a field at an offset with a length, and mark it as present.\<close>

definition begin_field :: "url_field \<Rightarrow> nat \<Rightarrow> u16 \<Rightarrow> http_parser_url \<Rightarrow> http_parser_url" where
  "begin_field f p n u = u\<lparr>field_set := field_set u OR push_bit (uf_index f) 1,
     field_off := (field_off u)(f := of_nat p), field_len := (field_len u)(f := n)\<rparr>"

section \<open>The host\<close>

datatype http_host_state = s_http_host_dead | s_http_userinfo_start | s_http_userinfo | s_http_host_start
  | s_http_host_v6_start | s_http_host | s_http_host_v6 | s_http_host_v6_end | s_http_host_v6_zone_start
  | s_http_host_v6_zone | s_http_host_port_start | s_http_host_port

definition is_zone_char :: "u8 \<Rightarrow> bool" where
  "is_zone_char ch \<longleftrightarrow> is_alphanum ch \<or> ch \<in> {chr CHR ''%'', chr CHR ''.'', chr CHR ''-'', chr CHR ''_'', chr CHR ''~''}"

definition is_v6_char :: "u8 \<Rightarrow> bool" where
  "is_v6_char ch \<longleftrightarrow> is_hex ch \<or> ch = chr CHR '':'' \<or> ch = chr CHR ''.''"

definition http_parse_host_char :: "http_host_state \<Rightarrow> u8 \<Rightarrow> http_host_state" where
  "http_parse_host_char s ch =
     (case s of
        s_http_userinfo \<Rightarrow> (if ch = chr CHR ''@'' then s_http_host_start
                            else if is_userinfo_char ch then s_http_userinfo else s_http_host_dead)
      | s_http_userinfo_start \<Rightarrow> (if ch = chr CHR ''@'' then s_http_host_start
                            else if is_userinfo_char ch then s_http_userinfo else s_http_host_dead)
      | s_http_host_start \<Rightarrow> (if ch = chr CHR ''['' then s_http_host_v6_start
                            else if is_host_char ch then s_http_host else s_http_host_dead)
      | s_http_host \<Rightarrow> (if is_host_char ch then s_http_host
                            else if ch = chr CHR '':'' then s_http_host_port_start else s_http_host_dead)
      | s_http_host_v6_end \<Rightarrow> (if ch = chr CHR '':'' then s_http_host_port_start else s_http_host_dead)
      | s_http_host_v6 \<Rightarrow> (if ch = chr CHR '']'' then s_http_host_v6_end
                            else if is_v6_char ch then s_http_host_v6
                            else if ch = chr CHR ''%'' then s_http_host_v6_zone_start else s_http_host_dead)
      | s_http_host_v6_start \<Rightarrow> (if is_v6_char ch then s_http_host_v6 else s_http_host_dead)
      | s_http_host_v6_zone \<Rightarrow> (if ch = chr CHR '']'' then s_http_host_v6_end
                            else if is_zone_char ch then s_http_host_v6_zone else s_http_host_dead)
      | s_http_host_v6_zone_start \<Rightarrow> (if is_zone_char ch then s_http_host_v6_zone else s_http_host_dead)
      | s_http_host_port \<Rightarrow> (if is_num ch then s_http_host_port else s_http_host_dead)
      | s_http_host_port_start \<Rightarrow> (if is_num ch then s_http_host_port else s_http_host_dead)
      | s_http_host_dead \<Rightarrow> s_http_host_dead)"

text \<open>What a byte at position \<open>p\<close> does to the fields when the host goes from state \<open>s\<close> to \<open>new_s\<close>.\<close>

definition host_fields :: "http_host_state \<Rightarrow> http_host_state \<Rightarrow> nat \<Rightarrow> http_parser_url \<Rightarrow> http_parser_url" where
  "host_fields s new_s p u =
     (case new_s of
        s_http_host \<Rightarrow> grow_field UF_HOST
           (if s \<noteq> s_http_host then u\<lparr>field_off := (field_off u)(UF_HOST := of_nat p)\<rparr> else u)
      | s_http_host_v6 \<Rightarrow> grow_field UF_HOST
           (if s \<noteq> s_http_host_v6 then u\<lparr>field_off := (field_off u)(UF_HOST := of_nat p)\<rparr> else u)
      | s_http_host_v6_zone_start \<Rightarrow> grow_field UF_HOST u
      | s_http_host_v6_zone \<Rightarrow> grow_field UF_HOST u
      | s_http_host_port \<Rightarrow> grow_field UF_PORT (if s \<noteq> s_http_host_port then begin_field UF_PORT p 0 u else u)
      | s_http_userinfo \<Rightarrow> grow_field UF_USERINFO (if s \<noteq> s_http_userinfo then begin_field UF_USERINFO p 0 u else u)
      | _ \<Rightarrow> u)"

fun host_loop :: "u8 list \<Rightarrow> nat \<Rightarrow> http_host_state \<Rightarrow> http_parser_url \<Rightarrow> (http_host_state \<times> http_parser_url) option" where
  "host_loop [] p s u = Some (s, u)"
| "host_loop (ch # rest) p s u =
     (let new_s = http_parse_host_char s ch
      in if new_s = s_http_host_dead then None else host_loop rest (p + 1) new_s (host_fields s new_s p u))"

text \<open>Nonzero, here \<open>None\<close>, is failure.\<close>

definition http_parse_host :: "u8 list \<Rightarrow> http_parser_url \<Rightarrow> bool \<Rightarrow> http_parser_url option" where
  "http_parse_host buf u found_at =
     (let off = unat (field_off u UF_HOST);
          u1 = u\<lparr>field_len := (field_len u)(UF_HOST := 0)\<rparr>
      in case host_loop (take (unat (field_len u UF_HOST)) (drop off buf)) off
                (if found_at then s_http_userinfo_start else s_http_host_start) u1 of
           None \<Rightarrow> None
         | Some (s, u2) \<Rightarrow>
             if s \<in> {s_http_host_start, s_http_host_v6_start, s_http_host_v6, s_http_host_v6_zone_start,
                     s_http_host_v6_zone, s_http_host_port_start, s_http_userinfo, s_http_userinfo_start}
             then None else Some u2)"

section \<open>The whole URL\<close>

text \<open>The field a state belongs to; delimiters have none, other states are failures.\<close>

definition url_state_field :: "http_state \<Rightarrow> url_field option" where
  "url_state_field s =
     (if s = s_req_schema then Some UF_SCHEMA
      else if s = s_req_server_with_at \<or> s = s_req_server then Some UF_HOST
      else if s = s_req_path then Some UF_PATH
      else if s = s_req_query_string then Some UF_QUERY
      else if s = s_req_fragment then Some UF_FRAGMENT else None)"

definition url_delimiter :: "http_state \<Rightarrow> bool" where
  "url_delimiter s \<longleftrightarrow> s \<in> {s_req_schema_slash, s_req_schema_slash_slash, s_req_server_start,
                           s_req_query_string_start, s_req_fragment_start}"

fun url_loop ::
    "u8 list \<Rightarrow> nat \<Rightarrow> http_state \<Rightarrow> url_field option \<Rightarrow> bool \<Rightarrow> http_parser_url \<Rightarrow> (bool \<times> http_parser_url) option" where
  "url_loop [] p s old_uf found_at u = Some (found_at, u)"
| "url_loop (ch # rest) p s old_uf found_at u =
     (let s' = parse_url_char s ch
      in if url_delimiter s' then url_loop rest (p + 1) s' old_uf found_at u
         else (case url_state_field s' of
                 None \<Rightarrow> None
               | Some uf \<Rightarrow>
                   (let found_at' = (found_at \<or> s' = s_req_server_with_at)
                    in if Some uf = old_uf then url_loop rest (p + 1) s' old_uf found_at' (grow_field uf u)
                       else url_loop rest (p + 1) s' (Some uf) found_at' (begin_field uf p 1 u))))"

text \<open>The value of the port's characters, read as signed bytes; \<open>None\<close> above \<open>0xffff\<close>.\<close>

fun port_value :: "u8 list \<Rightarrow> u32 \<Rightarrow> u32 option" where
  "port_value [] v = Some v"
| "port_value (ch # rest) v =
     (let v' = v * 10 + (scast ch - 48) in if v' > 0xffff then None else port_value rest v')"

definition http_parser_parse_url :: "u8 list \<Rightarrow> bool \<Rightarrow> http_parser_url \<Rightarrow> http_parser_url option" where
  "http_parser_parse_url buf is_connect u0 =
     (if buf = [] then None
      else case url_loop buf 0 (if is_connect then s_req_server_start else s_req_spaces_before_url) None False
                 (u0\<lparr>url_port := 0, field_set := 0\<rparr>) of
             None \<Rightarrow> None
           | Some (found_at, u1) \<Rightarrow>
               if has_field u1 UF_SCHEMA \<and> \<not> has_field u1 UF_HOST then None
               else (case (if has_field u1 UF_HOST then http_parse_host buf u1 found_at else Some u1) of
                       None \<Rightarrow> None
                     | Some u2 \<Rightarrow>
                         if is_connect \<and> field_set u2 \<noteq> 6 then None
                         else if has_field u2 UF_PORT then
                           (case port_value (take (unat (field_len u2 UF_PORT)) (drop (unat (field_off u2 UF_PORT)) buf)) 0 of
                              None \<Rightarrow> None
                            | Some v \<Rightarrow> Some (u2\<lparr>url_port := ucast v\<rparr>))
                         else Some u2))"

section \<open>The fields lie in the buffer\<close>

lemma has_field_simps [simp]:
  "has_field (grow_field f u) g = has_field u g"
  "has_field (u\<lparr>field_off := o'\<rparr>) g = has_field u g" "has_field (u\<lparr>field_len := l\<rparr>) g = has_field u g"
  "has_field (u\<lparr>url_port := v\<rparr>) g = has_field u g"
  by (simp_all add: has_field_def grow_field_def)

lemma has_field_begin [simp]: "has_field (begin_field f p n u) g \<longleftrightarrow> g = f \<or> has_field u g"
proof -
  have "(push_bit (uf_index f) 1 AND push_bit (uf_index g) 1 \<noteq> (0 :: u16)) \<longleftrightarrow> g = f"
    by (cases f; cases g) (simp_all add: uf_index_def)
  moreover have "(a OR b) AND c \<noteq> 0 \<longleftrightarrow> b AND c \<noteq> 0 \<or> a AND c \<noteq> 0" for a b c :: u16
    by (auto simp: bit.conj_disj_distrib2 or_eq_0_iff)
  ultimately show ?thesis by (auto simp: has_field_def begin_field_def bit_or_iff)
qed

lemma field_simps [simp]:
  "field_off (grow_field f u) = field_off u" "field_len (grow_field f u) g = (if g = f then field_len u f + 1 else field_len u g)"
  "field_off (begin_field f p n u) g = (if g = f then of_nat p else field_off u g)"
  "field_len (begin_field f p n u) g = (if g = f then n else field_len u g)"
  by (simp_all add: grow_field_def begin_field_def)

definition field_within :: "http_parser_url \<Rightarrow> nat \<Rightarrow> url_field \<Rightarrow> bool" where
  "field_within u n f \<longleftrightarrow> unat (field_off u f) + unat (field_len u f) \<le> n \<and> 0 < unat (field_len u f)"

lemma unat_suc16: "unat (x :: u16) < 65535 \<Longrightarrow> unat (x + 1) = Suc (unat x)"
  by (simp add: unat_word_ariths)

lemma unat_of_nat16: "p \<le> 65535 \<Longrightarrow> unat (of_nat p :: u16) = p"
  by (simp add: unsigned_of_nat take_bit_nat_eq_self)

lemma field_within_begin: "p < 65535 \<Longrightarrow> field_within (begin_field f p 1 u) (p + 1) f"
  by (simp add: field_within_def unat_of_nat16)

lemma field_within_grow:
  "field_within u p f \<Longrightarrow> p < 65535 \<Longrightarrow> field_within (grow_field f u) (p + 1) f"
  by (simp add: field_within_def unat_suc16)

lemma url_state_field_not_host: "url_state_field s = Some f \<Longrightarrow> f \<noteq> UF_PORT \<and> f \<noteq> UF_USERINFO"
  by (auto simp: url_state_field_def split: if_splits)

lemma url_loop_within:
  assumes "url_loop bs p s old_uf fa u = Some (fa', u')" "p + length bs \<le> 65535"
    and "\<forall>f. has_field u f \<longrightarrow> field_within u p f" "\<forall>f. old_uf = Some f \<longrightarrow> has_field u f"
    and "\<not> has_field u UF_PORT" "\<not> has_field u UF_USERINFO"
  shows "(\<forall>f. has_field u' f \<longrightarrow> field_within u' (p + length bs) f) \<and>
    \<not> has_field u' UF_PORT \<and> \<not> has_field u' UF_USERINFO"
  using assms
proof (induction bs p s old_uf fa u rule: url_loop.induct)
  case (2 ch rest p s old_uf fa u)
  let ?s = "parse_url_char s ch"
  have p: "p < 65535" and mono: "field_within v p f \<Longrightarrow> field_within v (p + 1) f" for v f
    using "2.prems"(2) by (auto simp: field_within_def)
  show ?case
  proof (cases "url_delimiter ?s")
    case True
    with "2.IH"(1) [OF refl True] "2.prems" mono show ?thesis by (auto simp: Let_def)
  next
    case False
    with "2.prems"(1) obtain uf where uf: "url_state_field ?s = Some uf"
      by (auto simp: Let_def split: option.splits)
    note nh = url_state_field_not_host [OF uf]
    show ?thesis
    proof (cases "Some uf = old_uf")
      case True
      have "\<forall>f. has_field (grow_field uf u) f \<longrightarrow> field_within (grow_field uf u) (p + 1) f"
        using "2.prems"(3,4) True p mono field_within_grow by (auto simp: field_within_def unat_suc16)
      with "2.IH"(2) [OF refl False uf refl True] "2.prems" False uf True [symmetric] show ?thesis by (simp add: Let_def)
    next
      case neq: False
      have "\<forall>f. has_field (begin_field uf p 1 u) f \<longrightarrow> field_within (begin_field uf p 1 u) (p + 1) f"
        using "2.prems"(3) p by (auto simp: field_within_def unat_of_nat16)
      with "2.IH"(3) [OF refl False uf refl neq] "2.prems" False uf neq nh show ?thesis by (auto simp: Let_def)
    qed
  qed
qed simp

text \<open>What the loop over the host has established before position \<open>p\<close>.\<close>

definition host_inv :: "u8 list \<Rightarrow> http_host_state \<Rightarrow> nat \<Rightarrow> http_parser_url \<Rightarrow> bool" where
  "host_inv buf s p u \<longleftrightarrow>
     (if s \<in> {s_http_userinfo_start, s_http_userinfo, s_http_host_start, s_http_host_v6_start}
      then field_len u UF_HOST = 0 else field_within u p UF_HOST) \<and>
     (if s = s_http_host_port
      then has_field u UF_PORT \<and> 0 < unat (field_len u UF_PORT) \<and>
        unat (field_off u UF_PORT) + unat (field_len u UF_PORT) = p \<and>
        (\<forall>c \<in> set (take (unat (field_len u UF_PORT)) (drop (unat (field_off u UF_PORT)) buf)). is_num c)
      else \<not> has_field u UF_PORT) \<and>
     (s = s_http_userinfo \<longrightarrow> has_field u UF_USERINFO) \<and>
     (has_field u UF_USERINFO \<longrightarrow> field_within u p UF_USERINFO)"

lemma field_within_mono: "field_within u n f \<Longrightarrow> n \<le> m \<Longrightarrow> field_within u m f"
  by (simp add: field_within_def)

lemma take_Suc_drop: "n + m < length xs \<Longrightarrow> take (Suc n) (drop m xs) = take n (drop m xs) @ [xs ! (m + n)]"
  by (simp add: take_Suc_conv_app_nth add.commute)

lemma host_inv_step:
  assumes "host_inv buf s p u" "p < 65535" "p < length buf"
    and "http_parse_host_char s (buf ! p) = t" "t \<noteq> s_http_host_dead"
  shows "host_inv buf t (p + 1) (host_fields s t p u)"
proof -
  have len: "take (Suc n) (drop m buf) = take n (drop m buf) @ [buf ! p]" if "m + n = p" for m n
    using take_Suc_drop [of n m buf] that assms(3) by (simp add: add.commute)
  have pn: "t = s_http_host_port \<Longrightarrow> is_num (buf ! p)" "t = s_http_host_port \<Longrightarrow> s \<in> {s_http_host_port, s_http_host_port_start}"
    using assms(4) by (cases s; simp add: http_parse_host_char_def split: if_splits)+
  note defs = host_inv_def host_fields_def field_within_def unat_suc16 unat_of_nat16
  show ?thesis
  proof (cases "t = s_http_host_port")
    case True
    with pn assms show ?thesis by (auto simp: defs len)
  next
    case False
    with assms show ?thesis
      by (cases s) (auto simp: defs http_parse_host_char_def split: if_splits)
  qed
qed

lemma host_fields_other:
  assumes "f \<notin> {UF_HOST, UF_PORT, UF_USERINFO}"
  shows "has_field (host_fields s t p u) f = has_field u f" "field_off (host_fields s t p u) f = field_off u f"
    "field_len (host_fields s t p u) f = field_len u f"
  using assms by (auto simp: host_fields_def split: http_host_state.split)

lemma host_loop_inv:
  assumes "host_loop bs p s u = Some (t, v)" "bs = take (length bs) (drop p buf)" "p + length bs \<le> length buf"
    and "length buf \<le> 65535" "host_inv buf s p u"
  shows "host_inv buf t (p + length bs) v \<and> (\<forall>f. f \<notin> {UF_HOST, UF_PORT, UF_USERINFO} \<longrightarrow>
    has_field v f = has_field u f \<and> field_off v f = field_off u f \<and> field_len v f = field_len u f)"
  using assms
proof (induction bs p s u rule: host_loop.induct)
  case (2 ch rest p s u)
  let ?s = "http_parse_host_char s ch"
  have p: "p < length buf" using "2.prems"(3) by simp
  then have ch: "ch = buf ! p" and rest: "rest = take (length rest) (drop (p + 1) buf)"
    using "2.prems"(2) by (simp_all add: Cons_nth_drop_Suc [symmetric])
  from "2.prems"(1) have s: "?s \<noteq> s_http_host_dead"
    and loop: "host_loop rest (p + 1) ?s (host_fields s ?s p u) = Some (t, v)"
    by (auto simp: Let_def split: if_splits)
  have "host_inv buf ?s (p + 1) (host_fields s ?s p u)"
    using host_inv_step [OF "2.prems"(5) _ p _ s] "2.prems"(4) p ch by simp
  with "2.IH" [OF refl s loop rest] "2.prems"(3,4) show ?case by (simp add: host_fields_other)
qed simp

lemma parse_host_within:
  assumes "http_parse_host buf u fa = Some v" "length buf \<le> 65535"
    and "\<forall>f. has_field u f \<longrightarrow> field_within u (length buf) f" "has_field u UF_HOST"
    and "\<not> has_field u UF_PORT" "\<not> has_field u UF_USERINFO"
  shows "(\<forall>f. has_field v f \<longrightarrow> field_within v (length buf) f) \<and>
    (has_field v UF_PORT \<longrightarrow>
      (\<forall>c \<in> set (take (unat (field_len v UF_PORT)) (drop (unat (field_off v UF_PORT)) buf)). is_num c))"
proof -
  let ?off = "unat (field_off u UF_HOST)" and ?len = "unat (field_len u UF_HOST)"
  let ?bs = "take ?len (drop ?off buf)" and ?u = "u\<lparr>field_len := (field_len u)(UF_HOST := 0)\<rparr>"
  let ?s = "if fa then s_http_userinfo_start else s_http_host_start"
  have bounds: "?off + ?len \<le> length buf" using assms(3,4) by (simp add: field_within_def)
  from assms(1) obtain t where loop: "host_loop ?bs ?off ?s ?u = Some (t, v)"
    and t: "t \<notin> {s_http_host_start, s_http_host_v6_start, s_http_host_v6, s_http_host_v6_zone_start,
      s_http_host_v6_zone, s_http_host_port_start, s_http_userinfo, s_http_userinfo_start}"
    by (auto simp: http_parse_host_def Let_def split: option.splits if_splits)
  have "host_inv buf ?s ?off ?u" using assms(5,6) by (simp add: host_inv_def)
  moreover have "length ?bs = ?len" using bounds by simp
  ultimately
  have inv: "host_inv buf t (?off + ?len) v"
    and other: "\<And>f. f \<notin> {UF_HOST, UF_PORT, UF_USERINFO} \<Longrightarrow>
      has_field v f = has_field u f \<and> field_off v f = field_off u f \<and> field_len v f = field_len u f"
    using host_loop_inv [OF loop, of buf] bounds assms(2) by simp_all
  have "field_within v (length buf) f" if "has_field v f" for f
  proof (cases "f \<in> {UF_HOST, UF_PORT, UF_USERINFO}")
    case True
    then show ?thesis using inv t bounds that
      by (auto simp: host_inv_def field_within_def split: if_splits)
  next
    case False
    then show ?thesis using other [OF False] assms(3) that by (simp add: field_within_def)
  qed
  moreover have "\<forall>c \<in> set (take (unat (field_len v UF_PORT)) (drop (unat (field_off v UF_PORT)) buf)). is_num c"
    if "has_field v UF_PORT"
    using inv that unfolding host_inv_def by (simp split: if_splits)
  ultimately show ?thesis by blast
qed

lemma digit_cases: "is_num d \<Longrightarrow> d \<in> {48, 49, 50, 51, 52, 53, 54, 55, 56, 57 :: u8}"
  using digit_bounds [of d] by (simp add: word_uint_eq_iff) presburger

lemma port_value_decimal:
  "port_value ds v = Some w \<Longrightarrow> \<forall>d \<in> set ds. is_num d \<Longrightarrow> uint v \<le> 65535 \<Longrightarrow>
   uint w = decimal_value (uint v) ds \<and> uint w \<le> 65535"
proof (induction ds v rule: port_value.induct)
  case (2 d ds v)
  let ?v = "v * 10 + (scast d - 48)"
  have "uint (scast d - 48 :: u32) = uint d - 48" using digit_cases [of d] "2.prems"(2) by auto
  then have v: "uint ?v = uint v * 10 + (uint d - 48)"
    using "2.prems"(2,3) digit_bounds [of d] by (simp add: uint_word_ariths mod_pos_pos_trivial)
  with "2.prems" have "port_value ds ?v = Some w" "\<not> ?v > 0xffff" by (auto simp: Let_def split: if_splits)
  moreover then have "uint ?v \<le> 65535" by (simp add: not_less word_le_def)
  ultimately show ?case using "2.IH" [OF refl] "2.prems"(2) v by simp
qed simp

text \<open>
  C18: splitting a URL of at most 65535 bytes never points outside it: every field that is reported as
  present is a non-empty part of the buffer, the bytes of the port field are digits, and the port
  is the decimal number they denote.
\<close>

theorem url_fields_in_buffer:
  assumes "http_parser_parse_url buf is_connect u0 = Some u" "length buf \<le> 65535"
  shows "(\<forall>f. has_field u f \<longrightarrow> field_within u (length buf) f) \<and>
    (has_field u UF_PORT \<longrightarrow>
      (let ds = take (unat (field_len u UF_PORT)) (drop (unat (field_off u UF_PORT)) buf)
       in (\<forall>d \<in> set ds. is_num d) \<and> uint (url_port u) = decimal_value 0 ds))"
proof -
  let ?s = "if is_connect then s_req_server_start else s_req_spaces_before_url"
  from assms(1) obtain fa u1 where u1: "url_loop buf 0 ?s None False (u0\<lparr>url_port := 0, field_set := 0\<rparr>) = Some (fa, u1)"
    by (auto simp: http_parser_parse_url_def split: if_splits option.splits)
  have "\<not> has_field (u0\<lparr>url_port := 0, field_set := 0\<rparr>) f" for f by (simp add: has_field_def)
  with url_loop_within [OF u1] assms(2)
  have w1: "\<forall>f. has_field u1 f \<longrightarrow> field_within u1 (length buf) f" "\<not> has_field u1 UF_PORT" "\<not> has_field u1 UF_USERINFO"
    by auto
  obtain u2 where u2: "(if has_field u1 UF_HOST then http_parse_host buf u1 fa else Some u1) = Some u2"
    and u: "if has_field u2 UF_PORT then \<exists>v. u = u2\<lparr>url_port := ucast v\<rparr> \<and>
      port_value (take (unat (field_len u2 UF_PORT)) (drop (unat (field_off u2 UF_PORT)) buf)) 0 = Some v else u = u2"
    using assms(1) u1 by (auto simp: http_parser_parse_url_def split: if_splits option.splits)
  have w2: "(\<forall>f. has_field u2 f \<longrightarrow> field_within u2 (length buf) f) \<and> (has_field u2 UF_PORT \<longrightarrow>
      (\<forall>c \<in> set (take (unat (field_len u2 UF_PORT)) (drop (unat (field_off u2 UF_PORT)) buf)). is_num c))"
    using parse_host_within [of buf u1 fa u2] u2 w1 assms(2) by (cases "has_field u1 UF_HOST") auto
  show ?thesis
  proof (cases "has_field u2 UF_PORT")
    case True
    with u obtain v where v: "u = u2\<lparr>url_port := ucast v\<rparr>"
      "port_value (take (unat (field_len u2 UF_PORT)) (drop (unat (field_off u2 UF_PORT)) buf)) 0 = Some v" by auto
    from port_value_decimal [OF v(2)] w2 True have "uint v = decimal_value 0
      (take (unat (field_len u2 UF_PORT)) (drop (unat (field_off u2 UF_PORT)) buf))" "uint v \<le> 65535" by auto
    moreover have "uint (ucast v :: u16) = uint v" if "uint v \<le> 65535"
      using that by (simp add: unsigned_ucast_eq take_bit_int_eq_self)
    ultimately show ?thesis using v(1) w2 True by (auto simp: field_within_def Let_def)
  qed (use u w2 in \<open>simp add: Let_def\<close>)
qed

definition example_url :: "u8 list" where
  "example_url = map chr ''http://me@[fe80::1%25en0]:8080/a/b?q=1#f''"

theorem url_fields_in_buffer_witness:
  "\<exists>u. http_parser_parse_url example_url False http_parser_url_init = Some u \<and> url_port u = 8080 \<and>
    has_field u UF_PORT \<and> (\<forall>f. has_field u f \<longrightarrow> field_within u (length example_url) f)"
proof -
  have "\<exists>u. http_parser_parse_url example_url False http_parser_url_init = Some u \<and> url_port u = 8080 \<and> has_field u UF_PORT"
  proof -
    have "case http_parser_parse_url example_url False http_parser_url_init of
        Some u \<Rightarrow> url_port u = 8080 \<and> has_field u UF_PORT | None \<Rightarrow> False"
      by code_simp
    then show ?thesis by (auto split: option.splits)
  qed
  then show ?thesis using url_fields_in_buffer [of example_url False http_parser_url_init] by (auto simp: example_url_def)
qed

end
