(* ===== verification/Kstring.thy ===== *)
theory Kstring
  imports Prelude "HOL-Library.Signed_Division"
begin

text \<open>
  The kernel's string library (\<open>src/src/lib/string.cpp\<close>) over a byte-addressed memory with 32-bit
  pointers.  An \<open>int\<close> count is the 32-bit pattern of the argument, so \<open>while (count--)\<close> runs as
  often as the pattern says when read without a sign.  The loops that look for a terminator may run for
  ever on memory that has none; \<open>None\<close> is that outcome.
\<close>

type_synonym mem = "u32 \<Rightarrow> u8"

section \<open>Blocks\<close>

text \<open>\<open>while (count--) *d++ = *s++;\<close>\<close>

fun copy_up :: "mem \<Rightarrow> u32 \<Rightarrow> u32 \<Rightarrow> nat \<Rightarrow> mem" where
  "copy_up m d s 0 = m"
| "copy_up m d s (Suc n) = copy_up (m(d := m s)) (d + 1) (s + 1) n"

text \<open>\<open>while (count--) *lastd-- = *lasts--;\<close>\<close>

fun copy_down :: "mem \<Rightarrow> u32 \<Rightarrow> u32 \<Rightarrow> nat \<Rightarrow> mem" where
  "copy_down m d s 0 = m"
| "copy_down m d s (Suc n) = copy_down (m(d := m s)) (d - 1) (s - 1) n"

text \<open>One 32-bit assignment: four bytes are read, then four are stored.\<close>

definition copy_word :: "mem \<Rightarrow> u32 \<Rightarrow> u32 \<Rightarrow> mem" where
  "copy_word m d s = m(d := m s, d + 1 := m (s + 1), d + 2 := m (s + 2), d + 3 := m (s + 3))"

fun copy_words :: "mem \<Rightarrow> u32 \<Rightarrow> u32 \<Rightarrow> nat \<Rightarrow> mem \<times> u32 \<times> u32 \<times> nat" where
  "copy_words m d s count =
     (if 4 \<le> count then copy_words (copy_word m d s) (d + 4) (s + 4) (count - 4) else (m, d, s, count))"

declare copy_words.simps [simp del]

text \<open>The memory afterwards and the pointer that is returned.\<close>

definition memcpy :: "mem \<Rightarrow> u32 \<Rightarrow> u32 \<Rightarrow> u32 \<Rightarrow> mem \<times> u32" where
  "memcpy m dest src count =
     (if 4 \<le> sint count \<and> dest AND 3 = 0 \<and> src AND 3 = 0
      then (let (m', dest', src', n) = copy_words m dest src (unat count)
            in (copy_up m' dest' src' n, dest'))
      else (copy_up m dest src (unat count), dest))"

definition memmove :: "mem \<Rightarrow> u32 \<Rightarrow> u32 \<Rightarrow> u32 \<Rightarrow> mem \<times> u32" where
  "memmove m dest src count =
     (if dest < src then copy_up m dest src (unat count)
      else copy_down m (dest + (count - 1)) (src + (count - 1)) (unat count), dest)"

fun fill_up :: "mem \<Rightarrow> u32 \<Rightarrow> u8 \<Rightarrow> nat \<Rightarrow> mem" where
  "fill_up m d v 0 = m"
| "fill_up m d v (Suc n) = fill_up (m(d := v)) (d + 1) v n"

definition memset :: "mem \<Rightarrow> u32 \<Rightarrow> u8 \<Rightarrow> u32 \<Rightarrow> mem \<times> u32" where
  "memset m dest val count = (fill_up m dest val (unat count), dest)"

fun memcmp_loop :: "mem \<Rightarrow> u32 \<Rightarrow> u32 \<Rightarrow> nat \<Rightarrow> int" where
  "memcmp_loop m p1 p2 0 = 0"
| "memcmp_loop m p1 p2 (Suc n) =
     (if m p1 \<noteq> m p2 then uint (m p1) - uint (m p2) else memcmp_loop m (p1 + 1) (p2 + 1) n)"

definition memcmp :: "mem \<Rightarrow> u32 \<Rightarrow> u32 \<Rightarrow> u32 \<Rightarrow> int" where
  "memcmp m s1 s2 n = memcmp_loop m s1 s2 (unat n)"

text \<open>What a copy should do: the block at \<open>dest\<close> gets the old bytes at \<open>src\<close>, nothing else changes.\<close>

definition block_copied :: "mem \<Rightarrow> u32 \<Rightarrow> u32 \<Rightarrow> nat \<Rightarrow> mem" where
  "block_copied m dest src n = (\<lambda>a. if unat (a - dest) < n then m (src + (a - dest)) else m a)"

lemma unat_minus_Suc: "a \<noteq> d \<Longrightarrow> unat (a - d) = Suc (unat (a - (d + 1)))" for a d :: u32
proof -
  assume "a \<noteq> d"
  then have "a - d \<noteq> 0" by simp
  then have "unat (a - d - 1) = unat (a - d) - 1" "0 < unat (a - d)"
    by (simp_all add: unat_minus_one unat_gt_0)
  then show ?thesis by (simp add: diff_diff_add)
qed

lemma copy_up_block:
  assumes "\<And>i j. j < i \<Longrightarrow> i < n \<Longrightarrow> s + of_nat i \<noteq> d + of_nat j"
    and "n < 2 ^ 32"
  shows "copy_up m d s n = block_copied m d s n"
  using assms
proof (induction n arbitrary: m d s)
  case 0
  then show ?case by (simp add: block_copied_def)
next
  case (Suc n)
  have "copy_up (m(d := m s)) (d + 1) (s + 1) n = block_copied (m(d := m s)) (d + 1) (s + 1) n"
  proof (rule Suc.IH)
    fix i j assume "j < i" "i < n"
    with Suc.prems(1) [of "Suc j" "Suc i"] show "s + 1 + of_nat i \<noteq> d + 1 + of_nat j"
      by (simp add: algebra_simps)
  qed (use Suc.prems(2) in simp)
  moreover have "block_copied (m(d := m s)) (d + 1) (s + 1) n a = block_copied m d s (Suc n) a" for a
  proof (cases "a = d")
    case True
    have "unat (- 1 :: u32) = 2 ^ 32 - 1" by (simp add: unsigned_minus_1_eq_mask mask_eq_exp_minus_1)
    then show ?thesis using True Suc.prems(2) by (simp add: block_copied_def)
  next
    case False
    then have u: "unat (a - d) = Suc (unat (a - (d + 1)))" by (rule unat_minus_Suc)
    have "s + (a - d) \<noteq> d" if "unat (a - d) < Suc n"
      using Suc.prems(1) [of 0 "unat (a - d)"] that u by simp
    then show ?thesis using False u by (simp add: block_copied_def algebra_simps)
  qed
  ultimately show ?case by (simp add: fun_eq_iff)
qed

lemma copy_down_block:
  assumes "\<And>i j. i < j \<Longrightarrow> j < n \<Longrightarrow> s + of_nat i \<noteq> d + of_nat j"
    and "n < 2 ^ 32"
  shows "copy_down m (d + (of_nat n - 1)) (s + (of_nat n - 1)) n = block_copied m d s n"
  using assms
proof (induction n arbitrary: m)
  case 0
  then show ?case by (simp add: block_copied_def)
next
  case (Suc n)
  let ?m = "m(d + of_nat n := m (s + of_nat n))"
  have "copy_down m (d + (of_nat (Suc n) - 1)) (s + (of_nat (Suc n) - 1)) (Suc n) =
      copy_down ?m (d + (of_nat n - 1)) (s + (of_nat n - 1)) n"
    by (simp add: algebra_simps)
  also have "\<dots> = block_copied ?m d s n" using Suc by simp
  also have "\<dots> = block_copied m d s (Suc n)"
  proof (rule ext)
    fix a
    have un: "unat (of_nat n :: u32) = n" using Suc.prems(2) by (simp add: unsigned_of_nat take_bit_nat_eq_self)
    have "a = d + of_nat n" if "unat (a - d) = n"
    proof -
      have "of_nat (unat (a - d)) = a - d" by simp
      with that show ?thesis by simp
    qed
    then consider "unat (a - d) < n" | "a = d + of_nat n" | "unat (a - d) > n" by linarith
    then show "block_copied ?m d s n a = block_copied m d s (Suc n) a"
    proof cases
      case 1
      then have "s + (a - d) \<noteq> d + of_nat n" using Suc.prems(1) [of "unat (a - d)" n] by simp
      with 1 show ?thesis by (auto simp: block_copied_def)
    next
      case 3
      then have "a \<noteq> d + of_nat n" using un by auto
      with 3 show ?thesis by (simp add: block_copied_def)
    qed (simp add: block_copied_def un)
  qed
  finally show ?case .
qed

lemma plus_of_nat_less:
  "unat (x :: u32) + n \<le> 2 ^ 32 \<Longrightarrow> i < n \<Longrightarrow> unat (x + of_nat i) = unat x + i"
  by (simp add: unat_word_ariths unsigned_of_nat take_bit_nat_eq_self)

lemma no_clash_up:
  "unat (s :: u32) + n \<le> 2 ^ 32 \<Longrightarrow> unat d + n \<le> 2 ^ 32 \<Longrightarrow> d < s \<Longrightarrow> j < i \<Longrightarrow> i < n \<Longrightarrow>
   s + of_nat i \<noteq> d + of_nat j"
  using plus_of_nat_less [of s n i] plus_of_nat_less [of d n j] by (auto simp: word_less_nat_alt)

lemma no_clash_down:
  "unat (s :: u32) + n \<le> 2 ^ 32 \<Longrightarrow> unat d + n \<le> 2 ^ 32 \<Longrightarrow> \<not> d < s \<Longrightarrow> i < j \<Longrightarrow> j < n \<Longrightarrow>
   s + of_nat i \<noteq> d + of_nat j"
  using plus_of_nat_less [of s n i] plus_of_nat_less [of d n j] by (auto simp: word_less_nat_alt)

lemma memmove_block:
  assumes "unat src + unat count \<le> 2 ^ 32" "unat dest + unat count \<le> 2 ^ 32"
  shows "memmove m dest src count = (block_copied m dest src (unat count), dest)"
proof -
  have c: "unat count < 2 ^ 32" by (simp add: unat_u32_less)
  show ?thesis
  proof (cases "dest < src")
    case True
    then show ?thesis using copy_up_block [OF no_clash_up [OF assms] c] by (simp add: memmove_def)
  next
    case False
    then show ?thesis using copy_down_block [OF no_clash_down [OF assms] c] by (simp add: memmove_def)
  qed
qed

lemma copy_up_add: "copy_up m d s (k + n) = copy_up (copy_up m d s k) (d + of_nat k) (s + of_nat k) n"
  by (induction k arbitrary: m d s) (simp_all add: algebra_simps)

lemma copy_word_up:
  assumes "\<And>i j. j < i \<Longrightarrow> i < 4 \<Longrightarrow> s + of_nat i \<noteq> d + of_nat j"
  shows "copy_word m d s = copy_up m d s 4"
proof -
  have "s + 1 \<noteq> d" "s + 2 \<noteq> d" "s + 3 \<noteq> d" "s + 2 \<noteq> d + 1" "s + 3 \<noteq> d + 1" "s + 3 \<noteq> d + 2"
    using assms [of 0 1] assms [of 0 2] assms [of 0 3] assms [of 1 2] assms [of 1 3] assms [of 2 3] by simp_all
  then show ?thesis by (simp add: copy_word_def numeral_eq_Suc add.assoc)
qed

lemma copy_words_up:
  assumes "copy_words m d s n = (m', d', s', r)"
    and "\<And>i j. j < i \<Longrightarrow> i < n \<Longrightarrow> s + of_nat i \<noteq> d + of_nat j"
  shows "copy_up m' d' s' r = copy_up m d s n"
  using assms
proof (induction m d s n rule: copy_words.induct)
  case (1 m d s n)
  show ?case
  proof (cases "4 \<le> n")
    case True
    have "copy_up m' d' s' r = copy_up (copy_word m d s) (d + 4) (s + 4) (n - 4)"
    proof (rule "1.IH" [OF True])
      show "copy_words (copy_word m d s) (d + 4) (s + 4) (n - 4) = (m', d', s', r)"
        using "1.prems"(1) True by (subst (asm) copy_words.simps) simp
      fix i j assume "j < i" "i < n - 4"
      then show "s + 4 + of_nat i \<noteq> d + 4 + of_nat j" using "1.prems"(2) [of "j + 4" "i + 4"] by (simp add: algebra_simps)
    qed
    also have "copy_word m d s = copy_up m d s 4" using "1.prems"(2) True by (intro copy_word_up) simp
    also have "copy_up (copy_up m d s 4) (d + 4) (s + 4) (n - 4) = copy_up m d s (4 + (n - 4))"
      by (simp only: copy_up_add) simp
    finally show ?thesis using True by simp
  next
    case False
    with "1.prems"(1) show ?thesis by (subst (asm) copy_words.simps) simp
  qed
qed

text \<open>
  C23: \<open>memcpy\<close>, with its word-sized fast path, and the byte-wise \<open>memmove\<close> have the same effect on
  blocks that do not overlap: the destination gets the bytes of the source and nothing else
  changes. \<open>memmove\<close> is right for overlapping blocks in both directions as well.
\<close>

theorem memcpy_memmove_equal:
  assumes "unat src + unat count \<le> 2 ^ 32" "unat dest + unat count \<le> 2 ^ 32"
  shows "fst (memmove m dest src count) = block_copied m dest src (unat count) \<and>
    (unat src + unat count \<le> unat dest \<or> unat dest + unat count \<le> unat src \<longrightarrow>
      fst (memcpy m dest src count) = fst (memmove m dest src count))"
proof (intro conjI impI)
  show mm: "fst (memmove m dest src count) = block_copied m dest src (unat count)"
    by (simp add: memmove_block [OF assms])
  assume disjoint: "unat src + unat count \<le> unat dest \<or> unat dest + unat count \<le> unat src"
  have clash: "src + of_nat i \<noteq> dest + of_nat j" if "j < i" "i < unat count" for i j
    using plus_of_nat_less [OF assms(1), of i] plus_of_nat_less [OF assms(2), of j] that disjoint by auto
  have "fst (memcpy m dest src count) = copy_up m dest src (unat count)"
    using copy_words_up [of m dest src "unat count"] clash
    by (cases "copy_words m dest src (unat count)") (auto simp: memcpy_def)
  also have "\<dots> = block_copied m dest src (unat count)"
    by (rule copy_up_block [OF clash]) (simp_all add: unat_u32_less)
  finally show "fst (memcpy m dest src count) = fst (memmove m dest src count)" by (simp add: mm)
qed

text \<open>A memory that holds its own addresses; a word-aligned copy, and one that overlaps.\<close>

definition ramp :: mem where "ramp a = ucast a"

theorem memcpy_memmove_equal_witness:
  "fst (memcpy ramp 4096 8192 10) = fst (memmove ramp 4096 8192 10) \<and>
   fst (memmove ramp 4100 4096 10) = block_copied ramp 4100 4096 10"
  using memcpy_memmove_equal [of 8192 10 4096 ramp] memcpy_memmove_equal [of 4096 10 4100 ramp] by simp

section \<open>Strings\<close>

partial_function (option) strlen_loop :: "mem \<Rightarrow> u32 \<Rightarrow> u32 \<Rightarrow> u32 option" where
  "strlen_loop m str len = (if m (str + len) \<noteq> 0 then strlen_loop m str (len + 1) else Some len)"

definition strlen :: "mem \<Rightarrow> u32 \<Rightarrow> u32 option" where
  "strlen m str = strlen_loop m str 0"

partial_function (option) strcmp :: "mem \<Rightarrow> u32 \<Rightarrow> u32 \<Rightarrow> int option" where
  "strcmp m s1 s2 =
     (if m s1 \<noteq> 0 \<and> m s1 = m s2 then strcmp m (s1 + 1) (s2 + 1) else Some (uint (m s1) - uint (m s2)))"

partial_function (option) strcpy_loop :: "mem \<Rightarrow> u32 \<Rightarrow> u32 \<Rightarrow> mem option" where
  "strcpy_loop m d s =
     (let c = m s; m' = m(d := c) in if c \<noteq> 0 then strcpy_loop m' (d + 1) (s + 1) else Some m')"

definition strcpy :: "mem \<Rightarrow> u32 \<Rightarrow> u32 \<Rightarrow> (mem \<times> u32) option" where
  "strcpy m dest src = (case strcpy_loop m dest src of None \<Rightarrow> None | Some m' \<Rightarrow> Some (m', dest))"

partial_function (option) strcat_loop :: "mem \<Rightarrow> u32 \<Rightarrow> u32 \<Rightarrow> mem option" where
  "strcat_loop m ptr src =
     (if m src \<noteq> 0 then strcat_loop (m(ptr := m src)) (ptr + 1) (src + 1) else Some (m(ptr := 0)))"

definition strcat :: "mem \<Rightarrow> u32 \<Rightarrow> u32 \<Rightarrow> (mem \<times> u32) option" where
  "strcat m dest src =
     (case strlen m dest of None \<Rightarrow> None
      | Some len \<Rightarrow> (case strcat_loop m (dest + len) src of None \<Rightarrow> None | Some m' \<Rightarrow> Some (m', dest)))"

text \<open>The first loop of \<open>strncpy\<close>: the memory, the pointer behind the last byte and the count left.\<close>

fun strncpy_copy :: "mem \<Rightarrow> u32 \<Rightarrow> u32 \<Rightarrow> nat \<Rightarrow> mem \<times> u32 \<times> nat" where
  "strncpy_copy m d s 0 = (m, d, 0)"
| "strncpy_copy m d s (Suc n) =
     (let c = m s; m' = m(d := c) in if c \<noteq> 0 then strncpy_copy m' (d + 1) (s + 1) n else (m', d + 1, Suc n))"

definition strncpy :: "mem \<Rightarrow> u32 \<Rightarrow> u32 \<Rightarrow> u32 \<Rightarrow> mem \<times> u32" where
  "strncpy m dest src n = (let (m', d, k) = strncpy_copy m dest src (nat (sint n)) in (fill_up m' d 0 k, dest))"

fun strncmp_loop :: "mem \<Rightarrow> u32 \<Rightarrow> u32 \<Rightarrow> nat \<Rightarrow> int" where
  "strncmp_loop m s1 s2 0 = 0"
| "strncmp_loop m s1 s2 (Suc n) =
     (if m s1 \<noteq> 0 \<and> m s1 = m s2 then strncmp_loop m (s1 + 1) (s2 + 1) n else uint (m s1) - uint (m s2))"

definition strncmp :: "mem \<Rightarrow> u32 \<Rightarrow> u32 \<Rightarrow> u32 \<Rightarrow> int" where
  "strncmp m s1 s2 n = (if sint n < 0 then uint (m s1) - uint (m s2) else strncmp_loop m s1 s2 (nat (sint n)))"

text \<open>Searching; the null pointer is 0.\<close>

partial_function (option) strchr :: "mem \<Rightarrow> u32 \<Rightarrow> u32 \<Rightarrow> u32 option" where
  "strchr m s c =
     (if m s \<noteq> 0 then (if m s = ucast c then Some s else strchr m (s + 1) c)
      else Some (if c = 0 then s else 0))"

partial_function (option) strrchr_loop :: "mem \<Rightarrow> u32 \<Rightarrow> u32 \<Rightarrow> u32 \<Rightarrow> u32 option" where
  "strrchr_loop m s c seen =
     (let seen' = (if m s = ucast c then s else seen)
      in if m s \<noteq> 0 then strrchr_loop m (s + 1) c seen' else Some seen')"

definition strrchr :: "mem \<Rightarrow> u32 \<Rightarrow> u32 \<Rightarrow> u32 option" where
  "strrchr m s c = strrchr_loop m s c 0"

text \<open>The inner loop of \<open>strstr\<close> stops at the first difference or at an end; what counts is \<open>*n\<close> there.\<close>

partial_function (option) strstr_match :: "mem \<Rightarrow> u32 \<Rightarrow> u32 \<Rightarrow> bool option" where
  "strstr_match m h n =
     (if m h \<noteq> 0 \<and> m n \<noteq> 0 \<and> m h = m n then strstr_match m (h + 1) (n + 1) else Some (m n = 0))"

partial_function (option) strstr_loop :: "mem \<Rightarrow> u32 \<Rightarrow> u32 \<Rightarrow> u32 option" where
  "strstr_loop m haystack needle =
     (if m haystack = 0 then Some 0
      else if m haystack = m needle then
        (case strstr_match m haystack needle of None \<Rightarrow> None
         | Some found \<Rightarrow> if found then Some haystack else strstr_loop m (haystack + 1) needle)
      else strstr_loop m (haystack + 1) needle)"

definition strstr :: "mem \<Rightarrow> u32 \<Rightarrow> u32 \<Rightarrow> u32 option" where
  "strstr m haystack needle = (if m needle = 0 then Some haystack else strstr_loop m haystack needle)"

text \<open>A terminated string in memory.\<close>

fun c_str :: "mem \<Rightarrow> u32 \<Rightarrow> u8 list \<Rightarrow> bool" where
  "c_str m p [] \<longleftrightarrow> m p = 0"
| "c_str m p (c # cs) \<longleftrightarrow> m p = c \<and> c \<noteq> 0 \<and> c_str m (p + 1) cs"

lemma strlen_loop_c_str: "c_str m (p + len) cs \<Longrightarrow> strlen_loop m p len = Some (len + of_nat (length cs))"
  by (induction cs arbitrary: len; subst strlen_loop.simps) (auto simp: algebra_simps)

lemma strlen_c_str: "c_str m p cs \<Longrightarrow> strlen m p = Some (of_nat (length cs))"
  using strlen_loop_c_str [of m p 0 cs] by (simp add: strlen_def)

text \<open>Comparing strings decides their equality, so the other models compare names as lists.\<close>

lemma strcmp_c_str:
  "c_str m p cs \<Longrightarrow> c_str m q ds \<Longrightarrow> \<exists>r. strcmp m p q = Some r \<and> (r = 0 \<longleftrightarrow> cs = ds)"
proof (induction cs arbitrary: p q ds)
  case Nil
  then show ?case by (cases ds; subst strcmp.simps) (auto simp: uint_0_iff)
next
  case (Cons c cs)
  show ?case
  proof (cases ds)
    case Nil
    with Cons.prems show ?thesis by (subst strcmp.simps) (auto simp: uint_0_iff)
  next
    case (Cons d ds')
    with Cons.prems Cons.IH [of "p + 1" "q + 1" ds'] show ?thesis
      by (subst strcmp.simps) (auto simp: word_uint_eq_iff)
  qed
qed

lemma c_str_upd:
  "(\<And>i. i \<le> length cs \<Longrightarrow> p + of_nat i \<noteq> d) \<Longrightarrow> c_str (m(d := v)) p cs = c_str m p cs"
proof (induction cs arbitrary: p)
  case Nil
  from Nil [of 0] show ?case by simp
next
  case (Cons c cs)
  have "p \<noteq> d" using Cons.prems [of 0] by simp
  moreover have "c_str (m(d := v)) (p + 1) cs = c_str m (p + 1) cs"
  proof (rule Cons.IH)
    fix i assume "i \<le> length cs"
    then show "p + 1 + of_nat i \<noteq> d" using Cons.prems [of "Suc i"] by (simp add: algebra_simps)
  qed
  ultimately show ?case by (simp add: fun_upd_other del: fun_upd_apply)
qed

lemma c_str_nth: "c_str m p cs \<Longrightarrow> i \<le> length cs \<Longrightarrow> m (p + of_nat i) = (if i < length cs then cs ! i else 0)"
proof (induction cs arbitrary: p i)
  case (Cons c cs)
  then show ?case using Cons.IH [of "p + 1" "i - 1"] by (cases i) (auto simp: algebra_simps)
qed simp

lemma strncpy_copy_up:
  assumes "c_str m s cs" "\<And>i j. i \<le> length cs \<Longrightarrow> j < i \<Longrightarrow> j < n \<Longrightarrow> s + of_nat i \<noteq> d + of_nat j"
  shows "strncpy_copy m d s n =
    (copy_up m d s (min n (Suc (length cs))), d + of_nat (min n (Suc (length cs))), n - length cs)"
  using assms
proof (induction n arbitrary: m d s cs)
  case (Suc n)
  show ?case
  proof (cases cs)
    case Nil
    with Suc.prems show ?thesis by (simp del: fun_upd_apply)
  next
    case (Cons c cs')
    have "s + of_nat i \<noteq> d" if "0 < i" "i \<le> length cs" for i using Suc.prems(2) [of i 0] that by simp
    then have "s + 1 + of_nat i \<noteq> d" if "i \<le> length cs'" for i
      using that Cons by (metis Suc_le_mono length_Cons of_nat_Suc add.assoc zero_less_Suc)
    then have "c_str (m(d := m s)) (s + 1) cs'" using Suc.prems(1) Cons by (simp add: c_str_upd)
    moreover have "s + 1 + of_nat i \<noteq> d + 1 + of_nat j" if "i \<le> length cs'" "j < i" "j < n" for i j
      using Suc.prems(2) [of "Suc i" "Suc j"] that Cons by (simp add: algebra_simps)
    ultimately have "strncpy_copy (m(d := m s)) (d + 1) (s + 1) n =
      (copy_up (m(d := m s)) (d + 1) (s + 1) (min n (Suc (length cs'))),
       d + 1 + of_nat (min n (Suc (length cs'))), n - length cs')"
      by (rule Suc.IH)
    then show ?thesis using Suc.prems(1) Cons by (simp add: algebra_simps)
  qed
qed simp

lemma fill_up_block: "n < 2 ^ 32 \<Longrightarrow> fill_up m d v n = (\<lambda>a. if unat (a - d) < n then v else m a)"
proof (induction n arbitrary: m d)
  case (Suc n)
  have "unat (- 1 :: u32) = 2 ^ 32 - 1" by (simp add: unsigned_minus_1_eq_mask mask_eq_exp_minus_1)
  then have "(if unat (a - (d + 1)) < n then v else (m(d := v)) a) = (if unat (a - d) < Suc n then v else m a)" for a
    using Suc.prems unat_minus_Suc [of a d] by (cases "a = d") auto
  with Suc show ?case by simp
qed simp

lemma unat_diff_of_nat:
  fixes w :: u32
  assumes "k < 2 ^ 32"
  shows "unat (w - of_nat k) = (if k \<le> unat w then unat w - k else 2 ^ 32 + unat w - k)"
proof -
  have "unat (of_nat k :: u32) = k" using assms by (simp add: unsigned_of_nat take_bit_nat_eq_self)
  then show ?thesis using unat_sub_if_size [of w "of_nat k"] by (simp add: word_size) arith
qed

text \<open>
  \<open>strncpy\<close> with a source shorter than \<open>n\<close> writes \<open>n + 1\<close> bytes: the string, its terminator, and
  then \<open>n - length\<close> more zeros, because the terminator is not counted. With a source of \<open>n\<close> bytes or
  more it writes exactly the first \<open>n\<close> of them and no terminator.
\<close>

theorem strncpy_writes:
  assumes "c_str m src cs" and n: "0 < sint n"
    and "unat src + Suc (length cs) \<le> 2 ^ 32" "unat dest + Suc (unat n) \<le> 2 ^ 32"
    and "unat src + length cs < unat dest \<or> unat dest + unat n < unat src"
  shows "fst (strncpy m dest src n) =
    (\<lambda>a. let i = unat (a - dest)
         in if i < length cs \<and> i < unat n then cs ! i
            else if length cs < unat n \<and> i \<le> unat n then 0 else m a)"
proof -
  let ?L = "length cs" and ?N = "unat n"
  define k where "k = min ?N (Suc ?L)"
  have small: "sint n < 2 ^ 31" using sint_lt [of n] by simp
  have "uint n = sint n" using n small by (simp add: uint_sint take_bit_int_eq_self)
  then have N: "nat (sint n) = ?N" by (metis nat_uint_eq)
  moreover have "nat (sint n) < 2 ^ 31" using small n by (simp add: nat_less_iff)
  ultimately have "?N < 2 ^ 31" by simp
  note N = N this
  have clash: "src + of_nat i \<noteq> dest + of_nat j" if "i \<le> ?L" "j < i" "j < ?N" for i j
    using plus_of_nat_less [OF assms(3), of i] plus_of_nat_less [OF assms(4), of j] that assms(5) by auto
  let ?m = "copy_up m dest src k"
  have "strncpy_copy m dest src ?N = (?m, dest + of_nat k, ?N - ?L)"
    using strncpy_copy_up [OF assms(1), of ?N dest] clash by (simp add: k_def)
  then have mem: "fst (strncpy m dest src n) = fill_up ?m (dest + of_nat k) 0 (?N - ?L)"
    by (simp add: strncpy_def N)
  have copied: "?m = block_copied m dest src k"
    using clash N(2) by (intro copy_up_block) (auto simp: k_def)
  have filled: "fill_up ?m (dest + of_nat k) 0 (?N - ?L) a =
      (if unat (a - dest - of_nat k) < ?N - ?L then 0 else ?m a)" for a
    using fill_up_block [of "?N - ?L" ?m] N(2) by (simp add: diff_diff_add)
  have nth: "m (src + (a - dest)) = (if unat (a - dest) < ?L then cs ! unat (a - dest) else 0)" if "unat (a - dest) \<le> ?L" for a
    using c_str_nth [OF assms(1) that] by simp
  show ?thesis
  proof (rule ext)
    fix a
    have off: "unat (a - dest - of_nat k) =
        (if k \<le> unat (a - dest) then unat (a - dest) - k else 2 ^ 32 + unat (a - dest) - k)"
      using N(2) by (intro unat_diff_of_nat) (simp add: k_def)
    have val: "fst (strncpy m dest src n) a =
        (if unat (a - dest - of_nat k) < ?N - ?L then 0 else if unat (a - dest) < k then m (src + (a - dest)) else m a)"
      unfolding mem filled unfolding copied block_copied_def by (rule refl)
    have k: "k = (if ?L < ?N then Suc ?L else ?N)" by (simp add: k_def)
    show "fst (strncpy m dest src n) a = (let i = unat (a - dest)
         in if i < ?L \<and> i < ?N then cs ! i else if ?L < ?N \<and> i \<le> ?N then 0 else m a)"
      unfolding val off Let_def unfolding k using nth [of a] N(2) by auto
  qed
qed

text \<open>The name \<open>/ab\<close> at address 256 copied with \<open>n = 5\<close> to address 512: the byte 517 is written as well.\<close>

definition name_mem :: mem where
  "name_mem = (\<lambda>a. 7)(256 := 47, 257 := 97, 258 := 98, 259 := 0)"

theorem strncpy_writes_witness:
  "fst (strncpy name_mem 512 256 5) = (\<lambda>a. let i = unat (a - 512)
      in if i < length [47, 97, 98 :: u8] \<and> i < unat (5 :: u32) then [47, 97, 98] ! i
         else if length [47, 97, 98 :: u8] < unat (5 :: u32) \<and> i \<le> unat (5 :: u32) then 0 else name_mem a) \<and>
   fst (strncpy name_mem 512 256 5) (512 + 5) = 0 \<and> name_mem (512 + 5) = 7"
proof -
  have w: "fst (strncpy name_mem 512 256 5) = (\<lambda>a. let i = unat (a - 512)
      in if i < length [47, 97, 98 :: u8] \<and> i < unat (5 :: u32) then [47, 97, 98] ! i
         else if length [47, 97, 98 :: u8] < unat (5 :: u32) \<and> i \<le> unat (5 :: u32) then 0 else name_mem a)"
    by (rule strncpy_writes) (simp_all add: name_mem_def)
  then show ?thesis by (simp add: name_mem_def)
qed

section \<open>Numbers\<close>

text \<open>The loop of \<open>reverse\<close> on the bytes of the array.\<close>

function reverse_loop :: "u8 list \<Rightarrow> int \<Rightarrow> int \<Rightarrow> u8 list" where
  "reverse_loop arr start stop =
     (if start < stop
      then reverse_loop (arr[nat start := arr ! nat stop, nat stop := arr ! nat start]) (start + 1) (stop - 1)
      else arr)"
  by pat_completeness auto
termination by (relation "measure (\<lambda>(arr, start, stop). nat (stop - start))") auto

declare reverse_loop.simps [simp del]

definition digit_char :: "int \<Rightarrow> u8" where
  "digit_char r = (if 9 < r then of_int (r - 10 + 97) else of_int (r + 48))"

text \<open>The digits in the order they are stored, last digit first; C division truncates.\<close>

partial_function (option) itoa_digits :: "int \<Rightarrow> int \<Rightarrow> u8 list \<Rightarrow> u8 list option" where
  "itoa_digits num base str =
     (if num \<noteq> 0 then itoa_digits (num sdiv base) base (str @ [digit_char (num smod base)]) else Some str)"

text \<open>The bytes \<open>itoa\<close> leaves before the terminator.\<close>

definition itoa :: "u32 \<Rightarrow> int \<Rightarrow> u8 list option" where
  "itoa n base =
     (if n = 0 then Some [48]
      else
        (let neg = (sint n < 0 \<and> base = 10);
             num = (if neg then sint (- n) else sint n)
         in case itoa_digits num base [] of
              None \<Rightarrow> None
            | Some ds \<Rightarrow>
                (let str = (if neg then ds @ [45] else ds)
                 in Some (reverse_loop str 0 (int (length str) - 1)))))"

text \<open>Reading a number back.\<close>

definition digit_of :: "u8 \<Rightarrow> int" where
  "digit_of c = (if 97 \<le> uint c then uint c - 87 else uint c - 48)"

definition read_digits :: "int \<Rightarrow> u8 list \<Rightarrow> int" where
  "read_digits base cs = foldl (\<lambda>a c. a * base + digit_of c) 0 cs"

definition read_number :: "int \<Rightarrow> u8 list \<Rightarrow> int" where
  "read_number base cs = (case cs of [] \<Rightarrow> 0 | c # ds \<Rightarrow> if c = 45 then - read_digits base ds else read_digits base cs)"

lemma reverse_loop_rev:
  "xs = as @ ys @ bs \<Longrightarrow> reverse_loop xs (int (length as)) (int (length as) + int (length ys) - 1) = as @ rev ys @ bs"
proof (induction "length ys" arbitrary: xs as ys bs rule: less_induct)
  case less
  consider "length ys \<le> 1" | a zs b where "ys = a # zs @ [b]"
    by (metis append_Nil le_numeral_extra(4) length_0_conv length_Cons list.exhaust list.size(3) not_one_le_zero
        One_nat_def le_Suc_eq rev_exhaust le0)
  then show ?case
  proof cases
    case 1
    then have "rev ys = ys" by (cases ys) auto
    with 1 less.prems show ?thesis by (subst reverse_loop.simps) (auto simp: not_less)
  next
    case 2
    let ?xs = "as @ b # zs @ a # bs"
    have "xs[length as := b, length as + length zs + 1 := a] = ?xs"
      using less.prems 2 by (simp add: list_update_append)
    moreover have "reverse_loop ?xs (int (length (as @ [b]))) (int (length (as @ [b])) + int (length zs) - 1) =
        (as @ [b]) @ rev zs @ a # bs"
      by (rule less.hyps) (use 2 in simp_all)
    ultimately show ?thesis using less.prems 2
      by (subst reverse_loop.simps) (simp add: nth_append nat_add_distrib algebra_simps)
  qed
qed

lemma reverse_loop_all: "reverse_loop xs 0 (int (length xs) - 1) = rev xs"
  using reverse_loop_rev [of xs "[]" xs "[]"] by simp

lemma digit_of_char: "0 \<le> r \<Longrightarrow> r < 36 \<Longrightarrow> digit_of (digit_char r) = r \<and> digit_char r \<noteq> 45"
proof -
  assume r: "0 \<le> r" "r < 36"
  have u: "uint (of_int k :: u8) = k" if "0 \<le> k" "k < 256" for k
    using that by (simp add: uint_word_of_int_eq take_bit_int_eq_self)
  have "uint (digit_char r) = (if 9 < r then r + 87 else r + 48)"
    using u [of "r + 87"] u [of "r + 48"] r by (auto simp: digit_char_def algebra_simps)
  then show ?thesis using r by (auto simp: digit_of_def split: if_splits)
qed

lemma itoa_digits_pos:
  assumes "0 \<le> num" "2 \<le> base" "base \<le> 36"
  shows "\<exists>ds. itoa_digits num base str = Some (str @ ds) \<and> read_digits base (rev ds) = num \<and>
    (0 < num \<longrightarrow> ds \<noteq> []) \<and> 45 \<notin> set ds"
  using assms(1)
proof (induction "nat num" arbitrary: num str rule: less_induct)
  case less
  show ?case
  proof (cases "num = 0")
    case True
    then show ?thesis by (subst itoa_digits.simps) (simp add: read_digits_def)
  next
    case False
    have q: "num sdiv base = num div base" "num smod base = num mod base"
      using less.prems assms(2) by (simp_all add: signed_divide_int_def signed_modulo_int_def sgn_if)
    let ?d = "digit_char (num mod base)"
    have d: "digit_of ?d = num mod base" "?d \<noteq> 45"
      using digit_of_char [of "num mod base"] assms(2,3) pos_mod_bound [of base num] pos_mod_sign [of base num]
      by (simp_all, linarith+)
    have "num div base < num" using False less.prems assms(2) by (intro int_div_less_self) auto
    then obtain ds where ds: "itoa_digits (num div base) base (str @ [?d]) = Some ((str @ [?d]) @ ds)"
      "read_digits base (rev ds) = num div base" "45 \<notin> set ds"
      using less.hyps [of "num div base" "str @ [?d]"] less.prems False assms(2)
      by (auto simp: pos_imp_zdiv_nonneg_iff)
    have "itoa_digits num base str = Some (str @ ?d # ds)"
      using False q ds(1) by (subst itoa_digits.simps) simp
    moreover have "read_digits base (rev (?d # ds)) = num"
      using ds(2) d(1) by (simp add: read_digits_def)
    ultimately show ?thesis using ds(3) d(2) by (intro exI [of _ "?d # ds"]) simp
  qed
qed

text \<open>
  \<open>itoa\<close> ends and can be read back: in every base from 2 to 36 for positive numbers, and in
  base 10 for negative ones too, the digits denote the number that was given. The one exception is
  the smallest integer, whose negation is itself.
\<close>

theorem itoa_roundtrip:
  assumes "2 \<le> base" "base \<le> 36" "0 \<le> sint n \<or> base = 10" "n \<noteq> 0x80000000"
  shows "\<exists>cs. itoa n base = Some cs \<and> read_number base cs = sint n"
proof (cases "n = 0")
  case True
  then show ?thesis by (simp add: itoa_def read_number_def read_digits_def digit_of_def)
next
  case False
  let ?num = "if sint n < 0 then sint (- n) else sint n"
  have neg: "sint (- n) = - sint n" if "sint n < 0"
  proof -
    have "sint n \<noteq> - (2 ^ 31)"
    proof
      assume "sint n = - (2 ^ 31)"
      then have "(of_int (sint n) :: u32) = of_int (- (2 ^ 31))" by simp
      then show False using assms(4) by simp
    qed
    moreover have "- (2 ^ 31) \<le> sint n" using sint_ge [of n] by simp
    ultimately have "- sint n < 2 ^ 31" by linarith
    then show ?thesis using that by (simp add: sint_word_ariths signed_take_bit_int_eq_self)
  qed
  have "sint n \<noteq> 0"
  proof
    assume "sint n = 0"
    then have "(of_int (sint n) :: u32) = 0" by simp
    with False show False by simp
  qed
  with neg have pos: "0 < ?num" by auto
  then obtain ds where ds: "itoa_digits ?num base [] = Some ds" "read_digits base (rev ds) = ?num"
    "ds \<noteq> []" "45 \<notin> set ds"
    using itoa_digits_pos [of ?num base "[]"] assms(1,2) by auto
  have "read_number base (rev ds) = read_digits base (rev ds)"
  proof (cases "rev ds")
    case (Cons c cs)
    then have "c \<in> set ds" by (metis list.set_intros(1) set_rev)
    with Cons ds(4) show ?thesis by (auto simp: read_number_def)
  qed (use ds(3) in simp)
  then show ?thesis
    using ds assms(3) False neg by (auto simp: itoa_def Let_def reverse_loop_all read_number_def)
qed

theorem itoa_roundtrip_witness:
  "(\<exists>cs. itoa (- 2147483647) 10 = Some cs \<and> read_number 10 cs = sint (- 2147483647 :: u32)) \<and>
   (\<exists>cs. itoa 48879 16 = Some cs \<and> read_number 16 cs = sint (48879 :: u32))"
  using itoa_roundtrip [of 10 "- 2147483647"] itoa_roundtrip [of 16 48879] by simp

end
