(* ===== verification/Semaphore.thy ===== *)
theory Semaphore
  imports WaitQueue
begin

text \<open>
  Unnamed semaphores (\<open>src/src/kernel/posix_ipc.cpp\<close>, \<open>sem_init\<close> to \<open>sem_getvalue\<close>).  A pointer to a
  semaphore is an option, \<open>None\<close> the null pointer; the processes are the states along the ready
  queue.  The timer can take the processor away wherever interrupts are on, so \<open>sem_wait\<close> is three
  parts: \<open>sem_wait_test\<close> up to the \<open>sti\<close>, \<open>sem_wait_block\<close> from there to the scheduler, and
  \<open>sem_wait_resume\<close> behind it, before the loop tests again.
\<close>

record sem =
  sem_value :: u32
  sem_waiters :: u32

definition on_sem :: "(sem \<Rightarrow> int \<times> sem) \<Rightarrow> sem option \<Rightarrow> int \<times> sem option" where
  "on_sem f s = (case s of None \<Rightarrow> (- 1, None) | Some x \<Rightarrow> (let (r, y) = f x in (r, Some y)))"

definition sem_init :: "sem option \<Rightarrow> u32 \<Rightarrow> int \<times> sem option" where
  "sem_init s v = on_sem (\<lambda>x. if v > 0x7FFFFFFF then (- 1, x) else (0, \<lparr>sem_value = v, sem_waiters = 0\<rparr>)) s"

definition sem_destroy :: "sem option \<Rightarrow> int \<times> sem option" where
  "sem_destroy s = on_sem (\<lambda>x. if sint (sem_waiters x) > 0 then (- 1, x) else (0, x)) s"

definition sem_trywait :: "sem option \<Rightarrow> int \<times> sem option" where
  "sem_trywait s =
     on_sem (\<lambda>x. if sint (sem_value x) > 0 then (0, x\<lparr>sem_value := sem_value x - 1\<rparr>) else (- 1, x)) s"

definition sem_getvalue :: "sem option \<Rightarrow> u32 option" where
  "sem_getvalue s = map_option sem_value s"

text \<open>The part with interrupts off: the call is over (\<open>True\<close>), or there is one waiter more.\<close>

definition sem_wait_test :: "sem \<Rightarrow> bool \<times> sem" where
  "sem_wait_test s =
     (if sint (sem_value s) > 0 then (True, s\<lparr>sem_value := sem_value s - 1\<rparr>)
      else (False, s\<lparr>sem_waiters := sem_waiters s + 1\<rparr>))"

text \<open>Interrupts are on again when process \<open>me\<close> says that it waits and calls the scheduler.\<close>

definition sem_wait_block :: "nat \<Rightarrow> process_state list \<Rightarrow> process_state list" where
  "sem_wait_block me ps = ps[me := PROCESS_WAITING]"

definition sem_wait_resume :: "sem \<Rightarrow> sem" where
  "sem_wait_resume s = s\<lparr>sem_waiters := sem_waiters s - 1\<rparr>"

text \<open>The first waiting process of the ready queue becomes ready, whatever it waits for.\<close>

fun wake_first :: "process_state list \<Rightarrow> process_state list" where
  "wake_first [] = []"
| "wake_first (p # ps) = (if p = PROCESS_WAITING then PROCESS_READY # ps else p # wake_first ps)"

definition sem_post :: "sem \<Rightarrow> process_state list \<Rightarrow> int \<times> sem \<times> process_state list" where
  "sem_post s ps =
     (if sem_value s = 0x7FFFFFFF then (- 1, s, ps)
      else
        (let s' = s\<lparr>sem_value := sem_value s + 1\<rparr>
         in (0, s', if sint (sem_waiters s') > 0 then wake_first ps else ps)))"

text \<open>The calls with their test for the null pointer; a \<open>sem_wait\<close> that finds no unit has no answer yet.\<close>

definition sem_post_call :: "sem option \<Rightarrow> process_state list \<Rightarrow> int \<times> sem option \<times> process_state list" where
  "sem_post_call s ps =
     (case s of None \<Rightarrow> (- 1, None, ps) | Some x \<Rightarrow> (let (r, y, ps') = sem_post x ps in (r, Some y, ps')))"

definition sem_wait_call :: "sem option \<Rightarrow> int option \<times> sem option" where
  "sem_wait_call s =
     (case s of
        None \<Rightarrow> (Some (- 1), None)
      | Some x \<Rightarrow> (let (done, y) = sem_wait_test x in (if done then Some 0 else None, Some y)))"

definition sem_timedwait_call :: "sem option \<Rightarrow> 'timeout \<Rightarrow> int option \<times> sem option" where
  "sem_timedwait_call s abs_timeout = sem_wait_call s"

section \<open>The semaphore and its users\<close>

text \<open>
  Where each process stands: outside \<open>sem_wait\<close>, at the test at the head of its loop, counted as a
  waiter but not yet waiting, or in the scheduler. The ghost counts are the units taken and given
  since the beginning.
\<close>

datatype sem_place = Outside | Testing | Counted | Sleeping

record sem_sys =
  sys_sem :: sem
  sys_procs :: "process_state list"
  sys_place :: "sem_place list"
  sys_taken :: nat
  sys_posted :: nat

definition go :: "nat \<Rightarrow> sem_place \<Rightarrow> sem_sys \<Rightarrow> sem_sys" where
  "go me x y = y\<lparr>sys_place := (sys_place y)[me := x]\<rparr>"

definition test_step :: "nat \<Rightarrow> sem_sys \<Rightarrow> sem_sys" where
  "test_step me y =
     (let (done, s) = sem_wait_test (sys_sem y)
      in go me (if done then Outside else Counted)
           (y\<lparr>sys_sem := s, sys_taken := sys_taken y + (if done then 1 else 0)\<rparr>))"

definition block_step :: "nat \<Rightarrow> sem_sys \<Rightarrow> sem_sys" where
  "block_step me y = go me Sleeping (y\<lparr>sys_procs := sem_wait_block me (sys_procs y)\<rparr>)"

definition resume_step :: "nat \<Rightarrow> sem_sys \<Rightarrow> sem_sys" where
  "resume_step me y = go me Testing (y\<lparr>sys_sem := sem_wait_resume (sys_sem y)\<rparr>)"

definition post_step :: "sem_sys \<Rightarrow> sem_sys" where
  "post_step y = (let (r, s, ps) = sem_post (sys_sem y) (sys_procs y)
                  in y\<lparr>sys_sem := s, sys_procs := ps, sys_posted := sys_posted y + (if r = 0 then 1 else 0)\<rparr>)"

text \<open>
  One step of one process, or of the scheduler, which may change what a process that does not wait
  is. With \<open>preempt\<close> a process can be stopped anywhere; without it no other process runs while one
  stands between its \<open>sti\<close> and its \<open>state = PROCESS_WAITING\<close>.
\<close>

definition may_run :: "bool \<Rightarrow> nat \<Rightarrow> sem_sys \<Rightarrow> bool" where
  "may_run preempt me y \<longleftrightarrow> me < length (sys_procs y) \<and> sys_procs y ! me \<noteq> PROCESS_WAITING
     \<and> (preempt \<or> Counted \<notin> set (sys_place y))"

inductive sem_step :: "bool \<Rightarrow> sem_sys \<Rightarrow> sem_sys \<Rightarrow> bool" for preempt where
  call: "may_run preempt me y \<Longrightarrow> sys_place y ! me = Outside \<Longrightarrow> sem_step preempt y (go me Testing y)"
| test: "may_run preempt me y \<Longrightarrow> sys_place y ! me = Testing \<Longrightarrow> sem_step preempt y (test_step me y)"
| block: "me < length (sys_procs y) \<Longrightarrow> sys_place y ! me = Counted \<Longrightarrow> sem_step preempt y (block_step me y)"
| resume: "may_run preempt me y \<Longrightarrow> sys_place y ! me = Sleeping \<Longrightarrow> sem_step preempt y (resume_step me y)"
| post: "may_run preempt me y \<Longrightarrow> sys_place y ! me = Outside \<Longrightarrow> sem_step preempt y (post_step y)"
| schedule: "may_run preempt me y \<Longrightarrow> st \<noteq> PROCESS_WAITING \<Longrightarrow>
    sem_step preempt y (y\<lparr>sys_procs := (sys_procs y)[me := st]\<rparr>)"

inductive sem_reach :: "bool \<Rightarrow> sem_sys \<Rightarrow> sem_sys \<Rightarrow> bool" for preempt where
  start: "sem_reach preempt y y"
| step: "sem_reach preempt x y \<Longrightarrow> sem_step preempt y z \<Longrightarrow> sem_reach preempt x z"

text \<open>The waiters, and the processes that are on their way to the test.\<close>

definition waiting_at :: "sem_place list \<Rightarrow> nat set" where
  "waiting_at pl = {i. i < length pl \<and> (pl ! i = Counted \<or> pl ! i = Sleeping)}"

definition coming_at :: "sem_place list \<Rightarrow> process_state list \<Rightarrow> nat set" where
  "coming_at pl ps = {i. i < length pl \<and> (pl ! i = Testing \<or> pl ! i = Sleeping \<and> ps ! i \<noteq> PROCESS_WAITING)}"

definition sem_inv :: "bool \<Rightarrow> nat \<Rightarrow> sem_sys \<Rightarrow> bool" where
  "sem_inv preempt v y \<longleftrightarrow>
     length (sys_place y) = length (sys_procs y) \<and> length (sys_procs y) < 2 ^ 31 \<and>
     unat (sem_waiters (sys_sem y)) = card (waiting_at (sys_place y)) \<and>
     unat (sem_value (sys_sem y)) \<le> 0x7FFFFFFF \<and>
     unat (sem_value (sys_sem y)) + sys_taken y = v + sys_posted y \<and>
     (\<forall>i < length (sys_procs y). sys_procs y ! i = PROCESS_WAITING \<longrightarrow> sys_place y ! i = Sleeping) \<and>
     (\<not> preempt \<longrightarrow>
       (Counted \<in> set (sys_place y) \<longrightarrow> sem_value (sys_sem y) = 0) \<and>
       (PROCESS_WAITING \<in> set (sys_procs y) \<longrightarrow>
          unat (sem_value (sys_sem y)) \<le> card (coming_at (sys_place y) (sys_procs y))))"

lemma sint_small: "unat (w :: u32) \<le> 0x7FFFFFFF \<Longrightarrow> sint w = int (unat w)"
proof -
  assume "unat w \<le> 0x7FFFFFFF"
  then have "int (unat w) \<le> 0x7FFFFFFF" by linarith
  then have "uint w < 2 ^ 31" by simp
  moreover have "- (2 ^ 31) \<le> uint w" by (rule order_trans [OF _ uint_ge_0]) simp
  ultimately show ?thesis by (simp add: sint_uint signed_take_bit_int_eq_self)
qed

lemma sint_pos: "unat (w :: u32) \<le> 0x7FFFFFFF \<Longrightarrow> 0 < sint w \<longleftrightarrow> w \<noteq> 0"
  using sint_small [of w] by (simp add: less_le uint_0_iff)

lemma wake_first_none: "PROCESS_WAITING \<notin> set ps \<Longrightarrow> wake_first ps = ps"
  by (induction ps) auto

lemma wake_first_cases:
  obtains k where "k < length ps" "ps ! k = PROCESS_WAITING" "wake_first ps = ps[k := PROCESS_READY]"
  | "PROCESS_WAITING \<notin> set ps" "wake_first ps = ps"
proof (induction ps arbitrary: thesis)
  case (Cons p ps)
  show ?case
  proof (cases "p = PROCESS_WAITING")
    case True
    then show ?thesis using Cons.prems(1) [of 0] by simp
  next
    case False
    show ?thesis
    proof (rule Cons.IH)
      fix k assume "k < length ps" "ps ! k = PROCESS_WAITING" "wake_first ps = ps[k := PROCESS_READY]"
      then show thesis using Cons.prems(1) [of "Suc k"] False by simp
    qed (use Cons.prems(2) False in auto)
  qed
qed simp

lemma unat_dec: "(w :: u32) \<noteq> 0 \<Longrightarrow> unat (w - 1) = unat w - 1"
  by (rule unat_minus_one)

lemma unat_inc: "unat (w :: u32) < 2 ^ 31 \<Longrightarrow> unat (w + 1) = unat w + 1"
  by (simp add: unat_word_ariths)

lemma finite_places [simp]: "finite (waiting_at pl)" "finite (coming_at pl ps)"
  by (simp_all add: waiting_at_def coming_at_def)

lemma card_waiting: "card (waiting_at pl) \<le> length pl"
proof -
  have "card (waiting_at pl) \<le> card {..<length pl}"
    by (rule card_mono) (auto simp: waiting_at_def)
  then show ?thesis by simp
qed

text \<open>How the two sets change when one process moves.\<close>

lemma waiting_at_update: "me < length pl \<Longrightarrow> waiting_at (pl[me := x]) =
    (if x = Counted \<or> x = Sleeping then insert me (waiting_at pl) else waiting_at pl - {me})"
  by (auto simp: waiting_at_def nth_list_update)

lemma coming_at_update: "me < length pl \<Longrightarrow> coming_at (pl[me := x]) ps =
    (if x = Testing \<or> x = Sleeping \<and> ps ! me \<noteq> PROCESS_WAITING then insert me (coming_at pl ps) else coming_at pl ps - {me})"
  by (auto simp: coming_at_def nth_list_update)

lemma coming_at_state: "st \<noteq> PROCESS_WAITING \<Longrightarrow> length ps = length pl \<Longrightarrow> me < length pl \<Longrightarrow>
    coming_at pl (ps[me := st]) = (if pl ! me = Sleeping then insert me (coming_at pl ps) else coming_at pl ps)"
  by (auto simp: coming_at_def nth_list_update)

lemma set_update_neq: "x \<in> set (xs[i := y]) \<Longrightarrow> x \<noteq> y \<Longrightarrow> x \<in> set xs"
  using set_update_subset_insert [of xs i y] by blast

section \<open>Every step keeps the invariant\<close>

lemma call_inv:
  assumes "sem_inv preempt v y" "may_run preempt me y" "sys_place y ! me = Outside"
  shows "sem_inv preempt v (go me Testing y)"
proof -
  have me: "me < length (sys_place y)" "me \<notin> waiting_at (sys_place y)"
    using assms by (auto simp: sem_inv_def may_run_def waiting_at_def)
  have "card (coming_at (sys_place y) ps) \<le> card (insert me (coming_at (sys_place y) ps))" for ps
    by (rule card_mono) auto
  then show ?thesis using assms me
    by (auto simp: sem_inv_def go_def may_run_def waiting_at_update coming_at_update nth_list_update
        dest: set_update_neq intro: order_trans)
qed

lemma test_inv:
  assumes inv: "sem_inv preempt v y" and run: "may_run preempt me y" "sys_place y ! me = Testing"
  shows "sem_inv preempt v (test_step me y)"
proof -
  have me: "me < length (sys_place y)" "me \<notin> waiting_at (sys_place y)" "me \<in> coming_at (sys_place y) (sys_procs y)"
    using assms by (auto simp: sem_inv_def may_run_def waiting_at_def coming_at_def)
  have vs: "0 < sint (sem_value (sys_sem y)) \<longleftrightarrow> sem_value (sys_sem y) \<noteq> 0"
    using inv by (intro sint_pos) (simp add: sem_inv_def)
  show ?thesis
  proof (cases "sem_value (sys_sem y) = 0")
    case True
    have "unat (sem_waiters (sys_sem y) + 1) = unat (sem_waiters (sys_sem y)) + 1"
      using inv card_waiting [of "sys_place y"] by (intro unat_inc) (simp add: sem_inv_def)
    with True inv run me vs show ?thesis
      by (auto simp: sem_inv_def test_step_def sem_wait_test_def go_def waiting_at_update nth_list_update may_run_def)
  next
    case False
    have "unat (sem_value (sys_sem y) - 1) = unat (sem_value (sys_sem y)) - 1" "0 < unat (sem_value (sys_sem y))"
      using False by (simp_all add: unat_dec unat_gt_0)
    with False inv run me vs show ?thesis
      by (auto simp: sem_inv_def test_step_def sem_wait_test_def go_def waiting_at_update coming_at_update
          nth_list_update may_run_def dest: set_update_neq)
  qed
qed

lemma block_inv:
  assumes "sem_inv preempt v y" "me < length (sys_procs y)" "sys_place y ! me = Counted"
  shows "sem_inv preempt v (block_step me y)"
proof -
  have "me \<in> waiting_at (sys_place y)" "Counted \<in> set (sys_place y)"
    using assms by (auto simp: sem_inv_def waiting_at_def in_set_conv_nth)
  with assms show ?thesis
    by (auto simp: sem_inv_def block_step_def sem_wait_block_def go_def waiting_at_update nth_list_update insert_absorb)
qed

lemma resume_inv:
  assumes "sem_inv preempt v y" "may_run preempt me y" "sys_place y ! me = Sleeping"
  shows "sem_inv preempt v (resume_step me y)"
proof -
  have me: "me < length (sys_place y)" "me \<in> waiting_at (sys_place y)" "me \<in> coming_at (sys_place y) (sys_procs y)"
    using assms by (auto simp: sem_inv_def may_run_def waiting_at_def coming_at_def)
  then have "card (waiting_at (sys_place y)) \<noteq> 0" by auto
  then have "sem_waiters (sys_sem y) \<noteq> 0" using assms(1) by (auto simp: sem_inv_def)
  with assms me show ?thesis
    by (auto simp: sem_inv_def resume_step_def sem_wait_resume_def go_def waiting_at_update coming_at_update
        nth_list_update may_run_def insert_absorb unat_dec dest: set_update_neq)
qed

lemma post_inv:
  assumes inv: "sem_inv preempt v y" and run: "may_run preempt me y"
  shows "sem_inv preempt v (post_step y)"
proof (cases "sem_value (sys_sem y) = 0x7FFFFFFF")
  case True
  with inv show ?thesis by (simp add: post_step_def sem_post_def)
next
  case False
  let ?s = "sys_sem y" and ?ps = "sys_procs y"
  from False have "unat (sem_value ?s) \<noteq> 0x7FFFFFFF" by (simp add: word_unat_eq_iff)
  then have val: "unat (sem_value ?s + 1) = unat (sem_value ?s) + 1" "unat (sem_value ?s) + 1 \<le> 0x7FFFFFFF"
    using inv by (auto simp: sem_inv_def unat_inc)
  have "unat (sem_waiters ?s) \<le> 0x7FFFFFFF" using inv card_waiting [of "sys_place y"] by (simp add: sem_inv_def)
  then have wt: "sint (sem_waiters ?s) > 0 \<longleftrightarrow> sem_waiters ?s \<noteq> 0" by (rule sint_pos)
  have quiet: "\<not> preempt \<longrightarrow> Counted \<notin> set (sys_place y)" using run by (auto simp: may_run_def)
  show ?thesis
  proof (cases rule: wake_first_cases [of ?ps])
    case (1 k)
    then have k: "sys_place y ! k = Sleeping" "k < length (sys_place y)" using inv by (auto simp: sem_inv_def)
    then have "waiting_at (sys_place y) \<noteq> {}" by (auto simp: waiting_at_def)
    then have "sem_waiters ?s \<noteq> 0" using inv by (auto simp: sem_inv_def)
    moreover have "k \<notin> coming_at (sys_place y) ?ps" using 1 k by (simp add: coming_at_def)
    moreover have "PROCESS_WAITING \<in> set ?ps" using 1 by (metis nth_mem)
    ultimately show ?thesis using inv 1 k val wt quiet False
      by (auto simp: sem_inv_def post_step_def sem_post_def Let_def coming_at_state nth_list_update)
  next
    case 2
    with inv val quiet False show ?thesis
      by (cases "sint (sem_waiters ?s) > 0") (simp_all add: sem_inv_def post_step_def sem_post_def Let_def)
  qed
qed

lemma schedule_inv:
  assumes "sem_inv preempt v y" "may_run preempt me y" "st \<noteq> PROCESS_WAITING"
  shows "sem_inv preempt v (y\<lparr>sys_procs := (sys_procs y)[me := st]\<rparr>)"
proof -
  have "coming_at (sys_place y) ((sys_procs y)[me := st]) = coming_at (sys_place y) (sys_procs y)"
  proof (cases "sys_place y ! me = Sleeping")
    case True
    then have "me \<in> coming_at (sys_place y) (sys_procs y)"
      using assms by (simp add: coming_at_def sem_inv_def may_run_def)
    with assms True show ?thesis by (simp add: coming_at_state sem_inv_def may_run_def insert_absorb)
  next
    case False
    with assms show ?thesis by (simp add: coming_at_state sem_inv_def may_run_def)
  qed
  with assms show ?thesis
    by (auto simp: sem_inv_def may_run_def nth_list_update dest: set_update_neq)
qed

lemma sem_step_inv: "sem_step preempt y z \<Longrightarrow> sem_inv preempt v y \<Longrightarrow> sem_inv preempt v z"
  by (induction rule: sem_step.induct) (auto intro: call_inv test_inv block_inv resume_inv post_inv schedule_inv)

lemma sem_reach_inv: "sem_reach preempt x y \<Longrightarrow> sem_inv preempt v x \<Longrightarrow> sem_inv preempt v y"
  by (induction rule: sem_reach.induct) (auto intro: sem_step_inv)

section \<open>Properties\<close>

text \<open>A new semaphore of value \<open>v\<close> and processes none of which waits.\<close>

definition sem_start :: "u32 \<Rightarrow> process_state list \<Rightarrow> sem_sys" where
  "sem_start v ps = \<lparr>sys_sem = \<lparr>sem_value = v, sem_waiters = 0\<rparr>, sys_procs = ps,
     sys_place = replicate (length ps) Outside, sys_taken = 0, sys_posted = 0\<rparr>"

lemma sem_start_inv:
  assumes "unat v \<le> 0x7FFFFFFF" "length ps < 2 ^ 31" "PROCESS_WAITING \<notin> set ps"
  shows "sem_inv preempt (unat v) (sem_start v ps)"
  using assms by (auto simp: sem_inv_def sem_start_def waiting_at_def in_set_conv_nth)

text \<open>
  C26: the units of a semaphore are never lost or made up, wherever processes are interrupted: in
  every history of waits and posts the units taken and those left are the units there at first and
  posted since, and \<open>waiters\<close> is the number of processes that are counted and have not come back.
  And in the histories in which no process is interrupted between the \<open>sti\<close> and the
  \<open>state = PROCESS_WAITING\<close> of \<open>sem_wait\<close> no wake-up is lost: whenever the semaphore has a value and
  a process waits, some process inside \<open>sem_wait\<close> is about to test the value again. The processes
  must wait for nothing else: \<open>sem_post\<close> makes the first waiting process ready, whatever it waits for.
\<close>

theorem sem_units_kept:
  assumes "sem_reach preempt (sem_start v ps) y"
    and "unat v \<le> 0x7FFFFFFF" "length ps < 2 ^ 31" "PROCESS_WAITING \<notin> set ps"
  shows "unat (sem_value (sys_sem y)) + sys_taken y = unat v + sys_posted y \<and>
    unat (sem_waiters (sys_sem y)) = card (waiting_at (sys_place y)) \<and>
    (\<not> preempt \<and> sem_value (sys_sem y) \<noteq> 0 \<and> PROCESS_WAITING \<in> set (sys_procs y) \<longrightarrow>
       coming_at (sys_place y) (sys_procs y) \<noteq> {})"
proof -
  from sem_reach_inv [OF assms(1) sem_start_inv [OF assms(2-)]] have inv: "sem_inv preempt (unat v) y" .
  moreover have "0 < unat (sem_value (sys_sem y))" if "sem_value (sys_sem y) \<noteq> 0" using that by (simp add: unat_gt_0)
  ultimately show ?thesis by (auto simp: sem_inv_def)
qed

text \<open>
  Two processes wait on a semaphore of value 0 and one post makes the first of them ready: there is
  a unit, the second still waits, and the first comes to take it.
\<close>

definition sem_example :: sem_sys where
  "sem_example = (let y0 = sem_start 0 (replicate 3 PROCESS_RUNNING);
     y1 = block_step 0 (test_step 0 (go 0 Testing y0));
     y2 = block_step 1 (test_step 1 (go 1 Testing y1))
   in post_step y2)"

lemma sem_example_reach: "sem_reach False (sem_start 0 (replicate 3 PROCESS_RUNNING)) sem_example"
proof -
  let ?y0 = "sem_start 0 (replicate 3 PROCESS_RUNNING)"
  let ?y1 = "block_step 0 (test_step 0 (go 0 Testing ?y0))"
  let ?y2 = "block_step 1 (test_step 1 (go 1 Testing ?y1))"
  have "sem_step False ?y0 (go 0 Testing ?y0)" "sem_step False ?y1 (go 1 Testing ?y1)"
    by (rule sem_step.call; code_simp)+
  moreover have "sem_step False (go 0 Testing ?y0) (test_step 0 (go 0 Testing ?y0))"
    "sem_step False (go 1 Testing ?y1) (test_step 1 (go 1 Testing ?y1))"
    by (rule sem_step.test; code_simp)+
  moreover have "sem_step False (test_step 0 (go 0 Testing ?y0)) ?y1" "sem_step False (test_step 1 (go 1 Testing ?y1)) ?y2"
    by (rule sem_step.block; code_simp)+
  moreover have "sem_step False ?y2 (post_step ?y2)"
    by (rule sem_step.post [of _ 2]; code_simp)
  ultimately show ?thesis unfolding sem_example_def Let_def by (meson sem_reach.intros)
qed

theorem sem_units_kept_witness:
  "unat (sem_value (sys_sem sem_example)) + sys_taken sem_example = unat (0 :: u32) + sys_posted sem_example \<and>
   sys_posted sem_example = 1 \<and> coming_at (sys_place sem_example) (sys_procs sem_example) \<noteq> {}"
proof -
  have "sem_value (sys_sem sem_example) \<noteq> 0 \<and> PROCESS_WAITING \<in> set (sys_procs sem_example) \<and> sys_posted sem_example = 1"
    by code_simp
  then show ?thesis using sem_units_kept [OF sem_example_reach] by simp
qed

text \<open>
  C27: a wake-up can be lost: \<open>sem_wait\<close> turns interrupts on before it says that the process waits, and
  a \<open>sem_post\<close> of another process in between finds nobody to wake. The process then sleeps though the
  semaphore has a unit, and nobody is on the way to take it.
\<close>

theorem sem_loses_wakeup:
  assumes "me < length ps" "other < length ps" "me \<noteq> other" "PROCESS_WAITING \<notin> set ps"
  shows "\<exists>y. sem_reach True (sem_start 0 ps) y \<and> sys_posted y = 1 \<and> sem_value (sys_sem y) = 1 \<and>
    sys_place y ! me = Sleeping \<and> sys_procs y ! me = PROCESS_WAITING \<and>
    coming_at (sys_place y) (sys_procs y) = {}"
proof -
  have ps: "ps ! i \<noteq> PROCESS_WAITING" if "i < length ps" for i using assms(4) that by (metis nth_mem)
  let ?A = "sem_start 0 ps" let ?B = "test_step me (go me Testing ?A)"
  let ?Z = "block_step me (post_step ?B)"
  have y1: "?B = \<lparr>sys_sem = \<lparr>sem_value = 0, sem_waiters = 1\<rparr>, sys_procs = ps,
      sys_place = (replicate (length ps) Outside)[me := Counted], sys_taken = 0, sys_posted = 0\<rparr>"
    by (simp add: test_step_def sem_wait_test_def go_def sem_start_def)
  have y2: "post_step ?B = ?B\<lparr>sys_sem := \<lparr>sem_value = 1, sem_waiters = 1\<rparr>, sys_posted := 1\<rparr>"
    using wake_first_none [OF assms(4)] unfolding y1 by (simp add: post_step_def sem_post_def Let_def)
  note y2 = y2 [unfolded y1]
  have "sem_step True ?A (go me Testing ?A)"
    by (rule sem_step.call) (use assms(1) ps in \<open>simp_all add: may_run_def sem_start_def\<close>)
  moreover have "sem_step True (go me Testing ?A) ?B"
    by (rule sem_step.test) (use assms(1) ps in \<open>simp_all add: may_run_def sem_start_def go_def\<close>)
  moreover have "sem_step True ?B (post_step ?B)"
    by (rule sem_step.post [of _ other]) (use assms ps in \<open>simp_all add: may_run_def y1\<close>)
  moreover have "sem_step True (post_step ?B) ?Z"
    by (rule sem_step.block) (use assms in \<open>simp_all add: y2 y1\<close>)
  ultimately have "sem_reach True ?A ?Z" by (meson sem_reach.intros)
  moreover have "coming_at (sys_place ?Z) (sys_procs ?Z) = {}"
    unfolding y1 y2 using assms(1)
    by (auto simp: block_step_def go_def sem_wait_block_def coming_at_def nth_list_update)
  moreover have "sys_posted ?Z = 1" "sem_value (sys_sem ?Z) = 1" "sys_place ?Z ! me = Sleeping"
    "sys_procs ?Z ! me = PROCESS_WAITING"
    unfolding y1 y2 using assms(1) by (simp_all add: block_step_def go_def sem_wait_block_def)
  ultimately show ?thesis by blast
qed

theorem sem_loses_wakeup_witness:
  "\<exists>y. sem_reach True (sem_start 0 [PROCESS_RUNNING, PROCESS_READY]) y \<and> sys_posted y = 1 \<and> sem_value (sys_sem y) = 1 \<and>
    sys_place y ! 0 = Sleeping \<and> sys_procs y ! 0 = PROCESS_WAITING \<and> coming_at (sys_place y) (sys_procs y) = {}"
  using sem_loses_wakeup [of 0 "[PROCESS_RUNNING, PROCESS_READY]" 1] by simp

end
