(* ===== verification/IpcNames.thy ===== *)
theory IpcNames
  imports Semaphore
begin

text \<open>
  The named objects of \<open>src/src/kernel/posix_ipc.cpp\<close>: semaphores and shared memory, and the part of
  opening they share with message queues.  A table is the list of its slots; a slot whose name is
  empty is free.  A name is the list of its bytes without the terminator, \<open>None\<close> the null pointer, and
  comparing names is comparing lists (\<open>strcmp_c_str\<close> in theory Kstring).  The name fields hold 64
  bytes, so \<open>strncpy(\<dots>, 63)\<close> stores the first 63 bytes.  Reference counts stay below \<open>2 ^ 31\<close> and are
  integers here.
\<close>

abbreviation O_CREAT :: u32 where "O_CREAT \<equiv> 0x40"
abbreviation O_EXCL :: u32 where "O_EXCL \<equiv> 0x80"

definition stored_name :: "u8 list \<Rightarrow> u8 list" where
  "stored_name name = take 63 name"

definition valid_name :: "u8 list option \<Rightarrow> bool" where
  "valid_name name \<longleftrightarrow> (case name of Some (c # _) \<Rightarrow> c = 47 | _ \<Rightarrow> False)"

definition find_named :: "('o \<Rightarrow> u8 list) \<Rightarrow> u8 list \<Rightarrow> 'o list \<Rightarrow> nat option" where
  "find_named nm name t = find (\<lambda>i. nm (t ! i) \<noteq> [] \<and> nm (t ! i) = name) [0..<length t]"

definition find_free :: "('o \<Rightarrow> u8 list) \<Rightarrow> 'o list \<Rightarrow> nat option" where
  "find_free nm t = find (\<lambda>i. nm (t ! i) = []) [0..<length t]"

text \<open>The search of the unlink calls does not skip free slots.\<close>

definition find_unlink :: "('o \<Rightarrow> u8 list) \<Rightarrow> u8 list \<Rightarrow> 'o list \<Rightarrow> nat option" where
  "find_unlink nm name t = find (\<lambda>i. nm (t ! i) = name) [0..<length t]"

section \<open>Named semaphores\<close>

record named_sem =
  ns_name :: "u8 list"
  ns_sem :: sem
  ns_ref_count :: int
  ns_unlinked :: bool

definition init_named_sems :: "named_sem list" where
  "init_named_sems = replicate 32
     \<lparr>ns_name = [], ns_sem = \<lparr>sem_value = 0, sem_waiters = 0\<rparr>, ns_ref_count = 0, ns_unlinked = False\<rparr>"

text \<open>The semaphore is given as its slot, \<open>None\<close> is \<open>SEM_FAILED\<close>.\<close>

definition sem_open :: "named_sem list \<Rightarrow> u8 list option \<Rightarrow> u32 \<Rightarrow> nat option \<times> named_sem list" where
  "sem_open t name oflag =
     (if \<not> valid_name name then (None, t)
      else case find_named ns_name (the name) t of
             Some i \<Rightarrow>
               if oflag AND O_CREAT \<noteq> 0 \<and> oflag AND O_EXCL \<noteq> 0 then (None, t)
               else (Some i, t[i := (t ! i)\<lparr>ns_ref_count := ns_ref_count (t ! i) + 1\<rparr>])
           | None \<Rightarrow>
               if oflag AND O_CREAT = 0 then (None, t)
               else (case find_free ns_name t of
                       None \<Rightarrow> (None, t)
                     | Some i \<Rightarrow> (Some i, t[i := \<lparr>ns_name = stored_name (the name),
                         ns_sem = \<lparr>sem_value = 1, sem_waiters = 0\<rparr>, ns_ref_count = 1, ns_unlinked = False\<rparr>])))"

text \<open>The pointer is a slot of the table or foreign.\<close>

definition sem_close :: "named_sem list \<Rightarrow> nat option \<Rightarrow> int \<times> named_sem list" where
  "sem_close t p =
     (case p of
        None \<Rightarrow> (- 1, t)
      | Some i \<Rightarrow>
          if length t \<le> i then (- 1, t)
          else
            (let x = (t ! i)\<lparr>ns_ref_count := ns_ref_count (t ! i) - 1\<rparr>
             in (0, t[i := if ns_ref_count x \<le> 0 \<and> ns_unlinked x then x\<lparr>ns_name := []\<rparr> else x])))"

definition sem_unlink :: "named_sem list \<Rightarrow> u8 list option \<Rightarrow> int \<times> named_sem list" where
  "sem_unlink t name =
     (case name of
        None \<Rightarrow> (- 1, t)
      | Some n \<Rightarrow>
          (case find_unlink ns_name n t of
             None \<Rightarrow> (- 1, t)
           | Some i \<Rightarrow>
               (let x = (t ! i)\<lparr>ns_unlinked := True\<rparr>
                in (0, t[i := if ns_ref_count x \<le> 0 then x\<lparr>ns_name := []\<rparr> else x]))))"

section \<open>Shared memory objects\<close>

record shm_object =
  shm_name :: "u8 list"
  shm_fd :: int
  shm_size :: u32
  shm_addr :: u32
  shm_ref_count :: int
  shm_unlinked :: bool

record shm_state =
  shm_objects :: "shm_object list"
  next_shm_fd :: int

definition init_shm_objects :: shm_state where
  "init_shm_objects = \<lparr>shm_objects = replicate 16 \<lparr>shm_name = [], shm_fd = 0, shm_size = 0, shm_addr = 0,
     shm_ref_count = 0, shm_unlinked = False\<rparr>, next_shm_fd = 100\<rparr>"

text \<open>The slot that is opened, with \<open>fd\<close> the descriptor a new object gets.\<close>

definition shm_open_slot :: "int \<Rightarrow> shm_object list \<Rightarrow> u8 list option \<Rightarrow> u32 \<Rightarrow> nat option \<times> shm_object list" where
  "shm_open_slot fd t name oflag =
     (if \<not> valid_name name then (None, t)
      else case find_named shm_name (the name) t of
             Some i \<Rightarrow>
               if oflag AND O_CREAT \<noteq> 0 \<and> oflag AND O_EXCL \<noteq> 0 then (None, t)
               else (Some i, t[i := (t ! i)\<lparr>shm_ref_count := shm_ref_count (t ! i) + 1\<rparr>])
           | None \<Rightarrow>
               if oflag AND O_CREAT = 0 then (None, t)
               else (case find_free shm_name t of
                       None \<Rightarrow> (None, t)
                     | Some i \<Rightarrow> (Some i, t[i := \<lparr>shm_name = stored_name (the name), shm_fd = fd, shm_size = 0,
                         shm_addr = 0, shm_ref_count = 1, shm_unlinked = False\<rparr>])))"

definition shm_open :: "shm_state \<Rightarrow> u8 list option \<Rightarrow> u32 \<Rightarrow> int \<times> shm_state" where
  "shm_open st name oflag =
     (case shm_open_slot (next_shm_fd st) (shm_objects st) name oflag of
        (None, t) \<Rightarrow> (- 1, st)
      | (Some i, t) \<Rightarrow>
          (shm_fd (t ! i),
           \<lparr>shm_objects = t,
            next_shm_fd = (if find_named shm_name (the name) (shm_objects st) = None
                           then next_shm_fd st + 1 else next_shm_fd st)\<rparr>))"

text \<open>The address of an object that is freed goes to \<open>kfree\<close>; it is handed out with the result.\<close>

definition shm_unlink :: "shm_state \<Rightarrow> u8 list option \<Rightarrow> int \<times> u32 option \<times> shm_state" where
  "shm_unlink st name =
     (case name of
        None \<Rightarrow> (- 1, None, st)
      | Some n \<Rightarrow>
          (case find_unlink shm_name n (shm_objects st) of
             None \<Rightarrow> (- 1, None, st)
           | Some i \<Rightarrow>
               (let x = (shm_objects st ! i)\<lparr>shm_unlinked := True\<rparr>
                in if shm_ref_count x \<le> 0
                   then (0, if shm_addr x \<noteq> 0 then Some (shm_addr x) else None,
                         st\<lparr>shm_objects := (shm_objects st)[i := x\<lparr>shm_name := []\<rparr>]\<rparr>)
                   else (0, None, st\<lparr>shm_objects := (shm_objects st)[i := x]\<rparr>))))"

section \<open>What opening by name promises\<close>

text \<open>Every name of the table fits its field.\<close>

definition names_fit :: "('o \<Rightarrow> u8 list) \<Rightarrow> 'o list \<Rightarrow> bool" where
  "names_fit nm t \<longleftrightarrow> (\<forall>x \<in> set t. length (nm x) \<le> 63)"

text \<open>The contract of an open call over a table with names.\<close>

locale named_objects =
  fixes nm :: "'o \<Rightarrow> u8 list"
    and open_slot :: "'o list \<Rightarrow> u8 list option \<Rightarrow> u32 \<Rightarrow> nat option \<times> 'o list"
  assumes open_existing: "valid_name (Some n) \<Longrightarrow> find_named nm n t = Some i \<Longrightarrow>
      \<not> (oflag AND O_CREAT \<noteq> 0 \<and> oflag AND O_EXCL \<noteq> 0) \<Longrightarrow> \<exists>x. open_slot t (Some n) oflag = (Some i, t[i := x]) \<and> nm x = n"
    and open_exclusive: "valid_name (Some n) \<Longrightarrow> find_named nm n t = Some i \<Longrightarrow>
      oflag AND O_CREAT \<noteq> 0 \<Longrightarrow> oflag AND O_EXCL \<noteq> 0 \<Longrightarrow> open_slot t (Some n) oflag = (None, t)"
    and open_missing: "valid_name (Some n) \<Longrightarrow> find_named nm n t = None \<Longrightarrow> oflag AND O_CREAT = 0 \<Longrightarrow>
      open_slot t (Some n) oflag = (None, t)"
    and open_full: "valid_name (Some n) \<Longrightarrow> find_named nm n t = None \<Longrightarrow> find_free nm t = None \<Longrightarrow>
      open_slot t (Some n) oflag = (None, t)"
    and open_create: "valid_name (Some n) \<Longrightarrow> find_named nm n t = None \<Longrightarrow> oflag AND O_CREAT \<noteq> 0 \<Longrightarrow>
      find_free nm t = Some i \<Longrightarrow> \<exists>x. open_slot t (Some n) oflag = (Some i, t[i := x]) \<and> nm x = stored_name n"
    and open_invalid: "\<not> valid_name name \<Longrightarrow> open_slot t name oflag = (None, t)"
begin

lemma names_fit_update: "names_fit nm t \<Longrightarrow> length (nm x) \<le> 63 \<Longrightarrow> names_fit nm (t[i := x])"
  by (auto simp: names_fit_def dest!: set_update_subset_insert [THEN subsetD])

lemma find_named_update:
  assumes "find_named nm n t = Some i \<or> find_named nm n t = None \<and> i < length t" "nm x = n" "n \<noteq> []"
  shows "find_named nm n (t[i := x]) = Some i"
proof -
  have i: "i < length t \<and> (\<forall>j < i. \<not> (nm (t ! j) \<noteq> [] \<and> nm (t ! j) = n))"
    using assms(1)
  proof
    assume "find_named nm n t = Some i"
    from find_upt_SomeD [OF this [unfolded find_named_def]] show ?thesis by simp
  next
    assume "find_named nm n t = None \<and> i < length t"
    then have "i < length t" "\<And>j. j < length t \<Longrightarrow> \<not> (nm (t ! j) \<noteq> [] \<and> nm (t ! j) = n)"
      unfolding find_named_def find_upt_None_iff by blast+
    then show ?thesis using order.strict_trans by blast
  qed
  have "find (\<lambda>j. nm (t[i := x] ! j) \<noteq> [] \<and> nm (t[i := x] ! j) = n) [0..<i] = None"
    using i by (auto simp: find_upt_None_iff)
  moreover have "[0..<length t] = [0..<i] @ i # [Suc i..<length t]"
    using i by (metis le_add_diff_inverse less_imp_le_nat upt_add_eq_append upt_conv_Cons zero_le)
  ultimately show ?thesis using assms(2,3) i by (simp add: find_named_def find_append_eq)
qed

lemma find_named_too_long: "names_fit nm t \<Longrightarrow> 63 < length n \<Longrightarrow> find_named nm n t = None"
  unfolding names_fit_def find_named_def find_upt_None_iff by (metis linorder_not_le nth_mem)

lemma open_again:
  assumes "names_fit nm t" "open_slot t (Some n) oflag = (Some i, t')"
  shows "names_fit nm t' \<and> fst (open_slot t' (Some n) 0) = (if length n \<le> 63 then Some i else None)"
proof -
  have v: "valid_name (Some n)" using assms(2) open_invalid [of "Some n" t oflag] by force
  then have n: "n \<noteq> []" by (auto simp: valid_name_def)
  have again: "fst (open_slot s (Some n) 0) = find_named nm n s" for s
    using open_existing [OF v, of s _ 0] open_missing [OF v, of s 0] by (cases "find_named nm n s") auto
  show ?thesis
  proof (cases "find_named nm n t")
    case (Some j)
    then have len: "length n \<le> 63" using find_named_too_long [OF assms(1), of n] by fastforce
    have "\<not> (oflag AND O_CREAT \<noteq> 0 \<and> oflag AND O_EXCL \<noteq> 0)"
      using open_exclusive [OF v Some, of oflag] assms(2) by auto
    from open_existing [OF v Some this] obtain x where x: "i = j" "t' = t[i := x]" "nm x = n" using assms(2) by auto
    then show ?thesis using find_named_update [of n t i x] Some n len again names_fit_update [OF assms(1)] by auto
  next
    case None
    then have "oflag AND O_CREAT \<noteq> 0" using open_missing [OF v None, of oflag] assms(2) by auto
    moreover obtain j where j: "find_free nm t = Some j" using open_full [OF v None, of oflag] assms(2) by fastforce
    ultimately obtain x where x: "i = j" "t' = t[i := x]" "nm x = stored_name n"
      using open_create [OF v None] assms(2) by fastforce
    have fit: "names_fit nm t'" using x names_fit_update [OF assms(1)] by (simp add: stored_name_def)
    show ?thesis
    proof (cases "length n \<le> 63")
      case True
      have "i < length t" using j x(1) by (auto simp: find_free_def dest!: find_upt_SomeD)
      then show ?thesis using find_named_update [of n t i x] None n True again fit x by (simp add: stored_name_def)
    next
      case False
      then show ?thesis using find_named_too_long [OF fit, of n] again fit by simp
    qed
  qed
qed

end

interpretation named_sems: named_objects ns_name sem_open
proof
  fix n and t :: "named_sem list" and i oflag
  assume "valid_name (Some n)" "find_named ns_name n t = Some i"
    "\<not> (oflag AND O_CREAT \<noteq> 0 \<and> oflag AND O_EXCL \<noteq> 0)"
  moreover from this(2) have "ns_name (t ! i) = n" by (auto simp: find_named_def dest!: find_upt_SomeD)
  ultimately show "\<exists>x. sem_open t (Some n) oflag = (Some i, t[i := x]) \<and> ns_name x = n"
    by (auto simp: sem_open_def)
qed (auto simp: sem_open_def)

interpretation shm: named_objects shm_name "shm_open_slot fd" for fd
proof
  fix n and t :: "shm_object list" and i oflag
  assume "valid_name (Some n)" "find_named shm_name n t = Some i"
    "\<not> (oflag AND O_CREAT \<noteq> 0 \<and> oflag AND O_EXCL \<noteq> 0)"
  moreover from this(2) have "shm_name (t ! i) = n" by (auto simp: find_named_def dest!: find_upt_SomeD)
  ultimately show "\<exists>x. shm_open_slot fd t (Some n) oflag = (Some i, t[i := x]) \<and> shm_name x = n"
    by (auto simp: shm_open_slot_def)
qed (auto simp: shm_open_slot_def)

end
