(* ===== verification/MsgQueue.thy ===== *)
theory MsgQueue
  imports IpcNames "HOL-Library.Multiset"
begin

text \<open>
  Message queues (\<open>src/src/kernel/posix_ipc.cpp\<close>).  Messages live in a heap, a map from addresses to
  message structures linked by their \<open>next\<close> fields; the address 0 is the null pointer.  \<open>kmalloc\<close> is the
  parameter \<open>alloc\<close>, which answers an address for the present heap, or 0.  An operation that follows a
  dangling pointer or a cyclic list has the outcome \<open>None\<close>.
\<close>

record message =
  msg_data :: "u8 list"
  msg_len :: u32
  msg_priority :: u32
  msg_next :: u32

type_synonym msg_heap = "u32 \<Rightarrow> message option"

record message_queue =
  mq_name :: "u8 list"
  mq_flags :: u32
  mq_maxmsg :: u32
  mq_msgsize :: u32
  mq_curmsgs :: u32
  mq_head :: u32
  mq_tail :: u32
  mq_ref_count :: int
  mq_unlinked :: bool

record mq_state =
  mq_heap :: msg_heap
  mq_table :: "message_queue list"

abbreviation MAX_MESSAGES :: u32 where "MAX_MESSAGES \<equiv> 64"
abbreviation MAX_MSG_SIZE :: nat where "MAX_MSG_SIZE \<equiv> 256"

definition init_mqueues :: "message_queue list" where
  "init_mqueues = replicate 16 \<lparr>mq_name = [], mq_flags = 0, mq_maxmsg = 0, mq_msgsize = 0, mq_curmsgs = 0,
     mq_head = 0, mq_tail = 0, mq_ref_count = 0, mq_unlinked = False\<rparr>"

section \<open>Operations\<close>

definition mq_open_slot :: "message_queue list \<Rightarrow> u8 list option \<Rightarrow> u32 \<Rightarrow> nat option \<times> message_queue list" where
  "mq_open_slot t name oflag =
     (if \<not> valid_name name then (None, t)
      else case find_named mq_name (the name) t of
             Some i \<Rightarrow>
               if oflag AND O_CREAT \<noteq> 0 \<and> oflag AND O_EXCL \<noteq> 0 then (None, t)
               else (Some i, t[i := (t ! i)\<lparr>mq_ref_count := mq_ref_count (t ! i) + 1\<rparr>])
           | None \<Rightarrow>
               if oflag AND O_CREAT = 0 then (None, t)
               else (case find_free mq_name t of
                       None \<Rightarrow> (None, t)
                     | Some i \<Rightarrow> (Some i, t[i := \<lparr>mq_name = stored_name (the name), mq_flags = 0,
                         mq_maxmsg = MAX_MESSAGES, mq_msgsize = of_nat MAX_MSG_SIZE, mq_curmsgs = 0, mq_head = 0,
                         mq_tail = 0, mq_ref_count = 1, mq_unlinked = False\<rparr>])))"

definition mq_open :: "mq_state \<Rightarrow> u8 list option \<Rightarrow> u32 \<Rightarrow> int \<times> mq_state" where
  "mq_open st name oflag =
     (let (r, t) = mq_open_slot (mq_table st) name oflag
      in (case r of None \<Rightarrow> - 1 | Some i \<Rightarrow> int i, st\<lparr>mq_table := t\<rparr>))"

text \<open>A descriptor as an index: in range, and for most calls of a queue that has a name.\<close>

definition mq_index :: "mq_state \<Rightarrow> int \<Rightarrow> nat option" where
  "mq_index st d = (if d < 0 \<or> d \<ge> int (length (mq_table st)) then None else Some (nat d))"

definition mq_named :: "mq_state \<Rightarrow> int \<Rightarrow> nat option" where
  "mq_named st d =
     (case mq_index st d of None \<Rightarrow> None | Some i \<Rightarrow> if mq_name (mq_table st ! i) = [] then None else Some i)"

text \<open>\<open>while (msg) { next = msg->next; kfree(msg); msg = next; }\<close>\<close>

partial_function (option) free_messages :: "msg_heap \<Rightarrow> u32 \<Rightarrow> msg_heap option" where
  "free_messages h p =
     (if p = 0 then Some h
      else case h p of None \<Rightarrow> None | Some m \<Rightarrow> free_messages (h(p := None)) (msg_next m))"

definition drop_queue :: "mq_state \<Rightarrow> nat \<Rightarrow> message_queue \<Rightarrow> mq_state option" where
  "drop_queue st i q =
     (case free_messages (mq_heap st) (mq_head q) of
        None \<Rightarrow> None
      | Some h \<Rightarrow> Some \<lparr>mq_heap = h, mq_table = (mq_table st)[i := q\<lparr>mq_name := [], mq_head := 0, mq_tail := 0\<rparr>]\<rparr>)"

definition mq_close :: "mq_state \<Rightarrow> int \<Rightarrow> (int \<times> mq_state) option" where
  "mq_close st d =
     (case mq_index st d of
        None \<Rightarrow> Some (- 1, st)
      | Some i \<Rightarrow>
          (let q = (mq_table st ! i)\<lparr>mq_ref_count := mq_ref_count (mq_table st ! i) - 1\<rparr>
           in if mq_ref_count q \<le> 0 \<and> mq_unlinked q
              then (case drop_queue st i q of None \<Rightarrow> None | Some st' \<Rightarrow> Some (0, st'))
              else Some (0, st\<lparr>mq_table := (mq_table st)[i := q]\<rparr>)))"

definition mq_unlink :: "mq_state \<Rightarrow> u8 list option \<Rightarrow> (int \<times> mq_state) option" where
  "mq_unlink st name =
     (case name of
        None \<Rightarrow> Some (- 1, st)
      | Some n \<Rightarrow>
          (case find_unlink mq_name n (mq_table st) of
             None \<Rightarrow> Some (- 1, st)
           | Some i \<Rightarrow>
               (let q = (mq_table st ! i)\<lparr>mq_unlinked := True\<rparr>
                in if mq_ref_count q \<le> 0
                   then (case drop_queue st i q of None \<Rightarrow> None | Some st' \<Rightarrow> Some (0, st'))
                   else Some (0, st\<lparr>mq_table := (mq_table st)[i := q]\<rparr>))))"

text \<open>\<open>while (cur->next && cur->next->priority >= msg_prio) cur = cur->next;\<close>\<close>

partial_function (option) mq_walk :: "msg_heap \<Rightarrow> u32 \<Rightarrow> u32 \<Rightarrow> u32 option" where
  "mq_walk h cur prio =
     (case h cur of
        None \<Rightarrow> None
      | Some m \<Rightarrow>
          if msg_next m = 0 then Some cur
          else (case h (msg_next m) of
                  None \<Rightarrow> None
                | Some m' \<Rightarrow> if prio \<le> msg_priority m' then mq_walk h (msg_next m) prio else Some cur))"

text \<open>Linking the new message \<open>m\<close> at address \<open>a\<close> into a queue, by priority.\<close>

definition mq_insert :: "msg_heap \<Rightarrow> message_queue \<Rightarrow> u32 \<Rightarrow> message \<Rightarrow> (msg_heap \<times> message_queue) option" where
  "mq_insert h q a m =
     (let front = Some (h(a \<mapsto> m\<lparr>msg_next := mq_head q\<rparr>),
                        q\<lparr>mq_head := a, mq_tail := (if mq_tail q = 0 then a else mq_tail q)\<rparr>)
      in if mq_head q = 0 then front
         else case h (mq_head q) of
                None \<Rightarrow> None
              | Some first \<Rightarrow>
                  if msg_priority m > msg_priority first then front
                  else (case mq_walk (h(a \<mapsto> m)) (mq_head q) (msg_priority m) of
                          None \<Rightarrow> None
                        | Some cur \<Rightarrow>
                            (case h cur of
                               None \<Rightarrow> None
                             | Some c \<Rightarrow>
                                 Some (h(a \<mapsto> m\<lparr>msg_next := msg_next c\<rparr>, cur \<mapsto> c\<lparr>msg_next := a\<rparr>),
                                       q\<lparr>mq_tail := (if msg_next c = 0 then a else mq_tail q)\<rparr>))))"

text \<open>The bytes are the message, \<open>None\<close> a null pointer; \<open>msg_len\<close> is their number.\<close>

definition mq_send ::
    "(msg_heap \<Rightarrow> u32) \<Rightarrow> mq_state \<Rightarrow> int \<Rightarrow> u8 list option \<Rightarrow> u32 \<Rightarrow> (int \<times> mq_state) option" where
  "mq_send alloc st d bytes prio =
     (case mq_named st d of
        None \<Rightarrow> Some (- 1, st)
      | Some i \<Rightarrow>
          (case bytes of
             None \<Rightarrow> Some (- 1, st)
           | Some bs \<Rightarrow>
               (let q = mq_table st ! i; a = alloc (mq_heap st)
                in if length bs > MAX_MSG_SIZE then Some (- 1, st)
                   else if sint (mq_curmsgs q) \<ge> sint (mq_maxmsg q) then Some (- 1, st)
                   else if a = 0 then Some (- 1, st)
                   else
                     (case mq_insert (mq_heap st) q a
                        \<lparr>msg_data = bs, msg_len = of_nat (length bs), msg_priority = prio, msg_next = 0\<rparr> of
                        None \<Rightarrow> None
                      | Some (h, q') \<Rightarrow>
                          Some (0, \<lparr>mq_heap = h,
                            mq_table = (mq_table st)[i := q'\<lparr>mq_curmsgs := mq_curmsgs q' + 1\<rparr>]\<rparr>)))))"

text \<open>
  The answer, the bytes stored at the caller's pointer (\<open>ptr\<close> tells whether it is not null) and the
  priority.
\<close>

definition mq_receive ::
    "mq_state \<Rightarrow> int \<Rightarrow> bool \<Rightarrow> u32 \<Rightarrow> (int \<times> u8 list \<times> u32 option \<times> mq_state) option" where
  "mq_receive st d ptr len =
     (case mq_named st d of
        None \<Rightarrow> Some (- 1, [], None, st)
      | Some i \<Rightarrow>
          (let q = mq_table st ! i
           in if \<not> ptr \<or> mq_head q = 0 then Some (- 1, [], None, st)
              else case mq_heap st (mq_head q) of
                     None \<Rightarrow> None
                   | Some m \<Rightarrow>
                       (let q' = q\<lparr>mq_head := msg_next m, mq_tail := (if msg_next m = 0 then 0 else mq_tail q),
                                   mq_curmsgs := mq_curmsgs q - 1\<rparr>;
                            copy_len = (if msg_len m < len then msg_len m else len)
                        in Some (sint (msg_len m), take (unat copy_len) (msg_data m), Some (msg_priority m),
                                 \<lparr>mq_heap = (mq_heap st)(mq_head q := None), mq_table = (mq_table st)[i := q']\<rparr>))))"

definition mq_getattr :: "mq_state \<Rightarrow> int \<Rightarrow> (u32 \<times> u32 \<times> u32 \<times> u32) option" where
  "mq_getattr st d =
     (case mq_named st d of
        None \<Rightarrow> None
      | Some i \<Rightarrow> (let q = mq_table st ! i in Some (mq_flags q, mq_maxmsg q, mq_msgsize q, mq_curmsgs q)))"

definition mq_setattr :: "mq_state \<Rightarrow> int \<Rightarrow> u32 option \<Rightarrow> int \<times> (u32 \<times> u32 \<times> u32 \<times> u32) option \<times> mq_state" where
  "mq_setattr st d new_flags =
     (case mq_named st d of
        None \<Rightarrow> (- 1, None, st)
      | Some i \<Rightarrow>
          (0, mq_getattr st d,
           (case new_flags of None \<Rightarrow> st
            | Some f \<Rightarrow> st\<lparr>mq_table := (mq_table st)[i := (mq_table st ! i)\<lparr>mq_flags := f\<rparr>]\<rparr>)))"

definition mq_notify :: "int" where "mq_notify = - 38"

definition mq_timedsend ::
    "(msg_heap \<Rightarrow> u32) \<Rightarrow> mq_state \<Rightarrow> int \<Rightarrow> u8 list option \<Rightarrow> u32 \<Rightarrow> 'timeout \<Rightarrow> (int \<times> mq_state) option" where
  "mq_timedsend alloc st d bytes prio abs_timeout = mq_send alloc st d bytes prio"

definition mq_timedreceive ::
    "mq_state \<Rightarrow> int \<Rightarrow> bool \<Rightarrow> u32 \<Rightarrow> 'timeout \<Rightarrow> (int \<times> u8 list \<times> u32 option \<times> mq_state) option" where
  "mq_timedreceive st d ptr len abs_timeout = mq_receive st d ptr len"

interpretation mqueues: named_objects mq_name mq_open_slot
proof
  fix n and t :: "message_queue list" and i oflag
  assume "valid_name (Some n)" "find_named mq_name n t = Some i"
    "\<not> (oflag AND O_CREAT \<noteq> 0 \<and> oflag AND O_EXCL \<noteq> 0)"
  moreover from this(2) have "mq_name (t ! i) = n" by (auto simp: find_named_def dest!: find_upt_SomeD)
  ultimately show "\<exists>x. mq_open_slot t (Some n) oflag = (Some i, t[i := x]) \<and> mq_name x = n"
    by (auto simp: mq_open_slot_def)
qed (auto simp: mq_open_slot_def)

section \<open>Messages linked in the heap\<close>

text \<open>\<open>seg h p as q\<close>: following \<open>next\<close> from \<open>p\<close> visits the messages \<open>as\<close> and arrives at \<open>q\<close>.\<close>

primrec seg :: "msg_heap \<Rightarrow> u32 \<Rightarrow> u32 list \<Rightarrow> u32 \<Rightarrow> bool" where
  "seg h p [] q \<longleftrightarrow> p = q"
| "seg h p (a # as) q \<longleftrightarrow> p = a \<and> a \<noteq> 0 \<and> (case h a of None \<Rightarrow> False | Some m \<Rightarrow> seg h (msg_next m) as q)"

abbreviation prio_at :: "msg_heap \<Rightarrow> u32 \<Rightarrow> u32" where "prio_at h a \<equiv> msg_priority (the (h a))"

definition view :: "message \<Rightarrow> u8 list \<times> u32" where "view m = (msg_data m, msg_priority m)"

lemma seg_append: "seg h p (xs @ ys) r \<longleftrightarrow> (\<exists>q. seg h p xs q \<and> seg h q ys r)"
  by (induction xs arbitrary: p) (auto split: option.splits)

lemma seg_frame: "\<forall>a \<in> set as. h' a = h a \<Longrightarrow> seg h' p as q \<longleftrightarrow> seg h p as q"
  by (induction as arbitrary: p) (auto split: option.splits)

lemma seg_null: "seg h 0 as 0 \<longleftrightarrow> as = []"
  by (cases as) auto

lemma seg_head: "seg h p as 0 \<Longrightarrow> p = (case as of [] \<Rightarrow> 0 | a # _ \<Rightarrow> a)"
  by (cases as) auto

lemma seg_dom: "seg h p as q \<Longrightarrow> a \<in> set as \<Longrightarrow> a \<noteq> 0 \<and> (\<exists>m. h a = Some m)"
  by (induction as arbitrary: p) (auto split: option.splits)

lemma free_messages_seg:
  "seg h p as 0 \<Longrightarrow> distinct as \<Longrightarrow> free_messages h p = Some (\<lambda>a. if a \<in> set as then None else h a)"
proof (induction as arbitrary: h p)
  case Nil
  then show ?case by (simp add: free_messages.simps)
next
  case (Cons a as)
  then obtain m where m: "h a = Some m" "seg h (msg_next m) as 0" "p = a" "a \<noteq> 0" by (auto split: option.splits)
  have "seg (h(a := None)) (msg_next m) as 0" using m(2) Cons.prems(2) by (subst seg_frame) auto
  then have "free_messages (h(a := None)) (msg_next m) = Some (\<lambda>x. if x \<in> set as then None else (h(a := None)) x)"
    using Cons.IH Cons.prems(2) by simp
  moreover have "(\<lambda>x. if x \<in> set as then None else (h(a := None)) x) = (\<lambda>x. if x \<in> set (a # as) then None else h x)"
    by auto
  ultimately show ?case using m by (subst free_messages.simps) (simp del: fun_upd_apply)
qed

lemma mq_walk_seg:
  "seg h a (a # as) 0 \<Longrightarrow> mq_walk h a prio = Some (List.last (a # takeWhile (\<lambda>b. prio \<le> prio_at h b) as))"
proof (induction as arbitrary: a)
  case Nil
  then show ?case by (subst mq_walk.simps) (auto split: option.splits)
next
  case (Cons b as)
  then obtain m m' where m: "h a = Some m" "msg_next m = b" "b \<noteq> 0" "h b = Some m'" "seg h b (b # as) 0"
    by (auto split: option.splits)
  from Cons.IH [OF m(5)] m(1-4) show ?case by (subst mq_walk.simps) simp
qed

text \<open>What linking a message in does to the sequence of addresses.\<close>

definition prio_insert :: "('a \<Rightarrow> u32) \<Rightarrow> 'a \<Rightarrow> 'a list \<Rightarrow> 'a list" where
  "prio_insert pr x xs = takeWhile (\<lambda>y. pr x \<le> pr y) xs @ x # dropWhile (\<lambda>y. pr x \<le> pr y) xs"

lemma mset_prio_insert: "mset (prio_insert pr x xs) = mset (x # xs)"
  by (induction xs) (auto simp: prio_insert_def)

lemma set_prio_insert [simp]: "set (prio_insert pr x xs) = insert x (set xs)"
  using mset_eq_setD [OF mset_prio_insert, of pr x xs] by simp

lemma length_prio_insert [simp]: "length (prio_insert pr x xs) = Suc (length xs)"
  using mset_eq_length [OF mset_prio_insert, of pr x xs] by simp

lemma distinct_prio_insert: "distinct (prio_insert pr x xs) \<longleftrightarrow> x \<notin> set xs \<and> distinct xs"
  using mset_eq_imp_distinct_iff [OF mset_prio_insert, of pr x xs] by simp

lemma sorted_prio_insert:
  "sorted_wrt (\<lambda>x y. pr y \<le> pr x) xs \<Longrightarrow> sorted_wrt (\<lambda>x y. pr y \<le> pr x) (prio_insert pr x xs)"
proof (induction xs)
  case Nil
  then show ?case by (simp add: prio_insert_def)
next
  case (Cons y ys)
  then have "sorted_wrt (\<lambda>x y. pr y \<le> pr x) (prio_insert pr x ys)" by simp
  then show ?case using Cons.prems set_prio_insert [of pr x ys]
    by (auto simp: prio_insert_def simp flip: set_append intro: order_trans)
qed

lemma map_prio_insert:
  "(\<And>y. y \<in> insert x (set xs) \<Longrightarrow> pr y = pr' (f y)) \<Longrightarrow> map f (prio_insert pr x xs) = prio_insert pr' (f x) (map f xs)"
  by (induction xs) (auto simp: prio_insert_def)

lemma prio_insert_cong:
  "(\<And>y. y \<in> insert x (set xs) \<Longrightarrow> pr y = pr' y) \<Longrightarrow> prio_insert pr x xs = prio_insert pr' x xs"
  by (induction xs) (auto simp: prio_insert_def)

lemma last_prio_insert:
  "List.last (prio_insert pr x xs) = (if dropWhile (\<lambda>y. pr x \<le> pr y) xs = [] then x else List.last xs)"
proof -
  have "dropWhile P xs \<noteq> [] \<Longrightarrow> List.last (dropWhile P xs) = List.last xs" for P
    by (induction xs) (auto simp: dropWhile_eq_Nil_conv)
  then show ?thesis by (simp add: prio_insert_def)
qed

lemma mq_insert_seg:
  fixes m :: message
  assumes seg: "seg h (mq_head q) as 0" and new: "a \<noteq> 0" "a \<notin> set as" and dist: "distinct as"
    and tail: "mq_tail q = (if as = [] then 0 else List.last as)"
  defines "as' \<equiv> prio_insert (prio_at (h(a \<mapsto> m))) a as"
  shows "\<exists>h' q'. mq_insert h q a m = Some (h', q') \<and> seg h' (mq_head q') as' 0 \<and>
    mq_tail q' = List.last as' \<and> q' = q\<lparr>mq_head := mq_head q', mq_tail := mq_tail q'\<rparr> \<and>
    (\<forall>x. x \<noteq> a \<longrightarrow> (h' x = h x \<or> x \<in> set as) \<and> map_option (msg_next_update (\<lambda>_. 0)) (h' x) = map_option (msg_next_update (\<lambda>_. 0)) (h x)) \<and>
    (\<exists>n. h' a = Some (m\<lparr>msg_next := n\<rparr>))"
proof -
  let ?P = "\<lambda>y. msg_priority m \<le> prio_at h y"
  have as': "as' = takeWhile ?P as @ a # dropWhile ?P as"
    unfolding as'_def prio_insert_def using new(2)
    by (auto intro!: arg_cong2 [where f = append] takeWhile_cong dropWhile_cong)
  show ?thesis
  proof (cases "takeWhile ?P as = []")
    case front: True
    then have as'_front: "as' = a # as" using as' by (metis append_Nil takeWhile_dropWhile_id)
    have "mq_insert h q a m = Some (h(a \<mapsto> m\<lparr>msg_next := mq_head q\<rparr>),
        q\<lparr>mq_head := a, mq_tail := (if mq_tail q = 0 then a else mq_tail q)\<rparr>)"
      using seg front by (cases as) (auto simp: mq_insert_def not_le split: option.splits if_splits)
    moreover have "seg (h(a \<mapsto> m\<lparr>msg_next := mq_head q\<rparr>)) (mq_head q) as 0"
      using seg new(2) by (subst seg_frame) auto
    moreover have "as \<noteq> [] \<longrightarrow> mq_tail q \<noteq> 0" using seg_dom [OF seg] tail by auto
    ultimately show ?thesis using as'_front new tail by auto
  next
    case False
    then obtain xs cur where xs: "takeWhile ?P as = xs @ [cur]" by (metis rev_exhaust)
    define ys where "ys = dropWhile ?P as"
    have as: "as = xs @ cur # ys" unfolding ys_def using xs by (metis append.assoc append_Cons append_Nil takeWhile_dropWhile_id)
    obtain c where c: "seg h (mq_head q) xs cur" "h cur = Some c" "cur \<noteq> 0" "seg h (msg_next c) ys 0"
      using seg unfolding as seg_append by (auto split: option.splits)
    have next0: "msg_next c = 0 \<longleftrightarrow> ys = []" using c(4) seg_null seg_head [OF c(4)] seg_dom [OF c(4)]
      by (cases ys) auto
    obtain b bs' where asb: "as = b # bs'" using as by (metis list.exhaust append_is_Nil_conv list.distinct(1))
    have b: "mq_head q = b" "b \<noteq> 0" "\<exists>f. h b = Some f" "?P b"
      using seg asb False by (auto split: option.splits if_splits)
    have "seg (h(a \<mapsto> m)) b (b # bs') 0" using seg asb b(1) new(2) by (subst seg_frame) auto
    from mq_walk_seg [OF this, of "msg_priority m"]
    moreover have "takeWhile (\<lambda>y. msg_priority m \<le> prio_at (h(a \<mapsto> m)) y) bs' = takeWhile ?P bs'"
      using new(2) asb by (intro takeWhile_cong) auto
    ultimately have "mq_walk (h(a \<mapsto> m)) b (msg_priority m) = Some (List.last (b # takeWhile ?P bs'))"
      by (simp only:)
    moreover have "b # takeWhile ?P bs' = xs @ [cur]" using xs asb b(4) by simp
    ultimately have walk: "mq_walk (h(a \<mapsto> m)) (mq_head q) (msg_priority m) = Some cur" using b(1) by simp
    let ?h' = "h(a \<mapsto> m\<lparr>msg_next := msg_next c\<rparr>, cur \<mapsto> c\<lparr>msg_next := a\<rparr>)"
    have "mq_insert h q a m = Some (?h', q\<lparr>mq_tail := (if msg_next c = 0 then a else mq_tail q)\<rparr>)"
      using walk b c(2) by (auto simp: mq_insert_def not_less)
    moreover have "seg ?h' (mq_head q) (xs @ cur # a # ys) 0"
    proof -
      have "seg ?h' (mq_head q) xs cur" using c(1) new(2) dist as by (subst seg_frame) auto
      moreover have "seg ?h' (msg_next c) ys 0" using c(4) new(2) dist as by (subst seg_frame) auto
      ultimately show ?thesis using new c(3) as unfolding seg_append by auto
    qed
    moreover have "as' = xs @ cur # a # ys" using as' xs ys_def by simp
    ultimately show ?thesis using new as tail next0 c(2) by (auto simp: fun_upd_apply)
  qed
qed

section \<open>The invariant of the queues\<close>

definition message_ok :: "message \<Rightarrow> bool" where
  "message_ok m \<longleftrightarrow> msg_len m = of_nat (length (msg_data m)) \<and> length (msg_data m) \<le> MAX_MSG_SIZE"

text \<open>One queue, whose messages are at the addresses \<open>as\<close>.\<close>

definition queue_ok :: "msg_heap \<Rightarrow> message_queue \<Rightarrow> u32 list \<Rightarrow> bool" where
  "queue_ok h q as \<longleftrightarrow>
     seg h (mq_head q) as 0 \<and> distinct as \<and> mq_tail q = (if as = [] then 0 else List.last as) \<and>
     (\<forall>a \<in> set as. message_ok (the (h a))) \<and> sorted_wrt (\<lambda>x y. prio_at h y \<le> prio_at h x) as \<and>
     (if mq_name q = [] then as = []
      else mq_maxmsg q = 64 \<and> length as \<le> 64 \<and> mq_curmsgs q = of_nat (length as))"

text \<open>All queues: they share no message, and every message of the heap is in a queue.\<close>

definition mq_ok :: "mq_state \<Rightarrow> u32 list list \<Rightarrow> bool" where
  "mq_ok st ass \<longleftrightarrow>
     length ass = length (mq_table st) \<and>
     (\<forall>i < length ass. queue_ok (mq_heap st) (mq_table st ! i) (ass ! i)) \<and>
     (\<forall>i < length ass. \<forall>j < length ass. i \<noteq> j \<longrightarrow> set (ass ! i) \<inter> set (ass ! j) = {}) \<and>
     (\<forall>a. mq_heap st a \<noteq> None \<longleftrightarrow> (\<exists>i < length ass. a \<in> set (ass ! i)))"

text \<open>The messages from a head on, as data and priority; 64 is the capacity of a queue.\<close>

primrec contents :: "nat \<Rightarrow> msg_heap \<Rightarrow> u32 \<Rightarrow> (u8 list \<times> u32) list" where
  "contents 0 h p = []"
| "contents (Suc n) h p =
     (if p = 0 then [] else case h p of None \<Rightarrow> [] | Some m \<Rightarrow> view m # contents n h (msg_next m))"

definition queue_list :: "mq_state \<Rightarrow> nat \<Rightarrow> (u8 list \<times> u32) list" where
  "queue_list st i = contents 64 (mq_heap st) (mq_head (mq_table st ! i))"

lemma contents_seg: "seg h p as 0 \<Longrightarrow> length as \<le> n \<Longrightarrow> contents n h p = map (\<lambda>a. view (the (h a))) as"
proof (induction as arbitrary: p n)
  case Nil
  then show ?case by (cases n) auto
next
  case (Cons a as)
  then show ?case by (cases n) (auto split: option.splits)
qed

lemma queue_list_eq:
  assumes "mq_ok st ass" "i < length (mq_table st)"
  shows "queue_list st i = map (\<lambda>a. view (the (mq_heap st a))) (ass ! i)"
proof -
  have "queue_ok (mq_heap st) (mq_table st ! i) (ass ! i)" using assms by (auto simp: mq_ok_def)
  then have "seg (mq_heap st) (mq_head (mq_table st ! i)) (ass ! i) 0" "length (ass ! i) \<le> 64"
    by (auto simp: queue_ok_def split: if_splits)
  then show ?thesis unfolding queue_list_def by (rule contents_seg)
qed

lemma queue_ok_frame:
  "queue_ok h q as \<Longrightarrow> \<forall>a \<in> set as. h' a = h a \<Longrightarrow> queue_ok h' q as"
  unfolding queue_ok_def using seg_frame [of as h' h]
  by (auto intro!: sorted_wrt_mono_rel [of as "\<lambda>x y. prio_at h y \<le> prio_at h x"])

lemma mq_ok_update:
  assumes ok: "mq_ok st ass" and i: "i < length (mq_table st)"
    and q: "queue_ok h' q as"
    and fresh: "set as \<inter> dom (mq_heap st) \<subseteq> set (ass ! i)"
    and frame: "\<And>a. a \<notin> set (ass ! i) \<union> set as \<Longrightarrow> h' a = mq_heap st a"
    and dom: "\<And>a. a \<in> set (ass ! i) \<Longrightarrow> a \<notin> set as \<Longrightarrow> h' a = None"
  shows "mq_ok \<lparr>mq_heap = h', mq_table = (mq_table st)[i := q]\<rparr> (ass[i := as])"
    and "\<And>j. j < length (mq_table st) \<Longrightarrow> j \<noteq> i \<Longrightarrow>
      queue_list \<lparr>mq_heap = h', mq_table = (mq_table st)[i := q]\<rparr> j = queue_list st j"
proof -
  let ?st = "\<lparr>mq_heap = h', mq_table = (mq_table st)[i := q]\<rparr>"
  let ?ass = "ass[i := as]"
  have len: "length ass = length (mq_table st)" using ok by (simp add: mq_ok_def)
  have sub: "set (ass ! j) \<subseteq> dom (mq_heap st)" if "j < length ass" for j
    using ok that by (auto simp: mq_ok_def)
  have dis: "set (ass ! j) \<inter> set as = {}" if "j < length ass" "j \<noteq> i" for j
    using ok that i sub [OF that(1)] fresh by (fastforce simp: mq_ok_def)
  have dis': "set (ass ! j) \<inter> set (ass ! i) = {}" if "j < length ass" "j \<noteq> i" for j
    using ok that i by (auto simp: mq_ok_def)
  have fr: "\<forall>a \<in> set (ass ! j). h' a = mq_heap st a" if "j < length ass" "j \<noteq> i" for j
    using frame dis [OF that] dis' [OF that] by blast
  have qs: "queue_ok h' ((mq_table st)[i := q] ! j) (?ass ! j)" if "j < length ass" for j
    using ok that q queue_ok_frame [OF _ fr [OF that]] by (cases "j = i") (auto simp: mq_ok_def)
  have h: "h' a \<noteq> None \<longleftrightarrow> (\<exists>j < length ?ass. a \<in> set (?ass ! j))" for a
  proof (cases "a \<in> set as")
    case True
    then have "h' a \<noteq> None" using q seg_dom by (fastforce simp: queue_ok_def)
    then show ?thesis using True i len by (auto intro!: exI [of _ i])
  next
    case out: False
    have ex: "(\<exists>j < length ?ass. a \<in> set (?ass ! j)) \<longleftrightarrow> (\<exists>j < length ass. j \<noteq> i \<and> a \<in> set (ass ! j))"
      using out i len by (metis length_list_update nth_list_update_eq nth_list_update_neq)
    show ?thesis
    proof (cases "a \<in> set (ass ! i)")
      case True
      then show ?thesis using ex dom [OF True out] dis' by blast
    next
      case False
      then have "h' a = mq_heap st a" using frame out by simp
      then show ?thesis using ex False ok by (auto simp: mq_ok_def)
    qed
  qed
  show ok': "mq_ok ?st ?ass"
  proof -
    have "set (?ass ! j) \<inter> set (?ass ! k) = {}" if "j < length ?ass" "k < length ?ass" "j \<noteq> k" for j k
    proof (cases "j = i \<or> k = i")
      case True
      then show ?thesis using that dis [of j] dis [of k] by (elim disjE) (simp_all add: Int_commute)
    next
      case False
      then show ?thesis using that ok by (simp add: mq_ok_def)
    qed
    then show ?thesis unfolding mq_ok_def using len qs h by simp
  qed
  fix j assume j: "j < length (mq_table st)" "j \<noteq> i"
  show "queue_list ?st j = queue_list st j"
    using queue_list_eq [OF ok', of j] queue_list_eq [OF ok j(1)] fr [of j] j len by simp
qed

text \<open>What \<open>kmalloc\<close> guarantees: no memory, or memory that is not in use.\<close>

definition fresh_alloc :: "(msg_heap \<Rightarrow> u32) \<Rightarrow> msg_heap \<Rightarrow> bool" where
  "fresh_alloc alloc h \<longleftrightarrow> h (alloc h) = None"

lemma mq_named_SomeD:
  "mq_named st d = Some i \<Longrightarrow> i < length (mq_table st) \<and> mq_name (mq_table st ! i) \<noteq> [] \<and> 0 \<le> d \<and> nat d = i"
  by (auto simp: mq_named_def mq_index_def split: if_splits)

lemma mq_full_iff:
  assumes "mq_ok st ass" "mq_named st d = Some i"
  shows "sint (mq_curmsgs (mq_table st ! i)) \<ge> sint (mq_maxmsg (mq_table st ! i)) \<longleftrightarrow> length (queue_list st i) = 64"
proof -
  note i = mq_named_SomeD [OF assms(2)]
  then have "queue_ok (mq_heap st) (mq_table st ! i) (ass ! i)" using assms by (auto simp: mq_ok_def)
  then have q: "mq_maxmsg (mq_table st ! i) = 64" "length (ass ! i) \<le> 64"
    "mq_curmsgs (mq_table st ! i) = of_nat (length (ass ! i))" using i by (auto simp: queue_ok_def)
  have "sint (of_nat n :: u32) = int n" if "n \<le> 64" for n
    using that by (simp add: sint_uint unsigned_of_nat take_bit_nat_eq_self signed_take_bit_eq_if_positive take_bit_int_eq_self bit_iff_odd)
  then show ?thesis using queue_list_eq [OF assms(1), of i] i q by simp
qed

lemma mq_send_step:
  assumes ok: "mq_ok st ass" and alloc: "fresh_alloc alloc (mq_heap st)" "alloc (mq_heap st) \<noteq> 0"
    and d: "mq_named st d = Some i" and bs: "length bs \<le> 256" and room: "length (queue_list st i) < 64"
  shows "\<exists>st' ass'. mq_send alloc st d (Some bs) prio = Some (0, st') \<and> mq_ok st' ass' \<and>
    map mq_name (mq_table st') = map mq_name (mq_table st) \<and>
    queue_list st' i = prio_insert snd (bs, prio) (queue_list st i) \<and>
    (\<forall>j < length (mq_table st). j \<noteq> i \<longrightarrow> queue_list st' j = queue_list st j)"
proof -
  let ?h = "mq_heap st" let ?q = "mq_table st ! i" let ?a = "alloc ?h" let ?as = "ass ! i"
  let ?m = "\<lparr>msg_data = bs, msg_len = of_nat (length bs), msg_priority = prio, msg_next = 0\<rparr>"
  note i = mq_named_SomeD [OF d]
  have q: "queue_ok ?h ?q ?as" using ok i by (auto simp: mq_ok_def)
  have fresh: "?a \<notin> set ?as" using ok alloc i unfolding mq_ok_def fresh_alloc_def by metis
  let ?as' = "prio_insert (prio_at (?h(?a \<mapsto> ?m))) ?a ?as"
  obtain h' q' n where ins: "mq_insert ?h ?q ?a ?m = Some (h', q')" "seg h' (mq_head q') ?as' 0"
      "mq_tail q' = List.last ?as'" "q' = ?q\<lparr>mq_head := mq_head q', mq_tail := mq_tail q'\<rparr>"
      "h' ?a = Some (?m\<lparr>msg_next := n\<rparr>)"
    and other: "\<And>x. x \<noteq> ?a \<Longrightarrow> (h' x = ?h x \<or> x \<in> set ?as) \<and>
      map_option (msg_next_update (\<lambda>_. 0)) (h' x) = map_option (msg_next_update (\<lambda>_. 0)) (?h x)"
    using mq_insert_seg [of ?h ?q ?as ?a ?m] q alloc(2) fresh by (auto simp: queue_ok_def)
  let ?q' = "q'\<lparr>mq_curmsgs := mq_curmsgs q' + 1\<rparr>"
  let ?st' = "\<lparr>mq_heap = h', mq_table = (mq_table st)[i := ?q']\<rparr>"
  have same: "view (the (h' x)) = view (the (?h x)) \<and> message_ok (the (h' x)) = message_ok (the (?h x))"
    if "x \<in> set ?as" for x
  proof -
    have "x \<noteq> ?a" using that fresh by auto
    moreover have "\<exists>m. ?h x = Some m" using q that seg_dom by (auto simp: queue_ok_def)
    ultimately show ?thesis using other [of x]
      by (auto simp: view_def message_ok_def) (metis message.ext_inject message.surjective message.update_convs(4))+
  qed
  have prio: "prio_at h' x = prio_at (?h(?a \<mapsto> ?m)) x" if "x \<in> insert ?a (set ?as)" for x
    using that ins(5) same [of x] by (cases "x = ?a") (auto simp: view_def)
  have len: "queue_list st i = map (\<lambda>a. view (the (?h a))) ?as" "length ?as < 64"
    using queue_list_eq [OF ok, of i] i room by auto
  have names: "mq_name q' = mq_name ?q" "mq_maxmsg q' = mq_maxmsg ?q" "mq_curmsgs q' = mq_curmsgs ?q"
    by (subst ins(4), simp)+
  have "sorted_wrt (\<lambda>x y. prio_at (?h(?a \<mapsto> ?m)) y \<le> prio_at (?h(?a \<mapsto> ?m)) x) ?as"
    using q fresh by (auto simp: queue_ok_def elim!: sorted_wrt_mono_rel [rotated])
  from sorted_prio_insert [OF this, of ?a]
  have "sorted_wrt (\<lambda>x y. prio_at h' y \<le> prio_at h' x) ?as'"
    by (rule sorted_wrt_mono_rel [rotated]) (simp add: prio)
  moreover have "message_ok (the (h' x))" if "x \<in> set ?as'" for x
    using that same [of x] ins(5) bs q by (auto simp: queue_ok_def message_ok_def)
  moreover have "?as' \<noteq> []" by (simp add: prio_insert_def)
  ultimately have q': "queue_ok h' ?q' ?as'"
    using ins(2,3) names q i len(2) fresh unfolding queue_ok_def
    by (auto simp: distinct_prio_insert add.commute)
  note upd = mq_ok_update [OF ok _ q', of i]
  have inuse: "x \<notin> insert ?a (set ?as) \<Longrightarrow> h' x = ?h x" for x using other [of x] by auto
  have ok': "mq_ok ?st' (ass[i := ?as'])"
    using i inuse by (intro upd(1)) (auto simp: fresh_alloc_def alloc(1) [unfolded fresh_alloc_def])
  have "mq_send alloc st d (Some bs) prio = Some (0, ?st')"
    using d bs alloc(2) ins(1) mq_full_iff [OF ok d] room by (simp add: mq_send_def Let_def)
  moreover have "queue_list ?st' i = prio_insert snd (bs, prio) (queue_list st i)"
  proof -
    have "queue_list ?st' i = map (\<lambda>a. view (the (h' a))) ?as'"
      using queue_list_eq [OF ok', of i] i ok by (simp add: mq_ok_def)
    also have "\<dots> = prio_insert snd (view (the (h' ?a))) (map (\<lambda>a. view (the (h' a))) ?as)"
      using prio by (intro map_prio_insert) (simp add: view_def)
    finally show ?thesis using ins(5) same len(1) by (auto simp: view_def cong: map_cong)
  qed
  moreover have "map mq_name (mq_table ?st') = map mq_name (mq_table st)"
    using names i by (simp add: map_update)
      (metis list_update_id map_update)
  moreover have "queue_list ?st' j = queue_list st j" if "j < length (mq_table st)" "j \<noteq> i" for j
    using i inuse that by (intro upd(2)) (auto simp: alloc(1) [unfolded fresh_alloc_def])
  ultimately show ?thesis using ok' by blast
qed

lemma mq_receive_empty:
  assumes "mq_ok st ass" "mq_named st d = Some i" "queue_list st i = []"
  shows "mq_receive st d ptr len = Some (- 1, [], None, st)"
proof -
  note i = mq_named_SomeD [OF assms(2)]
  then have "seg (mq_heap st) (mq_head (mq_table st ! i)) [] 0"
    using assms queue_list_eq [OF assms(1), of i] by (auto simp: mq_ok_def queue_ok_def)
  then show ?thesis using assms(2) by (simp add: mq_receive_def Let_def)
qed

lemma mq_receive_step:
  assumes ok: "mq_ok st ass" and d: "mq_named st d = Some i" and l: "queue_list st i = (bs, p) # rest"
  shows "\<exists>st' ass'. mq_receive st d True len = Some (int (length bs), take (unat len) bs, Some p, st') \<and>
    mq_ok st' ass' \<and> map mq_name (mq_table st') = map mq_name (mq_table st) \<and> queue_list st' i = rest \<and>
    (\<forall>j < length (mq_table st). j \<noteq> i \<longrightarrow> queue_list st' j = queue_list st j)"
proof -
  let ?h = "mq_heap st" let ?q = "mq_table st ! i"
  note i = mq_named_SomeD [OF d]
  have q: "queue_ok ?h ?q (ass ! i)" using ok i by (auto simp: mq_ok_def)
  have map: "map (\<lambda>a. view (the (?h a))) (ass ! i) = (bs, p) # rest" using queue_list_eq [OF ok, of i] i l by simp
  then obtain a as where as: "ass ! i = a # as" by auto
  obtain m where m: "?h a = Some m" "mq_head ?q = a" "a \<noteq> 0" "seg ?h (msg_next m) as 0" "view m = (bs, p)"
    using q map as by (auto simp: queue_ok_def split: option.splits)
  have next0: "msg_next m = 0 \<longleftrightarrow> as = []"
    using m(4) seg_head [OF m(4)] seg_dom [OF m(4)] by (cases as) auto
  let ?h' = "?h(a := None)"
  let ?q' = "?q\<lparr>mq_head := msg_next m, mq_tail := (if msg_next m = 0 then 0 else mq_tail ?q), mq_curmsgs := mq_curmsgs ?q - 1\<rparr>"
  let ?st' = "\<lparr>mq_heap = ?h', mq_table = (mq_table st)[i := ?q']\<rparr>"
  have m_ok: "message_ok m" using q as m(1) by (auto simp: queue_ok_def)
  have q1: "mq_tail ?q = List.last (a # as)" "distinct (a # as)" "\<forall>x \<in> set (a # as). message_ok (the (?h x))"
    "sorted_wrt (\<lambda>x y. prio_at ?h y \<le> prio_at ?h x) (a # as)" "mq_maxmsg ?q = 64" "length (a # as) \<le> 64"
    "mq_curmsgs ?q = of_nat (length (a # as))"
    using q i unfolding queue_ok_def as by simp_all
  have "queue_ok ?h ?q' as" using q1 i next0 m(4) by (simp add: queue_ok_def)
  then have q': "queue_ok ?h' ?q' as" by (rule queue_ok_frame) (use q1(2) in auto)
  note upd = mq_ok_update [OF ok _ q', of i]
  have ok': "mq_ok ?st' (ass[i := as])" using i as by (intro upd(1)) auto
  have "queue_list ?st' i = map (\<lambda>a. view (the (?h' a))) as"
    using queue_list_eq [OF ok', of i] i ok by (simp add: mq_ok_def)
  then have "queue_list ?st' i = rest" using map as q by (auto simp: queue_ok_def cong: map_cong)
  moreover have "mq_receive st d True len = Some (int (length bs), take (unat len) bs, Some p, ?st')"
  proof -
    have len': "length bs \<le> 256" "msg_len m = of_nat (length bs)" "msg_data m = bs" "msg_priority m = p"
      using m_ok m(5) by (auto simp: message_ok_def view_def)
    then have u: "unat (msg_len m) = length bs" by (simp add: unsigned_of_nat take_bit_nat_eq_self)
    have "sint (of_nat n :: u32) = int n" if "n \<le> 256" for n
      using that by (simp add: sint_uint unsigned_of_nat take_bit_nat_eq_self signed_take_bit_eq_if_positive take_bit_int_eq_self bit_iff_odd)
    then have "sint (msg_len m) = int (length bs)" using len' by simp
    moreover have "take (unat (if msg_len m < len then msg_len m else len)) bs = take (unat len) bs"
      using u by (auto simp: word_less_nat_alt)
    ultimately show ?thesis using d m len' by (simp add: mq_receive_def Let_def)
  qed
  moreover have "map mq_name (mq_table ?st') = map mq_name (mq_table st)"
    using i by (simp add: map_update) (metis list_update_id map_update)
  moreover have "queue_list ?st' j = queue_list st j" if "j < length (mq_table st)" "j \<noteq> i" for j
    using i as that by (intro upd(2)) auto
  ultimately show ?thesis using ok' by blast
qed

lemma mq_ok_table:
  assumes "mq_ok st ass" "i < length (mq_table st)" "queue_ok (mq_heap st) q (ass ! i)"
  shows "mq_ok (st\<lparr>mq_table := (mq_table st)[i := q]\<rparr>) ass"
proof -
  have "mq_ok \<lparr>mq_heap = mq_heap st, mq_table = (mq_table st)[i := q]\<rparr> (ass[i := ass ! i])"
    using assms by (intro mq_ok_update(1)) (auto dest: seg_dom simp: queue_ok_def)
  then show ?thesis by (cases st) simp
qed

lemma drop_queue_ok:
  assumes ok: "mq_ok st ass" and i: "i < length (mq_table st)" and q: "mq_head q = mq_head (mq_table st ! i)"
  shows "\<exists>st'. drop_queue st i q = Some st' \<and> mq_ok st' (ass[i := []])"
proof -
  let ?h' = "\<lambda>a. if a \<in> set (ass ! i) then None else mq_heap st a"
  have "queue_ok (mq_heap st) (mq_table st ! i) (ass ! i)" using ok i by (auto simp: mq_ok_def)
  then have "free_messages (mq_heap st) (mq_head q) = Some ?h'"
    unfolding q by (intro free_messages_seg) (auto simp: queue_ok_def)
  moreover have "mq_ok \<lparr>mq_heap = ?h', mq_table = (mq_table st)[i := q\<lparr>mq_name := [], mq_head := 0, mq_tail := 0\<rparr>]\<rparr> (ass[i := []])"
    using ok i by (intro mq_ok_update(1)) (auto simp: queue_ok_def)
  ultimately show ?thesis by (simp add: drop_queue_def)
qed

lemma mq_open_ok:
  assumes ok: "mq_ok st ass"
  shows "mq_ok (snd (mq_open st name oflag)) ass"
proof (cases "mq_open_slot (mq_table st) name oflag")
  case (Pair r t)
  have t: "t = mq_table st \<or> (\<exists>i q. t = (mq_table st)[i := q] \<and> i < length (mq_table st) \<and> queue_ok (mq_heap st) q (ass ! i))"
  proof (cases "valid_name name")
    case True
    show ?thesis
    proof (cases "find_named mq_name (the name) (mq_table st)")
      case None
      then show ?thesis
      proof (cases "find_free mq_name (mq_table st)")
        case (Some i)
        then have "i < length (mq_table st)" "mq_name (mq_table st ! i) = []"
          by (auto simp: find_free_def dest!: find_upt_SomeD)
        moreover from this have "ass ! i = []" using ok by (auto simp: mq_ok_def queue_ok_def)
        ultimately show ?thesis using Pair True None Some
          by (auto simp: mq_open_slot_def queue_ok_def split: if_splits intro!: exI [of _ i])
      qed (use Pair True in \<open>auto simp: mq_open_slot_def split: if_splits\<close>)
    next
      case (Some i)
      then have i: "i < length (mq_table st)" by (auto simp: find_named_def dest!: find_upt_SomeD)
      then have "queue_ok (mq_heap st) ((mq_table st ! i)\<lparr>mq_ref_count := n\<rparr>) (ass ! i)" for n
        using ok by (simp add: mq_ok_def queue_ok_def)
      then show ?thesis using Pair True Some i
        by (auto simp: mq_open_slot_def split: if_splits)
    qed
  qed (use Pair in \<open>simp add: mq_open_slot_def\<close>)
  then have "mq_ok (st\<lparr>mq_table := t\<rparr>) ass" using ok mq_ok_table [OF ok] by auto
  then show ?thesis using Pair by (simp add: mq_open_def)
qed

lemma mq_close_ok:
  assumes ok: "mq_ok st ass"
  shows "\<exists>r st' ass'. mq_close st d = Some (r, st') \<and> mq_ok st' ass'"
proof (cases "mq_index st d")
  case None
  then show ?thesis using ok by (auto simp: mq_close_def)
next
  case (Some i)
  then have i: "i < length (mq_table st)" by (auto simp: mq_index_def split: if_splits)
  let ?q = "(mq_table st ! i)\<lparr>mq_ref_count := mq_ref_count (mq_table st ! i) - 1\<rparr>"
  have "queue_ok (mq_heap st) ?q (ass ! i)" using ok i by (simp add: mq_ok_def queue_ok_def)
  from mq_ok_table [OF ok i this] drop_queue_ok [OF ok i, of ?q] Some show ?thesis
    by (auto simp: mq_close_def Let_def split: option.splits)
qed

lemma mq_unlink_ok:
  assumes ok: "mq_ok st ass"
  shows "\<exists>r st' ass'. mq_unlink st name = Some (r, st') \<and> mq_ok st' ass'"
proof (cases "case name of None \<Rightarrow> None | Some n \<Rightarrow> find_unlink mq_name n (mq_table st)")
  case None
  then show ?thesis using ok by (auto simp: mq_unlink_def split: option.splits)
next
  case (Some i)
  then have i: "i < length (mq_table st)"
    by (auto simp: find_unlink_def split: option.splits dest!: find_upt_SomeD)
  let ?q = "(mq_table st ! i)\<lparr>mq_unlinked := True\<rparr>"
  have "queue_ok (mq_heap st) ?q (ass ! i)" using ok i by (simp add: mq_ok_def queue_ok_def)
  from mq_ok_table [OF ok i this] drop_queue_ok [OF ok i, of ?q] Some show ?thesis
    by (auto simp: mq_unlink_def Let_def split: option.splits)
qed

lemma mq_setattr_ok: "mq_ok st ass \<Longrightarrow> mq_ok (snd (snd (mq_setattr st d f))) ass"
proof -
  assume ok: "mq_ok st ass"
  have "queue_ok (mq_heap st) ((mq_table st ! i)\<lparr>mq_flags := x\<rparr>) (ass ! i)" if "i < length (mq_table st)" for i x
    using ok that by (simp add: mq_ok_def queue_ok_def)
  then show ?thesis using ok mq_ok_table [OF ok]
    by (auto simp: mq_setattr_def split: option.splits dest!: mq_named_SomeD)
qed

lemma mq_ok_init: "mq_ok \<lparr>mq_heap = (\<lambda>_. None), mq_table = init_mqueues\<rparr> (replicate 16 [])"
  by (auto simp: mq_ok_def init_mqueues_def queue_ok_def)

section \<open>All histories of calls\<close>

datatype mq_call =
  Open "u8 list option" u32
| Close int
| Unlink "u8 list option"
| Send int "u8 list option" u32
| Receive int bool u32
| Setattr int "u32 option"

fun mq_run_call :: "(msg_heap \<Rightarrow> u32) \<Rightarrow> mq_call \<Rightarrow> mq_state \<Rightarrow> mq_state option" where
  "mq_run_call alloc (Open name oflag) st = Some (snd (mq_open st name oflag))"
| "mq_run_call alloc (Close d) st = map_option snd (mq_close st d)"
| "mq_run_call alloc (Unlink name) st = map_option snd (mq_unlink st name)"
| "mq_run_call alloc (Send d bytes prio) st = map_option snd (mq_send alloc st d bytes prio)"
| "mq_run_call alloc (Receive d ptr len) st = map_option (\<lambda>(_, _, _, st'). st') (mq_receive st d ptr len)"
| "mq_run_call alloc (Setattr d f) st = Some (snd (snd (mq_setattr st d f)))"

inductive mq_reach :: "mq_state \<Rightarrow> bool" where
  start: "mq_reach \<lparr>mq_heap = (\<lambda>_. None), mq_table = init_mqueues\<rparr>"
| call: "mq_reach st \<Longrightarrow> fresh_alloc alloc (mq_heap st) \<Longrightarrow> mq_run_call alloc c st = Some st' \<Longrightarrow> mq_reach st'"

lemma mq_send_fails:
  assumes "mq_ok st ass" "mq_named st d = Some i"
    "length bs > 256 \<or> length (queue_list st i) = 64 \<or> alloc (mq_heap st) = 0"
  shows "mq_send alloc st d (Some bs) prio = Some (- 1, st)"
  using assms mq_full_iff [OF assms(1,2)] by (auto simp: mq_send_def Let_def)

lemma queue_list_le:
  assumes "mq_ok st ass" "i < length (mq_table st)"
  shows "length (queue_list st i) \<le> 64"
proof -
  have "queue_ok (mq_heap st) (mq_table st ! i) (ass ! i)" using assms by (auto simp: mq_ok_def)
  then show ?thesis using queue_list_eq [OF assms] by (simp add: queue_ok_def split: if_splits)
qed

lemma mq_run_call_ok:
  assumes ok: "mq_ok st ass" and alloc: "fresh_alloc alloc (mq_heap st)"
  shows "\<exists>st' ass'. mq_run_call alloc c st = Some st' \<and> mq_ok st' ass'"
proof (cases c)
  case (Open name oflag)
  then show ?thesis using mq_open_ok [OF ok] by auto
next
  case (Close d)
  then show ?thesis using mq_close_ok [OF ok, of d] by auto
next
  case (Unlink name)
  then show ?thesis using mq_unlink_ok [OF ok, of name] by auto
next
  case (Setattr d f)
  then show ?thesis using mq_setattr_ok [OF ok] by auto
next
  case (Send d bytes prio)
  show ?thesis
  proof (cases "mq_named st d = None \<or> bytes = None")
    case True
    then show ?thesis using Send ok by (auto simp: mq_send_def split: option.splits)
  next
    case False
    then obtain i bs where i: "mq_named st d = Some i" "bytes = Some bs" by auto
    have "length (queue_list st i) \<le> 64" using mq_named_SomeD [OF i(1)] queue_list_le [OF ok] by blast
    then show ?thesis
      using Send i ok mq_send_fails [OF ok i(1), of bs alloc prio] mq_send_step [OF ok alloc _ i(1), of bs prio]
      by (cases "length bs > 256 \<or> length (queue_list st i) = 64 \<or> alloc (mq_heap st) = 0") auto
  qed
next
  case (Receive d ptr len)
  show ?thesis
  proof (cases "mq_named st d")
    case None
    then show ?thesis using Receive ok by (auto simp: mq_receive_def)
  next
    case (Some i)
    show ?thesis
    proof (cases "queue_list st i")
      case Nil
      then show ?thesis using Receive Some ok mq_receive_empty [OF ok Some Nil] by auto
    next
      case (Cons m rest)
      then show ?thesis
        using Receive Some ok mq_receive_step [OF ok Some, of "fst m" "snd m" rest len]
        by (cases ptr) (auto simp: mq_receive_def Let_def)
    qed
  qed
qed

lemma mq_reach_ok: "mq_reach st \<Longrightarrow> \<exists>ass. mq_ok st ass"
proof (induction rule: mq_reach.induct)
  case start
  then show ?case using mq_ok_init by blast
next
  case (call st alloc c st')
  then show ?case using mq_run_call_ok by (metis option.inject)
qed

lemma mq_ok_card:
  assumes "mq_ok st ass"
  shows "card (dom (mq_heap st)) = (\<Sum>i < length (mq_table st). length (queue_list st i))"
proof -
  have "dom (mq_heap st) = (\<Union>i < length (mq_table st). set (ass ! i))"
    using assms by (auto simp: mq_ok_def dom_def)
  then have "card (dom (mq_heap st)) = (\<Sum>i < length (mq_table st). card (set (ass ! i)))"
    using assms by (simp add: mq_ok_def card_UN_disjoint)
  also have "\<dots> = (\<Sum>i < length (mq_table st). length (queue_list st i))"
  proof (intro sum.cong HOL.refl)
    fix i assume "i \<in> {..<length (mq_table st)}"
    then show "card (set (ass ! i)) = length (queue_list st i)"
      using assms queue_list_eq [OF assms, of i] by (auto simp: mq_ok_def queue_ok_def distinct_card)
  qed
  finally show ?thesis .
qed

section \<open>Properties\<close>

text \<open>The queues as lists, and the operations on one of them.\<close>

definition queues :: "mq_state \<Rightarrow> (u8 list \<times> u32) list list" where
  "queues st = map (queue_list st) [0..<length (mq_table st)]"

definition pq_send :: "bool \<Rightarrow> (u8 list \<times> u32) list \<Rightarrow> u8 list \<Rightarrow> u32 \<Rightarrow> int \<times> (u8 list \<times> u32) list" where
  "pq_send memory q bs prio =
     (if length bs \<le> 256 \<and> length q < 64 \<and> memory then (0, prio_insert snd (bs, prio) q) else (- 1, q))"

fun pq_receive :: "(u8 list \<times> u32) list \<Rightarrow> u32 \<Rightarrow> (int \<times> u8 list \<times> u32 option) \<times> (u8 list \<times> u32) list" where
  "pq_receive [] len = ((- 1, [], None), [])"
| "pq_receive ((bs, prio) # q) len = ((int (length bs), take (unat len) bs, Some prio), q)"

lemma queues_update:
  "length (mq_table st') = length (mq_table st) \<Longrightarrow> i < length (mq_table st) \<Longrightarrow> queue_list st' i = q \<Longrightarrow>
   \<forall>j < length (mq_table st). j \<noteq> i \<longrightarrow> queue_list st' j = queue_list st j \<Longrightarrow> queues st' = (queues st)[i := q]"
  by (rule nth_equalityI) (auto simp: queues_def nth_list_update)

text \<open>
  C24: After any history of message queue calls, sending to an open queue and receiving from it are
  the operations of a bounded stable priority queue: a message is put behind those of the same or a
  higher priority, the call fails exactly when the message is longer than 256 bytes, the queue holds
  64 messages or memory is short, receiving takes the first message, and no other queue changes.
\<close>

theorem mq_refines_priority_queue:
  assumes "mq_reach st" "fresh_alloc alloc (mq_heap st)" "mq_named st d = Some i"
  shows "map_option (\<lambda>(r, st'). (r, queues st')) (mq_send alloc st d (Some bs) prio) =
           Some (let (r, q) = pq_send (alloc (mq_heap st) \<noteq> 0) (queue_list st i) bs prio in (r, (queues st)[i := q])) \<and>
         map_option (\<lambda>(r, out, p, st'). ((r, out, p), queues st')) (mq_receive st d True len) =
           Some (let (x, q) = pq_receive (queue_list st i) len in (x, (queues st)[i := q]))"
proof -
  obtain ass where ok: "mq_ok st ass" using mq_reach_ok [OF assms(1)] by blast
  have i: "i < length (mq_table st)" using mq_named_SomeD [OF assms(3)] by simp
  have same: "(queues st)[i := queue_list st i] = queues st" using i by (simp add: queues_def list_update_same_conv)
  have le: "length (queue_list st i) \<le> 64" using queue_list_le [OF ok i] .
  have tables: "map mq_name (mq_table st') = map mq_name (mq_table st) \<Longrightarrow> length (mq_table st') = length (mq_table st)" for st'
    by (metis length_map)
  show ?thesis
  proof
    show "map_option (\<lambda>(r, st'). (r, queues st')) (mq_send alloc st d (Some bs) prio) =
      Some (let (r, q) = pq_send (alloc (mq_heap st) \<noteq> 0) (queue_list st i) bs prio in (r, (queues st)[i := q]))"
    proof (cases "length bs > 256 \<or> length (queue_list st i) = 64 \<or> alloc (mq_heap st) = 0")
      case True
      then show ?thesis using mq_send_fails [where alloc = alloc, OF ok assms(3) True, of prio] same by (auto simp: pq_send_def)
    next
      case False
      then obtain st' where "mq_send alloc st d (Some bs) prio = Some (0, st')"
          "queues st' = (queues st)[i := prio_insert snd (bs, prio) (queue_list st i)]"
        using mq_send_step [OF ok assms(2) _ assms(3), of bs prio] le i queues_update tables by (metis le_neq_implies_less linorder_not_le)
      then show ?thesis using False le by (simp add: pq_send_def)
    qed
    show "map_option (\<lambda>(r, out, p, st'). ((r, out, p), queues st')) (mq_receive st d True len) =
      Some (let (x, q) = pq_receive (queue_list st i) len in (x, (queues st)[i := q]))"
    proof (cases "queue_list st i")
      case Nil
      then show ?thesis using mq_receive_empty [OF ok assms(3) Nil] same by simp
    next
      case (Cons m rest)
      obtain bs p where m: "m = (bs, p)" by (cases m)
      from mq_receive_step [OF ok assms(3) Cons [unfolded m], of len] show ?thesis
        using Cons m queues_update [of _ st i rest] i tables by fastforce
    qed
  qed
qed

definition example_alloc :: "msg_heap \<Rightarrow> u32" where
  "example_alloc h = (if h 4096 = None then 4096 else 0)"

definition example_mqueues :: mq_state where
  "example_mqueues = snd (mq_open \<lparr>mq_heap = (\<lambda>_. None), mq_table = init_mqueues\<rparr> (Some [47, 113]) O_CREAT)"

lemma example_mq_reach: "mq_reach example_mqueues"
proof -
  have "mq_run_call example_alloc (Open (Some [47, 113]) O_CREAT) \<lparr>mq_heap = (\<lambda>_. None), mq_table = init_mqueues\<rparr>
      = Some example_mqueues" by (simp add: example_mqueues_def)
  moreover have "fresh_alloc example_alloc (\<lambda>_. None)" by (simp add: fresh_alloc_def)
  ultimately show ?thesis using mq_reach.start mq_reach.call by (metis mq_state.select_convs(1))
qed

lemma example_mq_facts:
  "fresh_alloc example_alloc (mq_heap example_mqueues)" "mq_named example_mqueues 0 = Some 0"
  "example_alloc (mq_heap example_mqueues) = 4096" "queues example_mqueues = replicate 16 []"
  by code_simp+

theorem mq_refines_priority_queue_witness:
  "map_option (\<lambda>(r, st'). (r, queues st')) (mq_send example_alloc example_mqueues 0 (Some [1, 2]) 5) =
     Some (0, [([1, 2], 5)] # replicate 15 [])"
proof -
  have "queue_list example_mqueues 0 = []" by code_simp
  moreover have "(replicate 16 [])[0 := [([1, 2], 5)]] = [([1 :: u8, 2], 5 :: u32)] # replicate 15 []" by code_simp
  moreover note mq_refines_priority_queue [OF example_mq_reach example_mq_facts(1,2), of "[1, 2]" 5 0]
  ultimately show ?thesis
    by (simp only: example_mq_facts pq_send_def) (simp add: prio_insert_def)
qed

text \<open>
  C25: In every history of message queue calls each call returns, so no call follows a pointer to a
  freed message or a cyclic list, and afterwards the allocated messages are as many as the queues
  hold: none is leaked when a queue is closed or unlinked.
\<close>

theorem mq_calls_return:
  assumes "mq_reach st" "fresh_alloc alloc (mq_heap st)"
  shows "case mq_run_call alloc c st of
           None \<Rightarrow> False
         | Some st' \<Rightarrow> card (dom (mq_heap st')) = (\<Sum>i < length (mq_table st'). length (queue_list st' i))"
proof -
  obtain ass where "mq_ok st ass" using mq_reach_ok [OF assms(1)] by blast
  from mq_run_call_ok [OF this assms(2), of c] show ?thesis using mq_ok_card by auto
qed

theorem mq_calls_return_witness:
  "case mq_run_call example_alloc (Send 0 (Some [7]) 1) example_mqueues of
     None \<Rightarrow> False
   | Some st' \<Rightarrow> card (dom (mq_heap st')) = (\<Sum>i < length (mq_table st'). length (queue_list st' i))"
  by (rule mq_calls_return [OF example_mq_reach example_mq_facts(1)])

text \<open>
  Opening a named object with success, then opening the same name again without creating it,
  finds the same object if the name has at most 63 bytes; with a longer name the second call fails,
  since only 63 bytes are stored.  This holds for semaphores, shared memory and message queues.
\<close>

theorem named_objects_reopen:
  assumes "names_fit ns_name ts" "names_fit shm_name to" "names_fit mq_name tq"
    and "sem_open ts (Some n) f1 = (Some i, ts')" "shm_open_slot fd to (Some n) f2 = (Some j, to')"
      "mq_open_slot tq (Some n) f3 = (Some k, tq')"
  shows "fst (sem_open ts' (Some n) 0) = (if length n \<le> 63 then Some i else None) \<and>
         fst (shm_open_slot fd to' (Some n) 0) = (if length n \<le> 63 then Some j else None) \<and>
         fst (mq_open_slot tq' (Some n) 0) = (if length n \<le> 63 then Some k else None)"
  using named_sems.open_again [OF assms(1,4)] shm.open_again [OF assms(2,5)] mqueues.open_again [OF assms(3,6)]
  by blast

theorem named_objects_reopen_witness:
  "fst (sem_open (snd (sem_open init_named_sems (Some (47 # replicate 63 97)) O_CREAT)) (Some (47 # replicate 63 97)) 0) = None"
proof -
  let ?n = "47 # replicate 63 (97 :: u8)"
  obtain ts' to' tq' where o: "sem_open init_named_sems (Some ?n) O_CREAT = (Some 0, ts')"
      "shm_open_slot 100 (shm_objects init_shm_objects) (Some ?n) O_CREAT = (Some 0, to')"
      "mq_open_slot init_mqueues (Some ?n) O_CREAT = (Some 0, tq')"
  proof -
    have "fst (sem_open init_named_sems (Some ?n) O_CREAT) = Some 0"
      "fst (shm_open_slot 100 (shm_objects init_shm_objects) (Some ?n) O_CREAT) = Some 0"
      "fst (mq_open_slot init_mqueues (Some ?n) O_CREAT) = Some 0" by code_simp+
    then show ?thesis using that by (metis prod.collapse)
  qed
  have fit: "names_fit ns_name init_named_sems" "names_fit shm_name (shm_objects init_shm_objects)"
      "names_fit mq_name init_mqueues"
    by (simp_all add: names_fit_def
        init_named_sems_def init_shm_objects_def init_mqueues_def)
  show ?thesis using named_objects_reopen [OF fit o] o(1) by simp
qed

end
