(* ===== verification/Inet.thy ===== *)
theory Inet
  imports Prelude
begin

text \<open>
  Byte order and the internet checksum, which \<open>tcp.cpp\<close>, \<open>net.cpp\<close> and \<open>udp.cpp\<close> each define under
  their own names with the same bodies.  A packet is the list of its bytes; a field of a packed
  structure is read and stored with its low byte first, as the processor does.
\<close>

definition htons :: "u16 \<Rightarrow> u16" where
  "htons x = push_bit 8 x OR drop_bit 8 x"

definition htonl :: "u32 \<Rightarrow> u32" where
  "htonl x = push_bit 24 (x AND 0xFF) OR push_bit 8 (x AND 0xFF00) OR drop_bit 8 (x AND 0xFF0000)
     OR drop_bit 24 (x AND 0xFF000000)"

section \<open>Fields in memory\<close>

definition le16 :: "u16 \<Rightarrow> u8 list" where
  "le16 x = [ucast x, ucast (drop_bit 8 x)]"

definition le32 :: "u32 \<Rightarrow> u8 list" where
  "le32 x = [ucast x, ucast (drop_bit 8 x), ucast (drop_bit 16 x), ucast (drop_bit 24 x)]"

definition rd16 :: "u8 list \<Rightarrow> nat \<Rightarrow> u16" where
  "rd16 p i = ucast (p ! i) OR push_bit 8 (ucast (p ! Suc i))"

definition rd32 :: "u8 list \<Rightarrow> nat \<Rightarrow> u32" where
  "rd32 p i = ucast (p ! i) OR push_bit 8 (ucast (p ! (i + 1))) OR push_bit 16 (ucast (p ! (i + 2)))
     OR push_bit 24 (ucast (p ! (i + 3)))"

lemma length_le [simp]: "length (le16 x) = 2" "length (le32 y) = 4"
  by (simp_all add: le16_def le32_def)

lemma htons_htons [simp]: "htons (htons x) = x"
  by (rule bit_word_eqI) (auto simp: htons_def bit_simps)

lemma rd16_le16: "rd16 (xs @ le16 x @ ys) (length xs) = x"
  by (rule bit_word_eqI) (auto simp: rd16_def le16_def nth_append bit_simps)

section \<open>The checksum loops\<close>

text \<open>The sum of the 16-bit words, an odd last byte counted as it is.\<close>

fun sum_words :: "u32 \<Rightarrow> u8 list \<Rightarrow> u32" where
  "sum_words s (a # b # p) = sum_words (s + ucast (ucast a OR push_bit 8 (ucast b) :: u16)) p"
| "sum_words s [a] = s + ucast a"
| "sum_words s [] = s"

text \<open>\<open>while (sum >> 16) sum = (sum & 0xFFFF) + (sum >> 16);\<close>\<close>

function fold_carry :: "u32 \<Rightarrow> u32" where
  "fold_carry s = (if drop_bit 16 s \<noteq> 0 then fold_carry ((s AND 0xFFFF) + drop_bit 16 s) else s)"
  by pat_completeness auto

lemma unat_halves: "unat (s AND 0xFFFF) = unat s mod 65536" "unat (drop_bit 16 s) = unat s div 65536" for s :: u32
proof -
  have "s AND 0xFFFF = take_bit 16 s" by (simp add: take_bit_eq_mask mask_eq_exp_minus_1)
  then have "unat (s AND 0xFFFF) = take_bit 16 (unat s)" by (simp only: unsigned_take_bit_eq)
  then show "unat (s AND 0xFFFF) = unat s mod 65536" by (simp add: take_bit_eq_mod)
  show "unat (drop_bit 16 s) = unat s div 65536" by (simp add: drop_bit_eq_div unat_div)
qed

lemma unat_fold_step: "unat ((s AND 0xFFFF) + drop_bit 16 s) = unat s mod 65536 + unat s div 65536" for s :: u32
  using unat_u32_less [of s] by (simp add: unat_word_ariths unat_halves)

termination fold_carry
proof (relation "measure unat")
  fix s :: u32
  assume "drop_bit 16 s \<noteq> 0"
  then have "unat s div 65536 > 0" using unat_halves(2) [of s] by (metis gr0I unsigned_0 unsigned_eq_0_iff)
  then have "unat s mod 65536 + unat s div 65536 < unat s"
    using div_mult_mod_eq [of "unat s" 65536] by linarith
  then show "((s AND 0xFFFF) + drop_bit 16 s, s) \<in> measure unat" by (simp add: unat_fold_step)
qed simp

declare fold_carry.simps [simp del]

definition checksum :: "u8 list \<Rightarrow> u16" where
  "checksum p = NOT (ucast (fold_carry (sum_words 0 p)))"

section \<open>Values\<close>

lemma nat_or_shift: "a < 2 ^ n \<Longrightarrow> a OR push_bit n b = a + 2 ^ n * b" for a b :: nat
proof -
  assume "a < 2 ^ n"
  then have "take_bit n a = a" by (simp add: take_bit_nat_eq_self)
  then have "\<not> bit a m" if "n \<le> m" for m using that by (metis bit_take_bit_iff leD)
  then have "a + push_bit n b = a OR push_bit n b"
    by (intro disjunctive_add) (metis bit_push_bit_iff linorder_not_le)
  then show ?thesis by (simp add: push_bit_eq_mult mult.commute)
qed

lemma unat_u8_less: "unat (b :: u8) < 256"
  using unsigned_less [of b, where 'a = nat] by simp

lemma unat_word16: "unat (ucast a OR push_bit 8 (ucast b) :: u16) = unat a + 256 * unat b" for a b :: u8
proof -
  have "unat (push_bit 8 (ucast b) :: u16) = push_bit 8 (unat b)"
    using unat_u8_less [of b]
    by (simp only: unsigned_push_bit_eq unsigned_ucast_eq) (simp add: take_bit_nat_eq_self push_bit_eq_mult)
  then show ?thesis using unat_u8_less [of a] nat_or_shift [of "unat a" 8 "unat b"]
    by (simp add: unsigned_or_eq unsigned_ucast_eq take_bit_nat_eq_self)
qed

lemma le16_value: "unat (ucast c :: u8) + 256 * unat (ucast (drop_bit 8 c) :: u8) = unat c" for c :: u16
proof -
  have "unat c < 65536" using unsigned_less [of c, where 'a = nat] by simp
  moreover have "unat (ucast c :: u8) = unat c mod 256"
    by (simp only: unsigned_ucast_eq) (simp add: take_bit_eq_mod)
  moreover have "unat (ucast (drop_bit 8 c) :: u8) = unat c div 256 mod 256"
    by (simp only: unsigned_ucast_eq) (simp add: take_bit_eq_mod drop_bit_eq_div unat_div)
  ultimately show ?thesis by simp
qed

text \<open>The sum as a natural number.\<close>

fun nat_sum :: "u8 list \<Rightarrow> nat" where
  "nat_sum (a # b # p) = unat a + 256 * unat b + nat_sum p"
| "nat_sum [a] = unat a"
| "nat_sum [] = 0"

lemma nat_sum_le: "2 * nat_sum p \<le> 65535 * (length p + 1)"
proof (induction p rule: nat_sum.induct)
  case (1 a b p)
  then show ?case using unat_u8_less [of a] unat_u8_less [of b] by simp
next
  case (2 a)
  then show ?case using unat_u8_less [of a] by simp
qed simp

lemma nat_sum_append: "even (length xs) \<Longrightarrow> nat_sum (xs @ ys) = nat_sum xs + nat_sum ys"
  by (induction xs rule: nat_sum.induct) auto

lemma unat_sum_words: "unat s + nat_sum p < 4294967296 \<Longrightarrow> unat (sum_words s p) = unat s + nat_sum p"
proof (induction s p rule: sum_words.induct)
  case (1 s a b p)
  have "unat (ucast (ucast a OR push_bit 8 (ucast b) :: u16) :: u32) = unat a + 256 * unat b"
    using unat_word16 [of a b] unat_u8_less [of a] unat_u8_less [of b]
    by (simp only: unsigned_ucast_eq) (simp add: take_bit_nat_eq_self)
  then have "unat (s + ucast (ucast a OR push_bit 8 (ucast b) :: u16)) = unat s + (unat a + 256 * unat b)"
    using 1(2) by (simp only: unat_word_ariths) simp
  with 1 show ?case by simp
next
  case (2 s a)
  then show ?case using unat_u8_less [of a]
    by (simp add: unat_word_ariths) (simp only: unsigned_ucast_eq, simp add: take_bit_nat_eq_self)
qed simp

lemma fold_carry_value:
  "unat (fold_carry s) < 65536 \<and> unat (fold_carry s) mod 65535 = unat s mod 65535 \<and> (fold_carry s = 0 \<longleftrightarrow> s = 0)"
proof (induction s rule: fold_carry.induct)
  case (1 s)
  show ?case
  proof (cases "drop_bit 16 s = 0")
    case True
    then have "unat s div 65536 = 0" using unat_halves(2) [of s] by (metis unsigned_0)
    then have "unat s < 65536" by (simp add: div_eq_0_iff)
    moreover have "fold_carry s = s" using True by (subst fold_carry.simps) simp
    ultimately show ?thesis by simp
  next
    case False
    let ?t = "(s AND 0xFFFF) + drop_bit 16 s"
    have pos: "unat s div 65536 > 0" using False unat_halves(2) [of s] by (metis gr0I unsigned_0 unsigned_eq_0_iff)
    have t: "unat ?t = unat s mod 65536 + unat s div 65536" by (rule unat_fold_step)
    have "unat s = 65535 * (unat s div 65536) + (unat s mod 65536 + unat s div 65536)"
      using div_mult_mod_eq [of "unat s" 65536] by linarith
    then have "unat ?t mod 65535 = unat s mod 65535" unfolding t by (metis mod_mult_self4)
    moreover have "?t \<noteq> 0" using t pos by (metis add_is_0 less_numeral_extra(3) unsigned_0)
    moreover have "s \<noteq> 0" using False by auto
    moreover have "fold_carry s = fold_carry ?t" using False by (subst fold_carry.simps) simp
    ultimately show ?thesis using 1 False by simp
  qed
qed

text \<open>A sum over data with a zero field, then the checksum stored there: the second sum has the checksum 0.\<close>

lemma checksum_field:
  fixes s :: u32 and xs ys :: "u8 list"
  assumes small: "2 * unat s + 65535 * (length xs + length ys + 4) < 8589934592" and even: "even (length xs)"
    and c: "c = NOT (ucast (fold_carry (sum_words s (xs @ [0, 0] @ ys))) :: u16)"
  shows "NOT (ucast (fold_carry (sum_words s (xs @ le16 c @ ys))) :: u16) = 0"
proof -
  let ?r = "fold_carry (sum_words s (xs @ [0, 0] @ ys))"
  let ?r' = "fold_carry (sum_words s (xs @ le16 c @ ys))"
  let ?n = "unat s + nat_sum xs + nat_sum ys"
  have bound: "2 * (nat_sum xs + nat_sum ys) \<le> 65535 * (length xs + length ys + 2)"
    using nat_sum_le [of xs] nat_sum_le [of ys] by simp
  have sum0: "unat (sum_words s (xs @ [0, 0] @ ys)) = ?n"
    using unat_sum_words [of s "xs @ [0, 0] @ ys"] bound small even by (simp add: nat_sum_append)
  have r: "unat ?r < 65536" "unat ?r mod 65535 = ?n mod 65535" "?r = 0 \<longleftrightarrow> ?n = 0"
    using fold_carry_value [of "sum_words s (xs @ [0, 0] @ ys)"] sum0 by (auto simp: unat_eq_0 simp flip: sum0)
  have uc: "unat (ucast ?r :: u16) = unat ?r"
    using r(1) by (simp only: unsigned_ucast_eq) (simp add: take_bit_nat_eq_self)
  have "unat (NOT w) = 65535 - unat w" for w :: u16
  proof -
    have "w + NOT w = - 1" by (simp add: not_eq_complement)
    moreover have "unat (- 1 :: u16) = 65535" by (simp only: unsigned_minus_1_eq_mask) (simp add: mask_eq_exp_minus_1)
    moreover have "unat w < 65536" "unat (NOT w) < 65536"
      using unsigned_less [of w, where 'a = nat] unsigned_less [of "NOT w", where 'a = nat] by auto
    moreover have "unat (w + NOT w) = (unat w + unat (NOT w)) mod 65536" by (simp only: unat_word_ariths) simp
    ultimately have "(unat w + unat (NOT w)) mod 65536 = 65535" by metis
    with \<open>unat w < 65536\<close> \<open>unat (NOT w) < 65536\<close> show ?thesis
      by (cases "unat w + unat (NOT w) < 65536") (auto simp: mod_if split: if_splits)
  qed
  then have cv: "unat c = 65535 - unat ?r" using c uc by simp
  have sum1: "unat (sum_words s (xs @ le16 c @ ys)) = ?n + unat c"
  proof -
    have "nat_sum (le16 c @ ys) = unat c + nat_sum ys" using le16_value [of c] by (simp add: le16_def)
    then show ?thesis using unat_sum_words [of s "xs @ le16 c @ ys"] bound small even cv
      by (simp add: nat_sum_append)
  qed
  have "(?n + unat c) mod 65535 = (unat ?r mod 65535 + unat c) mod 65535" using r(2) by (metis mod_add_left_eq)
  also have "\<dots> = (unat ?r + unat c) mod 65535" by (simp add: mod_add_left_eq)
  also have "\<dots> = 0" using cv r(1) by simp
  finally have "unat ?r' mod 65535 = 0" using fold_carry_value [of "sum_words s (xs @ le16 c @ ys)"] sum1 by simp
  moreover have "unat ?r' \<noteq> 0"
  proof -
    have "?n + unat c \<noteq> 0" using r cv by (cases "?n = 0") auto
    then show ?thesis using fold_carry_value [of "sum_words s (xs @ le16 c @ ys)"] sum1
      by (metis unsigned_0 unat_eq_0)
  qed
  moreover have "unat ?r' < 65536" using fold_carry_value by blast
  ultimately have "unat ?r' = 65535" by (simp add: mod_if split: if_splits)
  then have "?r' = 0xFFFF" by (intro unsigned_word_eqI [where ?'a = nat]) simp
  then show ?thesis by simp
qed

end
