(* ===== verification/Ip.thy ===== *)
theory Ip
  imports Inet
begin

text \<open>
  Sending: ARP and the IP layer of \<open>src/src/kernel/net.cpp\<close>.  Frames handed to the card are the log
  \<open>net_frames\<close>.  A frame is built in a local buffer of fixed size; a store behind its end is the outcome
  \<open>None\<close>.  The addresses \<open>my_ip\<close> and \<open>my_mac\<close> belong to the state.
\<close>

record net_link =
  my_mac :: "u8 list"
  my_ip :: u32
  gateway_mac :: "u8 list"
  gateway_ip :: u32
  gateway_mac_known :: bool
  ip_id :: u16
  net_frames :: "u8 list list"

abbreviation ETH_TYPE_ARP :: u16 where "ETH_TYPE_ARP \<equiv> 0x0806"
abbreviation ETH_TYPE_IP :: u16 where "ETH_TYPE_IP \<equiv> 0x0800"

definition init_link :: "u32 \<Rightarrow> net_link" where
  "init_link ip = \<lparr>my_mac = [0x52, 0x54, 0x00, 0x12, 0x34, 0x56], my_ip = ip, gateway_mac = replicate 6 0xFF,
     gateway_ip = 0x0202000A, gateway_mac_known = False, ip_id = 1, net_frames = []\<rparr>"

definition e1000_send :: "u8 list \<Rightarrow> net_link \<Rightarrow> net_link" where
  "e1000_send frame n = n\<lparr>net_frames := net_frames n @ [frame]\<rparr>"

definition eth_hdr :: "u8 list \<Rightarrow> u8 list \<Rightarrow> u16 \<Rightarrow> u8 list" where
  "eth_hdr dst src typ = dst @ src @ le16 (htons typ)"

section \<open>ARP\<close>

definition arp_pkt :: "u16 \<Rightarrow> u8 list \<Rightarrow> u32 \<Rightarrow> u8 list \<Rightarrow> u32 \<Rightarrow> u8 list" where
  "arp_pkt oper sha spa tha tpa =
     le16 (htons 1) @ le16 (htons 0x0800) @ [6, 4] @ le16 (htons oper) @ sha @ le32 spa @ tha @ le32 tpa"

definition send_arp_request :: "u32 \<Rightarrow> net_link \<Rightarrow> net_link" where
  "send_arp_request target_ip n =
     e1000_send (eth_hdr (replicate 6 0xFF) (my_mac n) ETH_TYPE_ARP @
       arp_pkt 1 (my_mac n) (my_ip n) (replicate 6 0) target_ip) n"

text \<open>\<open>req\<close> are the bytes of the received ARP packet.\<close>

definition send_arp_reply :: "u8 list \<Rightarrow> net_link \<Rightarrow> net_link" where
  "send_arp_reply req n =
     (let sha = take 6 (drop 8 req); spa = rd32 req 14
      in e1000_send (eth_hdr sha (my_mac n) ETH_TYPE_ARP @ arp_pkt 2 (my_mac n) (my_ip n) sha spa) n)"

definition handle_arp :: "u8 list \<Rightarrow> net_link \<Rightarrow> net_link" where
  "handle_arp packet n =
     (let arp = drop 14 packet; oper = htons (rd16 arp 6)
      in if oper = 1 \<and> rd32 arp 24 = my_ip n then send_arp_reply arp n
         else if oper = 2 \<and> rd32 arp 14 = gateway_ip n
         then n\<lparr>gateway_mac := take 6 (drop 8 arp), gateway_mac_known := True\<rparr>
         else n)"

definition net_init :: "net_link \<Rightarrow> net_link" where
  "net_init n = send_arp_request (gateway_ip n) n"

section \<open>IP\<close>

definition ip_hdr :: "net_link \<Rightarrow> u16 \<Rightarrow> u8 \<Rightarrow> u32 \<Rightarrow> u16 \<Rightarrow> u8 list" where
  "ip_hdr n len proto dst chk =
     [0x45, 0] @ le16 (htons len) @ le16 (htons (ip_id n)) @ le16 0 @ [64, proto] @ le16 chk @
     le32 (my_ip n) @ le32 dst"

definition gateway_eth :: "net_link \<Rightarrow> u8 list" where
  "gateway_eth n = eth_hdr (if gateway_mac_known n then gateway_mac n else replicate 6 0xFF) (my_mac n) ETH_TYPE_IP"

text \<open>The buffer of \<open>ip_send\<close> has 1500 bytes, of which 34 are headers.\<close>

definition ip_send :: "u32 \<Rightarrow> u8 \<Rightarrow> u8 list \<Rightarrow> net_link \<Rightarrow> net_link option" where
  "ip_send dst proto data n =
     (if 1500 < 34 + length data then None
      else
        (let hdr = ip_hdr n (of_nat (20 + length data)) proto dst
         in Some ((e1000_send (gateway_eth n @ hdr (checksum (hdr 0)) @ data) n)\<lparr>ip_id := ip_id n + 1\<rparr>)))"

definition net_ping :: "net_link \<Rightarrow> net_link" where
  "net_ping n =
     (let hdr = ip_hdr (n\<lparr>ip_id := 1\<rparr>) 28 1 (gateway_ip n);
          icmp = (\<lambda>chk. [8, 0] @ le16 chk @ le16 (htons 0x1234) @ le16 (htons 1))
      in e1000_send (gateway_eth n @ hdr (checksum (hdr 0)) @ icmp (checksum (icmp 0))) n)"

lemma checksum_stored:
  assumes "even (length xs)" "length xs + length ys \<le> 65535" "c = checksum (xs @ [0, 0] @ ys)"
  shows "checksum (xs @ le16 c @ ys) = 0"
  using checksum_field [of 0 xs ys c] assms by (simp add: checksum_def)

lemma ip_hdr_checksum: "checksum (ip_hdr n len proto dst (checksum (ip_hdr n len proto dst 0))) = 0"
proof -
  let ?xs = "[0x45, 0] @ le16 (htons len) @ le16 (htons (ip_id n)) @ le16 0 @ [64, proto]"
  let ?ys = "le32 (my_ip n) @ le32 dst"
  have hdr: "ip_hdr n len proto dst c = ?xs @ le16 c @ ?ys" for c by (simp add: ip_hdr_def)
  moreover have "le16 0 = [0, 0]" by (simp add: le16_def)
  ultimately have "checksum (ip_hdr n len proto dst 0) = checksum (?xs @ [0, 0] @ ?ys)" by metis
  then have "checksum (?xs @ le16 (checksum (ip_hdr n len proto dst 0)) @ ?ys) = 0"
    by (intro checksum_stored) (simp_all add: le16_def le32_def)
  then show ?thesis unfolding hdr [of "checksum (ip_hdr n len proto dst 0)"] .
qed

lemma length_ip_hdr [simp]: "length (ip_hdr n len proto dst c) = 20"
  by (simp add: ip_hdr_def le16_def le32_def)

lemma length_gateway_eth: "length (gateway_mac n) = 6 \<Longrightarrow> length (my_mac n) = 6 \<Longrightarrow> length (gateway_eth n) = 14"
  by (simp add: gateway_eth_def eth_hdr_def le16_def)

end
