(* ===== verification/Udp.thy ===== *)
theory Udp
  imports Ip
begin

text \<open>
  UDP (\<open>src/src/kernel/udp.cpp\<close>).  A handler is a value of type \<open>'h\<close>; a delivery records the handler,
  the sender and the payload.  A received packet is given by the bytes from the UDP header to the end
  of the receive buffer; a payload that runs past them is the outcome \<open>None\<close>.
\<close>

type_synonym 'h udp_ports = "u16 \<Rightarrow> 'h option"
type_synonym 'h udp_delivery = "'h \<times> u32 \<times> u16 \<times> u8 list"

abbreviation UDP_MAX_PACKET :: nat where "UDP_MAX_PACKET \<equiv> 1472"

definition udp_checksum :: "u32 \<Rightarrow> u32 \<Rightarrow> u8 list \<Rightarrow> u8 list \<Rightarrow> u16" where
  "udp_checksum src_ip dst_ip udp payload =
     (let words = (\<lambda>bs. sum_list (map (\<lambda>i. ucast (htons (rd16 bs (2 * i)))) [0..<length bs div 2]) :: u32);
          pseudo = le32 src_ip @ le32 dst_ip @ [0, 17] @ take 2 (drop 4 udp);
          s = words pseudo + words udp + words payload;
          s' = (if odd (length payload) then s + push_bit 8 (ucast (last payload)) else s)
      in htons (NOT (ucast (fold_carry s'))))"

definition udp_bind :: "u16 \<Rightarrow> 'h \<Rightarrow> 'h udp_ports \<Rightarrow> 'h udp_ports" where
  "udp_bind port handler t = t(port := Some handler)"

definition udp_unbind :: "u16 \<Rightarrow> 'h udp_ports \<Rightarrow> 'h udp_ports" where
  "udp_unbind port t = t(port := None)"

definition udp_init :: "'h udp_ports \<Rightarrow> 'h udp_ports" where
  "udp_init t = (\<lambda>_. None)"

definition udp_receive :: "'h udp_ports \<Rightarrow> u32 \<Rightarrow> u8 list \<Rightarrow> u16 \<Rightarrow> 'h udp_delivery list option" where
  "udp_receive t src_ip packet len =
     (if len < 8 then Some []
      else if length packet < 8 then None
      else
        (let dst_port = htons (rd16 packet 2); src_port = htons (rd16 packet 0); udp_len = htons (rd16 packet 4)
         in if udp_len < 8 then Some []
            else case t dst_port of
                   None \<Rightarrow> Some []
                 | Some h \<Rightarrow>
                     (let payload_len = unat (udp_len - 8)
                      in if length packet < 8 + payload_len then None
                         else Some [(h, src_ip, src_port, take payload_len (drop 8 packet))])))"

definition udp_packet :: "u16 \<Rightarrow> u16 \<Rightarrow> u8 list \<Rightarrow> u8 list" where
  "udp_packet src_port dst_port data =
     le16 (htons src_port) @ le16 (htons dst_port) @ le16 (htons (of_nat (8 + length data))) @ le16 0 @ data"

definition udp_send :: "u16 \<Rightarrow> u32 \<Rightarrow> u16 \<Rightarrow> u8 list \<Rightarrow> net_link \<Rightarrow> net_link option" where
  "udp_send src_port dst_ip dst_port data n =
     (if UDP_MAX_PACKET < length data then Some n else ip_send dst_ip 17 (udp_packet src_port dst_port data) n)"

lemma udp_fields:
  "rd16 (udp_packet s d data) 0 = htons s" "rd16 (udp_packet s d data) 2 = htons d"
  "rd16 (udp_packet s d data) 4 = htons (of_nat (8 + length data))"
  "length (udp_packet s d data) = 8 + length data" "drop 8 (udp_packet s d data) = data"
  using rd16_le16 [of "[]" "htons s"] rd16_le16 [of "le16 (htons s)" "htons d"]
    rd16_le16 [of "le16 (htons s) @ le16 (htons d)"]
  by (simp_all add: udp_packet_def)

end
