(* ===== verification/Tcp.thy ===== *)
theory Tcp
  imports Inet
begin

text \<open>
  TCP (\<open>src/src/kernel/tcp.cpp\<close>): the table of control blocks, segments as bytes, the handler of
  received segments and the calls of the socket layer.  A control block is named by its index in the
  table.  \<open>ip_send\<close> is the log \<open>tcp_out\<close> of destination and bytes.  \<open>kmalloc\<close> answers through
  parameters: \<open>buf\<close> is the memory of a receive buffer, \<open>None\<close> the null pointer, and \<open>mem\<close> tells whether
  segments can be allocated.  The outcome \<open>None\<close> of an operation is a store through the null pointer,
  which the code does not test for, a read past the end of the received packet, or a segment that
  \<open>ip_send\<close> would copy over the end of its buffer of 1500 bytes, 34 of which are headers.
\<close>

datatype tcp_state =
  TCP_CLOSED | TCP_LISTEN | TCP_SYN_SENT | TCP_SYN_RECEIVED | TCP_ESTABLISHED | TCP_FIN_WAIT_1
| TCP_FIN_WAIT_2 | TCP_CLOSE_WAIT | TCP_LAST_ACK | TCP_TIME_WAIT

record tcp_tcb =
  tcb_used :: bool
  local_ip :: u32
  remote_ip :: u32
  local_port :: u16
  remote_port :: u16
  snd_una :: u32
  snd_nxt :: u32
  rcv_nxt :: u32
  snd_wnd :: u16
  rcv_wnd :: u16
  tcb_state :: tcp_state
  rx_buffer :: "(nat \<Rightarrow> u8) option"
  rx_len :: u32
  rx_capacity :: u32

record tcp_sys =
  tcp_table :: "tcp_tcb list"
  tcp_out :: "(u32 \<times> u8 list) list"

abbreviation MAX_TCP_CONNECTIONS :: nat where "MAX_TCP_CONNECTIONS \<equiv> 16"
abbreviation TCP_RX_BUFFER_SIZE :: u32 where "TCP_RX_BUFFER_SIZE \<equiv> 32768"
abbreviation INITIAL_SEQ :: u32 where "INITIAL_SEQ \<equiv> 0x1000"
abbreviation TCP_FIN :: u8 where "TCP_FIN \<equiv> 0x01"
abbreviation TCP_SYN :: u8 where "TCP_SYN \<equiv> 0x02"
abbreviation TCP_PSH :: u8 where "TCP_PSH \<equiv> 0x08"
abbreviation TCP_ACK :: u8 where "TCP_ACK \<equiv> 0x10"

definition zero_tcb :: tcp_tcb where
  "zero_tcb = \<lparr>tcb_used = False, local_ip = 0, remote_ip = 0, local_port = 0, remote_port = 0, snd_una = 0,
     snd_nxt = 0, rcv_nxt = 0, snd_wnd = 0, rcv_wnd = 0, tcb_state = TCP_CLOSED, rx_buffer = None, rx_len = 0,
     rx_capacity = 0\<rparr>"

definition on_tcb :: "nat \<Rightarrow> (tcp_tcb \<Rightarrow> tcp_tcb) \<Rightarrow> tcp_sys \<Rightarrow> tcp_sys" where
  "on_tcb i f st = st\<lparr>tcp_table := (tcp_table st)[i := f (tcp_table st ! i)]\<rparr>"

section \<open>The table\<close>

definition tcp_init :: "tcp_sys \<Rightarrow> tcp_sys" where
  "tcp_init st = st\<lparr>tcp_table := map (\<lambda>t. t\<lparr>tcb_used := False\<rparr>) (tcp_table st)\<rparr>"

definition tcp_alloc_tcb :: "(nat \<Rightarrow> u8) option \<Rightarrow> tcp_sys \<Rightarrow> nat option \<times> tcp_sys" where
  "tcp_alloc_tcb buf st =
     (case find (\<lambda>i. \<not> tcb_used (tcp_table st ! i)) [0..<length (tcp_table st)] of
        None \<Rightarrow> (None, st)
      | Some i \<Rightarrow> (Some i, on_tcb i (\<lambda>_. zero_tcb\<lparr>tcb_used := True, rx_capacity := TCP_RX_BUFFER_SIZE,
                              rx_buffer := buf, rx_len := 0\<rparr>) st))"

definition tcp_free_tcb :: "nat \<Rightarrow> tcp_sys \<Rightarrow> tcp_sys" where
  "tcp_free_tcb i st = (if tcb_used (tcp_table st ! i) then on_tcb i (\<lambda>_. zero_tcb) st else st)"

definition tcp_find :: "tcp_sys \<Rightarrow> u32 \<Rightarrow> u32 \<Rightarrow> u16 \<Rightarrow> u16 \<Rightarrow> nat option" where
  "tcp_find st src_ip dst_ip src_port dst_port =
     find (\<lambda>i. let t = tcp_table st ! i
               in tcb_used t \<and> local_ip t = dst_ip \<and> remote_ip t = src_ip \<and> local_port t = dst_port \<and>
                  remote_port t = src_port) [0..<length (tcp_table st)]"

section \<open>Segments\<close>

text \<open>The words of the pseudo header.\<close>

definition pseudo_sum :: "u32 \<Rightarrow> u32 \<Rightarrow> u16 \<Rightarrow> u32" where
  "pseudo_sum src_ip dst_ip tcp_len =
     (drop_bit 16 src_ip AND 0xFFFF) + (src_ip AND 0xFFFF) + (drop_bit 16 dst_ip AND 0xFFFF) + (dst_ip AND 0xFFFF)
     + ucast (htons 6) + ucast (htons tcp_len)"

definition tcp_checksum :: "u32 \<Rightarrow> u32 \<Rightarrow> u8 list \<Rightarrow> u16 \<Rightarrow> u16" where
  "tcp_checksum src_ip dst_ip tcp tcp_len =
     NOT (ucast (fold_carry (sum_words (pseudo_sum src_ip dst_ip tcp_len) (take (unat tcp_len) tcp))))"

definition tcp_options :: "u8 \<Rightarrow> u8 list" where
  "tcp_options flags = (if flags AND TCP_SYN \<noteq> 0 then [2, 4] @ le16 (htons 1460) else [])"

definition tcp_window :: "tcp_tcb \<Rightarrow> u16" where
  "tcp_window t = (let free_space = rx_capacity t - rx_len t
                   in htons (ucast (if free_space > 0xFFFF then 0xFFFF else free_space)))"

text \<open>The bytes of a segment with a given checksum field.\<close>

definition tcp_bytes :: "tcp_tcb \<Rightarrow> u8 \<Rightarrow> u8 list \<Rightarrow> u16 \<Rightarrow> u8 list" where
  "tcp_bytes t flags data chk =
     le16 (local_port t) @ le16 (remote_port t) @ le32 (htonl (snd_nxt t)) @ le32 (htonl (rcv_nxt t)) @
     [push_bit 4 (of_nat ((20 + length (tcp_options flags)) div 4)), flags] @ le16 (tcp_window t) @
     le16 chk @ le16 0 @ tcp_options flags @ data"

definition tcp_segment :: "tcp_tcb \<Rightarrow> u8 \<Rightarrow> u8 list \<Rightarrow> u8 list" where
  "tcp_segment t flags data =
     (let total_len = of_nat (20 + length (tcp_options flags) + length data)
      in tcp_bytes t flags data (tcp_checksum (local_ip t) (remote_ip t) (tcp_bytes t flags data 0) total_len))"

definition tcp_send_segment :: "bool \<Rightarrow> nat \<Rightarrow> u8 \<Rightarrow> u8 list \<Rightarrow> tcp_sys \<Rightarrow> tcp_sys option" where
  "tcp_send_segment mem i flags data st =
     (let t = tcp_table st ! i;
          total_len = of_nat (20 + length (tcp_options flags) + length data) :: u16
      in if \<not> mem \<or> 1500 < 34 + unat total_len then None
         else Some (on_tcb i
              (\<lambda>t. t\<lparr>snd_nxt := (if flags AND TCP_SYN \<noteq> 0 \<or> flags AND TCP_FIN \<noteq> 0 then snd_nxt t + 1
                               else snd_nxt t + of_nat (length data))\<rparr>)
              (st\<lparr>tcp_out := tcp_out st @ [(remote_ip t, take (unat total_len) (tcp_segment t flags data))]\<rparr>)))"

definition tcp_connect ::
    "(nat \<Rightarrow> u8) option \<Rightarrow> bool \<Rightarrow> u32 \<Rightarrow> u32 \<Rightarrow> u16 \<Rightarrow> u32 \<Rightarrow> u16 \<Rightarrow> tcp_sys \<Rightarrow> (nat option \<times> tcp_sys) option" where
  "tcp_connect buf mem my_ip lip lport rip rport st =
     (case tcp_alloc_tcb buf st of
        (None, st1) \<Rightarrow> Some (None, st1)
      | (Some i, st1) \<Rightarrow>
          map_option (\<lambda>st'. (Some i, st'))
            (tcp_send_segment mem i TCP_SYN []
               (on_tcb i (\<lambda>t. t\<lparr>local_ip := (if lip = 0 then my_ip else lip), remote_ip := rip,
                   local_port := htons lport, remote_port := htons rport, snd_nxt := INITIAL_SEQ,
                   snd_una := INITIAL_SEQ, rcv_nxt := 0, tcb_state := TCP_SYN_SENT\<rparr>) st1)))"

section \<open>Received segments\<close>

text \<open>
  Copying \<open>n\<close> bytes of the packet from position \<open>from\<close> behind the \<open>rx_len\<close> bytes of the receive
  buffer; \<open>rx_len\<close> and \<open>rcv_nxt\<close> advance.
\<close>

definition rx_append :: "u8 list \<Rightarrow> nat \<Rightarrow> u32 \<Rightarrow> tcp_tcb \<Rightarrow> tcp_tcb option" where
  "rx_append packet from n t =
     (case rx_buffer t of
        None \<Rightarrow> None
      | Some b \<Rightarrow>
          if length packet < from + unat n then None
          else Some (t\<lparr>rx_buffer := Some (\<lambda>k. if unat (rx_len t) \<le> k \<and> k < unat (rx_len t) + unat n
                                              then packet ! (from + (k - unat (rx_len t))) else b k),
                       rx_len := rx_len t + n, rcv_nxt := rcv_nxt t + n\<rparr>))"

definition put_tcb :: "nat \<Rightarrow> tcp_tcb \<Rightarrow> tcp_sys \<Rightarrow> tcp_sys" where
  "put_tcb i t st = on_tcb i (\<lambda>_. t) st"

text \<open>The payload of a segment in state \<open>TCP_ESTABLISHED\<close>.\<close>

definition tcp_payload :: "bool \<Rightarrow> nat \<Rightarrow> u8 list \<Rightarrow> nat \<Rightarrow> u32 \<Rightarrow> u32 \<Rightarrow> tcp_sys \<Rightarrow> tcp_sys option" where
  "tcp_payload mem i packet hdr_len data_len seg_seq st =
     (let t = tcp_table st ! i
      in if seg_seq = rcv_nxt t then
           if rx_len t + data_len \<le> rx_capacity t then
             do { t' \<leftarrow> rx_append packet hdr_len data_len t;
                  tcp_send_segment mem i TCP_ACK [] (put_tcb i t' st) }
           else Some st
         else if seg_seq < rcv_nxt t then
           (let overlap = rcv_nxt t - seg_seq; new_data_len = data_len - overlap
            in do { t' \<leftarrow> (if data_len > overlap \<and> rx_len t + new_data_len \<le> rx_capacity t
                          then rx_append packet (hdr_len + unat overlap) new_data_len t else Some t);
                    tcp_send_segment mem i TCP_ACK [] (put_tcb i t' st) })
         else tcp_send_segment mem i TCP_ACK [] st)"

text \<open>A FIN: the sequence number advances, the answer goes out, then the state changes.\<close>

definition tcp_fin :: "bool \<Rightarrow> nat \<Rightarrow> tcp_state \<Rightarrow> tcp_sys \<Rightarrow> tcp_sys option" where
  "tcp_fin mem i s st =
     map_option (on_tcb i (\<lambda>t. t\<lparr>tcb_state := s\<rparr>))
       (tcp_send_segment mem i TCP_ACK [] (on_tcb i (\<lambda>t. t\<lparr>rcv_nxt := rcv_nxt t + 1\<rparr>) st))"

definition tcp_established ::
    "bool \<Rightarrow> nat \<Rightarrow> u8 list \<Rightarrow> nat \<Rightarrow> u16 \<Rightarrow> u8 \<Rightarrow> u32 \<Rightarrow> u32 \<Rightarrow> tcp_sys \<Rightarrow> tcp_sys option" where
  "tcp_established mem i packet hdr_len data_len flags seg_seq seg_ack st =
     (let st1 = on_tcb i (\<lambda>t. if flags AND TCP_ACK \<noteq> 0 \<and> seg_ack > snd_una t \<and> seg_ack \<le> snd_nxt t
                                then t\<lparr>snd_una := seg_ack\<rparr> else t) st
      in do { st2 \<leftarrow> (if data_len > 0 then tcp_payload mem i packet hdr_len (ucast data_len) seg_seq st1
                     else Some st1);
              if flags AND TCP_FIN \<noteq> 0 then tcp_fin mem i TCP_CLOSE_WAIT st2 else Some st2 })"

definition tcp_handle_packet :: "bool \<Rightarrow> u32 \<Rightarrow> u32 \<Rightarrow> u8 list \<Rightarrow> tcp_sys \<Rightarrow> tcp_sys option" where
  "tcp_handle_packet mem src_ip dst_ip packet st =
     (if length packet < 20 then Some st
      else case tcp_find st src_ip dst_ip (rd16 packet 0) (rd16 packet 2) of
             None \<Rightarrow> Some st
           | Some i \<Rightarrow>
               (let hdr_len = unat (drop_bit 4 (packet ! 12)) * 4;
                    data_len = of_nat (length packet) - of_nat hdr_len :: u16;
                    seg_seq = htonl (rd32 packet 4); seg_ack = htonl (rd32 packet 8);
                    flags = packet ! 13
                in case tcb_state (tcp_table st ! i) of
                     TCP_SYN_SENT \<Rightarrow>
                       if flags AND (TCP_SYN OR TCP_ACK) = TCP_SYN OR TCP_ACK then
                         tcp_send_segment mem i TCP_ACK []
                           (on_tcb i (\<lambda>t. t\<lparr>rcv_nxt := seg_seq + 1, snd_una := seg_ack,
                                            tcb_state := TCP_ESTABLISHED\<rparr>) st)
                       else Some st
                   | TCP_ESTABLISHED \<Rightarrow>
                       tcp_established mem i packet hdr_len data_len flags seg_seq seg_ack st
                   | TCP_FIN_WAIT_1 \<Rightarrow>
                       (let st1 = (if flags AND TCP_ACK \<noteq> 0
                                   then on_tcb i (\<lambda>t. t\<lparr>tcb_state := TCP_FIN_WAIT_2\<rparr>) st else st)
                        in if flags AND TCP_FIN \<noteq> 0 then tcp_fin mem i TCP_TIME_WAIT st1 else Some st1)
                   | TCP_FIN_WAIT_2 \<Rightarrow>
                       if flags AND TCP_FIN \<noteq> 0 then tcp_fin mem i TCP_TIME_WAIT st else Some st
                   | TCP_LAST_ACK \<Rightarrow>
                       if flags AND TCP_ACK \<noteq> 0
                       then Some (tcp_free_tcb i (on_tcb i (\<lambda>t. t\<lparr>tcb_state := TCP_CLOSED\<rparr>) st))
                       else Some st
                   | _ \<Rightarrow> Some st))"

section \<open>Calls of the socket layer\<close>

text \<open>The connection is an index, or \<open>None\<close> for the null pointer.\<close>

definition tcp_send_data :: "bool \<Rightarrow> nat option \<Rightarrow> u8 list \<Rightarrow> tcp_sys \<Rightarrow> (int \<times> tcp_sys) option" where
  "tcp_send_data mem p data st =
     (case p of
        None \<Rightarrow> Some (- 1, st)
      | Some i \<Rightarrow>
          if tcb_state (tcp_table st ! i) \<noteq> TCP_ESTABLISHED then Some (- 1, st)
          else map_option (\<lambda>st'. (int (length data), st')) (tcp_send_segment mem i (TCP_ACK OR TCP_PSH) data st))"

text \<open>The answer and the bytes stored in the caller's buffer.\<close>

definition tcp_read_data :: "nat option \<Rightarrow> u16 \<Rightarrow> tcp_sys \<Rightarrow> (int \<times> u8 list \<times> tcp_sys) option" where
  "tcp_read_data p len st =
     (case p of
        None \<Rightarrow> Some (- 1, [], st)
      | Some i \<Rightarrow>
          (let t = tcp_table st ! i;
               to_read = (ucast (if ucast len < rx_len t then ucast len else rx_len t) :: u16)
           in if to_read > 0 then
                (case rx_buffer t of
                   None \<Rightarrow> None
                 | Some b \<Rightarrow>
                     (let remaining = rx_len t - ucast to_read
                      in Some (uint to_read, map b [0..<unat to_read],
                           put_tcb i (t\<lparr>rx_buffer := Some (if remaining > 0
                                          then (\<lambda>k. if k < unat remaining then b (k + unat to_read) else b k) else b),
                                        rx_len := remaining\<rparr>) st)))
              else Some (0, [], st)))"

definition tcp_close :: "bool \<Rightarrow> nat option \<Rightarrow> tcp_sys \<Rightarrow> tcp_sys option" where
  "tcp_close mem p st =
     (case p of
        None \<Rightarrow> Some st
      | Some i \<Rightarrow>
          if tcb_state (tcp_table st ! i) = TCP_ESTABLISHED then
            tcp_send_segment mem i (TCP_FIN OR TCP_ACK) [] (on_tcb i (\<lambda>t. t\<lparr>tcb_state := TCP_FIN_WAIT_1\<rparr>) st)
          else if tcb_state (tcp_table st ! i) = TCP_CLOSE_WAIT then
            tcp_send_segment mem i (TCP_FIN OR TCP_ACK) [] (on_tcb i (\<lambda>t. t\<lparr>tcb_state := TCP_LAST_ACK\<rparr>) st)
          else Some st)"

definition tcp_is_connected :: "nat option \<Rightarrow> tcp_sys \<Rightarrow> bool" where
  "tcp_is_connected p st \<longleftrightarrow>
     (case p of None \<Rightarrow> False | Some i \<Rightarrow> tcb_state (tcp_table st ! i) \<in> {TCP_ESTABLISHED, TCP_CLOSE_WAIT})"

definition tcp_has_data :: "nat option \<Rightarrow> tcp_sys \<Rightarrow> bool" where
  "tcp_has_data p st \<longleftrightarrow> (case p of None \<Rightarrow> False | Some i \<Rightarrow> rx_len (tcp_table st ! i) > 0)"

section \<open>What an operation leaves alone\<close>

definition only_tcb :: "nat \<Rightarrow> tcp_sys \<Rightarrow> tcp_sys \<Rightarrow> bool" where
  "only_tcb i st st' \<longleftrightarrow>
     length (tcp_table st') = length (tcp_table st) \<and> (\<forall>k. k \<noteq> i \<longrightarrow> tcp_table st' ! k = tcp_table st ! k)"

lemma only_tcb_refl [simp]: "only_tcb i st st"
  by (simp add: only_tcb_def)

lemma only_tcb_trans: "only_tcb i a b \<Longrightarrow> only_tcb i b c \<Longrightarrow> only_tcb i a c"
  by (simp add: only_tcb_def)

lemma on_tcb_simps [simp]:
  "length (tcp_table (on_tcb i f st)) = length (tcp_table st)"
  "i < length (tcp_table st) \<Longrightarrow> tcp_table (on_tcb i f st) ! i = f (tcp_table st ! i)"
  "k \<noteq> i \<Longrightarrow> tcp_table (on_tcb i f st) ! k = tcp_table st ! k"
  "only_tcb i st (on_tcb i f st)"
  by (simp_all add: on_tcb_def only_tcb_def)

lemma only_tcb_on [simp]:
  "only_tcb i (on_tcb i f st) st' = only_tcb i st st'" "only_tcb i st (on_tcb i f st') = only_tcb i st st'"
  by (auto simp: on_tcb_def only_tcb_def)

lemma tcp_send_segment_SomeD:
  assumes "tcp_send_segment mem i flags data st = Some st'"
  shows "only_tcb i st st'" "i < length (tcp_table st) \<Longrightarrow> \<exists>x. tcp_table st' ! i = (tcp_table st ! i)\<lparr>snd_nxt := x\<rparr>"
  using assms by (auto simp: tcp_send_segment_def Let_def on_tcb_def only_tcb_def split: if_splits)

text \<open>A condition on a control block that the send sequence numbers do not matter for.\<close>

definition snd_free :: "(tcp_tcb \<Rightarrow> bool) \<Rightarrow> bool" where
  "snd_free P \<longleftrightarrow> (\<forall>t x y. P (t\<lparr>snd_nxt := x, snd_una := y\<rparr>) = P t)"

lemma snd_freeD: "snd_free P \<Longrightarrow> P (t\<lparr>snd_nxt := x\<rparr>) = P t" "snd_free P \<Longrightarrow> P (t\<lparr>snd_una := x\<rparr>) = P t"
proof -
  assume P: "snd_free P"
  have "P (t\<lparr>snd_nxt := x, snd_una := snd_una t\<rparr>) = P t" "P (t\<lparr>snd_nxt := snd_nxt t, snd_una := x\<rparr>) = P t"
    using P unfolding snd_free_def by blast+
  then show "P (t\<lparr>snd_nxt := x\<rparr>) = P t" "P (t\<lparr>snd_una := x\<rparr>) = P t" by simp_all
qed

lemma tcp_send_segment_keeps:
  "snd_free P \<Longrightarrow> tcp_send_segment mem i flags data st = Some st' \<Longrightarrow> i < length (tcp_table st) \<Longrightarrow>
   P (tcp_table st ! i) \<Longrightarrow> only_tcb i st st' \<and> P (tcp_table st' ! i)"
  using tcp_send_segment_SomeD snd_freeD(1) by metis

lemma tcp_fin_keeps:
  assumes "tcp_fin mem i s st = Some st'" "i < length (tcp_table st)"
    and P: "snd_free P" "\<And>t n. P t \<Longrightarrow> P (t\<lparr>rcv_nxt := n, tcb_state := s\<rparr>)" "P (tcp_table st ! i)"
  shows "only_tcb i st st' \<and> P (tcp_table st' ! i)"
proof -
  let ?Q = "\<lambda>t. P (t\<lparr>tcb_state := s\<rparr>)"
  let ?s1 = "on_tcb i (\<lambda>t. t\<lparr>rcv_nxt := rcv_nxt t + 1\<rparr>) st"
  obtain s2 where s2: "tcp_send_segment mem i TCP_ACK [] ?s1 = Some s2"
      "st' = on_tcb i (\<lambda>t. t\<lparr>tcb_state := s\<rparr>) s2"
    using assms(1) by (auto simp: tcp_fin_def)
  have "snd_free ?Q"
    unfolding snd_free_def
  proof (intro allI)
    fix t :: tcp_tcb and x y
    have "P (t\<lparr>tcb_state := s, snd_nxt := x, snd_una := y\<rparr>) = P (t\<lparr>tcb_state := s\<rparr>)"
      using P(1) unfolding snd_free_def by blast
    also have "t\<lparr>tcb_state := s, snd_nxt := x, snd_una := y\<rparr> = t\<lparr>snd_nxt := x, snd_una := y, tcb_state := s\<rparr>" by simp
    finally show "?Q (t\<lparr>snd_nxt := x, snd_una := y\<rparr>) = ?Q t" .
  qed
  moreover have "?Q (tcp_table ?s1 ! i)" using assms(2) P(2,3) by simp
  ultimately have "only_tcb i ?s1 s2 \<and> ?Q (tcp_table s2 ! i)"
    using tcp_send_segment_keeps [where P = ?Q, OF _ s2(1)] assms(2) by simp
  moreover have "i < length (tcp_table s2)" using \<open>only_tcb i ?s1 s2 \<and> _\<close> assms(2) by (simp add: only_tcb_def)
  moreover have "only_tcb i st st'"
    using \<open>only_tcb i ?s1 s2 \<and> _\<close> unfolding s2(2)
    by (intro only_tcb_trans [OF only_tcb_trans [OF on_tcb_simps(4)] on_tcb_simps(4)]) (rule conjunct1)
  ultimately show ?thesis using s2(2) by simp
qed

section \<open>The stream of received bytes\<close>

definition rx_bytes :: "tcp_tcb \<Rightarrow> u8 list" where
  "rx_bytes t = map (the (rx_buffer t)) [0..<unat (rx_len t)]"

definition hdr_len_of :: "u8 list \<Rightarrow> nat" where
  "hdr_len_of packet = unat (drop_bit 4 (packet ! 12)) * 4"

text \<open>
  Connection state \<open>t\<close> after \<open>out\<close> has been delivered of the stream \<open>S\<close> whose first byte has the sequence
  number \<open>base\<close>.
\<close>

definition stream_ok :: "u8 list \<Rightarrow> u32 \<Rightarrow> u8 list \<Rightarrow> tcp_tcb \<Rightarrow> bool" where
  "stream_ok S base out t \<longleftrightarrow>
     tcb_used t \<and> rx_buffer t \<noteq> None \<and> rx_capacity t = TCP_RX_BUFFER_SIZE \<and> unat (rx_len t) \<le> 32768 \<and>
     out @ rx_bytes t = take (length out + unat (rx_len t)) S \<and> length out + unat (rx_len t) \<le> length S \<and>
     tcb_state t \<noteq> TCP_SYN_SENT \<and>
     (tcb_state t = TCP_ESTABLISHED \<longrightarrow> rcv_nxt t = base + of_nat (length out + unat (rx_len t)))"

lemma snd_free_stream: "snd_free (stream_ok S base out)"
  by (simp add: snd_free_def stream_ok_def rx_bytes_def)

lemma rx_append_stream:
  assumes t: "stream_ok S base out t" and app: "rx_append packet from m t = Some t'"
    and cap: "unat (rx_len t) + unat m \<le> 32768"
    and room: "length out + unat (rx_len t) + unat m \<le> length S"
    and bytes: "\<And>j. j < unat m \<Longrightarrow> packet ! (from + j) = S ! (length out + unat (rx_len t) + j)"
  shows "stream_ok S base out t'"
proof -
  let ?l = "unat (rx_len t)" let ?n = "length out + ?l"
  obtain b where b: "rx_buffer t = Some b" using t by (auto simp: stream_ok_def)
  have len: "unat (rx_len t + m) = ?l + unat m" using cap by (simp add: unat_word_ariths)
  let ?b' = "\<lambda>k. if ?l \<le> k \<and> k < ?l + unat m then packet ! (from + (k - ?l)) else b k"
  have t': "t' = t\<lparr>rx_buffer := Some ?b', rx_len := rx_len t + m, rcv_nxt := rcv_nxt t + m\<rparr>"
    using app b by (simp add: rx_append_def split: if_splits)
  have "[0..<?l + unat m] = [0..<?l] @ map (\<lambda>j. j + ?l) [0..<unat m]"
    using upt_add_eq_append [of 0 ?l "unat m"] map_add_upt [of ?l "unat m"] by (simp only: le0 add.commute [of "unat m"])
  then have "rx_bytes t' = rx_bytes t @ map (\<lambda>j. packet ! (from + j)) [0..<unat m]"
    using b by (simp add: rx_bytes_def t' len)
  moreover have "map (\<lambda>j. packet ! (from + j)) [0..<unat m] = take (unat m) (drop ?n S)"
    using bytes room by (intro nth_equalityI) simp_all
  moreover have "out @ rx_bytes t = take ?n S" using t by (simp add: stream_ok_def)
  ultimately have "out @ rx_bytes t' = take (?n + unat m) S" by (simp add: take_add flip: append_assoc)
  then show ?thesis using t cap room len by (simp add: stream_ok_def t' add.assoc)
qed

text \<open>The segment carries the bytes of the stream from position \<open>pos\<close> on.\<close>

definition carries :: "u8 list \<Rightarrow> u32 \<Rightarrow> u8 list \<Rightarrow> bool" where
  "carries S base packet \<longleftrightarrow>
     length packet < 65536 \<and> hdr_len_of packet \<le> length packet \<and>
     (hdr_len_of packet < length packet \<longrightarrow>
      (\<exists>pos. htonl (rd32 packet 4) = base + of_nat pos \<and>
         pos + (length packet - hdr_len_of packet) \<le> length S \<and>
         drop (hdr_len_of packet) packet = take (length packet - hdr_len_of packet) (drop pos S)))"

lemma carries_nth:
  "drop h packet = take (length packet - h) (drop pos S) \<Longrightarrow> pos + (length packet - h) \<le> length S \<Longrightarrow>
   j < length packet - h \<Longrightarrow> packet ! (h + j) = S ! (pos + j)"
  by (metis (no_types, lifting) le_add_diff_inverse2 less_imp_le_nat less_diff_conv add.commute nth_drop nth_take
      order.trans le_add1 zero_less_diff add_lessD1)

lemma unat_of_nat_u32: "n < 4294967296 \<Longrightarrow> unat (of_nat n :: u32) = n"
  by (simp add: unsigned_of_nat take_bit_nat_eq_self)

lemma tcp_payload_stream:
  assumes pay: "tcp_payload mem i packet h dl (base + of_nat pos) st = Some st'" and i: "i < length (tcp_table st)"
    and t: "stream_ok S base out (tcp_table st ! i)" "tcb_state (tcp_table st ! i) = TCP_ESTABLISHED"
    and S: "length S \<le> 4294901760" and dl: "unat dl = length packet - h" "length packet < 65536" "h \<le> length packet"
    and data: "pos + (length packet - h) \<le> length S" "drop h packet = take (length packet - h) (drop pos S)"
  shows "only_tcb i st st' \<and> stream_ok S base out (tcp_table st' ! i)"
proof -
  let ?t = "tcp_table st ! i" let ?n = "length out + unat (rx_len ?t)"
  have n: "?n \<le> length S" "unat (rx_len ?t) \<le> 32768" "rx_capacity ?t = 32768" "rcv_nxt ?t = base + of_nat ?n"
    using t by (simp_all add: stream_ok_def)
  have send: "only_tcb i st s' \<and> stream_ok S base out (tcp_table s' ! i)"
    if "tcp_send_segment mem i TCP_ACK [] (put_tcb i t' st) = Some s'" "stream_ok S base out t'" for s' t'
  proof -
    have "only_tcb i (put_tcb i t' st) s' \<and> stream_ok S base out (tcp_table s' ! i)"
      using tcp_send_segment_keeps [OF snd_free_stream that(1)] i that(2) by (simp add: put_tcb_def)
    then show ?thesis using only_tcb_trans on_tcb_simps(4) unfolding put_tcb_def by metis
  qed
  have self: "put_tcb i ?t st = st" by (simp add: put_tcb_def on_tcb_def)
  have app: "stream_ok S base out t'"
    if "rx_append packet (h + k) m ?t = Some t'" "unat m + k = length packet - h" "pos + k = ?n"
      "rx_len ?t + m \<le> rx_capacity ?t" for k m t'
  proof (rule rx_append_stream [OF t(1) that(1)])
    have "unat m < 65536" using that(2) dl by simp
    then have "unat (rx_len ?t + m) = unat (rx_len ?t) + unat m" using n(2) by (simp add: unat_word_ariths)
    then show "unat (rx_len ?t) + unat m \<le> 32768" using that(4) n(3) by (simp add: word_le_nat_alt)
    show "?n + unat m \<le> length S" using that(2,3) data(1) by linarith
    fix j assume "j < unat m"
    then have "packet ! (h + (k + j)) = S ! (pos + (k + j))"
      using carries_nth [OF data(2,1), of "k + j"] that(2) by simp
    moreover have "pos + (k + j) = ?n + j" using that(3) by simp
    ultimately show "packet ! (h + k + j) = S ! (?n + j)" by (simp only: add.assoc)
  qed
  show ?thesis
  proof (cases "pos \<le> ?n")
    case True
    define k where "k = ?n - pos"
    have "k \<le> ?n" by (simp add: k_def)
    then have "unat (of_nat k :: u32) = k" using n(1) S by (intro unat_of_nat_u32) linarith
    moreover have "rcv_nxt ?t - (base + of_nat pos) = of_nat k"
      unfolding k_def of_nat_diff [OF True] n(4) by simp
    ultimately have k: "pos + k = ?n" "rcv_nxt ?t - (base + of_nat pos) = of_nat k" "unat (of_nat k :: u32) = k"
      using True by (simp_all add: k_def)
    show ?thesis
    proof (cases "k = 0")
      case True
      then have "base + of_nat pos = rcv_nxt ?t" using k(1) n(4) by simp
      then show ?thesis using pay app [of 0 dl] send k True dl(1) t(1)
        by (auto simp: tcp_payload_def Let_def split: if_splits option.splits bind_splits)
    next
      case False
      then have ne: "base + of_nat pos \<noteq> rcv_nxt ?t" using k(2,3) by auto
      show ?thesis
      proof (cases "base + of_nat pos < rcv_nxt ?t")
        case less: True
        have "unat (dl - of_nat k) + k = length packet - h" if "of_nat k < dl"
          using that k(3) dl(1) by (simp add: unat_sub word_less_nat_alt less_imp_le_nat word_le_nat_alt)
        note fit = this
        have "Option.bind (if dl > of_nat k \<and> rx_len ?t + (dl - of_nat k) \<le> rx_capacity ?t
              then rx_append packet (h + k) (dl - of_nat k) ?t else Some ?t)
              (\<lambda>t'. tcp_send_segment mem i TCP_ACK [] (put_tcb i t' st)) = Some st'"
          using pay ne less k(2,3) by (simp add: tcp_payload_def Let_def split del: if_split cong: if_cong)
        then obtain t' where t': "(if dl > of_nat k \<and> rx_len ?t + (dl - of_nat k) \<le> rx_capacity ?t
              then rx_append packet (h + k) (dl - of_nat k) ?t else Some ?t) = Some t'"
            "tcp_send_segment mem i TCP_ACK [] (put_tcb i t' st) = Some st'"
          unfolding bind_eq_Some_conv by blast
        have "stream_ok S base out t'"
        proof (cases "dl > of_nat k \<and> rx_len ?t + (dl - of_nat k) \<le> rx_capacity ?t")
          case True
          then show ?thesis using t'(1) app [of k "dl - of_nat k" t'] fit k(1) by simp
        next
          case False
          then show ?thesis using t'(1) t(1) by (simp split: if_splits)
        qed
        then show ?thesis using send t'(2) by blast
      next
        case False
        then show ?thesis using pay ne send [of ?t] t(1) self by (auto simp: tcp_payload_def Let_def)
      qed
    qed
  next
    case False
    define k where "k = pos - ?n"
    have k: "?n + k = pos" "0 < k" "k \<le> length S" using False data(1) by (auto simp: k_def)
    have uk: "unat (of_nat k :: u32) = k" using k S by (intro unat_of_nat_u32) simp
    have diff: "rcv_nxt ?t - (base + of_nat pos) = - of_nat k" 
      unfolding n(4) k(1) [symmetric] of_nat_add [of ?n k] by simp
    have ne: "base + of_nat pos \<noteq> rcv_nxt ?t" using diff uk k(2) by auto
    have "- of_nat k = (of_nat (4294967296 - k) :: u32)" using k(3) S by (simp add: of_nat_diff)
    then have "unat (- of_nat k :: u32) = 4294967296 - k"
      using unat_of_nat_u32 [of "4294967296 - k"] k(2) by simp
    then have "\<not> dl > rcv_nxt ?t - (base + of_nat pos)"
      using diff dl k(3) S by (simp add: word_less_nat_alt)
    then show ?thesis using pay ne send [of ?t] t(1) self
      by (auto simp: tcp_payload_def Let_def split: if_splits)
  qed
qed

lemma unat_data_len:
  "h \<le> n \<Longrightarrow> n < 65536 \<Longrightarrow> unat (of_nat n - of_nat h :: u16) = n - h"
proof -
  assume h: "h \<le> n" "n < 65536"
  then have "of_nat n - of_nat h = (of_nat (n - h) :: u16)" by (simp add: of_nat_diff)
  moreover have "unat (of_nat (n - h) :: u16) = n - h"
    using h(2) by (simp only: unsigned_of_nat) (simp add: take_bit_nat_eq_self)
  ultimately show ?thesis by (simp only:)
qed

lemma unat_ucast_u32: "unat (ucast w :: u32) = unat w" for w :: u16
  using unsigned_less [of w, where 'a = nat]
  by (simp only: unsigned_ucast_eq) (simp add: take_bit_nat_eq_self)

lemma stream_ok_state:
  "stream_ok S base out t \<Longrightarrow> s \<noteq> TCP_SYN_SENT \<Longrightarrow> s \<noteq> TCP_ESTABLISHED \<Longrightarrow>
   stream_ok S base out (t\<lparr>tcb_state := s\<rparr>) \<and> stream_ok S base out (t\<lparr>rcv_nxt := n, tcb_state := s\<rparr>)"
  by (simp add: stream_ok_def rx_bytes_def)

lemma tcp_fin_stream:
  "tcp_fin mem i s st = Some st' \<Longrightarrow> i < length (tcp_table st) \<Longrightarrow> stream_ok S base out (tcp_table st ! i) \<Longrightarrow>
   s \<noteq> TCP_SYN_SENT \<Longrightarrow> s \<noteq> TCP_ESTABLISHED \<Longrightarrow> only_tcb i st st' \<and> stream_ok S base out (tcp_table st' ! i)"
  using tcp_fin_keeps [OF _ _ snd_free_stream [of S base out]] stream_ok_state by blast

lemma tcp_established_stream:
  assumes est: "tcp_established mem i packet (hdr_len_of packet) (of_nat (length packet) - of_nat (hdr_len_of packet))
        flags (htonl (rd32 packet 4)) seg_ack st = Some st'"
    and i: "i < length (tcp_table st)"
    and t: "stream_ok S base out (tcp_table st ! i)" "tcb_state (tcp_table st ! i) = TCP_ESTABLISHED"
    and S: "length S \<le> 4294901760" and c: "carries S base packet"
  shows "only_tcb i st st' \<and> stream_ok S base out (tcp_table st' ! i)"
proof -
  let ?h = "hdr_len_of packet"
  let ?dl = "of_nat (length packet) - of_nat ?h :: u16"
  let ?f = "\<lambda>t. if flags AND TCP_ACK \<noteq> 0 \<and> seg_ack > snd_una t \<and> seg_ack \<le> snd_nxt t
                 then t\<lparr>snd_una := seg_ack\<rparr> else t"
  let ?s1 = "on_tcb i ?f st"
  have dl: "unat ?dl = length packet - ?h" using c by (intro unat_data_len) (simp_all add: carries_def)
  have t1: "stream_ok S base out (tcp_table ?s1 ! i)" "tcb_state (tcp_table ?s1 ! i) = TCP_ESTABLISHED"
    using t i snd_freeD(2) [OF snd_free_stream] by simp_all
  obtain s2 where s2: "(if ?dl > 0 then tcp_payload mem i packet ?h (ucast ?dl) (htonl (rd32 packet 4)) ?s1 else Some ?s1) = Some s2"
      "(if flags AND TCP_FIN \<noteq> 0 then tcp_fin mem i TCP_CLOSE_WAIT s2 else Some s2) = Some st'"
    using est unfolding tcp_established_def Let_def bind_eq_Some_conv by blast
  have "only_tcb i ?s1 s2 \<and> stream_ok S base out (tcp_table s2 ! i)"
  proof (cases "?dl > 0")
    case True
    then have "?h < length packet" using dl by (metis unsigned_0 word_less_nat_alt zero_less_diff)
    then obtain pos where "htonl (rd32 packet 4) = base + of_nat pos" "pos + (length packet - ?h) \<le> length S"
        "drop ?h packet = take (length packet - ?h) (drop pos S)" using c by (auto simp: carries_def)
    then show ?thesis
      using tcp_payload_stream [of mem i packet ?h "ucast ?dl" base pos ?s1 s2 S out] s2(1) True i t1 S dl c
      by (simp add: unat_ucast_u32 carries_def)
  next
    case False
    then show ?thesis using s2(1) t1 by simp
  qed
  then have s12: "only_tcb i st s2" "stream_ok S base out (tcp_table s2 ! i)" "i < length (tcp_table s2)"
    using i only_tcb_trans on_tcb_simps(4) by (auto simp: only_tcb_def)
  show ?thesis
  proof (cases "flags AND TCP_FIN \<noteq> 0")
    case True
    then have "only_tcb i s2 st' \<and> stream_ok S base out (tcp_table st' ! i)"
      using s2(2) s12 tcp_fin_stream [of mem i TCP_CLOSE_WAIT s2 st'] by simp
    then show ?thesis using s12(1) only_tcb_trans by blast
  next
    case False
    then show ?thesis using s2(2) s12 by simp
  qed
qed

lemma tcp_handle_packet_stream:
  assumes h: "tcp_handle_packet mem src dst packet st = Some st'" and i: "i < length (tcp_table st)"
    and found: "tcp_find st src dst (rd16 packet 0) (rd16 packet 2) = Some i"
    and t: "stream_ok S base out (tcp_table st ! i)"
    and S: "length S \<le> 4294901760" and c: "carries S base packet"
    and used: "tcb_used (tcp_table st' ! i)"
  shows "only_tcb i st st' \<and> stream_ok S base out (tcp_table st' ! i)"
proof (cases "length packet < 20")
  case True
  then show ?thesis using h t by (simp add: tcp_handle_packet_def)
next
  case len: False
  note unf = h [unfolded tcp_handle_packet_def, folded hdr_len_of_def]
  note set_state = stream_ok_state [OF t]
  show ?thesis
  proof (cases "tcb_state (tcp_table st ! i)")
    case TCP_ESTABLISHED
    then show ?thesis using unf len found tcp_established_stream [OF _ i t _ S c, of mem "packet ! 13"]
      by (simp add: Let_def)
  next
    case TCP_FIN_WAIT_1
    define s1 where "s1 = (if packet ! 13 AND TCP_ACK \<noteq> 0
                           then on_tcb i (\<lambda>t. t\<lparr>tcb_state := TCP_FIN_WAIT_2\<rparr>) st else st)"
    have s1: "only_tcb i st s1" "stream_ok S base out (tcp_table s1 ! i)" "i < length (tcp_table s1)"
      using i t set_state by (simp_all add: s1_def)
    have "(if packet ! 13 AND TCP_FIN \<noteq> 0 then tcp_fin mem i TCP_TIME_WAIT s1 else Some s1) = Some st'"
      using unf len found TCP_FIN_WAIT_1 unfolding s1_def by (simp add: Let_def split del: if_split)
    then consider "tcp_fin mem i TCP_TIME_WAIT s1 = Some st'" | "s1 = st'" by (auto split: if_splits)
    then show ?thesis
    proof cases
      case 1
      then show ?thesis using tcp_fin_stream [OF 1 s1(3,2)] s1(1) only_tcb_trans by blast
    next
      case 2
      then show ?thesis using s1 by blast
    qed
  next
    case TCP_FIN_WAIT_2
    then show ?thesis using unf len found tcp_fin_stream [OF _ i t] t by (simp add: Let_def split: if_splits)
  next
    case TCP_LAST_ACK
    then show ?thesis using unf len found t i used
      by (auto simp: Let_def tcp_free_tcb_def zero_tcb_def stream_ok_def split: if_splits)
  next
    case TCP_SYN_SENT
    then show ?thesis using t by (simp add: stream_ok_def)
  qed (use unf len found t in \<open>simp_all add: Let_def\<close>)
qed

lemma tcp_read_stream:
  assumes r: "tcp_read_data (Some i) len st = Some (n, bs, st')" and i: "i < length (tcp_table st)"
    and t: "stream_ok S base out (tcp_table st ! i)"
  shows "only_tcb i st st' \<and> stream_ok S base (out @ bs) (tcp_table st' ! i)"
proof -
  let ?t = "tcp_table st ! i"
  define k where "k = (ucast (if ucast len < rx_len ?t then ucast len else rx_len ?t) :: u16)"
  define rest where "rest = rx_len ?t - ucast k"
  obtain b where b: "rx_buffer ?t = Some b" using t by (auto simp: stream_ok_def)
  have k: "unat k \<le> unat (rx_len ?t)"
  proof -
    have "unat k \<le> unat (if ucast len < rx_len ?t then ucast len else rx_len ?t)"
      unfolding k_def by (simp only: unsigned_ucast_eq) (rule take_bit_nat_less_eq_self)
    also have "\<dots> \<le> unat (rx_len ?t)" by (simp add: word_less_nat_alt)
    finally show ?thesis .
  qed
  then have rest: "unat rest = unat (rx_len ?t) - unat k"
    using unat_ucast_u32 [of k] by (simp add: rest_def unat_sub word_le_nat_alt)
  note unf = r [unfolded tcp_read_data_def Let_def, simplified, folded k_def]
  show ?thesis
  proof (cases "k > 0")
    case False
    then have "bs = [] \<and> st' = st" using unf by simp
    then show ?thesis using t by simp
  next
    case True
    define b' where "b' = (if rest > 0 then (\<lambda>j. if j < unat rest then b (j + unat k) else b j) else b)"
    have res: "bs = map b [0..<unat k]" "st' = put_tcb i (?t\<lparr>rx_buffer := Some b', rx_len := rest\<rparr>) st"
      using unf True b unfolding b'_def rest_def by (simp_all split del: if_split)
    have "map b' [0..<unat rest] = map b [unat k..<unat (rx_len ?t)]"
    proof (rule nth_equalityI)
      fix j assume "j < length (map b' [0..<unat rest])"
      then have "j < unat rest" "rest > 0" by (simp_all add: word_less_nat_alt)
      then show "map b' [0..<unat rest] ! j = map b [unat k..<unat (rx_len ?t)] ! j"
        using k rest by (simp add: b'_def add.commute)
    qed (use rest in simp)
    then have "bs @ rx_bytes (?t\<lparr>rx_buffer := Some b', rx_len := rest\<rparr>) = rx_bytes ?t"
      using res(1) b k upt_add_eq_append [of 0 "unat k" "unat (rx_len ?t) - unat k"]
      by (simp add: rx_bytes_def flip: map_append)
    moreover have "length (out @ bs) + unat rest = length out + unat (rx_len ?t)" using res(1) k rest by simp
    moreover have "unat rest \<le> unat (rx_len ?t)" using rest by simp
    moreover have "(out @ bs) @ rx_bytes (?t\<lparr>rx_buffer := Some b', rx_len := rest\<rparr>) = out @ rx_bytes ?t"
      using \<open>bs @ _ = _\<close> by simp
    ultimately have "stream_ok S base (out @ bs) (?t\<lparr>rx_buffer := Some b', rx_len := rest\<rparr>)"
      using t by (simp add: stream_ok_def del: of_nat_add length_append append_assoc)
    then show ?thesis using res(2) i by (simp add: put_tcb_def)
  qed
qed

section \<open>Histories of events\<close>

datatype tcp_event =
  Segment u32 u32 "u8 list"
| Send "nat option" "u8 list"
| Read "nat option" u16
| Close "nat option"
| Connect "(nat \<Rightarrow> u8) option" u32 u32 u16 u32 u16

text \<open>The bytes a read delivers, and the state afterwards.\<close>

fun tcp_do :: "bool \<Rightarrow> tcp_event \<Rightarrow> tcp_sys \<Rightarrow> (u8 list \<times> tcp_sys) option" where
  "tcp_do mem (Segment src dst packet) st = map_option (\<lambda>st'. ([], st')) (tcp_handle_packet mem src dst packet st)"
| "tcp_do mem (Send p data) st = map_option (\<lambda>(_, st'). ([], st')) (tcp_send_data mem p data st)"
| "tcp_do mem (Read p len) st = map_option (\<lambda>(_, bs, st'). (bs, st')) (tcp_read_data p len st)"
| "tcp_do mem (Close p) st = map_option (\<lambda>st'. ([], st')) (tcp_close mem p st)"
| "tcp_do mem (Connect buf my_ip lip lport rip rport) st =
     map_option (\<lambda>(_, st'). ([], st')) (tcp_connect buf mem my_ip lip lport rip rport st)"

lemma bind_SomeD: "Option.bind x f = Some y \<Longrightarrow> \<exists>z. x = Some z \<and> f z = Some y"
  by (cases x) auto

lemma tcp_payload_only: "tcp_payload mem i packet h dl seq st = Some st' \<Longrightarrow> only_tcb i st st'"
  unfolding tcp_payload_def Let_def put_tcb_def
  by (auto split: if_splits dest!: bind_SomeD tcp_send_segment_SomeD(1) intro: only_tcb_trans on_tcb_simps(4))

lemma tcp_fin_only: "tcp_fin mem i s st = Some st' \<Longrightarrow> only_tcb i st st'"
  unfolding tcp_fin_def
  by (auto dest!: tcp_send_segment_SomeD(1) intro: only_tcb_trans on_tcb_simps(4))

lemma tcp_established_only:
  "tcp_established mem i packet h dl flags seq ack st = Some st' \<Longrightarrow> only_tcb i st st'"
  unfolding tcp_established_def Let_def
  by (auto split: if_splits dest!: bind_SomeD tcp_payload_only tcp_fin_only
      intro: only_tcb_trans on_tcb_simps(4))

lemma tcp_handle_packet_only:
  assumes "tcp_handle_packet mem src dst packet st = Some st'"
  shows "st' = st \<or> (\<exists>i. tcp_find st src dst (rd16 packet 0) (rd16 packet 2) = Some i \<and> only_tcb i st st')"
  using assms unfolding tcp_handle_packet_def Let_def tcp_free_tcb_def
  by (auto split: if_splits option.splits tcp_state.splits
      dest!: tcp_send_segment_SomeD(1) tcp_fin_only tcp_established_only intro: only_tcb_trans on_tcb_simps(4))

fun reads :: "nat \<Rightarrow> tcp_event \<Rightarrow> bool" where
  "reads i (Read (Some j) len) = (j = i)"
| "reads i _ = False"

text \<open>The segments of an event that reach connection \<open>i\<close> are honest about the stream.\<close>

fun honest :: "u8 list \<Rightarrow> u32 \<Rightarrow> nat \<Rightarrow> tcp_sys \<Rightarrow> tcp_event \<Rightarrow> bool" where
  "honest S base i st (Segment src dst packet) =
     (tcp_find st src dst (rd16 packet 0) (rd16 packet 2) = Some i \<longrightarrow> carries S base packet)"
| "honest S base i st _ = True"

lemma tcp_connect_only:
  "tcp_connect buf mem my_ip lip lport rip rport st = Some (p, st') \<Longrightarrow>
   st' = st \<or> (\<exists>j. \<not> tcb_used (tcp_table st ! j) \<and> only_tcb j st st')"
proof (cases "find (\<lambda>i. \<not> tcb_used (tcp_table st ! i)) [0..<length (tcp_table st)]")
  case (Some j)
  assume "tcp_connect buf mem my_ip lip lport rip rport st = Some (p, st')"
  then show ?thesis using find_upt_SomeD [OF Some] Some
    by (auto simp: tcp_connect_def tcp_alloc_tcb_def dest!: tcp_send_segment_SomeD(1))
qed (simp add: tcp_connect_def tcp_alloc_tcb_def)

lemma tcp_do_stream:
  assumes e: "tcp_do mem e st = Some (bs, st')" and i: "i < length (tcp_table st)"
    and t: "stream_ok S base out (tcp_table st ! i)" and S: "length S \<le> 4294901760"
    and used: "tcb_used (tcp_table st' ! i)" and hon: "honest S base i st e"
  shows "length (tcp_table st') = length (tcp_table st) \<and>
         stream_ok S base (if reads i e then out @ bs else out) (tcp_table st' ! i)"
proof -
  have other: ?thesis if "only_tcb j st st'" "j \<noteq> i" "\<not> reads i e" for j
    using that t by (simp add: only_tcb_def)
  have self: ?thesis if "only_tcb i st st' \<and> stream_ok S base out (tcp_table st' ! i)" "\<not> reads i e"
    using that by (simp add: only_tcb_def)
  have sent: "only_tcb i st s' \<and> stream_ok S base out (tcp_table s' ! i)"
    if "tcp_send_segment mem i f d (on_tcb i g st) = Some s'" "stream_ok S base out (g (tcp_table st ! i))" for f d g s'
    using tcp_send_segment_keeps [OF snd_free_stream that(1)] that(2) i by simp
  have idle: ?thesis if "st' = st" "\<not> reads i e" using that t by simp
  have id: "on_tcb i (\<lambda>t. t) st = st" by (simp add: on_tcb_def)
  show ?thesis
  proof (cases e)
    case (Segment src dst packet)
    then have h: "tcp_handle_packet mem src dst packet st = Some st'" using e by auto
    consider "st' = st" | "tcp_find st src dst (rd16 packet 0) (rd16 packet 2) = Some i"
      | j where "only_tcb j st st'" "j \<noteq> i"
      using tcp_handle_packet_only [OF h] by blast
    then show ?thesis
    proof cases
      case 2
      then show ?thesis using tcp_handle_packet_stream [OF h i 2 t S _ used] hon Segment self by simp
    qed (use idle other Segment in simp_all)
  next
    case (Send p data)
    then consider "st' = st" | j where "p = Some j" "tcp_send_segment mem j (TCP_ACK OR TCP_PSH) data st = Some st'"
      using e by (auto simp: tcp_send_data_def split: option.splits if_splits)
    then show ?thesis
    proof cases
      case 2
      show ?thesis
      proof (cases "j = i")
        case True
        then have "only_tcb i st st' \<and> stream_ok S base out (tcp_table st' ! i)"
          using sent [of _ _ "\<lambda>t. t"] 2(2) id t by simp
        then show ?thesis using self Send by simp
      next
        case False
        then show ?thesis using other tcp_send_segment_SomeD(1) [OF 2(2)] Send by simp
      qed
    qed (use idle Send in simp)
  next
    case (Read p len)
    then obtain n where r: "tcp_read_data p len st = Some (n, bs, st')" using e by auto
    show ?thesis
    proof (cases "p = Some i")
      case True
      then show ?thesis using tcp_read_stream [OF r [unfolded True] i t] Read by (simp add: only_tcb_def)
    next
      case False
      then have "\<not> reads i e" using Read by (cases p) auto
      moreover have "st' = st \<or> (\<exists>j. only_tcb j st st' \<and> j \<noteq> i)"
        using r False by (auto simp: tcp_read_data_def Let_def put_tcb_def split: option.splits if_splits)
      ultimately show ?thesis using idle other by blast
    qed
  next
    case (Close p)
    then have c: "tcp_close mem p st = Some st'" using e by auto
    show ?thesis
    proof (cases p)
      case None
      then show ?thesis using c idle Close by (simp add: tcp_close_def)
    next
      case (Some j)
      show ?thesis
      proof (cases "j = i")
        case True
        have keep: "stream_ok S base out ((tcp_table st ! i)\<lparr>tcb_state := s\<rparr>)" if "s \<in> {TCP_FIN_WAIT_1, TCP_LAST_ACK}" for s
          using stream_ok_state [OF t] that by auto
        consider "st' = st"
          | s where "s \<in> {TCP_FIN_WAIT_1, TCP_LAST_ACK}"
              "tcp_send_segment mem i (TCP_FIN OR TCP_ACK) [] (on_tcb i (\<lambda>t. t\<lparr>tcb_state := s\<rparr>) st) = Some st'"
          using c True Some by (auto simp: tcp_close_def split: if_splits)
        then show ?thesis
        proof cases
          case 1
          then show ?thesis using idle Close by simp
        next
          case (2 s)
          then show ?thesis using sent [OF 2(2) keep] self Close by simp
        qed
      next
        case False
        have "st' = st \<or> only_tcb j st st'"
          using c Some by (auto simp: tcp_close_def split: if_splits dest!: tcp_send_segment_SomeD(1))
        then show ?thesis using idle other False Close by auto
      qed
    qed
  next
    case (Connect buf my_ip lip lport rip rport)
    then obtain p where "tcp_connect buf mem my_ip lip lport rip rport st = Some (p, st')" using e by auto
    from tcp_connect_only [OF this] consider "st' = st" | j where "only_tcb j st st'" "j \<noteq> i"
      using t by (auto simp: stream_ok_def)
    then show ?thesis using idle other Connect by cases simp_all
  qed
qed

inductive tcp_stream :: "u8 list \<Rightarrow> u32 \<Rightarrow> nat \<Rightarrow> tcp_sys \<Rightarrow> u8 list \<Rightarrow> bool" for S base i where
  start: "i < length (tcp_table st) \<Longrightarrow> tcp_table st ! i = t \<Longrightarrow> tcb_used t \<Longrightarrow> tcb_state t = TCP_ESTABLISHED \<Longrightarrow>
    rx_buffer t \<noteq> None \<Longrightarrow> rx_capacity t = TCP_RX_BUFFER_SIZE \<Longrightarrow> rx_len t = 0 \<Longrightarrow> rcv_nxt t = base \<Longrightarrow>
    tcp_stream S base i st []"
| event: "tcp_stream S base i st out \<Longrightarrow> tcp_do mem e st = Some (bs, st') \<Longrightarrow> tcb_used (tcp_table st' ! i) \<Longrightarrow>
    honest S base i st e \<Longrightarrow> tcp_stream S base i st' (if reads i e then out @ bs else out)"

text \<open>
  C34: In every history of received segments, reads, sends, closes and new connections, as long as the
  segments for an established connection are parts of one stream of bytes (repeated, overlapping, out
  of order or lost in any way), the bytes delivered to the reader and those in the receive buffer
  are the first bytes of that stream, in order and each once; while the connection is established
  \<open>rcv_nxt\<close> is the sequence number of the next byte.
\<close>

theorem tcp_stream_in_order:
  assumes "tcp_stream S base i st out" "length S \<le> 4294901760"
  shows "out @ rx_bytes (tcp_table st ! i) = take (length out + unat (rx_len (tcp_table st ! i))) S \<and>
         (tcb_state (tcp_table st ! i) = TCP_ESTABLISHED \<longrightarrow>
          rcv_nxt (tcp_table st ! i) = base + of_nat (length out + unat (rx_len (tcp_table st ! i))))"
proof -
  have "i < length (tcp_table st) \<and> stream_ok S base out (tcp_table st ! i)"
    using assms(1)
  proof (induction rule: tcp_stream.induct)
    case (start st t)
    then show ?case by (simp add: stream_ok_def rx_bytes_def)
  next
    case (event st out mem e bs st')
    then show ?case using tcp_do_stream [OF event.hyps(2) _ _ assms(2)] by metis
  qed
  then show ?thesis unfolding stream_ok_def by blast
qed

text \<open>A connection that receives \<open>[1, 2, 3]\<close>, then \<open>[2, 3, 4, 5]\<close>, and is read from.\<close>

definition example_packet :: "u32 \<Rightarrow> u8 list \<Rightarrow> u8 list" where
  "example_packet seq data = [0, 0, 0, 0] @ le32 (htonl seq) @ [0, 0, 0, 0, 0x50, 0x10, 0, 0, 0, 0, 0, 0] @ data"

definition example_tcp :: tcp_sys where
  "example_tcp = \<lparr>tcp_table = zero_tcb\<lparr>tcb_used := True, tcb_state := TCP_ESTABLISHED, rx_buffer := Some (\<lambda>_. 0),
     rx_capacity := TCP_RX_BUFFER_SIZE, rcv_nxt := 0x1000\<rparr> # replicate 15 zero_tcb, tcp_out = []\<rparr>"

definition example_events :: "tcp_event list" where
  "example_events = [Segment 0 0 (example_packet 0x1000 [1, 2, 3]), Segment 0 0 (example_packet 0x1001 [2, 3, 4, 5]),
     Read (Some 0) 3]"

definition example_after :: "nat \<Rightarrow> u8 list \<times> tcp_sys" where
  "example_after n = foldl (\<lambda>(_, st) e. the (tcp_do True e st)) ([], example_tcp) (take n example_events)"

lemma example_events_length: "length example_events = 3"
  by (simp add: example_events_def)

lemma example_stream: "tcp_stream [1, 2, 3, 4, 5] 0x1000 0 (snd (example_after 3)) [1, 2, 3]"
proof -
  have c: "carries [1, 2, 3, 4, 5] 0x1000 (example_packet (0x1000 + of_nat pos) data)"
    if "pos \<in> {0, 1}" "data = take (length data) (drop pos [1, 2, 3, 4, 5])" "data \<in> {[1, 2, 3], [2, 3, 4, 5]}"
    for pos data
  proof -
    have "htonl (rd32 (example_packet (0x1000 + of_nat pos) data) 4) = 0x1000 + of_nat pos"
      "hdr_len_of (example_packet (0x1000 + of_nat pos) data) = 20"
      using that(1) by (elim insertE; simp; code_simp)+
    moreover have "length (example_packet s data) = 20 + length data" "drop 20 (example_packet s data) = data" for s
      by (simp_all add: example_packet_def le32_def)
    ultimately show ?thesis using that unfolding carries_def by (auto intro!: exI [of _ pos])
  qed
  have step: "tcp_do True (example_events ! n) (snd (example_after n)) = Some (example_after (Suc n))"
    if "n < 3" for n
  proof -
    have "example_after (Suc n) = the (tcp_do True (example_events ! n) (snd (example_after n)))"
      using that by (simp add: example_after_def example_events_length take_Suc_conv_app_nth split: prod.split)
    moreover have "tcp_do True (example_events ! n) (snd (example_after n)) \<noteq> None"
    proof -
      have "\<forall>n \<in> {0, 1, 2}. \<not> Option.is_none (tcp_do True (example_events ! n) (snd (example_after n)))" by code_simp
      moreover have "n \<in> {0, 1, 2}" using that by auto
      ultimately show ?thesis by (metis is_none_simps(1))
    qed
    ultimately show ?thesis by simp
  qed
  have used: "\<forall>n \<in> {1, 2, 3}. tcb_used (tcp_table (snd (example_after n)) ! 0)" by code_simp
  have bytes: "fst (example_after 3) = [1, 2, 3]" by code_simp
  have "tcp_stream [1, 2, 3, 4, 5] 0x1000 0 (snd (example_after 0)) []"
    by (rule tcp_stream.start [of _ _ "hd (tcp_table example_tcp)"])
      (simp_all add: example_after_def example_tcp_def zero_tcb_def)
  from tcp_stream.event [OF this, of True "example_events ! 0" "fst (example_after 1)" "snd (example_after 1)"]
  have "tcp_stream [1, 2, 3, 4, 5] 0x1000 0 (snd (example_after 1)) []"
    using step [of 0] used c [of 0 "[1, 2, 3]"] by (simp add: example_events_def)
  from tcp_stream.event [OF this, of True "example_events ! 1" "fst (example_after 2)" "snd (example_after 2)"]
  have "tcp_stream [1, 2, 3, 4, 5] 0x1000 0 (snd (example_after 2)) []"
    using step [of 1] used c [of 1 "[2, 3, 4, 5]"] by (simp add: example_events_def numeral_2_eq_2)
  from tcp_stream.event [OF this, of True "example_events ! 2" "fst (example_after 3)" "snd (example_after 3)"]
  show ?thesis
    using step [of 2] used bytes by (simp add: example_events_def numeral_3_eq_3 numeral_2_eq_2)
qed

theorem tcp_stream_in_order_witness: "rx_bytes (tcp_table (snd (example_after 3)) ! 0) = [4, 5]"
proof -
  have "rx_len (tcp_table (snd (example_after 3)) ! 0) = 2" by code_simp
  then show ?thesis using tcp_stream_in_order [OF example_stream] by simp
qed

section \<open>Checksums of sent segments\<close>

lemma unat_add_le: "unat a \<le> m \<Longrightarrow> unat b \<le> n \<Longrightarrow> unat (a + b) \<le> m + n" for a b :: u32
  by (simp add: unat_word_ariths order.trans [OF mod_less_eq_dividend] add_mono)

lemma pseudo_sum_le: "unat (pseudo_sum src dst len) \<le> 393210"
proof -
  have u16: "unat (w AND 0xFFFF) \<le> 65535" for w :: u32 using unat_halves(1) [of w] by simp
  have "unat (ucast v :: u32) \<le> 65535" for v :: u16
    using unat_ucast_u32 [of v] unsigned_less [of v, where 'a = nat] by simp
  then have "unat (pseudo_sum src dst len) \<le> 65535 + 65535 + 65535 + 65535 + 65535 + 65535"
    unfolding pseudo_sum_def using u16 by (intro unat_add_le)
  then show ?thesis by simp
qed

lemma tcp_segment_checksum:
  assumes "length data \<le> 65511"
  shows "tcp_checksum (local_ip t) (remote_ip t) (tcp_segment t flags data) (of_nat (length (tcp_segment t flags data))) = 0"
proof -
  define n where "n = 20 + length (tcp_options flags) + length data"
  define N where "N = (of_nat n :: u16)"
  define c where "c = tcp_checksum (local_ip t) (remote_ip t) (tcp_bytes t flags data 0) N"
  have opt: "length (tcp_options flags) \<le> 4" by (simp add: tcp_options_def le16_def)
  have len: "length (tcp_bytes t flags data c) = n" for c by (simp add: tcp_bytes_def le16_def le32_def n_def)
  have N: "unat N = n"
    using assms opt by (simp only: N_def unsigned_of_nat) (simp add: take_bit_nat_eq_self n_def)
  define xs where "xs = le16 (local_port t) @ le16 (remote_port t) @ le32 (htonl (snd_nxt t)) @ le32 (htonl (rcv_nxt t)) @
     [push_bit 4 (of_nat ((20 + length (tcp_options flags)) div 4)), flags] @ le16 (tcp_window t)"
  define ys where "ys = le16 0 @ tcp_options flags @ data"
  have bytes: "tcp_bytes t flags data c = xs @ le16 c @ ys" for c by (simp add: tcp_bytes_def xs_def ys_def)
  have all: "take n (tcp_bytes t flags data c) = xs @ le16 c @ ys" for c
    using len [of c] by (simp add: bytes)
  have xs: "length xs = 16" by (simp add: xs_def le16_def le32_def)
  have ys: "length ys \<le> 65517" using assms opt by (simp add: ys_def le16_def)
  have z: "le16 0 = [0, 0]" by (simp add: le16_def)
  have "c = NOT (ucast (fold_carry (sum_words (pseudo_sum (local_ip t) (remote_ip t) N) (xs @ [0, 0] @ ys))))"
    unfolding c_def tcp_checksum_def N all z ..
  from checksum_field [OF _ _ this] xs ys pseudo_sum_le [of "local_ip t" "remote_ip t" N]
  have "NOT (ucast (fold_carry (sum_words (pseudo_sum (local_ip t) (remote_ip t) N) (xs @ le16 c @ ys))) :: u16) = 0"
    by simp
  moreover have seg: "tcp_segment t flags data = tcp_bytes t flags data c"
    by (simp only: tcp_segment_def Let_def c_def N_def n_def)
  ultimately show ?thesis
    unfolding seg tcp_checksum_def len N_def [symmetric] N all by simp
qed

section \<open>Well-formed tables\<close>

definition tcb_ok :: "tcp_tcb \<Rightarrow> bool" where
  "tcb_ok t \<longleftrightarrow>
     (if tcb_used t then rx_buffer t \<noteq> None \<and> rx_capacity t = TCP_RX_BUFFER_SIZE \<and> unat (rx_len t) \<le> 32768
      else rx_len t = 0)"

definition tcp_ok :: "tcp_sys \<Rightarrow> bool" where
  "tcp_ok st \<longleftrightarrow> length (tcp_table st) = MAX_TCP_CONNECTIONS \<and> (\<forall>i < MAX_TCP_CONNECTIONS. tcb_ok (tcp_table st ! i))"

text \<open>
  The callers name connections of the table, a packet is as long as its header says, and what is
  sent fits one IP packet: \<open>ip_send\<close> copies a longer one over the end of its buffer.
\<close>

definition handle_ok :: "nat option \<Rightarrow> bool" where
  "handle_ok p \<longleftrightarrow> (case p of None \<Rightarrow> True | Some i \<Rightarrow> i < MAX_TCP_CONNECTIONS)"

fun event_ok :: "tcp_event \<Rightarrow> bool" where
  "event_ok (Segment src dst packet) \<longleftrightarrow>
     length packet < 65536 \<and> (20 \<le> length packet \<longrightarrow> hdr_len_of packet \<le> length packet)"
| "event_ok (Send p data) \<longleftrightarrow> handle_ok p \<and> length data \<le> 1446"
| "event_ok (Read p len) \<longleftrightarrow> handle_ok p"
| "event_ok (Close p) \<longleftrightarrow> handle_ok p"
| "event_ok (Connect buf my_ip lip lport rip rport) \<longleftrightarrow> buf \<noteq> None"

lemma tcb_ok_simps [simp]:
  "tcb_ok (t\<lparr>snd_una := x\<rparr>) = tcb_ok t" "tcb_ok (t\<lparr>rcv_nxt := x\<rparr>) = tcb_ok t" "tcb_ok (t\<lparr>tcb_state := s\<rparr>) = tcb_ok t"
  by (simp_all add: tcb_ok_def)

lemma snd_free_tcb_ok: "snd_free (\<lambda>t. tcb_used t = u \<and> tcb_ok t)"
  by (simp add: snd_free_def tcb_ok_def)

lemma tcp_ok_only:
  "tcp_ok st \<Longrightarrow> only_tcb i st st' \<Longrightarrow> tcb_ok (tcp_table st' ! i) \<Longrightarrow> tcp_ok st'"
  by (auto simp: tcp_ok_def only_tcb_def)

text \<open>A segment without data, or with up to 1446 bytes of them, fits the buffer of \<open>ip_send\<close>.\<close>

definition fits_ip :: "u8 \<Rightarrow> u8 list \<Rightarrow> bool" where
  "fits_ip flags data \<longleftrightarrow> 20 + length (tcp_options flags) + length data \<le> 1466"

lemma fits_ip_empty [simp]: "fits_ip flags []"
  by (simp add: fits_ip_def tcp_options_def le16_def)

lemma tcp_send_fits_ok:
  assumes "i < length (tcp_table st)" "tcb_used (g (tcp_table st ! i)) = u \<and> tcb_ok (g (tcp_table st ! i))" "fits_ip f d"
  shows "\<exists>st'. tcp_send_segment True i f d (on_tcb i g st) = Some st' \<and> only_tcb i st st' \<and>
    (tcb_used (tcp_table st' ! i) = u \<and> tcb_ok (tcp_table st' ! i))"
proof -
  obtain st' where st': "tcp_send_segment True i f d (on_tcb i g st) = Some st'"
    using assms(3) by (simp add: tcp_send_segment_def Let_def fits_ip_def unat_of_nat take_bit_nat_eq_self
        del: of_nat_add of_nat_Suc)
  from tcp_send_segment_keeps [OF snd_free_tcb_ok this, of u] assms show ?thesis using st' by simp
qed

lemmas tcp_send_ok = tcp_send_fits_ok [OF _ _ fits_ip_empty]

lemma tcp_fin_ok:
  assumes "i < length (tcp_table st)" "tcb_used (tcp_table st ! i) \<and> tcb_ok (tcp_table st ! i)"
  shows "\<exists>st'. tcp_fin True i s st = Some st' \<and> only_tcb i st st' \<and>
    (tcb_used (tcp_table st' ! i) \<and> tcb_ok (tcp_table st' ! i))"
proof -
  have "tcb_used ((\<lambda>t. t\<lparr>rcv_nxt := rcv_nxt t + 1\<rparr>) (tcp_table st ! i)) = True \<and>
      tcb_ok ((\<lambda>t. t\<lparr>rcv_nxt := rcv_nxt t + 1\<rparr>) (tcp_table st ! i))"
    using assms(2) by (simp add: tcb_ok_def)
  from tcp_send_ok [where g = "\<lambda>t. t\<lparr>rcv_nxt := rcv_nxt t + 1\<rparr>", OF assms(1) this, of TCP_ACK] obtain s2
    where "tcp_send_segment True i TCP_ACK [] (on_tcb i (\<lambda>t. t\<lparr>rcv_nxt := rcv_nxt t + 1\<rparr>) st) = Some s2"
      "only_tcb i st s2" "tcb_used (tcp_table s2 ! i)" "tcb_ok (tcp_table s2 ! i)" by auto
  moreover from this assms(1) have "i < length (tcp_table s2)" by (simp add: only_tcb_def)
  ultimately show ?thesis by (simp add: tcp_fin_def tcb_ok_def)
qed

lemma rx_append_ok:
  assumes "tcb_used t \<and> tcb_ok t" "from + unat n \<le> length packet" "rx_len t + n \<le> rx_capacity t" "unat n < 65536"
  shows "\<exists>t'. rx_append packet from n t = Some t' \<and> tcb_used t' \<and> tcb_ok t'"
proof -
  have "unat (rx_len t + n) \<le> 32768" using assms by (simp add: tcb_ok_def word_le_nat_alt)
  moreover obtain b where "rx_buffer t = Some b" using assms(1) by (auto simp: tcb_ok_def)
  ultimately show ?thesis using assms by (simp add: rx_append_def tcb_ok_def)
qed

lemma tcp_payload_ok:
  assumes i: "i < length (tcp_table st)" and t: "tcb_used (tcp_table st ! i) \<and> tcb_ok (tcp_table st ! i)"
    and fits: "h + unat dl \<le> length packet" and dl: "unat dl < 65536"
  shows "\<exists>st'. tcp_payload True i packet h dl seq st = Some st' \<and> only_tcb i st st' \<and>
    (tcb_used (tcp_table st' ! i) \<and> tcb_ok (tcp_table st' ! i))"
proof -
  let ?t = "tcp_table st ! i"
  have put: "\<exists>st'. tcp_send_segment True i TCP_ACK [] (put_tcb i t' st) = Some st' \<and> only_tcb i st st' \<and>
      (tcb_used (tcp_table st' ! i) \<and> tcb_ok (tcp_table st' ! i))" if "tcb_used t' \<and> tcb_ok t'" for t'
    using tcp_send_ok [OF i, of "\<lambda>_. t'" True] that by (simp add: put_tcb_def)
  have self: "put_tcb i ?t st = st" by (simp add: put_tcb_def on_tcb_def)
  let ?overlap = "rcv_nxt ?t - seq"
  consider "seq = rcv_nxt ?t" | "seq \<noteq> rcv_nxt ?t" "seq < rcv_nxt ?t" | "seq \<noteq> rcv_nxt ?t" "\<not> seq < rcv_nxt ?t" by blast
  then show ?thesis
  proof cases
    case 1
    then show ?thesis
    proof (cases "rx_len ?t + dl \<le> rx_capacity ?t")
      case True
      from rx_append_ok [OF t fits True dl] put 1 True show ?thesis by (auto simp: tcp_payload_def Let_def)
    next
      case False
      then show ?thesis using 1 t by (simp add: tcp_payload_def Let_def)
    qed
  next
    case 2
    let ?ins = "dl > ?overlap \<and> rx_len ?t + (dl - ?overlap) \<le> rx_capacity ?t"
    have "\<exists>t'. (if ?ins then rx_append packet (h + unat ?overlap) (dl - ?overlap) ?t else Some ?t) = Some t' \<and>
        tcb_used t' \<and> tcb_ok t'"
    proof (cases ?ins)
      case True
      then have "unat (dl - ?overlap) = unat dl - unat ?overlap" "unat ?overlap < unat dl"
        by (simp_all add: unat_sub word_less_nat_alt word_le_nat_alt)
      then show ?thesis using True rx_append_ok [OF t, of "h + unat ?overlap" "dl - ?overlap" packet] fits dl by simp
    next
      case False
      then show ?thesis using t by auto
    qed
    then show ?thesis using put 2 by (auto simp: tcp_payload_def Let_def simp del: split_paired_Ex)
  next
    case 3
    then show ?thesis using put [OF t] self by (simp add: tcp_payload_def Let_def)
  qed
qed

lemma tcp_established_ok:
  assumes i: "i < length (tcp_table st)" and t: "tcb_used (tcp_table st ! i) \<and> tcb_ok (tcp_table st ! i)"
    and fits: "h + unat dl \<le> length packet"
  shows "\<exists>st'. tcp_established True i packet h dl flags seq ack st = Some st' \<and> only_tcb i st st' \<and>
    (tcb_used (tcp_table st' ! i) \<and> tcb_ok (tcp_table st' ! i))"
proof -
  let ?f = "\<lambda>t. if flags AND TCP_ACK \<noteq> 0 \<and> ack > snd_una t \<and> ack \<le> snd_nxt t then t\<lparr>snd_una := ack\<rparr> else t"
  let ?s1 = "on_tcb i ?f st"
  have s1: "i < length (tcp_table ?s1)" "tcb_used (tcp_table ?s1 ! i) \<and> tcb_ok (tcp_table ?s1 ! i)"
    using i t by simp_all
  have dl: "unat (ucast dl :: u32) = unat dl" "unat dl < 65536"
    using unat_ucast_u32 unsigned_less [of dl, where 'a = nat] by simp_all
  have "\<exists>s2. (if dl > 0 then tcp_payload True i packet h (ucast dl) seq ?s1 else Some ?s1) = Some s2 \<and>
      only_tcb i st s2 \<and> (tcb_used (tcp_table s2 ! i) \<and> tcb_ok (tcp_table s2 ! i))"
    using tcp_payload_ok [OF s1, of h "ucast dl" packet seq] fits dl s1(2) by auto
  then obtain s2 where s2: "(if dl > 0 then tcp_payload True i packet h (ucast dl) seq ?s1 else Some ?s1) = Some s2"
      "only_tcb i st s2" "tcb_used (tcp_table s2 ! i) \<and> tcb_ok (tcp_table s2 ! i)" by blast
  then have "i < length (tcp_table s2)" using i by (simp add: only_tcb_def)
  from tcp_fin_ok [OF this s2(3), of TCP_CLOSE_WAIT] s2 show ?thesis
    unfolding tcp_established_def Let_def s2(1)
    by (cases "flags AND TCP_FIN = 0") (auto intro: only_tcb_trans)
qed

lemma tcp_handle_packet_ok:
  assumes ok: "tcp_ok st" and e: "event_ok (Segment src dst packet)"
  shows "\<exists>st'. tcp_handle_packet True src dst packet st = Some st' \<and> tcp_ok st'"
proof (cases "length packet < 20 \<or> tcp_find st src dst (rd16 packet 0) (rd16 packet 2) = None")
  case True
  then show ?thesis using ok by (auto simp: tcp_handle_packet_def)
next
  case False
  then obtain i where found: "tcp_find st src dst (rd16 packet 0) (rd16 packet 2) = Some i" and len: "\<not> length packet < 20"
    by auto
  then have i: "i < length (tcp_table st)" "tcb_used (tcp_table st ! i) \<and> tcb_ok (tcp_table st ! i)"
    using ok by (auto simp: tcp_find_def tcp_ok_def Let_def dest!: find_upt_SomeD)
  let ?h = "hdr_len_of packet"
  have "?h + unat (of_nat (length packet) - of_nat ?h :: u16) \<le> length packet"
    using unat_data_len [of ?h "length packet"] e len by simp
  note est = tcp_established_ok [OF i this, of "packet ! 13" "htonl (rd32 packet 4)" "htonl (rd32 packet 8)"]
  have state: "tcb_used (t\<lparr>tcb_state := s\<rparr>) = tcb_used t \<and> tcb_ok (t\<lparr>tcb_state := s\<rparr>) = tcb_ok t"
    "tcb_ok (t\<lparr>rcv_nxt := a, snd_una := b, tcb_state := s\<rparr>) = tcb_ok t" for t :: tcp_tcb and s a b
    by (simp_all add: tcb_ok_def)
  have fin: "\<exists>st'. tcp_fin True i s st1 = Some st' \<and> tcp_ok st'"
    if "only_tcb i st st1" "tcb_used (tcp_table st1 ! i) \<and> tcb_ok (tcp_table st1 ! i)" for s st1
    using tcp_fin_ok [OF _ that(2), of s] that i ok tcp_ok_only [OF ok] only_tcb_trans
    by (metis only_tcb_def)
  note unf = tcp_handle_packet_def [of True src dst packet st, folded hdr_len_of_def]
  show ?thesis
  proof (cases "tcb_state (tcp_table st ! i)")
    case TCP_SYN_SENT
    then show ?thesis
      using unf found len ok state(2) i tcp_ok_only [OF ok]
        tcp_send_ok [OF i(1), of "\<lambda>t. t\<lparr>rcv_nxt := htonl (rd32 packet 4) + 1, snd_una := htonl (rd32 packet 8),
          tcb_state := TCP_ESTABLISHED\<rparr>" True TCP_ACK]
      by (auto simp: Let_def)
  next
    case TCP_ESTABLISHED
    then show ?thesis using unf found len est tcp_ok_only [OF ok] by (auto simp: Let_def)
  next
    case TCP_FIN_WAIT_1
    define s1 where "s1 = (if packet ! 13 AND TCP_ACK \<noteq> 0
                           then on_tcb i (\<lambda>t. t\<lparr>tcb_state := TCP_FIN_WAIT_2\<rparr>) st else st)"
    have s1: "only_tcb i st s1" "tcb_used (tcp_table s1 ! i) \<and> tcb_ok (tcp_table s1 ! i)"
      using i state by (simp_all add: s1_def)
    have "tcp_handle_packet True src dst packet st =
        (if packet ! 13 AND TCP_FIN \<noteq> 0 then tcp_fin True i TCP_TIME_WAIT s1 else Some s1)"
      using unf found len TCP_FIN_WAIT_1 unfolding s1_def by (simp add: Let_def split del: if_split)
    then show ?thesis using fin [OF s1] tcp_ok_only [OF ok s1(1)] s1(2) by auto
  next
    case TCP_FIN_WAIT_2
    then show ?thesis using unf found len ok fin [of st] i by (auto simp: Let_def)
  next
    case TCP_LAST_ACK
    have "tcp_ok (tcp_free_tcb i (on_tcb i (\<lambda>t. t\<lparr>tcb_state := TCP_CLOSED\<rparr>) st))"
      using i by (intro tcp_ok_only [OF ok, of i]) (simp_all add: tcp_free_tcb_def zero_tcb_def tcb_ok_def)
    then show ?thesis using TCP_LAST_ACK unf found len ok by (auto simp: Let_def)
  qed (use unf found len ok in \<open>simp_all add: Let_def\<close>)
qed

lemma tcp_read_ok:
  assumes ok: "tcp_ok st" and p: "handle_ok p"
  shows "\<exists>n bs st'. tcp_read_data p len st = Some (n, bs, st') \<and> tcp_ok st'"
proof (cases p)
  case None
  then show ?thesis using ok by (simp add: tcp_read_data_def)
next
  case (Some i)
  let ?t = "tcp_table st ! i"
  have i: "i < length (tcp_table st)" "tcb_ok ?t" using p ok Some by (auto simp: handle_ok_def tcp_ok_def)
  define k where "k = (ucast (if ucast len < rx_len ?t then ucast len else rx_len ?t) :: u16)"
  have "unat k \<le> unat (if ucast len < rx_len ?t then ucast len else rx_len ?t)"
    unfolding k_def by (simp only: unsigned_ucast_eq) (rule take_bit_nat_less_eq_self)
  also have "\<dots> \<le> unat (rx_len ?t)" by (simp add: word_less_nat_alt)
  finally have k: "unat k \<le> unat (rx_len ?t)" .
  show ?thesis
  proof (cases "k > 0")
    case True
    then have "rx_len ?t \<noteq> 0" using k by (auto simp: word_less_nat_alt)
    then have used: "tcb_used ?t" and "rx_buffer ?t \<noteq> None" using i(2) by (auto simp: tcb_ok_def split: if_splits)
    then obtain b where b: "rx_buffer ?t = Some b" by auto
    have "unat (rx_len ?t - ucast k) = unat (rx_len ?t) - unat k"
      using k unat_ucast_u32 [of k] by (simp add: unat_sub word_le_nat_alt)
    also have "\<dots> \<le> 32768" using i(2) used unfolding tcb_ok_def by (metis diff_le_self order.trans)
    finally have "unat (rx_len ?t - ucast k) \<le> 32768" .
    then have "tcp_ok (put_tcb i (?t\<lparr>rx_buffer := Some f, rx_len := rx_len ?t - ucast k\<rparr>) st)" for f
      using i used by (intro tcp_ok_only [OF ok, of i]) (simp_all add: put_tcb_def tcb_ok_def)
    then show ?thesis using True Some b by (simp add: tcp_read_data_def Let_def flip: k_def)
  next
    case False
    then show ?thesis using Some ok by (simp add: tcp_read_data_def Let_def flip: k_def)
  qed
qed

lemma tcp_close_ok:
  assumes ok: "tcp_ok st" and p: "handle_ok p"
  shows "\<exists>st'. tcp_close True p st = Some st' \<and> tcp_ok st'"
proof (cases p)
  case None
  then show ?thesis using ok by (simp add: tcp_close_def)
next
  case (Some i)
  have i: "i < length (tcp_table st)" "tcb_ok (tcp_table st ! i)" using p ok Some by (auto simp: handle_ok_def tcp_ok_def)
  have "\<exists>st'. tcp_send_segment True i f [] (on_tcb i (\<lambda>t. t\<lparr>tcb_state := s\<rparr>) st) = Some st' \<and> tcp_ok st'" for f s
    using tcp_send_ok [OF i(1), of "\<lambda>t. t\<lparr>tcb_state := s\<rparr>" "tcb_used (tcp_table st ! i)" f] i tcp_ok_only [OF ok]
    by auto
  then show ?thesis using Some ok by (simp add: tcp_close_def)
qed

lemma tcp_connect_ok:
  assumes ok: "tcp_ok st" and buf: "buf \<noteq> None"
  shows "\<exists>p st'. tcp_connect buf True my_ip lip lport rip rport st = Some (p, st') \<and> tcp_ok st'"
proof (cases "find (\<lambda>i. \<not> tcb_used (tcp_table st ! i)) [0..<length (tcp_table st)]")
  case None
  then show ?thesis using ok by (simp add: tcp_connect_def tcp_alloc_tcb_def)
next
  case (Some i)
  then have i: "i < length (tcp_table st)" by (auto dest!: find_upt_SomeD)
  let ?s1 = "on_tcb i (\<lambda>_. zero_tcb\<lparr>tcb_used := True, rx_capacity := TCP_RX_BUFFER_SIZE, rx_buffer := buf, rx_len := 0\<rparr>) st"
  let ?g = "\<lambda>t. t\<lparr>local_ip := (if lip = 0 then my_ip else lip), remote_ip := rip,
                   local_port := htons lport, remote_port := htons rport, snd_nxt := INITIAL_SEQ,
                   snd_una := INITIAL_SEQ, rcv_nxt := 0, tcb_state := TCP_SYN_SENT\<rparr>"
  have "\<exists>st'. tcp_send_segment True i TCP_SYN [] (on_tcb i ?g ?s1) = Some st' \<and> only_tcb i ?s1 st' \<and>
      (tcb_used (tcp_table st' ! i) = True \<and> tcb_ok (tcp_table st' ! i))"
    using i buf by (intro tcp_send_ok) (simp_all add: tcb_ok_def)
  then show ?thesis using Some tcp_ok_only [OF ok, of i] by (auto simp: tcp_connect_def tcp_alloc_tcb_def)
qed

lemma tcp_do_ok: "tcp_ok st \<Longrightarrow> event_ok e \<Longrightarrow> \<exists>bs st'. tcp_do True e st = Some (bs, st') \<and> tcp_ok st'"
proof (cases e)
  case (Send p data)
  assume ok: "tcp_ok st" "event_ok e"
  show ?thesis
  proof (cases p)
    case (Some i)
    then have i: "i < length (tcp_table st)" "tcb_ok (tcp_table st ! i)" using ok Send by (auto simp: handle_ok_def tcp_ok_def)
    have id: "on_tcb i (\<lambda>t. t) st = st" by (simp add: on_tcb_def)
    moreover have "fits_ip (TCP_ACK OR TCP_PSH) data"
      using ok(2) Send by (simp add: fits_ip_def tcp_options_def)
    ultimately have "\<exists>st'. tcp_send_segment True i (TCP_ACK OR TCP_PSH) data st = Some st' \<and> tcp_ok st'"
      using tcp_send_fits_ok [OF i(1), of "\<lambda>t. t" "tcb_used (tcp_table st ! i)" "TCP_ACK OR TCP_PSH" data] i tcp_ok_only [OF ok(1)] by auto
    then show ?thesis using ok Send Some by (simp add: tcp_send_data_def split: option.split)
  qed (use ok Send in \<open>simp add: tcp_send_data_def\<close>)
next
  case (Read p len)
  assume ok: "tcp_ok st" "event_ok e"
  then obtain n bs st' where "tcp_read_data p len st = Some (n, bs, st')" "tcp_ok st'"
    using tcp_read_ok [OF ok(1), of p len] Read by auto
  then show ?thesis using Read by simp
next
  case (Connect buf my_ip lip lport rip rport)
  assume ok: "tcp_ok st" "event_ok e"
  then have "buf \<noteq> None" using Connect by simp
  from tcp_connect_ok [OF ok(1) this] obtain p st'
    where "tcp_connect buf True my_ip lip lport rip rport st = Some (p, st')" "tcp_ok st'" by blast
  then show ?thesis using Connect by simp
qed (use tcp_handle_packet_ok tcp_close_ok in fastforce)+

inductive tcp_reach :: "tcp_sys \<Rightarrow> bool" where
  boot: "tcp_reach \<lparr>tcp_table = replicate MAX_TCP_CONNECTIONS zero_tcb, tcp_out = []\<rparr>"
| event: "tcp_reach st \<Longrightarrow> event_ok e \<Longrightarrow> tcp_do True e st = Some (bs, st') \<Longrightarrow> tcp_reach st'"

text \<open>
  C35: From the empty table on, while memory lasts, packets are as long as their headers say and no
  call sends more than 1446 bytes, every event returns (no store through a null pointer, no read
  past the packet, no segment too long for the buffer of \<open>ip_send\<close>), and it keeps the table
  well formed: 16 control blocks, each used one with a receive buffer of 32768 bytes that its
  contents fit in.
\<close>

theorem tcp_table_well_formed:
  assumes "tcp_reach st" "event_ok e"
  shows "case tcp_do True e st of None \<Rightarrow> False | Some (bs, st') \<Rightarrow> tcp_ok st'"
proof -
  have "tcp_ok st"
    using assms(1)
  proof (induction rule: tcp_reach.induct)
    case boot
    then show ?case by (simp add: tcp_ok_def tcb_ok_def zero_tcb_def)
  next
    case (event st e bs st')
    then show ?case using tcp_do_ok by fastforce
  qed
  from tcp_do_ok [OF this assms(2)] show ?thesis by auto
qed

theorem tcp_table_well_formed_witness:
  "case tcp_do True (Connect (Some (\<lambda>_. 0)) 1 0 2 3 4) \<lparr>tcp_table = replicate MAX_TCP_CONNECTIONS zero_tcb, tcp_out = []\<rparr> of
     None \<Rightarrow> False | Some (bs, st') \<Rightarrow> tcp_ok st'"
  by (rule tcp_table_well_formed [OF tcp_reach.boot]) simp

end
