(* ===== verification/Net.thy ===== *)
theory Net
  imports Udp Tcp
begin

text \<open>
  Receiving: ICMP, the dispatch to UDP and TCP, and the reassembly of fragments
  (\<open>src/src/kernel/net.cpp\<close>).  A packet is the list of the bytes of the buffer it lies in, from its
  header on, which may go on behind the packet.  The outcome \<open>None\<close> is a read or store outside a buffer or
  through a null pointer.
\<close>

record reassembly_slot =
  slot_src_ip :: u32
  slot_id :: u16
  slot_buffer :: "nat \<Rightarrow> u8"
  slot_current_size :: u16
  slot_total_expected :: u16
  slot_timeout :: u32
  slot_used :: bool

record 'h net =
  net_link :: net_link
  net_tcp :: tcp_sys
  net_ports :: "'h udp_ports"
  net_delivered :: "'h udp_delivery list"
  net_slots :: "reassembly_slot list"
  net_last_cleanup :: u32

abbreviation MAX_REASSEMBLY_SIZE :: int where "MAX_REASSEMBLY_SIZE \<equiv> 65535"

text \<open>
  What a call finds around it: the time, the memory \<open>kmalloc\<close> answers for a reassembly buffer, whether
  other requests are served, and the six bytes in memory where the sender's hardware address would be
  in front of a reassembled packet.
\<close>

record rx_env =
  env_now :: u32
  env_buf :: "(nat \<Rightarrow> u8) option"
  env_mem :: bool
  env_before :: "u8 list"

section \<open>ICMP\<close>

definition ip_hdr_len :: "u8 list \<Rightarrow> int" where
  "ip_hdr_len ip = uint (ip ! 0 AND 0x0F) * 4"

definition ip_payload_len :: "u8 list \<Rightarrow> int" where
  "ip_payload_len ip = uint (htons (rd16 ip 2)) - ip_hdr_len ip"

definition icmp_bytes :: "u8 \<Rightarrow> u8 list \<Rightarrow> u16 \<Rightarrow> u8 list \<Rightarrow> u8 list" where
  "icmp_bytes typ id_seq chk data = [typ, 0] @ le16 chk @ id_seq @ data"

text \<open>The reply is built in a buffer of 512 bytes, of which 42 are headers.\<close>

definition send_icmp_reply :: "u8 list \<Rightarrow> u8 list \<Rightarrow> u8 list \<Rightarrow> net_link \<Rightarrow> net_link option" where
  "send_icmp_reply eth_src ip data n =
     (let ip2 = (\<lambda>chk. take 10 ip @ le16 chk @ le32 (my_ip n) @ take 4 (drop 12 ip));
          icmp2 = (\<lambda>chk. icmp_bytes 0 (take 4 (drop 24 ip)) chk data)
      in if 512 < 42 + length data then None
         else Some (e1000_send (eth_hdr eth_src (my_mac n) ETH_TYPE_IP @
                ip2 (htons (checksum (ip2 0))) @ icmp2 (htons (checksum (icmp2 0)))) n))"

definition handle_icmp :: "u8 list \<Rightarrow> u8 list \<Rightarrow> net_link \<Rightarrow> net_link option" where
  "handle_icmp eth_src pkt n =
     (let total_len = ip_payload_len pkt
      in if total_len < 8 then Some n
         else if pkt ! 20 = 8 then
           (if int (length pkt) < 20 + total_len then None else
            let icmp = take (nat total_len) (drop 20 pkt);
                received_chk = rd16 icmp 2;
                calculated_chk = htons (checksum (icmp[2 := 0, 3 := 0]))
            in if received_chk \<noteq> calculated_chk then Some n
               else send_icmp_reply eth_src pkt (drop 8 icmp) n)
         else Some n)"

section \<open>Dispatch\<close>

text \<open>Sending the segments that TCP produced.\<close>

fun transmit :: "(u32 \<times> u8 list) list \<Rightarrow> net_link \<Rightarrow> net_link option" where
  "transmit [] n = Some n"
| "transmit ((dst, seg) # out) n = Option.bind (ip_send dst 6 seg n) (transmit out)"

definition handle_udp :: "u8 list \<Rightarrow> 'h net \<Rightarrow> 'h net option" where
  "handle_udp pkt s =
     map_option (\<lambda>d. s\<lparr>net_delivered := net_delivered s @ d\<rparr>)
       (udp_receive (net_ports s) (rd32 pkt 12) (drop (nat (ip_hdr_len pkt)) pkt) (of_int (ip_payload_len pkt)))"

definition handle_tcp :: "bool \<Rightarrow> u8 list \<Rightarrow> 'h net \<Rightarrow> 'h net option" where
  "handle_tcp mem pkt s =
     (let tcp_len = unat (of_int (ip_payload_len pkt) :: u16); seg = drop (nat (ip_hdr_len pkt)) pkt
      in if length seg < tcp_len then None
         else do {
           t \<leftarrow> tcp_handle_packet mem (rd32 pkt 12) (rd32 pkt 16) (take tcp_len seg) ((net_tcp s)\<lparr>tcp_out := []\<rparr>);
           n \<leftarrow> transmit (tcp_out t) (net_link s);
           Some (s\<lparr>net_link := n, net_tcp := t\<rparr>) })"

definition process_full_ip_packet :: "bool \<Rightarrow> u8 list \<Rightarrow> u8 list \<Rightarrow> 'h net \<Rightarrow> 'h net option" where
  "process_full_ip_packet mem eth_src pkt s =
     (let proto = pkt ! 9
      in if proto = 1 then map_option (\<lambda>n. s\<lparr>net_link := n\<rparr>) (handle_icmp eth_src pkt (net_link s))
         else if proto = 17 then handle_udp pkt s
         else if proto = 6 then handle_tcp mem pkt s
         else Some s)"

section \<open>Reassembly\<close>

definition find_slot :: "u8 list \<Rightarrow> reassembly_slot list \<Rightarrow> nat option" where
  "find_slot ip slots =
     find (\<lambda>i. slot_used (slots ! i) \<and> slot_src_ip (slots ! i) = rd32 ip 12 \<and> slot_id (slots ! i) = rd16 ip 4)
       [0..<length slots]"

text \<open>The slot of the fragment, a new one if there is none; the outer option is the null pointer.\<close>

definition open_slot :: "rx_env \<Rightarrow> u8 list \<Rightarrow> reassembly_slot list \<Rightarrow> (nat \<times> reassembly_slot list) option option" where
  "open_slot env ip slots =
     (case find_slot ip slots of
        Some i \<Rightarrow> Some (Some (i, slots))
      | None \<Rightarrow>
          (case find (\<lambda>i. \<not> slot_used (slots ! i)) [0..<length slots] of
             None \<Rightarrow> Some None
           | Some i \<Rightarrow>
               map_option (\<lambda>b. Some (i, slots[i := \<lparr>slot_src_ip = rd32 ip 12, slot_id = rd16 ip 4, slot_buffer = b,
                 slot_current_size = 0, slot_total_expected = 0, slot_timeout = env_now env + 5000,
                 slot_used = True\<rparr>])) (env_buf env)))"

text \<open>\<open>memcpy\<close> with a negative count runs through the whole memory, and so is \<open>None\<close>.\<close>

definition store_fragment :: "u8 list \<Rightarrow> u16 \<Rightarrow> int \<Rightarrow> reassembly_slot \<Rightarrow> reassembly_slot option" where
  "store_fragment ip offset payload_len sl =
     (if uint offset + payload_len \<le> MAX_REASSEMBLY_SIZE then
        (if payload_len < 0 \<or> int (length ip) < ip_hdr_len ip + payload_len then None
         else
           (let b = slot_buffer sl;
                b' = (\<lambda>k. if unat offset \<le> k \<and> k < unat offset + nat payload_len
                          then ip ! (nat (ip_hdr_len ip) + (k - unat offset)) else b k)
            in Some (sl\<lparr>slot_buffer := b',
                 slot_current_size := (if uint offset + payload_len > uint (slot_current_size sl)
                                       then of_int (uint offset + payload_len) else slot_current_size sl)\<rparr>)))
      else Some sl)"

definition full_packet :: "u8 list \<Rightarrow> reassembly_slot \<Rightarrow> u8 list" where
  "full_packet ip sl =
     take 2 ip @ le16 (htons (slot_total_expected sl + 20)) @ take 2 (drop 4 ip) @ le16 0 @ take 12 (drop 8 ip) @
     map (slot_buffer sl) [0..<unat (slot_total_expected sl)]"

definition handle_ip_fragment :: "rx_env \<Rightarrow> u8 list \<Rightarrow> 'h net \<Rightarrow> 'h net option" where
  "handle_ip_fragment env packet s =
     (let ip = drop 14 packet;
          frag_info = htons (rd16 ip 6);
          offset = (frag_info AND 0x1FFF) * 8;
          more_frags = (frag_info AND 0x2000 \<noteq> 0);
          payload_len = ip_payload_len ip
      in if offset = 0 \<and> \<not> more_frags
         then process_full_ip_packet (env_mem env) (take 6 (drop 6 packet)) ip s
         else
           (case open_slot env ip (net_slots s) of
              None \<Rightarrow> None
            | Some None \<Rightarrow> Some s
            | Some (Some (i, slots)) \<Rightarrow>
                do { sl \<leftarrow> store_fragment ip offset payload_len (slots ! i);
                     let sl = (if more_frags then sl
                               else sl\<lparr>slot_total_expected := of_int (uint offset + payload_len)\<rparr>);
                     if slot_total_expected sl > 0 \<and> slot_current_size sl \<ge> slot_total_expected sl
                     then if \<not> env_mem env then None
                          else map_option (\<lambda>s'. s'\<lparr>net_slots := slots[i := sl\<lparr>slot_used := False\<rparr>]\<rparr>)
                                 (process_full_ip_packet (env_mem env) (env_before env) (full_packet ip sl) s)
                     else Some (s\<lparr>net_slots := slots[i := sl]\<rparr>) }))"

section \<open>Entry points\<close>

definition net_rx_handler :: "rx_env \<Rightarrow> u8 list \<Rightarrow> u16 \<Rightarrow> 'h net \<Rightarrow> 'h net option" where
  "net_rx_handler env packet len s =
     (if len < 14 then Some s
      else
        (let typ = htons (rd16 packet 12)
         in if typ = ETH_TYPE_ARP then Some (s\<lparr>net_link := handle_arp packet (net_link s)\<rparr>)
            else if typ = ETH_TYPE_IP then handle_ip_fragment env packet s
            else Some s))"

definition drop_expired :: "u32 \<Rightarrow> reassembly_slot \<Rightarrow> reassembly_slot" where
  "drop_expired now sl = (if slot_used sl \<and> now > slot_timeout sl then sl\<lparr>slot_used := False\<rparr> else sl)"

fun rx_burst :: "rx_env \<Rightarrow> (u8 list \<times> u16) list \<Rightarrow> 'h net \<Rightarrow> 'h net option" where
  "rx_burst env [] s = Some s"
| "rx_burst env ((packet, len) # rest) s = Option.bind (net_rx_handler env packet len s) (rx_burst env rest)"

text \<open>The frames waiting in the card, of which at most 32 are handled.\<close>

definition net_poll :: "rx_env \<Rightarrow> (u8 list \<times> u16) list \<Rightarrow> 'h net \<Rightarrow> 'h net option" where
  "net_poll env frames s =
     (let now = env_now env;
          s1 = (if now - net_last_cleanup s > 1000
                then s\<lparr>net_slots := map (drop_expired now) (net_slots s), net_last_cleanup := now\<rparr> else s)
      in rx_burst env (take 32 frames) s1)"

section \<open>Echo requests\<close>

lemma uint_htons_of_nat: "n < 65536 \<Longrightarrow> uint (htons (htons (of_nat n))) = int n"
  by (simp add: unsigned_of_nat take_bit_nat_eq_self)

text \<open>
  C36: An echo request with the right checksum is answered exactly when the two bytes of its checksum
  are equal, since the handler compares with the checksum's bytes swapped; and the answer runs over
  the end of its 512-byte buffer exactly for such requests with more than 470 bytes of data.
\<close>

theorem icmp_echo_answered_iff:
  assumes "length ip = 20" "ip ! 0 = 0x45" "rd16 ip 2 = htons (of_nat (28 + length data))" "length data \<le> 65507"
    and "length id_seq = 4" "chk = checksum (icmp_bytes 8 id_seq 0 data)"
  shows "(handle_icmp eth_src (ip @ icmp_bytes 8 id_seq chk data @ rest) n = None) = (chk = htons chk \<and> 470 < length data) \<and>
         (case handle_icmp eth_src (ip @ icmp_bytes 8 id_seq chk data @ rest) n of
            None \<Rightarrow> True
          | Some n' \<Rightarrow> (net_frames n' \<noteq> net_frames n) = (chk = htons chk))"
proof -
  let ?icmp = "icmp_bytes 8 id_seq chk data"
  let ?pkt = "ip @ ?icmp @ rest"
  have len: "length ?icmp = 8 + length data" using assms(5) by (simp add: icmp_bytes_def)
  have nth: "?pkt ! 0 = ip ! 0" "rd16 ?pkt 2 = rd16 ip 2" "?pkt ! 20 = 8"
    using assms(1) by (simp_all add: rd16_def nth_append icmp_bytes_def)
  have "ip_hdr_len ?pkt = 20" using nth assms(2) by (simp add: ip_hdr_len_def)
  then have total: "ip_payload_len ?pkt = 8 + int (length data)"
    using assms(3,4) uint_htons_of_nat [of "28 + length data"] nth(2) by (simp add: ip_payload_len_def)
  have take: "take (8 + length data) (drop 20 ?pkt) = ?icmp" using len assms(1) by simp
  have rd: "rd16 ?icmp 2 = chk"
    using rd16_le16 [of "[8, 0]" chk "id_seq @ data"] by (simp add: icmp_bytes_def numeral_2_eq_2)
  have zero: "?icmp[2 := 0, 3 := 0] = icmp_bytes 8 id_seq 0 data"
    by (simp add: icmp_bytes_def le16_def numeral_2_eq_2 numeral_3_eq_3)
  have "drop 8 ?icmp = data" using assms(5) by (simp add: icmp_bytes_def le16_def)
  moreover have "nat (8 + int (length data)) = 8 + length data" by simp
  ultimately have "handle_icmp eth_src ?pkt n =
      (if chk \<noteq> htons chk then Some n else send_icmp_reply eth_src ?pkt data n)"
    using total take rd zero nth(3) len assms(1,6) by (simp add: handle_icmp_def Let_def)
  then show ?thesis by (simp add: send_icmp_reply_def Let_def e1000_send_def)
qed

definition example_ip :: "u8 list" where
  "example_ip = [0x45, 0, 0, 28, 0, 1, 0, 0, 64, 1, 0, 0, 10, 0, 2, 2, 10, 0, 2, 15]"

theorem icmp_echo_answered_iff_witness:
  "case handle_icmp [1, 2, 3, 4, 5, 6]
          (example_ip @ icmp_bytes 8 [0, 1, 0, 1] (checksum (icmp_bytes 8 [0, 1, 0, 1] 0 [])) []) (init_link 0) of
     None \<Rightarrow> False | Some n' \<Rightarrow> net_frames n' = []"
proof -
  let ?chk = "checksum (icmp_bytes 8 [0, 1, 0, 1] 0 [])"
  have "?chk \<noteq> htons ?chk" by code_simp
  moreover have "rd16 example_ip 2 = htons (of_nat (28 + length ([] :: u8 list)))" by code_simp
  ultimately show ?thesis
    using icmp_echo_answered_iff [where ip = example_ip and data = "[]" and id_seq = "[0, 1, 0, 1]" and chk = ?chk and
        eth_src = "[1, 2, 3, 4, 5, 6]" and rest = "[]" and n = "init_link 0"]
    by (simp add: example_ip_def init_link_def split: option.splits)
qed

section \<open>Checksums of what is sent\<close>

text \<open>
  C38: A receiver that sums over what was sent finds no error: the IP header of every frame that
  \<open>ip_send\<close> hands to the card has the checksum 0, and so has every TCP segment together with its
  pseudo header.
\<close>

theorem sent_checksums_verify:
  assumes "ip_send dst proto data n = Some n'" "length (gateway_mac n) = 6" "length (my_mac n) = 6"
    and "length payload \<le> 65511"
  shows "checksum (take 20 (drop 14 (last (net_frames n')))) = 0 \<and>
         tcp_checksum (local_ip t) (remote_ip t) (tcp_segment t flags payload)
           (of_nat (length (tcp_segment t flags payload))) = 0"
proof
  let ?hdr = "ip_hdr n (of_nat (20 + length data)) proto dst"
  have "net_frames n' = net_frames n @ [gateway_eth n @ ?hdr (checksum (?hdr 0)) @ data]"
    using assms(1) by (auto simp: ip_send_def Let_def e1000_send_def split: if_splits)
  then have "take 20 (drop 14 (last (net_frames n'))) = ?hdr (checksum (?hdr 0))"
    using length_gateway_eth [OF assms(2,3)] by simp
  then show "checksum (take 20 (drop 14 (last (net_frames n')))) = 0" by (simp only: ip_hdr_checksum)
qed (rule tcp_segment_checksum [OF assms(4)])

theorem sent_checksums_verify_witness:
  "checksum (take 20 (drop 14 (last (net_frames (the (ip_send 5 17 [1, 2, 3] (init_link 7))))))) = 0 \<and>
   tcp_checksum 0 0 (tcp_segment zero_tcb TCP_SYN []) (of_nat (length (tcp_segment zero_tcb TCP_SYN []))) = 0"
proof -
  have "ip_send 5 17 [1, 2, 3] (init_link 7) = Some (the (ip_send 5 17 [1, 2, 3] (init_link 7)))"
    by (simp add: ip_send_def Let_def)
  from sent_checksums_verify [OF this, of "[]" zero_tcb TCP_SYN] show ?thesis
    by (simp add: init_link_def zero_tcb_def)
qed

section \<open>Fragments in order\<close>




























end
