(* ===== verification/HtmlTokenizer.thy ===== *)
theory HtmlTokenizer
  imports Prelude
begin

text \<open>
  The HTML tokenizer of the browser (\<^verbatim>\<open>kernel/html_tokenizer.cpp\<close>, \<^verbatim>\<open>include/html_tokenizer.h\<close>).
  A character array of a token is the string before its terminator, with the length tests
  of the code kept; the array \<^verbatim>\<open>attrs\<close> is a list of 16 attributes. One definition per case
  of the switch in \<^verbatim>\<open>next_token\<close> gives one turn of its loop: another turn, a token that is
  returned, or a use of the null pointer \<^verbatim>\<open>current_token\<close>. Then the loop itself, with the
  measure that ends it, and the invariant that keeps the null pointer unused and every array
  in bounds.
  \<^verbatim>\<open>temporary_buffer\<close> is set by the constructor and not used.
\<close>

section \<open>Tokens and states\<close>

datatype token_type =
    TT_DOCTYPE | TT_START_TAG | TT_END_TAG | TT_COMMENT | TT_CHARACTER | TT_EOF_TOKEN

record html_attr =
  attr_name :: string
  attr_value :: string

record html_token =
  tok_type :: token_type
  tok_name :: string
  tok_data :: string
  tok_self_closing :: bool
  tok_attrs :: "html_attr option list"
  tok_attr_count :: nat

text \<open>
  The constructor of a token leaves the 16 entries of \<^verbatim>\<open>attrs\<close> uninitialised: \<open>None\<close> is an entry
  that was never written. An entry holds strings from the moment its first bytes are zeroed.
\<close>

definition blank_attr :: html_attr where
  "blank_attr = \<lparr>attr_name = [], attr_value = []\<rparr>"

definition new_token :: "token_type \<Rightarrow> html_token" where
  "new_token ty = \<lparr>tok_type = ty, tok_name = [], tok_data = [], tok_self_closing = False,
     tok_attrs = replicate 16 None, tok_attr_count = 0\<rparr>"

definition char_token :: "char \<Rightarrow> html_token" where
  "char_token c = new_token TT_CHARACTER\<lparr>tok_data := [c]\<rparr>"

datatype tokenizer_state =
    TS_DATA | TS_TAG_OPEN | TS_END_TAG_OPEN | TS_TAG_NAME | TS_BEFORE_ATTRIBUTE_NAME
  | TS_ATTRIBUTE_NAME | TS_AFTER_ATTRIBUTE_NAME | TS_BEFORE_ATTRIBUTE_VALUE
  | TS_ATTRIBUTE_VALUE_DOUBLE_QUOTED | TS_ATTRIBUTE_VALUE_SINGLE_QUOTED
  | TS_ATTRIBUTE_VALUE_UNQUOTED | TS_AFTER_ATTRIBUTE_VALUE_QUOTED | TS_SELF_CLOSING_START_TAG
  | TS_BOGUS_COMMENT | TS_COMMENT_START | TS_COMMENT_START_DASH | TS_COMMENT
  | TS_COMMENT_END_DASH | TS_COMMENT_END | TS_COMMENT_END_BANG | TS_DOCTYPE
  | TS_BEFORE_DOCTYPE_NAME | TS_DOCTYPE_NAME | TS_AFTER_DOCTYPE_NAME | TS_RCDATA | TS_RAWTEXT
  | TS_SCRIPT_DATA | TS_PLAINTEXT | TS_CHARACTER_REFERENCE | TS_NAMED_CHARACTER_REFERENCE
  | TS_NUMERIC_CHARACTER_REFERENCE | TS_HEXADECIMAL_CHARACTER_REFERENCE_START
  | TS_DECIMAL_CHARACTER_REFERENCE_START | TS_HEXADECIMAL_CHARACTER_REFERENCE
  | TS_DECIMAL_CHARACTER_REFERENCE | TS_NUMERIC_CHARACTER_REFERENCE_END

record tokenizer =
  tk_input :: string
  tk_position :: nat
  tk_state :: tokenizer_state
  tk_return_state :: tokenizer_state
  tk_current :: "html_token option"

definition new_tokenizer :: "string \<Rightarrow> tokenizer" where
  "new_tokenizer inp = \<lparr>tk_input = inp, tk_position = 0, tk_state = TS_DATA,
     tk_return_state = TS_DATA, tk_current = None\<rparr>"

definition tokenizer_set_state :: "tokenizer_state \<Rightarrow> tokenizer \<Rightarrow> tokenizer" where
  "tokenizer_set_state s tk = tk\<lparr>tk_state := s\<rparr>"

text \<open>The input is the memory of the string; the byte behind it is the terminator.\<close>

abbreviation NUL :: char where
  "NUL \<equiv> CHR 0x00"

definition current_char :: "tokenizer \<Rightarrow> char" where
  "current_char tk =
     (if tk_position tk < length (tk_input tk) then tk_input tk ! tk_position tk else NUL)"

definition advance :: "tokenizer \<Rightarrow> tokenizer" where
  "advance tk = (if current_char tk \<noteq> NUL then tk\<lparr>tk_position := tk_position tk + 1\<rparr> else tk)"

definition is_ascii_alpha :: "char \<Rightarrow> bool" where
  "is_ascii_alpha c \<longleftrightarrow> (97 \<le> (of_char c :: nat) \<and> (of_char c :: nat) \<le> 122)
     \<or> (65 \<le> (of_char c :: nat) \<and> (of_char c :: nat) \<le> 90)"

definition is_space :: "char \<Rightarrow> bool" where
  "is_space c \<longleftrightarrow> c = CHR 0x20 \<or> c = CHR 0x09 \<or> c = CHR 0x0A \<or> c = CHR 0x0D \<or> c = CHR 0x0C"

definition ascii_lower :: "char \<Rightarrow> char" where
  "ascii_lower c = (if 65 \<le> (of_char c :: nat) \<and> (of_char c :: nat) \<le> 90
     then char_of ((of_char c :: nat) + 32) else c)"

text \<open>\<^verbatim>\<open>strncmp\<close> of the input from the position on with a literal, over its whole length.\<close>

definition looking_at :: "string \<Rightarrow> tokenizer \<Rightarrow> bool" where
  "looking_at s tk \<longleftrightarrow> take (length s) (drop (tk_position tk) (tk_input tk)) = s"

section \<open>Appending to the arrays of a token\<close>

text \<open>
  The last attribute is always one that was started, see \<open>token_ok\<close> below; what
  \<^verbatim>\<open>strlen\<close> would make of an entry that was never written is left open by doing nothing there.
\<close>

definition append_name :: "char \<Rightarrow> html_token \<Rightarrow> html_token" where
  "append_name c t = (if length (tok_name t) < 63
     then t\<lparr>tok_name := tok_name t @ [ascii_lower c]\<rparr> else t)"

definition append_data :: "char \<Rightarrow> html_token \<Rightarrow> html_token" where
  "append_data c t = (if length (tok_data t) < 255
     then t\<lparr>tok_data := tok_data t @ [c]\<rparr> else t)"

definition append_dash_data :: "char \<Rightarrow> html_token \<Rightarrow> html_token" where
  "append_dash_data c t = (if length (tok_data t) < 254
     then t\<lparr>tok_data := tok_data t @ [CHR ''-'', c]\<rparr> else t)"

definition start_attr :: "html_token \<Rightarrow> html_token" where
  "start_attr t = (if tok_attr_count t < 16
     then t\<lparr>tok_attr_count := tok_attr_count t + 1,
            tok_attrs := (tok_attrs t)[tok_attr_count t := Some blank_attr]\<rparr>
     else t)"

definition append_attr_name :: "char \<Rightarrow> html_token \<Rightarrow> html_token" where
  "append_attr_name c t = (if tok_attr_count t = 0 then t else
     let idx = tok_attr_count t - 1 in
     case tok_attrs t ! idx of
       None \<Rightarrow> t
     | Some a \<Rightarrow>
         if length (attr_name a) < 63
         then t\<lparr>tok_attrs := (tok_attrs t)[idx := Some (a\<lparr>attr_name := attr_name a @ [ascii_lower c]\<rparr>)]\<rparr>
         else t)"

definition append_attr_value :: "char \<Rightarrow> html_token \<Rightarrow> html_token" where
  "append_attr_value c t = (if tok_attr_count t = 0 then t else
     let idx = tok_attr_count t - 1 in
     case tok_attrs t ! idx of
       None \<Rightarrow> t
     | Some a \<Rightarrow>
         if length (attr_value a) < 255
         then t\<lparr>tok_attrs := (tok_attrs t)[idx := Some (a\<lparr>attr_value := attr_value a @ [c]\<rparr>)]\<rparr>
         else t)"

section \<open>One turn of the loop\<close>

datatype turn = Again tokenizer | Emit tokenizer html_token | Null_Pointer

definition goto :: "tokenizer_state \<Rightarrow> tokenizer \<Rightarrow> turn" where
  "goto s tk = Again (tk\<lparr>tk_state := s\<rparr>)"

definition goto_advance :: "tokenizer_state \<Rightarrow> tokenizer \<Rightarrow> turn" where
  "goto_advance s tk = Again (advance (tk\<lparr>tk_state := s\<rparr>))"

definition emit_current :: "tokenizer \<Rightarrow> turn" where
  "emit_current tk = (case tk_current tk of
       None \<Rightarrow> Null_Pointer
     | Some t \<Rightarrow> Emit (tk\<lparr>tk_current := None\<rparr>) t)"

text \<open>The end of a tag or comment: back to \<^verbatim>\<open>DATA\<close>, behind the character, with the token.\<close>

definition finish_token :: "tokenizer \<Rightarrow> turn" where
  "finish_token tk = emit_current (advance (tk\<lparr>tk_state := TS_DATA\<rparr>))"

definition update_current :: "(html_token \<Rightarrow> html_token) \<Rightarrow> (tokenizer \<Rightarrow> turn) \<Rightarrow> tokenizer \<Rightarrow> turn"
where
  "update_current f k tk = (case tk_current tk of
       None \<Rightarrow> Null_Pointer
     | Some t \<Rightarrow> k (tk\<lparr>tk_current := Some (f t)\<rparr>))"

definition advance_again :: "tokenizer \<Rightarrow> turn" where
  "advance_again tk = Again (advance tk)"

definition start_reference :: "tokenizer_state \<Rightarrow> tokenizer \<Rightarrow> turn" where
  "start_reference s tk = goto_advance TS_CHARACTER_REFERENCE (tk\<lparr>tk_return_state := s\<rparr>)"
definition data_turn :: "tokenizer \<Rightarrow> turn" where
  "data_turn tk = (let c = current_char tk in
     if c = CHR ''<'' then goto_advance TS_TAG_OPEN tk
     else if c = CHR ''&'' then start_reference TS_DATA tk
     else Emit (advance tk) (char_token c))"

definition rcdata_turn :: "tokenizer \<Rightarrow> turn" where
  "rcdata_turn tk = (let c = current_char tk in
     if c = CHR ''<'' then goto_advance TS_TAG_OPEN tk
     else if c = CHR ''&'' then start_reference TS_RCDATA tk
     else Emit (advance tk) (char_token c))"

definition rawtext_turn :: "tokenizer \<Rightarrow> turn" where
  "rawtext_turn tk = (let c = current_char tk in
     if c = CHR ''<'' then goto_advance TS_TAG_OPEN tk
     else Emit (advance tk) (char_token c))"

definition tag_open_turn :: "tokenizer \<Rightarrow> turn" where
  "tag_open_turn tk = (let c = current_char tk in
     if c = CHR ''!'' then goto_advance TS_COMMENT_START tk
     else if c = CHR ''/'' then goto_advance TS_END_TAG_OPEN tk
     else if is_ascii_alpha c
     then goto TS_TAG_NAME (tk\<lparr>tk_current := Some (new_token TT_START_TAG)\<rparr>)
     else Emit (tk\<lparr>tk_state := TS_DATA\<rparr>) (char_token CHR ''<''))"

definition end_tag_open_turn :: "tokenizer \<Rightarrow> turn" where
  "end_tag_open_turn tk = (let c = current_char tk in
     if is_ascii_alpha c
     then goto TS_TAG_NAME (tk\<lparr>tk_current := Some (new_token TT_END_TAG)\<rparr>)
     else if c = CHR ''>'' then goto_advance TS_DATA tk
     else goto TS_DATA tk)"

definition tag_name_turn :: "tokenizer \<Rightarrow> turn" where
  "tag_name_turn tk = (let c = current_char tk in
     if is_space c then goto_advance TS_BEFORE_ATTRIBUTE_NAME tk
     else if c = CHR ''/'' then goto_advance TS_SELF_CLOSING_START_TAG tk
     else if c = CHR ''>'' then finish_token tk
     else update_current (append_name c) advance_again tk)"

definition before_attribute_name_turn :: "tokenizer \<Rightarrow> turn" where
  "before_attribute_name_turn tk = (let c = current_char tk in
     if is_space c then advance_again tk
     else if c = CHR ''/'' \<or> c = CHR ''>'' \<or> c = NUL then goto TS_AFTER_ATTRIBUTE_NAME tk
     else update_current start_attr (goto TS_ATTRIBUTE_NAME) tk)"

definition attribute_name_turn :: "tokenizer \<Rightarrow> turn" where
  "attribute_name_turn tk = (let c = current_char tk in
     if is_space c \<or> c = CHR ''/'' \<or> c = CHR ''>'' \<or> c = NUL
     then goto TS_AFTER_ATTRIBUTE_NAME tk
     else if c = CHR ''='' then goto_advance TS_BEFORE_ATTRIBUTE_VALUE tk
     else update_current (append_attr_name c) advance_again tk)"

definition after_attribute_name_turn :: "tokenizer \<Rightarrow> turn" where
  "after_attribute_name_turn tk = (let c = current_char tk in
     if is_space c then advance_again tk
     else if c = CHR ''/'' then goto_advance TS_SELF_CLOSING_START_TAG tk
     else if c = CHR ''='' then goto_advance TS_BEFORE_ATTRIBUTE_VALUE tk
     else if c = CHR ''>'' then finish_token tk
     else update_current start_attr (goto TS_ATTRIBUTE_NAME) tk)"

definition before_attribute_value_turn :: "tokenizer \<Rightarrow> turn" where
  "before_attribute_value_turn tk = (let c = current_char tk in
     if is_space c then advance_again tk
     else if c = CHR 0x22 then goto_advance TS_ATTRIBUTE_VALUE_DOUBLE_QUOTED tk
     else if c = CHR 0x27 then goto_advance TS_ATTRIBUTE_VALUE_SINGLE_QUOTED tk
     else if c = CHR ''>'' then finish_token tk
     else goto TS_ATTRIBUTE_VALUE_UNQUOTED tk)"

definition attribute_value_double_quoted_turn :: "tokenizer \<Rightarrow> turn" where
  "attribute_value_double_quoted_turn tk = (let c = current_char tk in
     if c = CHR 0x22 then goto_advance TS_AFTER_ATTRIBUTE_VALUE_QUOTED tk
     else if c = CHR ''&'' then start_reference TS_ATTRIBUTE_VALUE_DOUBLE_QUOTED tk
     else update_current (append_attr_value c) advance_again tk)"

definition attribute_value_single_quoted_turn :: "tokenizer \<Rightarrow> turn" where
  "attribute_value_single_quoted_turn tk = (let c = current_char tk in
     if c = CHR 0x27 then goto_advance TS_AFTER_ATTRIBUTE_VALUE_QUOTED tk
     else if c = CHR ''&'' then start_reference TS_ATTRIBUTE_VALUE_SINGLE_QUOTED tk
     else update_current (append_attr_value c) advance_again tk)"

definition attribute_value_unquoted_turn :: "tokenizer \<Rightarrow> turn" where
  "attribute_value_unquoted_turn tk = (let c = current_char tk in
     if is_space c then goto_advance TS_BEFORE_ATTRIBUTE_NAME tk
     else if c = CHR ''&'' then start_reference TS_ATTRIBUTE_VALUE_UNQUOTED tk
     else if c = CHR ''>'' then finish_token tk
     else update_current (append_attr_value c) advance_again tk)"

definition after_attribute_value_quoted_turn :: "tokenizer \<Rightarrow> turn" where
  "after_attribute_value_quoted_turn tk = (let c = current_char tk in
     if is_space c then goto_advance TS_BEFORE_ATTRIBUTE_NAME tk
     else if c = CHR ''/'' then goto_advance TS_SELF_CLOSING_START_TAG tk
     else if c = CHR ''>'' then finish_token tk
     else goto TS_BEFORE_ATTRIBUTE_NAME tk)"

definition self_closing_start_tag_turn :: "tokenizer \<Rightarrow> turn" where
  "self_closing_start_tag_turn tk = (let c = current_char tk in
     if c = CHR ''>'' then update_current (tok_self_closing_update (\<lambda>_. True)) finish_token tk
     else goto TS_BEFORE_ATTRIBUTE_NAME tk)"

definition comment_start_turn :: "tokenizer \<Rightarrow> turn" where
  "comment_start_turn tk = (let c = current_char tk in
     if c = CHR ''-'' then goto_advance TS_COMMENT_START_DASH tk
     else if looking_at ''DOCTYPE'' tk
     then Again ((advance ^^ 7) (tk\<lparr>tk_state := TS_DOCTYPE\<rparr>))
     else goto TS_COMMENT (tk\<lparr>tk_current := Some (new_token TT_COMMENT)\<rparr>))"

definition comment_start_dash_turn :: "tokenizer \<Rightarrow> turn" where
  "comment_start_dash_turn tk = (let c = current_char tk in
     if c = CHR ''-''
     then goto_advance TS_COMMENT (tk\<lparr>tk_current := Some (new_token TT_COMMENT)\<rparr>)
     else goto_advance TS_DATA tk)"

definition comment_turn :: "tokenizer \<Rightarrow> turn" where
  "comment_turn tk = (let c = current_char tk in
     if c = CHR ''-'' then goto_advance TS_COMMENT_END_DASH tk
     else if c = NUL then goto TS_DATA tk
     else update_current (append_data c) advance_again tk)"

definition comment_end_dash_turn :: "tokenizer \<Rightarrow> turn" where
  "comment_end_dash_turn tk = (let c = current_char tk in
     if c = CHR ''-'' then goto_advance TS_COMMENT_END tk
     else update_current (append_dash_data c) (goto_advance TS_COMMENT) tk)"

definition comment_end_turn :: "tokenizer \<Rightarrow> turn" where
  "comment_end_turn tk = (let c = current_char tk in
     if c = CHR ''>'' then finish_token tk else goto_advance TS_COMMENT tk)"

definition character_reference_turn :: "tokenizer \<Rightarrow> turn" where
  "character_reference_turn tk = (let c = current_char tk in
     if is_ascii_alpha c then goto TS_NAMED_CHARACTER_REFERENCE tk
     else if c = CHR ''#'' then goto_advance TS_NUMERIC_CHARACTER_REFERENCE tk
     else Emit (tk\<lparr>tk_state := tk_return_state tk\<rparr>) (char_token CHR ''&''))"

text \<open>One of the four named references: its letters are skipped and its character returned.\<close>

definition emit_reference :: "nat \<Rightarrow> char \<Rightarrow> tokenizer \<Rightarrow> turn" where
  "emit_reference n c tk =
     (let tk1 = (advance ^^ n) tk in Emit (tk1\<lparr>tk_state := tk_return_state tk1\<rparr>) (char_token c))"

definition named_character_reference_turn :: "tokenizer \<Rightarrow> turn" where
  "named_character_reference_turn tk =
     (if looking_at ''lt;'' tk then emit_reference 3 CHR ''<'' tk
      else if looking_at ''gt;'' tk then emit_reference 3 CHR ''>'' tk
      else if looking_at ''amp;'' tk then emit_reference 4 CHR ''&'' tk
      else if looking_at ''quot;'' tk then emit_reference 5 CHR 0x22 tk
      else emit_reference 0 CHR ''&'' tk)"

definition doctype_turn :: "tokenizer \<Rightarrow> turn" where
  "doctype_turn tk = (let c = current_char tk in
     if is_space c then advance_again tk
     else goto TS_DOCTYPE_NAME (tk\<lparr>tk_current := Some (new_token TT_DOCTYPE)\<rparr>))"

definition doctype_name_turn :: "tokenizer \<Rightarrow> turn" where
  "doctype_name_turn tk = (let c = current_char tk in
     if is_space c then goto_advance TS_AFTER_DOCTYPE_NAME tk
     else if c = CHR ''>'' then finish_token tk
     else update_current (append_name c) advance_again tk)"

definition after_doctype_name_turn :: "tokenizer \<Rightarrow> turn" where
  "after_doctype_name_turn tk = (let c = current_char tk in
     if is_space c then advance_again tk
     else if c = CHR ''>'' then finish_token tk
     else advance_again tk)"

text \<open>The tests for the end of the input in front of the switch.\<close>

definition end_of_input_turn :: "tokenizer \<Rightarrow> turn" where
  "end_of_input_turn tk =
     (if tk_state tk \<noteq> TS_DATA \<and> tk_state tk \<noteq> TS_RCDATA \<and> tk_state tk \<noteq> TS_RAWTEXT
      then (case tk_current tk of
                Some t \<Rightarrow> Emit (tk\<lparr>tk_current := None\<rparr>) t
              | None \<Rightarrow> Emit tk (new_token TT_EOF_TOKEN))
      else Emit tk (new_token TT_EOF_TOKEN))"

definition state_turn :: "tokenizer \<Rightarrow> turn" where
  "state_turn tk = (case tk_state tk of
       TS_DATA \<Rightarrow> data_turn tk
     | TS_RCDATA \<Rightarrow> rcdata_turn tk
     | TS_RAWTEXT \<Rightarrow> rawtext_turn tk
     | TS_TAG_OPEN \<Rightarrow> tag_open_turn tk
     | TS_END_TAG_OPEN \<Rightarrow> end_tag_open_turn tk
     | TS_TAG_NAME \<Rightarrow> tag_name_turn tk
     | TS_BEFORE_ATTRIBUTE_NAME \<Rightarrow> before_attribute_name_turn tk
     | TS_ATTRIBUTE_NAME \<Rightarrow> attribute_name_turn tk
     | TS_AFTER_ATTRIBUTE_NAME \<Rightarrow> after_attribute_name_turn tk
     | TS_BEFORE_ATTRIBUTE_VALUE \<Rightarrow> before_attribute_value_turn tk
     | TS_ATTRIBUTE_VALUE_DOUBLE_QUOTED \<Rightarrow> attribute_value_double_quoted_turn tk
     | TS_ATTRIBUTE_VALUE_SINGLE_QUOTED \<Rightarrow> attribute_value_single_quoted_turn tk
     | TS_ATTRIBUTE_VALUE_UNQUOTED \<Rightarrow> attribute_value_unquoted_turn tk
     | TS_AFTER_ATTRIBUTE_VALUE_QUOTED \<Rightarrow> after_attribute_value_quoted_turn tk
     | TS_SELF_CLOSING_START_TAG \<Rightarrow> self_closing_start_tag_turn tk
     | TS_COMMENT_START \<Rightarrow> comment_start_turn tk
     | TS_COMMENT_START_DASH \<Rightarrow> comment_start_dash_turn tk
     | TS_COMMENT \<Rightarrow> comment_turn tk
     | TS_COMMENT_END_DASH \<Rightarrow> comment_end_dash_turn tk
     | TS_COMMENT_END \<Rightarrow> comment_end_turn tk
     | TS_CHARACTER_REFERENCE \<Rightarrow> character_reference_turn tk
     | TS_NAMED_CHARACTER_REFERENCE \<Rightarrow> named_character_reference_turn tk
     | TS_DOCTYPE \<Rightarrow> doctype_turn tk
     | TS_DOCTYPE_NAME \<Rightarrow> doctype_name_turn tk
     | TS_AFTER_DOCTYPE_NAME \<Rightarrow> after_doctype_name_turn tk
     | _ \<Rightarrow> advance_again tk)"

definition next_token_turn :: "tokenizer \<Rightarrow> turn" where
  "next_token_turn tk =
     (if current_char tk = NUL then end_of_input_turn tk else state_turn tk)"

lemmas turn_defs =
  data_turn_def rcdata_turn_def rawtext_turn_def tag_open_turn_def end_tag_open_turn_def
  tag_name_turn_def before_attribute_name_turn_def attribute_name_turn_def
  after_attribute_name_turn_def before_attribute_value_turn_def
  attribute_value_double_quoted_turn_def attribute_value_single_quoted_turn_def
  attribute_value_unquoted_turn_def after_attribute_value_quoted_turn_def
  self_closing_start_tag_turn_def comment_start_turn_def comment_start_dash_turn_def
  comment_turn_def comment_end_dash_turn_def comment_end_turn_def
  character_reference_turn_def named_character_reference_turn_def doctype_turn_def
  doctype_name_turn_def after_doctype_name_turn_def

lemmas turn_steps =
  goto_def goto_advance_def emit_current_def finish_token_def update_current_def
  advance_again_def start_reference_def emit_reference_def

section \<open>The measure of the loop\<close>

definition chars_left :: "tokenizer \<Rightarrow> nat" where
  "chars_left tk = length (tk_input tk) - tk_position tk"

text \<open>How many turns a state may take, at most, before a character is passed.\<close>

definition state_weight :: "tokenizer_state \<Rightarrow> char \<Rightarrow> nat" where
  "state_weight s c = (case s of
       TS_ATTRIBUTE_NAME \<Rightarrow> (if is_space c \<or> c = CHR ''/'' \<or> c = CHR ''>'' then 1 else 0)
     | TS_AFTER_ATTRIBUTE_NAME \<Rightarrow>
         (if is_space c \<or> c = CHR ''/'' \<or> c = CHR ''>'' \<or> c = CHR ''='' then 0 else 1)
     | TS_BEFORE_ATTRIBUTE_NAME \<Rightarrow> 2
     | TS_AFTER_ATTRIBUTE_VALUE_QUOTED \<Rightarrow> 3
     | TS_SELF_CLOSING_START_TAG \<Rightarrow> 3
     | TS_TAG_OPEN \<Rightarrow> 1 | TS_END_TAG_OPEN \<Rightarrow> 1 | TS_BEFORE_ATTRIBUTE_VALUE \<Rightarrow> 1
     | TS_COMMENT_START \<Rightarrow> 1 | TS_DOCTYPE \<Rightarrow> 1
     | TS_CHARACTER_REFERENCE \<Rightarrow> 5 | TS_NAMED_CHARACTER_REFERENCE \<Rightarrow> 4
     | _ \<Rightarrow> 0)"

definition tokenizer_measure :: "tokenizer \<Rightarrow> nat" where
  "tokenizer_measure tk = 12 * chars_left tk + 2 * state_weight (tk_state tk) (current_char tk)
     + (if tk_current tk = None then 0 else 1)"

lemma current_char_updates [simp]:
  "current_char (tk\<lparr>tk_state := s\<rparr>) = current_char tk"
  "current_char (tk\<lparr>tk_return_state := s\<rparr>) = current_char tk"
  "current_char (tk\<lparr>tk_current := x\<rparr>) = current_char tk"
  by (simp_all add: current_char_def)

lemma advance_fields [simp]:
  "tk_state (advance tk) = tk_state tk" "tk_return_state (advance tk) = tk_return_state tk"
  "tk_current (advance tk) = tk_current tk" "tk_input (advance tk) = tk_input tk"
  by (simp_all add: advance_def)

lemma advances_fields [simp]:
  "tk_state ((advance ^^ n) tk) = tk_state tk"
  "tk_return_state ((advance ^^ n) tk) = tk_return_state tk"
  "tk_current ((advance ^^ n) tk) = tk_current tk" "tk_input ((advance ^^ n) tk) = tk_input tk"
  by (induction n) simp_all

lemma chars_left_updates [simp]:
  "chars_left (tk\<lparr>tk_state := s\<rparr>) = chars_left tk"
  "chars_left (tk\<lparr>tk_return_state := s\<rparr>) = chars_left tk"
  "chars_left (tk\<lparr>tk_current := x\<rparr>) = chars_left tk"
  by (simp_all add: chars_left_def)

lemma chars_left_advance:
  "current_char tk \<noteq> NUL \<Longrightarrow> Suc (chars_left (advance tk)) = chars_left tk"
  by (auto simp: chars_left_def advance_def current_char_def split: if_splits)

lemma chars_left_advances_le: "chars_left ((advance ^^ n) tk) \<le> chars_left tk"
proof (induction n)
  case (Suc n)
  have "chars_left (advance ((advance ^^ n) tk)) \<le> chars_left ((advance ^^ n) tk)"
    by (auto simp: chars_left_def advance_def simp del: advances_fields)
  with Suc show ?case by simp
qed simp

lemma state_weight_le: "state_weight s c \<le> 5"
  by (cases s) (simp_all add: state_weight_def)

lemma measure_if_fewer_left: "chars_left tk' < chars_left tk \<Longrightarrow> tokenizer_measure tk' < tokenizer_measure tk"
  using state_weight_le [of "tk_state tk'" "current_char tk'"]
  by (simp add: tokenizer_measure_def)

lemma measure_advance:
  assumes "chars_left tk1 = chars_left tk" "current_char tk1 = current_char tk" "current_char tk \<noteq> NUL"
  shows "tokenizer_measure (advance tk1) < tokenizer_measure tk"
proof (rule measure_if_fewer_left)
  have "current_char tk1 \<noteq> NUL" using assms(2,3) by simp
  from chars_left_advance [OF this] show "chars_left (advance tk1) < chars_left tk"
    using assms(1) by simp
qed

lemma measure_advances:
  assumes "chars_left tk1 = chars_left tk" "current_char tk1 = current_char tk" "current_char tk \<noteq> NUL"
  shows "tokenizer_measure ((advance ^^ Suc n) tk1) < tokenizer_measure tk"
proof (rule measure_if_fewer_left)
  have "current_char tk1 \<noteq> NUL" using assms(2,3) by simp
  from chars_left_advance [OF this] show "chars_left ((advance ^^ Suc n) tk1) < chars_left tk"
    using assms(1) chars_left_advances_le [of n "advance tk1"]
    by (simp add: funpow_swap1)
qed

fun turn_decreases :: "nat \<Rightarrow> turn \<Rightarrow> bool" where
  "turn_decreases n (Again tk) \<longleftrightarrow> tokenizer_measure tk < n"
| "turn_decreases n (Emit tk t) \<longleftrightarrow> tokenizer_measure tk < n \<or> t = new_token TT_EOF_TOKEN"
| "turn_decreases n Null_Pointer \<longleftrightarrow> True"

lemma finish_token_decreases:
  assumes "chars_left tk1 = chars_left tk" "current_char tk1 = current_char tk" "current_char tk \<noteq> NUL"
  shows "turn_decreases (tokenizer_measure tk) (finish_token tk1)"
proof -
  have "chars_left (advance (tk1\<lparr>tk_state := TS_DATA\<rparr>)) < chars_left tk"
    using chars_left_advance [of "tk1\<lparr>tk_state := TS_DATA\<rparr>"] assms by simp
  then show ?thesis
    by (auto simp: finish_token_def emit_current_def split: option.split intro!: measure_if_fewer_left)
qed

lemma goto_advance_decreases:
  assumes "chars_left tk1 = chars_left tk" "current_char tk1 = current_char tk" "current_char tk \<noteq> NUL"
  shows "turn_decreases (tokenizer_measure tk) (goto_advance s tk1)"
  using measure_advance [of "tk1\<lparr>tk_state := s\<rparr>" tk] assms by (simp add: goto_advance_def)

lemma advance_again_decreases:
  assumes "chars_left tk1 = chars_left tk" "current_char tk1 = current_char tk" "current_char tk \<noteq> NUL"
  shows "turn_decreases (tokenizer_measure tk) (advance_again tk1)"
  using measure_advance [of tk1 tk] assms by (simp add: advance_again_def)

lemma start_reference_decreases:
  assumes "current_char tk \<noteq> NUL"
  shows "turn_decreases (tokenizer_measure tk) (start_reference s tk)"
  using assms by (simp add: start_reference_def goto_advance_decreases)

lemma emit_reference_decreases:
  assumes "current_char tk \<noteq> NUL"
  shows "turn_decreases (tokenizer_measure tk) (emit_reference (Suc n) c tk)"
proof -
  let ?tk = "(advance ^^ Suc n) tk"
  have "chars_left (?tk\<lparr>tk_state := tk_return_state tk\<rparr>) < chars_left tk"
    using chars_left_advance [OF assms] chars_left_advances_le [of n "advance tk"]
    by (simp add: funpow_swap1)
  then have "tokenizer_measure (?tk\<lparr>tk_state := tk_return_state tk\<rparr>) < tokenizer_measure tk"
    by (rule measure_if_fewer_left)
  then show ?thesis by (simp add: emit_reference_def)
qed

lemma update_current_decreases:
  "(\<And>t. turn_decreases n (k (tk\<lparr>tk_current := Some t\<rparr>))) \<Longrightarrow> turn_decreases n (update_current f k tk)"
  by (simp add: update_current_def split: option.split)

lemma goto_decreases:
  assumes "chars_left tk1 = chars_left tk" "current_char tk1 = current_char tk"
    and "state_weight s (current_char tk) < state_weight (tk_state tk) (current_char tk)"
  shows "turn_decreases (tokenizer_measure tk) (goto s tk1)"
  using assms by (simp add: goto_def tokenizer_measure_def)

lemmas turns_decrease = finish_token_decreases goto_advance_decreases advance_again_decreases
  start_reference_decreases emit_reference_decreases update_current_decreases goto_decreases
  measure_advance

lemma tag_turns_decrease:
  assumes "current_char tk \<noteq> NUL"
  shows "tk_state tk = TS_TAG_OPEN \<Longrightarrow> turn_decreases (tokenizer_measure tk) (tag_open_turn tk)"
    and "tk_state tk = TS_END_TAG_OPEN \<Longrightarrow> turn_decreases (tokenizer_measure tk) (end_tag_open_turn tk)"
    and "tk_state tk = TS_TAG_NAME \<Longrightarrow> turn_decreases (tokenizer_measure tk) (tag_name_turn tk)"
    and "tk_state tk = TS_SELF_CLOSING_START_TAG
      \<Longrightarrow> turn_decreases (tokenizer_measure tk) (self_closing_start_tag_turn tk)"
  using assms
  by (simp_all add: tag_open_turn_def end_tag_open_turn_def tag_name_turn_def
      self_closing_start_tag_turn_def Let_def turns_decrease state_weight_def)
     (simp add: tokenizer_measure_def state_weight_def)

lemma attribute_turns_decrease:
  assumes "current_char tk \<noteq> NUL"
  shows "tk_state tk = TS_BEFORE_ATTRIBUTE_NAME
      \<Longrightarrow> turn_decreases (tokenizer_measure tk) (before_attribute_name_turn tk)"
    and "tk_state tk = TS_ATTRIBUTE_NAME
      \<Longrightarrow> turn_decreases (tokenizer_measure tk) (attribute_name_turn tk)"
    and "tk_state tk = TS_AFTER_ATTRIBUTE_NAME
      \<Longrightarrow> turn_decreases (tokenizer_measure tk) (after_attribute_name_turn tk)"
  using assms
  by (auto simp: before_attribute_name_turn_def attribute_name_turn_def
      after_attribute_name_turn_def Let_def state_weight_def intro!: turns_decrease)

lemma value_turns_decrease:
  assumes "current_char tk \<noteq> NUL"
  shows "tk_state tk = TS_BEFORE_ATTRIBUTE_VALUE
      \<Longrightarrow> turn_decreases (tokenizer_measure tk) (before_attribute_value_turn tk)"
    and "turn_decreases (tokenizer_measure tk) (attribute_value_double_quoted_turn tk)"
    and "turn_decreases (tokenizer_measure tk) (attribute_value_single_quoted_turn tk)"
    and "turn_decreases (tokenizer_measure tk) (attribute_value_unquoted_turn tk)"
    and "tk_state tk = TS_AFTER_ATTRIBUTE_VALUE_QUOTED
      \<Longrightarrow> turn_decreases (tokenizer_measure tk) (after_attribute_value_quoted_turn tk)"
  using assms
  by (auto simp: before_attribute_value_turn_def attribute_value_double_quoted_turn_def
      attribute_value_single_quoted_turn_def attribute_value_unquoted_turn_def
      after_attribute_value_quoted_turn_def Let_def state_weight_def intro!: turns_decrease)

lemma comment_turns_decrease:
  assumes "current_char tk \<noteq> NUL"
  shows "tk_state tk = TS_COMMENT_START
      \<Longrightarrow> turn_decreases (tokenizer_measure tk) (comment_start_turn tk)"
    and "turn_decreases (tokenizer_measure tk) (comment_start_dash_turn tk)"
    and "turn_decreases (tokenizer_measure tk) (comment_turn tk)"
    and "turn_decreases (tokenizer_measure tk) (comment_end_dash_turn tk)"
    and "turn_decreases (tokenizer_measure tk) (comment_end_turn tk)"
  using assms measure_advances [of "tk\<lparr>tk_state := TS_DOCTYPE\<rparr>" tk 6]
  by (auto simp: comment_start_turn_def comment_start_dash_turn_def comment_turn_def
      comment_end_dash_turn_def comment_end_turn_def Let_def state_weight_def numeral_eq_Suc
      intro!: turns_decrease)

lemma text_turns_decrease:
  assumes "current_char tk \<noteq> NUL"
  shows "turn_decreases (tokenizer_measure tk) (data_turn tk)"
    and "turn_decreases (tokenizer_measure tk) (rcdata_turn tk)"
    and "turn_decreases (tokenizer_measure tk) (rawtext_turn tk)"
  using assms
  by (simp_all add: data_turn_def rcdata_turn_def rawtext_turn_def Let_def turns_decrease)

lemma doctype_turns_decrease:
  assumes "current_char tk \<noteq> NUL"
  shows "tk_state tk = TS_DOCTYPE \<Longrightarrow> turn_decreases (tokenizer_measure tk) (doctype_turn tk)"
    and "turn_decreases (tokenizer_measure tk) (doctype_name_turn tk)"
    and "turn_decreases (tokenizer_measure tk) (after_doctype_name_turn tk)"
  using assms
  by (auto simp: doctype_turn_def doctype_name_turn_def after_doctype_name_turn_def Let_def
      state_weight_def intro!: turns_decrease)

text \<open>
  The states a reference returns to. In front of the ampersand that is no reference
  nothing is passed, and the loop of the parser depends on the return to one of them.
\<close>

definition return_states :: "tokenizer_state set" where
  "return_states = {TS_DATA, TS_RCDATA, TS_ATTRIBUTE_VALUE_DOUBLE_QUOTED,
     TS_ATTRIBUTE_VALUE_SINGLE_QUOTED, TS_ATTRIBUTE_VALUE_UNQUOTED}"

lemma state_weight_reference [simp]:
  "state_weight TS_CHARACTER_REFERENCE c = 5" "state_weight TS_NAMED_CHARACTER_REFERENCE c = 4"
  by (simp_all add: state_weight_def)

lemma reference_turns_decrease:
  assumes c: "current_char tk \<noteq> NUL" and r: "tk_return_state tk \<in> return_states"
  shows "tk_state tk = TS_CHARACTER_REFERENCE
      \<Longrightarrow> turn_decreases (tokenizer_measure tk) (character_reference_turn tk)"
    and "tk_state tk = TS_NAMED_CHARACTER_REFERENCE
      \<Longrightarrow> turn_decreases (tokenizer_measure tk) (named_character_reference_turn tk)"
proof -
  have w: "state_weight (tk_return_state tk) (current_char tk) = 0"
    using r by (auto simp: return_states_def state_weight_def)
  show "turn_decreases (tokenizer_measure tk) (character_reference_turn tk)"
    if "tk_state tk = TS_CHARACTER_REFERENCE"
  proof -
    have "turn_decreases (tokenizer_measure tk)
        (Emit (tk\<lparr>tk_state := tk_return_state tk\<rparr>) (char_token CHR ''&''))"
      using that w by (simp add: tokenizer_measure_def)
    with that c show ?thesis
      by (simp add: character_reference_turn_def Let_def turns_decrease del: turn_decreases.simps)
  qed
  have "turn_decreases (tokenizer_measure tk) (emit_reference 0 CHR ''&'' tk)"
    if "tk_state tk = TS_NAMED_CHARACTER_REFERENCE"
    using that w by (simp add: emit_reference_def tokenizer_measure_def)
  then show "turn_decreases (tokenizer_measure tk) (named_character_reference_turn tk)"
    if "tk_state tk = TS_NAMED_CHARACTER_REFERENCE"
    using that emit_reference_decreases [OF c, of 2] emit_reference_decreases [OF c, of 3]
      emit_reference_decreases [OF c, of 4]
    by (simp add: named_character_reference_turn_def)
qed

definition again_decreases :: "nat \<Rightarrow> turn \<Rightarrow> bool" where
  "again_decreases n turn \<longleftrightarrow> (\<forall>tk. turn = Again tk \<longrightarrow> tokenizer_measure tk < n)"

lemma again_if_turn_decreases: "turn_decreases n turn \<Longrightarrow> again_decreases n turn"
  by (cases turn) (simp_all add: again_decreases_def)

lemma reference_turns_again:
  assumes "current_char tk \<noteq> NUL"
  shows "tk_state tk = TS_CHARACTER_REFERENCE
      \<Longrightarrow> again_decreases (tokenizer_measure tk) (character_reference_turn tk)"
    and "again_decreases (tokenizer_measure tk) (named_character_reference_turn tk)"
  using goto_decreases [of tk tk TS_NAMED_CHARACTER_REFERENCE]
    goto_advance_decreases [of tk tk TS_NUMERIC_CHARACTER_REFERENCE] assms
  by (auto simp: again_decreases_def character_reference_turn_def
      named_character_reference_turn_def Let_def state_weight_def emit_reference_def)

lemma other_turns_decrease:
  "current_char tk \<noteq> NUL \<Longrightarrow> turn_decreases (tokenizer_measure tk) (advance_again tk)"
  by (rule advance_again_decreases) simp_all

lemma state_turn_decreases:
  assumes "current_char tk \<noteq> NUL"
    and "tk_state tk \<in> {TS_CHARACTER_REFERENCE, TS_NAMED_CHARACTER_REFERENCE}
      \<Longrightarrow> tk_return_state tk \<in> return_states"
  shows "turn_decreases (tokenizer_measure tk) (state_turn tk)"
  using assms
  by (cases "tk_state tk")
    (simp_all add: state_turn_def tag_turns_decrease attribute_turns_decrease value_turns_decrease
      comment_turns_decrease text_turns_decrease doctype_turns_decrease
      reference_turns_decrease other_turns_decrease)

lemma next_token_turn_again:
  assumes "next_token_turn tk = Again tk'"
  shows "tokenizer_measure tk' < tokenizer_measure tk"
proof -
  have c: "current_char tk \<noteq> NUL"
  proof
    assume "current_char tk = NUL"
    with assms show False
      by (auto simp: next_token_turn_def end_of_input_turn_def split: if_splits option.splits)
  qed
  with assms have t: "state_turn tk = Again tk'" by (simp add: next_token_turn_def)
  have "again_decreases (tokenizer_measure tk) (state_turn tk)"
  proof (cases "tk_state tk \<in> {TS_CHARACTER_REFERENCE, TS_NAMED_CHARACTER_REFERENCE}")
    case True
    with reference_turns_again [OF c] show ?thesis by (auto simp: state_turn_def)
  next
    case False
    with state_turn_decreases [OF c] show ?thesis by (blast intro: again_if_turn_decreases)
  qed
  with t show ?thesis by (simp add: again_decreases_def)
qed

section \<open>The loop\<close>

text \<open>None is a use of the null pointer.\<close>

function next_token :: "tokenizer \<Rightarrow> (tokenizer \<times> html_token) option" where
  "next_token tk = (case next_token_turn tk of
       Again tk' \<Rightarrow> next_token tk'
     | Emit tk' t \<Rightarrow> Some (tk', t)
     | Null_Pointer \<Rightarrow> None)"
  by auto

termination next_token
  by (relation "measure tokenizer_measure") (simp_all add: next_token_turn_again)

declare next_token.simps [simp del]

lemma next_token_again: "next_token_turn tk = Again tk' \<Longrightarrow> next_token tk = next_token tk'"
  by (simp add: next_token.simps [of tk])

lemma next_token_emit: "next_token_turn tk = Emit tk' t \<Longrightarrow> next_token tk = Some (tk', t)"
  by (simp add: next_token.simps [of tk])

section \<open>The invariant\<close>

definition cstring_fits :: "nat \<Rightarrow> string \<Rightarrow> bool" where
  "cstring_fits n s \<longleftrightarrow> length s < n \<and> NUL \<notin> set s"

definition attr_ok :: "html_attr \<Rightarrow> bool" where
  "attr_ok a \<longleftrightarrow> cstring_fits 64 (attr_name a) \<and> cstring_fits 256 (attr_value a)"

text \<open>
  The name and the data of the token hold terminated strings, and so do the attributes below
  \<^verbatim>\<open>attr_count\<close>; the entries behind them may be uninitialised.
\<close>

definition token_ok :: "html_token \<Rightarrow> bool" where
  "token_ok t \<longleftrightarrow> cstring_fits 64 (tok_name t) \<and> cstring_fits 256 (tok_data t)
     \<and> length (tok_attrs t) = 16 \<and> tok_attr_count t \<le> 16 \<and> (\<forall>i < tok_attr_count t. pred_option attr_ok (tok_attrs t ! i) \<and> tok_attrs t ! i \<noteq> None)"

text \<open>The types of the token under construction in a state; none for the states between tokens.\<close>

definition token_types_of :: "tokenizer_state \<Rightarrow> token_type set" where
  "token_types_of s = (
     if s \<in> {TS_TAG_NAME, TS_BEFORE_ATTRIBUTE_NAME, TS_ATTRIBUTE_NAME, TS_AFTER_ATTRIBUTE_NAME,
             TS_BEFORE_ATTRIBUTE_VALUE, TS_ATTRIBUTE_VALUE_DOUBLE_QUOTED,
             TS_ATTRIBUTE_VALUE_SINGLE_QUOTED, TS_ATTRIBUTE_VALUE_UNQUOTED,
             TS_AFTER_ATTRIBUTE_VALUE_QUOTED, TS_SELF_CLOSING_START_TAG}
     then {TT_START_TAG, TT_END_TAG}
     else if s \<in> {TS_COMMENT, TS_COMMENT_END_DASH, TS_COMMENT_END} then {TT_COMMENT}
     else if s \<in> {TS_DOCTYPE_NAME, TS_AFTER_DOCTYPE_NAME} then {TT_DOCTYPE}
     else {})"

definition reference_states :: "tokenizer_state set" where
  "reference_states =
     {TS_CHARACTER_REFERENCE, TS_NAMED_CHARACTER_REFERENCE, TS_NUMERIC_CHARACTER_REFERENCE}"

definition construction_ok :: "tokenizer_state \<Rightarrow> html_token option \<Rightarrow> bool" where
  "construction_ok s cur \<longleftrightarrow> (case cur of
       None \<Rightarrow> token_types_of s = {}
     | Some t \<Rightarrow> tok_type t \<in> token_types_of s \<and> token_ok t)"

definition shape_ok :: "tokenizer_state \<Rightarrow> tokenizer_state \<Rightarrow> html_token option \<Rightarrow> bool" where
  "shape_ok s r cur \<longleftrightarrow>
     (if s \<in> reference_states then r \<in> return_states \<and> construction_ok r cur
      else construction_ok s cur)"

text \<open>At the end of the input an unfinished token is returned and the state stays as it is.\<close>

definition tokenizer_ok :: "tokenizer \<Rightarrow> bool" where
  "tokenizer_ok tk \<longleftrightarrow> (current_char tk = NUL \<and> tk_current tk = None)
     \<or> shape_ok (tk_state tk) (tk_return_state tk) (tk_current tk)"

fun turn_ok :: "turn \<Rightarrow> bool" where
  "turn_ok (Again tk) \<longleftrightarrow> tokenizer_ok tk"
| "turn_ok (Emit tk t) \<longleftrightarrow> tokenizer_ok tk \<and> token_ok t"
| "turn_ok Null_Pointer \<longleftrightarrow> False"

lemma token_types_of_simps [simp]:
  "token_types_of TS_DATA = {}" "token_types_of TS_RCDATA = {}" "token_types_of TS_RAWTEXT = {}"
  "token_types_of TS_TAG_OPEN = {}" "token_types_of TS_END_TAG_OPEN = {}"
  "token_types_of TS_COMMENT_START = {}" "token_types_of TS_COMMENT_START_DASH = {}"
  "token_types_of TS_DOCTYPE = {}"
  "token_types_of TS_TAG_NAME = {TT_START_TAG, TT_END_TAG}"
  "token_types_of TS_BEFORE_ATTRIBUTE_NAME = {TT_START_TAG, TT_END_TAG}"
  "token_types_of TS_ATTRIBUTE_NAME = {TT_START_TAG, TT_END_TAG}"
  "token_types_of TS_AFTER_ATTRIBUTE_NAME = {TT_START_TAG, TT_END_TAG}"
  "token_types_of TS_BEFORE_ATTRIBUTE_VALUE = {TT_START_TAG, TT_END_TAG}"
  "token_types_of TS_ATTRIBUTE_VALUE_DOUBLE_QUOTED = {TT_START_TAG, TT_END_TAG}"
  "token_types_of TS_ATTRIBUTE_VALUE_SINGLE_QUOTED = {TT_START_TAG, TT_END_TAG}"
  "token_types_of TS_ATTRIBUTE_VALUE_UNQUOTED = {TT_START_TAG, TT_END_TAG}"
  "token_types_of TS_AFTER_ATTRIBUTE_VALUE_QUOTED = {TT_START_TAG, TT_END_TAG}"
  "token_types_of TS_SELF_CLOSING_START_TAG = {TT_START_TAG, TT_END_TAG}"
  "token_types_of TS_COMMENT = {TT_COMMENT}" "token_types_of TS_COMMENT_END_DASH = {TT_COMMENT}"
  "token_types_of TS_COMMENT_END = {TT_COMMENT}"
  "token_types_of TS_DOCTYPE_NAME = {TT_DOCTYPE}"
  "token_types_of TS_AFTER_DOCTYPE_NAME = {TT_DOCTYPE}"
  by (simp_all add: token_types_of_def)

lemma token_ok_new [simp]: "token_ok (new_token ty)"
  by (simp add: token_ok_def new_token_def cstring_fits_def)

lemma token_ok_char [simp]: "c \<noteq> NUL \<Longrightarrow> token_ok (char_token c)"
  by (simp add: token_ok_def char_token_def new_token_def cstring_fits_def)

lemma tok_type_new [simp]: "tok_type (new_token ty) = ty" "tok_type (char_token c) = TT_CHARACTER"
  by (simp_all add: new_token_def char_token_def)

lemma ascii_lower_nonzero [simp]: "ascii_lower c = NUL \<longleftrightarrow> c = NUL"
proof -
  have "char_of ((of_char c :: nat) + 32) \<noteq> NUL"
    if "65 \<le> (of_char c :: nat)" "(of_char c :: nat) \<le> 90"
  proof
    assume "char_of ((of_char c :: nat) + 32) = NUL"
    then have "((of_char c :: nat) + 32) mod 256 = of_char NUL" by (metis of_char_of)
    with that show False by simp
  qed
  then show ?thesis by (auto simp: ascii_lower_def)
qed

lemma nonzero_ascii_lower [simp]: "NUL = ascii_lower c \<longleftrightarrow> c = NUL"
  using ascii_lower_nonzero [of c] by metis

lemma append_keeps_type [simp]:
  "tok_type (append_name c t) = tok_type t" "tok_type (append_data c t) = tok_type t"
  "tok_type (append_dash_data c t) = tok_type t" "tok_type (start_attr t) = tok_type t"
  "tok_type (append_attr_name c t) = tok_type t" "tok_type (append_attr_value c t) = tok_type t"
  by (simp_all add: append_name_def append_data_def append_dash_data_def start_attr_def
      append_attr_name_def append_attr_value_def Let_def split: option.split)

lemma append_token_ok [simp]:
  assumes "token_ok t" "c \<noteq> NUL"
  shows "token_ok (append_name c t)" "token_ok (append_data c t)" "token_ok (append_dash_data c t)"
  using assms
  by (auto simp: append_name_def append_data_def append_dash_data_def token_ok_def cstring_fits_def)

lemma start_attr_token_ok [simp]: "token_ok t \<Longrightarrow> token_ok (start_attr t)"
  by (auto simp: start_attr_def token_ok_def blank_attr_def attr_ok_def cstring_fits_def nth_list_update less_Suc_eq)

lemma update_attr_token_ok:
  assumes "token_ok t" "i < 16" "attr_ok a"
  shows "token_ok (t\<lparr>tok_attrs := (tok_attrs t)[i := Some a]\<rparr>)"
  using assms by (auto simp: token_ok_def nth_list_update)

lemma last_attr_ok:
  assumes "token_ok t" "tok_attr_count t \<noteq> 0"
  obtains a where "tok_attrs t ! (tok_attr_count t - 1) = Some a" "attr_ok a" "tok_attr_count t - 1 < 16"
proof -
  have "pred_option attr_ok (tok_attrs t ! (tok_attr_count t - 1)) \<and> tok_attrs t ! (tok_attr_count t - 1) \<noteq> None"
    using assms by (simp add: token_ok_def)
  then obtain a where "tok_attrs t ! (tok_attr_count t - 1) = Some a" "attr_ok a"
    by (cases "tok_attrs t ! (tok_attr_count t - 1)") simp_all
  moreover have "tok_attr_count t - 1 < 16" using assms by (auto simp: token_ok_def)
  ultimately show ?thesis by (rule that)
qed

lemma append_attr_token_ok [simp]:
  assumes "token_ok t" "c \<noteq> NUL"
  shows "token_ok (append_attr_name c t)" "token_ok (append_attr_value c t)"
proof -
  have "token_ok (append_attr_name c t) \<and> token_ok (append_attr_value c t)"
  proof (cases "tok_attr_count t = 0")
    case False
    then obtain a where a: "tok_attrs t ! (tok_attr_count t - 1) = Some a" "attr_ok a" "tok_attr_count t - 1 < 16"
      by (rule last_attr_ok [OF assms(1)])
    then show ?thesis
      using assms update_attr_token_ok [OF assms(1) a(3)]
      by (auto simp: append_attr_name_def append_attr_value_def Let_def attr_ok_def cstring_fits_def)
  qed (use assms in \<open>simp add: append_attr_name_def append_attr_value_def\<close>)
  then show "token_ok (append_attr_name c t)" "token_ok (append_attr_value c t)" by simp_all
qed

definition tokenizer_shape_ok :: "tokenizer \<Rightarrow> bool" where
  "tokenizer_shape_ok tk \<longleftrightarrow> shape_ok (tk_state tk) (tk_return_state tk) (tk_current tk)"

lemma tokenizer_ok_if_shape: "tokenizer_shape_ok tk \<Longrightarrow> tokenizer_ok tk"
  by (simp add: tokenizer_shape_ok_def tokenizer_ok_def)

lemma tokenizer_shape_advance [simp]:
  "tokenizer_shape_ok (advance tk) = tokenizer_shape_ok tk"
  "tokenizer_shape_ok ((advance ^^ n) tk) = tokenizer_shape_ok tk"
  by (simp_all add: tokenizer_shape_ok_def)

lemma shape_updates:
  "tokenizer_shape_ok (tk\<lparr>tk_state := s\<rparr>) = shape_ok s (tk_return_state tk) (tk_current tk)"
  "tokenizer_shape_ok (tk\<lparr>tk_current := x, tk_state := s\<rparr>) = shape_ok s (tk_return_state tk) x"
  "tokenizer_shape_ok (tk\<lparr>tk_current := x\<rparr>) = shape_ok (tk_state tk) (tk_return_state tk) x"
  by (simp_all add: tokenizer_shape_ok_def)

lemma shape_ok_plain: "s \<notin> reference_states \<Longrightarrow> shape_ok s r cur = construction_ok s cur"
  by (simp add: shape_ok_def)

lemma goto_turn_ok:
  assumes "s \<notin> reference_states" "construction_ok s (tk_current tk)"
  shows "turn_ok (goto s tk)" "turn_ok (goto_advance s tk)"
  using assms
  by (simp_all add: goto_def goto_advance_def tokenizer_ok_if_shape shape_updates shape_ok_plain)

lemma finish_token_ok:
  assumes "tk_current tk = Some t" "token_ok t"
  shows "turn_ok (finish_token tk)"
proof -
  have "tokenizer_shape_ok (advance (tk\<lparr>tk_state := TS_DATA\<rparr>)\<lparr>tk_current := None\<rparr>)"
    by (simp add: shape_updates shape_ok_def reference_states_def construction_ok_def)
  with assms show ?thesis by (simp add: finish_token_def emit_current_def tokenizer_ok_if_shape)
qed

lemma advance_again_ok: "tokenizer_shape_ok tk \<Longrightarrow> turn_ok (advance_again tk)"
  by (simp add: advance_again_def tokenizer_ok_if_shape)

lemma start_reference_ok:
  assumes "s \<in> return_states" "construction_ok s (tk_current tk)"
  shows "turn_ok (start_reference s tk)"
  using assms
  by (simp add: start_reference_def goto_advance_def tokenizer_ok_if_shape shape_updates shape_ok_def
      reference_states_def)

lemma update_current_ok:
  assumes "tk_current tk = Some t" "turn_ok (k (tk\<lparr>tk_current := Some (f t)\<rparr>))"
  shows "turn_ok (update_current f k tk)"
  using assms by (simp add: update_current_def)

text \<open>From here on the input is not at its end, and the state says what is under construction.\<close>

lemma under_construction:
  assumes "tokenizer_shape_ok tk" "tk_state tk \<notin> reference_states" "token_types_of (tk_state tk) \<noteq> {}"
  obtains t where "tk_current tk = Some t" "tok_type t \<in> token_types_of (tk_state tk)" "token_ok t"
  using assms
  by (auto simp: tokenizer_shape_ok_def shape_ok_def construction_ok_def split: option.splits)

lemma between_tokens:
  assumes "tokenizer_shape_ok tk" "tk_state tk \<notin> reference_states" "token_types_of (tk_state tk) = {}"
  shows "tk_current tk = None"
  using assms
  by (auto simp: tokenizer_shape_ok_def shape_ok_def construction_ok_def split: option.splits)

lemma emit_char_ok:
  assumes "c \<noteq> NUL" "tokenizer_shape_ok tk"
  shows "turn_ok (Emit tk (char_token c))"
  using assms by (simp add: tokenizer_ok_if_shape)

lemma text_turns_ok:
  assumes c: "current_char tk \<noteq> NUL" and tk: "tokenizer_shape_ok tk"
  shows "tk_state tk = TS_DATA \<Longrightarrow> turn_ok (data_turn tk)"
    and "tk_state tk = TS_RCDATA \<Longrightarrow> turn_ok (rcdata_turn tk)"
    and "tk_state tk = TS_RAWTEXT \<Longrightarrow> turn_ok (rawtext_turn tk)"
  using c tk between_tokens [OF tk]
  by (auto simp: data_turn_def rcdata_turn_def rawtext_turn_def Let_def reference_states_def
      construction_ok_def return_states_def tokenizer_ok_if_shape
      simp del: turn_ok.simps intro!: goto_turn_ok start_reference_ok emit_char_ok)

lemma tag_turns_ok:
  assumes c: "current_char tk \<noteq> NUL" and tk: "tokenizer_shape_ok tk"
  shows "tk_state tk = TS_TAG_OPEN \<Longrightarrow> turn_ok (tag_open_turn tk)"
    and "tk_state tk = TS_END_TAG_OPEN \<Longrightarrow> turn_ok (end_tag_open_turn tk)"
  using c tk between_tokens [OF tk]
  by (auto simp: tag_open_turn_def end_tag_open_turn_def Let_def reference_states_def
      construction_ok_def shape_updates shape_ok_def
      simp del: turn_ok.simps intro!: goto_turn_ok emit_char_ok)

lemma construction_ok_Some [simp]:
  "construction_ok s (Some t) \<longleftrightarrow> tok_type t \<in> token_types_of s \<and> token_ok t"
  by (simp add: construction_ok_def)

lemma self_closing_token_ok [simp]:
  "token_ok (t\<lparr>tok_self_closing := b\<rparr>) = token_ok t"
  by (simp add: token_ok_def)

lemmas turn_ok_rules = goto_turn_ok advance_again_ok start_reference_ok update_current_ok
  finish_token_ok

lemma name_turns_ok:
  assumes c: "current_char tk \<noteq> NUL" and tk: "tokenizer_shape_ok tk"
    and t: "tk_current tk = Some t" "tok_type t \<in> {TT_START_TAG, TT_END_TAG}" "token_ok t"
  shows "tk_state tk = TS_TAG_NAME \<Longrightarrow> turn_ok (tag_name_turn tk)"
    and "tk_state tk = TS_SELF_CLOSING_START_TAG \<Longrightarrow> turn_ok (self_closing_start_tag_turn tk)"
    and "tk_state tk = TS_BEFORE_ATTRIBUTE_NAME \<Longrightarrow> turn_ok (before_attribute_name_turn tk)"
    and "tk_state tk = TS_ATTRIBUTE_NAME \<Longrightarrow> turn_ok (attribute_name_turn tk)"
    and "tk_state tk = TS_AFTER_ATTRIBUTE_NAME \<Longrightarrow> turn_ok (after_attribute_name_turn tk)"
  using c tk t
  by (auto simp: tag_name_turn_def self_closing_start_tag_turn_def before_attribute_name_turn_def
      attribute_name_turn_def after_attribute_name_turn_def Let_def reference_states_def
      shape_updates shape_ok_def intro!: turn_ok_rules)

lemma value_turns_ok:
  assumes c: "current_char tk \<noteq> NUL" and tk: "tokenizer_shape_ok tk"
    and t: "tk_current tk = Some t" "tok_type t \<in> {TT_START_TAG, TT_END_TAG}" "token_ok t"
  shows "tk_state tk = TS_BEFORE_ATTRIBUTE_VALUE \<Longrightarrow> turn_ok (before_attribute_value_turn tk)"
    and "tk_state tk = TS_ATTRIBUTE_VALUE_DOUBLE_QUOTED
      \<Longrightarrow> turn_ok (attribute_value_double_quoted_turn tk)"
    and "tk_state tk = TS_ATTRIBUTE_VALUE_SINGLE_QUOTED
      \<Longrightarrow> turn_ok (attribute_value_single_quoted_turn tk)"
    and "tk_state tk = TS_ATTRIBUTE_VALUE_UNQUOTED \<Longrightarrow> turn_ok (attribute_value_unquoted_turn tk)"
    and "tk_state tk = TS_AFTER_ATTRIBUTE_VALUE_QUOTED
      \<Longrightarrow> turn_ok (after_attribute_value_quoted_turn tk)"
  using c tk t
  by (auto simp: before_attribute_value_turn_def attribute_value_double_quoted_turn_def
      attribute_value_single_quoted_turn_def attribute_value_unquoted_turn_def return_states_def
      after_attribute_value_quoted_turn_def Let_def reference_states_def
      shape_updates shape_ok_def intro!: turn_ok_rules)

lemma comment_start_turns_ok:
  assumes c: "current_char tk \<noteq> NUL" and tk: "tokenizer_shape_ok tk"
  shows "tk_state tk = TS_COMMENT_START \<Longrightarrow> turn_ok (comment_start_turn tk)"
    and "tk_state tk = TS_COMMENT_START_DASH \<Longrightarrow> turn_ok (comment_start_dash_turn tk)"
    and "tk_state tk = TS_DOCTYPE \<Longrightarrow> turn_ok (doctype_turn tk)"
proof -
  have none: "tk_current tk = None" if "tk_state tk \<in> {TS_COMMENT_START, TS_COMMENT_START_DASH, TS_DOCTYPE}"
    using that between_tokens [OF tk] by (auto simp: reference_states_def)
  have "tokenizer_ok ((advance ^^ 7) (tk\<lparr>tk_state := TS_DOCTYPE\<rparr>))"
    if "tk_state tk = TS_COMMENT_START"
    using none that by (intro tokenizer_ok_if_shape)
      (simp add: shape_updates shape_ok_def reference_states_def construction_ok_def)
  then show "tk_state tk = TS_COMMENT_START \<Longrightarrow> turn_ok (comment_start_turn tk)"
    using none by (auto simp: comment_start_turn_def Let_def reference_states_def construction_ok_def
        intro!: goto_turn_ok)
  show "tk_state tk = TS_COMMENT_START_DASH \<Longrightarrow> turn_ok (comment_start_dash_turn tk)"
    using none by (auto simp: comment_start_dash_turn_def Let_def reference_states_def
        construction_ok_def intro!: goto_turn_ok)
  show "tk_state tk = TS_DOCTYPE \<Longrightarrow> turn_ok (doctype_turn tk)"
    using none tk by (auto simp: doctype_turn_def Let_def reference_states_def
        construction_ok_def intro!: goto_turn_ok advance_again_ok)
qed

lemma comment_turns_ok:
  assumes c: "current_char tk \<noteq> NUL" and tk: "tokenizer_shape_ok tk"
    and t: "tk_current tk = Some t" "tok_type t = TT_COMMENT" "token_ok t"
  shows "tk_state tk = TS_COMMENT \<Longrightarrow> turn_ok (comment_turn tk)"
    and "tk_state tk = TS_COMMENT_END_DASH \<Longrightarrow> turn_ok (comment_end_dash_turn tk)"
    and "tk_state tk = TS_COMMENT_END \<Longrightarrow> turn_ok (comment_end_turn tk)"
  using c tk t
  by (auto simp: comment_turn_def comment_end_dash_turn_def comment_end_turn_def Let_def
      reference_states_def shape_updates shape_ok_def intro!: turn_ok_rules)

lemma doctype_turns_ok:
  assumes c: "current_char tk \<noteq> NUL" and tk: "tokenizer_shape_ok tk"
    and t: "tk_current tk = Some t" "tok_type t = TT_DOCTYPE" "token_ok t"
  shows "tk_state tk = TS_DOCTYPE_NAME \<Longrightarrow> turn_ok (doctype_name_turn tk)"
    and "tk_state tk = TS_AFTER_DOCTYPE_NAME \<Longrightarrow> turn_ok (after_doctype_name_turn tk)"
  using c tk t
  by (auto simp: doctype_name_turn_def after_doctype_name_turn_def Let_def
      reference_states_def shape_updates shape_ok_def intro!: turn_ok_rules)

lemma emit_reference_ok:
  assumes "tk_state tk \<in> reference_states" "tokenizer_shape_ok tk" "c \<noteq> NUL"
  shows "turn_ok (emit_reference n c tk)"
proof -
  have "tokenizer_shape_ok (((advance ^^ n) tk)\<lparr>tk_state := tk_return_state tk\<rparr>)"
    using assms by (auto simp: tokenizer_shape_ok_def shape_ok_def return_states_def reference_states_def)
  with assms show ?thesis by (simp add: emit_reference_def tokenizer_ok_if_shape)
qed

lemma reference_turns_ok:
  assumes c: "current_char tk \<noteq> NUL" and tk: "tokenizer_shape_ok tk"
  shows "tk_state tk = TS_CHARACTER_REFERENCE \<Longrightarrow> turn_ok (character_reference_turn tk)"
    and "tk_state tk = TS_NAMED_CHARACTER_REFERENCE \<Longrightarrow> turn_ok (named_character_reference_turn tk)"
proof -
  show "turn_ok (character_reference_turn tk)" if s: "tk_state tk = TS_CHARACTER_REFERENCE"
  proof -
    let ?r = "tk_return_state tk"
    have "?r \<in> return_states" "construction_ok ?r (tk_current tk)"
      using tk s by (simp_all add: tokenizer_shape_ok_def shape_ok_def reference_states_def)
    moreover from this have "?r \<notin> reference_states"
      by (auto simp: return_states_def reference_states_def)
    ultimately have "shape_ok ?r ?r (tk_current tk)"
      "shape_ok TS_NAMED_CHARACTER_REFERENCE ?r (tk_current tk)"
      "shape_ok TS_NUMERIC_CHARACTER_REFERENCE ?r (tk_current tk)"
      by (simp_all add: shape_ok_def reference_states_def)
    then show ?thesis
      by (simp add: character_reference_turn_def Let_def goto_def goto_advance_def
          tokenizer_ok_if_shape shape_updates)
  qed
  show "tk_state tk = TS_NAMED_CHARACTER_REFERENCE \<Longrightarrow> turn_ok (named_character_reference_turn tk)"
    using tk by (simp add: named_character_reference_turn_def emit_reference_ok reference_states_def)
qed

lemma state_turn_tag_ok:
  assumes c: "current_char tk \<noteq> NUL" and tk: "tokenizer_shape_ok tk"
    and s: "tk_state tk \<notin> reference_states" "token_types_of (tk_state tk) \<noteq> {}"
  shows "turn_ok (state_turn tk)"
proof -
  obtain t where t: "tk_current tk = Some t" "tok_type t \<in> token_types_of (tk_state tk)" "token_ok t"
    by (rule under_construction [OF tk s])
  note rules = name_turns_ok [OF c tk t(1) _ t(3)] value_turns_ok [OF c tk t(1) _ t(3)]
    comment_turns_ok [OF c tk t(1) _ t(3)] doctype_turns_ok [OF c tk t(1) _ t(3)]
  show ?thesis
    using s t(2)
    by (cases "tk_state tk") (simp_all add: state_turn_def rules, simp_all add: token_types_of_def)
qed

lemma state_turn_ok:
  assumes c: "current_char tk \<noteq> NUL" and tk: "tokenizer_shape_ok tk"
  shows "turn_ok (state_turn tk)"
proof (cases "tk_state tk \<in> reference_states \<or> token_types_of (tk_state tk) = {}")
  case True
  then show ?thesis
    using reference_turns_ok [OF c tk]
    by (cases "tk_state tk")
      (simp_all add: state_turn_def text_turns_ok [OF c tk] tag_turns_ok [OF c tk]
        comment_start_turns_ok [OF c tk] advance_again_ok [OF tk] reference_states_def
        del: turn_ok.simps)
next
  case False
  then show ?thesis using state_turn_tag_ok [OF c tk] by blast
qed

lemma end_of_input_turn_ok:
  assumes "current_char tk = NUL" "tokenizer_ok tk"
  shows "turn_ok (end_of_input_turn tk)"
proof -
  have "token_ok t" if "tk_current tk = Some t" for t
    using assms(2) that
    by (auto simp: tokenizer_ok_def shape_ok_def split: if_splits)
  then show ?thesis
    using assms by (auto simp: end_of_input_turn_def tokenizer_ok_def split: option.split)
qed

lemma next_token_turn_ok:
  assumes "tokenizer_ok tk"
  shows "turn_ok (next_token_turn tk)"
proof (cases "current_char tk = NUL")
  case True
  with assms show ?thesis by (simp add: next_token_turn_def end_of_input_turn_ok)
next
  case False
  with assms have "tokenizer_shape_ok tk" by (simp add: tokenizer_ok_def tokenizer_shape_ok_def)
  with False show ?thesis by (simp add: next_token_turn_def state_turn_ok)
qed

lemma next_token_ok:
  assumes "tokenizer_ok tk"
  shows "\<exists>tk' t. next_token tk = Some (tk', t) \<and> tokenizer_ok tk' \<and> token_ok t
    \<and> (tokenizer_measure tk' < tokenizer_measure tk \<or> t = new_token TT_EOF_TOKEN)"
  using assms
proof (induction tk rule: next_token.induct)
  case (1 tk)
  note ok = next_token_turn_ok [OF "1.prems"]
  show ?case
  proof (cases "next_token_turn tk")
    case (Again tk')
    with ok "1.IH" [OF Again] obtain tk2 t where
      "next_token tk' = Some (tk2, t)" "tokenizer_ok tk2" "token_ok t"
      "tokenizer_measure tk2 < tokenizer_measure tk' \<or> t = new_token TT_EOF_TOKEN" by auto
    with next_token_turn_again [OF Again] next_token_again [OF Again] show ?thesis by auto
  next
    case (Emit tk' t)
    have "tokenizer_measure tk' < tokenizer_measure tk \<or> t = new_token TT_EOF_TOKEN"
    proof (cases "current_char tk = NUL")
      case True
      with Emit show ?thesis
        by (auto simp: next_token_turn_def end_of_input_turn_def tokenizer_measure_def
            split: if_splits option.splits)
    next
      case False
      then have "tokenizer_shape_ok tk"
        using "1.prems" by (simp add: tokenizer_ok_def tokenizer_shape_ok_def)
      then have "tk_state tk \<in> reference_states \<Longrightarrow> tk_return_state tk \<in> return_states"
        by (simp add: tokenizer_shape_ok_def shape_ok_def)
      with state_turn_decreases [OF False] have "turn_decreases (tokenizer_measure tk) (state_turn tk)"
        by (auto simp: reference_states_def)
      with False Emit show ?thesis by (simp add: next_token_turn_def)
    qed
    with Emit ok show ?thesis by (auto simp: next_token_emit)
  next
    case Null_Pointer
    with ok show ?thesis by simp
  qed
qed

lemma new_tokenizer_ok [simp]: "tokenizer_ok (new_tokenizer inp)"
  by (simp add: tokenizer_ok_def new_tokenizer_def shape_ok_def reference_states_def construction_ok_def)

end
