(* ===== verification/HtmlTokens.thy ===== *)
theory HtmlTokens
  imports HtmlTokenizer
begin

text \<open>
  The tokens of whole documents: asking until the end of the input always ends with
  well-formed tokens, what is written as markup is read back as the tokens it was written
  for, and the point from which a document is lost.
\<close>

section \<open>All tokens of a document\<close>

text \<open>What a caller receives that asks until the end of the input is returned.\<close>

partial_function (option) tokens_from :: "tokenizer \<Rightarrow> html_token list option" where
  "tokens_from tk = (case next_token tk of
       None \<Rightarrow> None
     | Some (tk', t) \<Rightarrow>
         if tok_type t = TT_EOF_TOKEN then Some []
         else do { ts \<leftarrow> tokens_from tk'; Some (t # ts) })"

declare tokens_from.simps [code]

definition html_tokens :: "string \<Rightarrow> html_token list option" where
  "html_tokens inp = tokens_from (new_tokenizer inp)"

lemma tokens_from_returns:
  assumes "tokenizer_ok tk"
  shows "\<exists>ts. tokens_from tk = Some ts \<and> (\<forall>t \<in> set ts. token_ok t)"
  using assms
proof (induction "tokenizer_measure tk" arbitrary: tk rule: less_induct)
  case less
  obtain tk' t where t: "next_token tk = Some (tk', t)" "tokenizer_ok tk'" "token_ok t"
    "tokenizer_measure tk' < tokenizer_measure tk \<or> t = new_token TT_EOF_TOKEN"
    using next_token_ok [OF less.prems] by blast
  show ?case
  proof (cases "tok_type t = TT_EOF_TOKEN")
    case True
    with t(1) show ?thesis by (simp add: tokens_from.simps [of tk])
  next
    case False
    with t(4) have "tokenizer_measure tk' < tokenizer_measure tk" by auto
    from less.hyps [OF this t(2)] obtain ts where
      "tokens_from tk' = Some ts" "\<forall>t \<in> set ts. token_ok t" by blast
    with t(1,3) False show ?thesis by (simp add: tokens_from.simps [of tk])
  qed
qed

section \<open>Markup and its tokens\<close>

datatype markup =
    Doctype string
  | Open_Tag string "(string \<times> string) list" bool
  | Close_Tag string
  | Comment_Text string
  | Text char

fun render_attr :: "string \<times> string \<Rightarrow> string" where
  "render_attr (a, v) = '' '' @ a @ [CHR ''='', CHR 0x22] @ v @ [CHR 0x22]"

definition render_char :: "char \<Rightarrow> string" where
  "render_char c = (if c = CHR ''<'' then ''&lt;'' else if c = CHR ''>'' then ''&gt;''
     else if c = CHR ''&'' then ''&amp;'' else if c = CHR 0x22 then ''&quot;'' else [c])"

fun render :: "markup \<Rightarrow> string" where
  "render (Doctype n) = ''<!DOCTYPE '' @ n @ ''>''"
| "render (Open_Tag n avs closed) =
     ''<'' @ n @ concat (map render_attr avs) @ (if closed then ''/>'' else ''>'')"
| "render (Close_Tag n) = ''</'' @ n @ ''>''"
| "render (Comment_Text d) = ''<!--'' @ d @ ''-->''"
| "render (Text c) = render_char c"

definition attr_of :: "string \<times> string \<Rightarrow> html_attr" where
  "attr_of av = \<lparr>attr_name = fst av, attr_value = snd av\<rparr>"

definition with_attrs :: "html_token \<Rightarrow> html_attr list \<Rightarrow> html_token" where
  "with_attrs t as = t\<lparr>tok_attrs := map Some as @ replicate (16 - length as) None,
     tok_attr_count := length as\<rparr>"

fun token_of :: "markup \<Rightarrow> html_token" where
  "token_of (Doctype n) = new_token TT_DOCTYPE\<lparr>tok_name := n\<rparr>"
| "token_of (Open_Tag n avs closed) =
     with_attrs (new_token TT_START_TAG\<lparr>tok_name := n, tok_self_closing := closed\<rparr>) (map attr_of avs)"
| "token_of (Close_Tag n) = new_token TT_END_TAG\<lparr>tok_name := n\<rparr>"
| "token_of (Comment_Text d) = new_token TT_COMMENT\<lparr>tok_data := d\<rparr>"
| "token_of (Text c) = char_token c"

definition stays_lower :: "char \<Rightarrow> bool" where
  "stays_lower c \<longleftrightarrow> c \<noteq> NUL \<and> ascii_lower c = c"

definition name_char :: "char \<Rightarrow> bool" where
  "name_char c \<longleftrightarrow> stays_lower c \<and> \<not> is_space c \<and> c \<noteq> CHR ''/'' \<and> c \<noteq> CHR ''>''"

definition tag_name_ok :: "string \<Rightarrow> bool" where
  "tag_name_ok n \<longleftrightarrow> n \<noteq> [] \<and> is_ascii_alpha (hd n) \<and> list_all name_char n \<and> length n < 64"

fun attribute_ok :: "string \<times> string \<Rightarrow> bool" where
  "attribute_ok (a, v) \<longleftrightarrow> a \<noteq> [] \<and> list_all (\<lambda>c. name_char c \<and> c \<noteq> CHR ''='') a \<and> length a < 64
     \<and> list_all (\<lambda>c. c \<noteq> NUL \<and> c \<noteq> CHR 0x22 \<and> c \<noteq> CHR ''&'') v \<and> length v < 256"

fun single_dashes :: "string \<Rightarrow> bool" where
  "single_dashes [] \<longleftrightarrow> True"
| "single_dashes (c # s) \<longleftrightarrow>
     (if c = CHR ''-'' then s \<noteq> [] \<and> hd s \<noteq> CHR ''-'' \<and> single_dashes (tl s) else single_dashes s)"

fun markup_ok :: "markup \<Rightarrow> bool" where
  "markup_ok (Doctype n) \<longleftrightarrow> n \<noteq> [] \<and> length n < 64
     \<and> list_all (\<lambda>c. stays_lower c \<and> \<not> is_space c \<and> c \<noteq> CHR ''>'') n"
| "markup_ok (Open_Tag n avs closed) \<longleftrightarrow> tag_name_ok n \<and> length avs \<le> 16 \<and> list_all attribute_ok avs"
| "markup_ok (Close_Tag n) \<longleftrightarrow> tag_name_ok n"
| "markup_ok (Comment_Text d) \<longleftrightarrow> single_dashes d \<and> NUL \<notin> set d \<and> length d < 256"
| "markup_ok (Text c) \<longleftrightarrow> c \<noteq> NUL"

section \<open>Reading markup back\<close>

text \<open>A tokenizer between the part of the input it has passed and the part ahead.\<close>

definition at_input :: "string \<Rightarrow> string \<Rightarrow> tokenizer_state \<Rightarrow> tokenizer_state \<Rightarrow>
    html_token option \<Rightarrow> tokenizer" where
  "at_input pre r s rs cur = \<lparr>tk_input = pre @ r, tk_position = length pre, tk_state = s,
     tk_return_state = rs, tk_current = cur\<rparr>"

lemma at_input_fields [simp]:
  "tk_state (at_input pre r s rs cur) = s" "tk_return_state (at_input pre r s rs cur) = rs"
  "tk_current (at_input pre r s rs cur) = cur"
  "(at_input pre r s rs cur)\<lparr>tk_state := s'\<rparr> = at_input pre r s' rs cur"
  "(at_input pre r s rs cur)\<lparr>tk_return_state := rs'\<rparr> = at_input pre r s rs' cur"
  "(at_input pre r s rs cur)\<lparr>tk_current := cur'\<rparr> = at_input pre r s rs cur'"
  by (simp_all add: at_input_def)

lemma at_input_char [simp]:
  "current_char (at_input pre (c # r) s rs cur) = c"
  "current_char (at_input pre [] s rs cur) = NUL"
  "c \<noteq> NUL \<Longrightarrow> advance (at_input pre (c # r) s rs cur) = at_input (pre @ [c]) r s rs cur"
  by (simp_all add: at_input_def current_char_def advance_def nth_append)

lemma at_input_looking [simp]: "looking_at w (at_input pre r s rs cur) \<longleftrightarrow> take (length w) r = w"
  by (simp add: looking_at_def at_input_def)

lemma new_tokenizer_at_input: "new_tokenizer inp = at_input [] inp TS_DATA TS_DATA None"
  by (simp add: new_tokenizer_def at_input_def)

lemma next_token_turn_at [simp]:
  "c \<noteq> NUL \<Longrightarrow> next_token_turn (at_input pre (c # r) s rs cur) = state_turn (at_input pre (c # r) s rs cur)"
  by (simp add: next_token_turn_def)

lemma next_token_if_again:
  "next_token_turn tk = Again tk' \<Longrightarrow> next_token tk' = x \<Longrightarrow> next_token tk = x"
  by (simp add: next_token_again)

lemma append_name_lower:
  "stays_lower c \<Longrightarrow> length (tok_name t) < 63 \<Longrightarrow> append_name c t = t\<lparr>tok_name := tok_name t @ [c]\<rparr>"
  by (simp add: append_name_def stays_lower_def)

lemma read_tag_name:
  assumes "list_all name_char n" "length (tok_name t) + length n < 64"
  shows "next_token (at_input pre (n @ r) TS_TAG_NAME rs (Some t)) =
    next_token (at_input (pre @ n) r TS_TAG_NAME rs (Some (t\<lparr>tok_name := tok_name t @ n\<rparr>)))"
  using assms
proof (induction n arbitrary: pre t)
  case (Cons c n)
  then have "next_token_turn (at_input pre (c # n @ r) TS_TAG_NAME rs (Some t)) =
      Again (at_input (pre @ [c]) (n @ r) TS_TAG_NAME rs (Some (t\<lparr>tok_name := tok_name t @ [c]\<rparr>)))"
    by (auto simp: state_turn_def tag_name_turn_def Let_def update_current_def advance_again_def
        name_char_def stays_lower_def append_name_lower)
  from next_token_again [OF this] Cons show ?case by simp
qed simp

lemma read_doctype_name:
  assumes "list_all (\<lambda>c. stays_lower c \<and> \<not> is_space c \<and> c \<noteq> CHR ''>'') n"
    "length (tok_name t) + length n < 64"
  shows "next_token (at_input pre (n @ r) TS_DOCTYPE_NAME rs (Some t)) =
    next_token (at_input (pre @ n) r TS_DOCTYPE_NAME rs (Some (t\<lparr>tok_name := tok_name t @ n\<rparr>)))"
  using assms
proof (induction n arbitrary: pre t)
  case (Cons c n)
  then have "next_token_turn (at_input pre (c # n @ r) TS_DOCTYPE_NAME rs (Some t)) =
      Again (at_input (pre @ [c]) (n @ r) TS_DOCTYPE_NAME rs (Some (t\<lparr>tok_name := tok_name t @ [c]\<rparr>)))"
    by (auto simp: state_turn_def doctype_name_turn_def Let_def update_current_def advance_again_def
        stays_lower_def append_name_lower)
  from next_token_again [OF this] Cons show ?case by simp
qed simp

lemma with_attrs_last [simp]:
  assumes "length as < 16"
  shows "start_attr (with_attrs t as) = with_attrs t (as @ [blank_attr])"
    and "length (attr_name a) < 63 \<Longrightarrow> stays_lower c \<Longrightarrow>
      append_attr_name c (with_attrs t (as @ [a])) =
      with_attrs t (as @ [a\<lparr>attr_name := attr_name a @ [c]\<rparr>])"
    and "length (attr_value a) < 255 \<Longrightarrow>
      append_attr_value c (with_attrs t (as @ [a])) =
      with_attrs t (as @ [a\<lparr>attr_value := attr_value a @ [c]\<rparr>])"
proof -
  have "replicate (16 - length as) None = None # replicate (15 - length as) (None :: html_attr option)"
    using assms by (cases "16 - length as") auto
  then show "start_attr (with_attrs t as) = with_attrs t (as @ [blank_attr])"
    using assms by (simp add: start_attr_def with_attrs_def list_update_append)
  show "append_attr_name c (with_attrs t (as @ [a])) =
      with_attrs t (as @ [a\<lparr>attr_name := attr_name a @ [c]\<rparr>])"
    if "length (attr_name a) < 63" "stays_lower c"
    using assms that
    by (simp add: append_attr_name_def with_attrs_def Let_def nth_append stays_lower_def list_update_append)
  show "append_attr_value c (with_attrs t (as @ [a])) =
      with_attrs t (as @ [a\<lparr>attr_value := attr_value a @ [c]\<rparr>])"
    if "length (attr_value a) < 255"
    using assms that
    by (simp add: append_attr_value_def with_attrs_def Let_def nth_append list_update_append)
qed

lemma read_attr_name:
  assumes "list_all (\<lambda>c. name_char c \<and> c \<noteq> CHR ''='') n" "length (attr_name a) + length n < 64"
    "length as < 16"
  shows "next_token (at_input pre (n @ r) TS_ATTRIBUTE_NAME rs (Some (with_attrs t (as @ [a])))) =
    next_token (at_input (pre @ n) r TS_ATTRIBUTE_NAME rs
      (Some (with_attrs t (as @ [a\<lparr>attr_name := attr_name a @ n\<rparr>]))))"
  using assms
proof (induction n arbitrary: pre a)
  case (Cons c n)
  then have "next_token_turn (at_input pre (c # n @ r) TS_ATTRIBUTE_NAME rs (Some (with_attrs t (as @ [a])))) =
      Again (at_input (pre @ [c]) (n @ r) TS_ATTRIBUTE_NAME rs
        (Some (with_attrs t (as @ [a\<lparr>attr_name := attr_name a @ [c]\<rparr>]))))"
    by (auto simp: state_turn_def attribute_name_turn_def Let_def update_current_def
        advance_again_def name_char_def stays_lower_def)
  from next_token_again [OF this] Cons show ?case by simp
qed simp

lemma read_attr_value:
  assumes "list_all (\<lambda>c. c \<noteq> NUL \<and> c \<noteq> CHR 0x22 \<and> c \<noteq> CHR ''&'') v"
    "length (attr_value a) + length v < 256" "length as < 16"
  shows "next_token (at_input pre (v @ r) TS_ATTRIBUTE_VALUE_DOUBLE_QUOTED rs
      (Some (with_attrs t (as @ [a])))) =
    next_token (at_input (pre @ v) r TS_ATTRIBUTE_VALUE_DOUBLE_QUOTED rs
      (Some (with_attrs t (as @ [a\<lparr>attr_value := attr_value a @ v\<rparr>]))))"
  using assms
proof (induction v arbitrary: pre a)
  case (Cons c v)
  then have "next_token_turn (at_input pre (c # v @ r) TS_ATTRIBUTE_VALUE_DOUBLE_QUOTED rs
        (Some (with_attrs t (as @ [a])))) =
      Again (at_input (pre @ [c]) (v @ r) TS_ATTRIBUTE_VALUE_DOUBLE_QUOTED rs
        (Some (with_attrs t (as @ [a\<lparr>attr_value := attr_value a @ [c]\<rparr>]))))"
    by (auto simp: state_turn_def attribute_value_double_quoted_turn_def Let_def update_current_def
        advance_again_def)
  from next_token_again [OF this] Cons show ?case by simp
qed simp

lemma read_attr:
  assumes av: "attribute_ok (a, v)" and as: "length as < 16"
    and s: "s = TS_TAG_NAME \<or> s = TS_AFTER_ATTRIBUTE_VALUE_QUOTED"
  shows "next_token (at_input pre (render_attr (a, v) @ r) s rs (Some (with_attrs t as))) =
    next_token (at_input (pre @ render_attr (a, v)) r TS_AFTER_ATTRIBUTE_VALUE_QUOTED rs
      (Some (with_attrs t (as @ [attr_of (a, v)]))))"
proof -
  obtain c a' where a: "a = c # a'" and c: "name_char c" "c \<noteq> CHR ''=''"
    using av by (cases a) auto
  have c0: "c \<noteq> NUL" "\<not> is_space c" "c \<noteq> CHR ''/''" "c \<noteq> CHR ''>''"
    using c by (auto simp: name_char_def stays_lower_def)
  let ?r1 = "[CHR ''='', CHR 0x22] @ v @ CHR 0x22 # r"
  let ?w = "\<lambda>x. Some (with_attrs t (as @ [x]))"
  have space: "is_space CHR '' ''" by (simp add: is_space_def)
  have "next_token (at_input pre (render_attr (a, v) @ r) s rs (Some (with_attrs t as))) =
      next_token (at_input (pre @ '' '') (a @ ?r1) TS_BEFORE_ATTRIBUTE_NAME rs (Some (with_attrs t as)))"
    using s by (intro next_token_again)
      (auto simp: state_turn_def tag_name_turn_def after_attribute_value_quoted_turn_def Let_def
        space goto_advance_def)
  also have "\<dots> = next_token (at_input (pre @ '' '') (a @ ?r1) TS_ATTRIBUTE_NAME rs (?w blank_attr))"
    using c0 as by (intro next_token_again)
      (simp add: a state_turn_def before_attribute_name_turn_def Let_def update_current_def goto_def)
  also have "\<dots> = next_token (at_input (pre @ '' '' @ a) ?r1 TS_ATTRIBUTE_NAME rs
      (?w (blank_attr\<lparr>attr_name := a\<rparr>)))"
    using read_attr_name [of a blank_attr as "pre @ '' ''" ?r1 rs t] av as
    by (simp add: blank_attr_def)
  also have "\<dots> = next_token (at_input (pre @ '' '' @ a @ ''='') (CHR 0x22 # v @ CHR 0x22 # r)
      TS_BEFORE_ATTRIBUTE_VALUE rs (?w (blank_attr\<lparr>attr_name := a\<rparr>)))"
    by (intro next_token_again)
      (simp add: state_turn_def attribute_name_turn_def Let_def goto_advance_def is_space_def)
  also have "\<dots> = next_token (at_input (pre @ '' '' @ a @ [CHR ''='', CHR 0x22]) (v @ CHR 0x22 # r)
      TS_ATTRIBUTE_VALUE_DOUBLE_QUOTED rs (?w (blank_attr\<lparr>attr_name := a\<rparr>)))"
    by (intro next_token_again)
      (simp add: state_turn_def before_attribute_value_turn_def Let_def goto_advance_def is_space_def)
  also have "\<dots> = next_token (at_input (pre @ '' '' @ a @ [CHR ''='', CHR 0x22] @ v) (CHR 0x22 # r)
      TS_ATTRIBUTE_VALUE_DOUBLE_QUOTED rs (?w (attr_of (a, v))))"
    using read_attr_value [of v "blank_attr\<lparr>attr_name := a\<rparr>" as
        "pre @ '' '' @ a @ [CHR ''='', CHR 0x22]" "CHR 0x22 # r" rs t] av as
    by (simp add: blank_attr_def attr_of_def)
  also have "\<dots> = next_token (at_input (pre @ render_attr (a, v)) r TS_AFTER_ATTRIBUTE_VALUE_QUOTED rs
      (?w (attr_of (a, v))))"
    by (intro next_token_again)
      (simp add: state_turn_def attribute_value_double_quoted_turn_def Let_def goto_advance_def)
  finally show ?thesis .
qed

lemma read_attrs:
  assumes "list_all attribute_ok avs" "length as + length avs \<le> 16"
    and "s = TS_TAG_NAME \<or> s = TS_AFTER_ATTRIBUTE_VALUE_QUOTED"
  shows "next_token (at_input pre (concat (map render_attr avs) @ r) s rs (Some (with_attrs t as))) =
    next_token (at_input (pre @ concat (map render_attr avs)) r
      (if avs = [] then s else TS_AFTER_ATTRIBUTE_VALUE_QUOTED) rs
      (Some (with_attrs t (as @ map attr_of avs))))"
  using assms
proof (induction avs arbitrary: pre as s)
  case (Cons av avs)
  obtain a v where av: "av = (a, v)" by (cases av)
  from Cons have "length as < 16" "attribute_ok (a, v)" by (auto simp: av)
  note step = read_attr [OF this(2,1) Cons.prems(3), of pre "concat (map render_attr avs) @ r" rs t]
  show ?case
    using step Cons.IH [of "as @ [attr_of av]" TS_AFTER_ATTRIBUTE_VALUE_QUOTED "pre @ render_attr av"]
      Cons.prems by (simp add: av)
qed simp

lemma read_tag_end:
  assumes "s = TS_TAG_NAME \<or> s = TS_AFTER_ATTRIBUTE_VALUE_QUOTED"
  shows "next_token (at_input pre (CHR ''>'' # r) s rs (Some t)) =
      Some (at_input (pre @ ''>'') r TS_DATA rs None, t)"
    and "next_token (at_input pre (CHR ''/'' # CHR ''>'' # r) s rs (Some t)) =
      Some (at_input (pre @ ''/>'') r TS_DATA rs None, t\<lparr>tok_self_closing := True\<rparr>)"
proof -
  show "next_token (at_input pre (CHR ''>'' # r) s rs (Some t)) =
      Some (at_input (pre @ ''>'') r TS_DATA rs None, t)"
    using assms by (intro next_token_emit)
      (auto simp: state_turn_def tag_name_turn_def after_attribute_value_quoted_turn_def Let_def
        is_space_def finish_token_def emit_current_def)
  have "next_token (at_input pre (CHR ''/'' # CHR ''>'' # r) s rs (Some t)) =
      next_token (at_input (pre @ ''/'') (CHR ''>'' # r) TS_SELF_CLOSING_START_TAG rs (Some t))"
    using assms by (intro next_token_again)
      (auto simp: state_turn_def tag_name_turn_def after_attribute_value_quoted_turn_def Let_def
        is_space_def goto_advance_def)
  also have "\<dots> = Some (at_input (pre @ ''/>'') r TS_DATA rs None, t\<lparr>tok_self_closing := True\<rparr>)"
    by (intro next_token_emit)
      (simp add: state_turn_def self_closing_start_tag_turn_def Let_def update_current_def
        finish_token_def emit_current_def)
  finally show "next_token (at_input pre (CHR ''/'' # CHR ''>'' # r) s rs (Some t)) =
      Some (at_input (pre @ ''/>'') r TS_DATA rs None, t\<lparr>tok_self_closing := True\<rparr>)" .
qed

lemma read_text:
  assumes "c \<noteq> NUL"
  shows "\<exists>rs'. next_token (at_input pre (render_char c @ r) TS_DATA rs None) =
    Some (at_input (pre @ render_char c) r TS_DATA rs' None, char_token c)"
proof -
  have amp: "next_token (at_input pre (CHR ''&'' # r') TS_DATA rs None) =
      next_token (at_input (pre @ ''&'') r' TS_CHARACTER_REFERENCE TS_DATA None)" for r'
    by (intro next_token_again) (simp add: state_turn_def data_turn_def start_reference_def goto_advance_def)
  have named: "next_token (at_input pre' (c' # r') TS_CHARACTER_REFERENCE TS_DATA None) =
      next_token (at_input pre' (c' # r') TS_NAMED_CHARACTER_REFERENCE TS_DATA None)"
    if "is_ascii_alpha c'" "c' \<noteq> NUL" for pre' c' r'
    using that by (intro next_token_again) (simp add: state_turn_def character_reference_turn_def goto_def)
  have alpha: "is_ascii_alpha CHR ''l''" "is_ascii_alpha CHR ''g''" "is_ascii_alpha CHR ''a''"
    "is_ascii_alpha CHR ''q''" by (simp_all add: is_ascii_alpha_def)
  have plain: "next_token (at_input pre (c # r) TS_DATA rs None) =
      Some (at_input (pre @ [c]) r TS_DATA rs None, char_token c)" if "c \<noteq> CHR ''<''" "c \<noteq> CHR ''&''"
    using that assms by (intro next_token_emit) (simp add: state_turn_def data_turn_def)
  show ?thesis
    using assms plain
    by (auto simp: render_char_def amp named alpha intro!: exI
        next_token_emit simp: state_turn_def named_character_reference_turn_def emit_reference_def
        numeral_eq_Suc)
qed

lemma tag_name_nonempty:
  assumes "tag_name_ok n"
  obtains c n' where "n = c # n'" "is_ascii_alpha c" "c \<noteq> NUL" "c \<noteq> CHR ''!''" "c \<noteq> CHR ''/''"
proof (cases n)
  case (Cons c n')
  with assms have "is_ascii_alpha c" by (simp add: tag_name_ok_def)
  moreover from this have "c \<noteq> NUL" "c \<noteq> CHR ''!''" "c \<noteq> CHR ''/''" by (auto simp: is_ascii_alpha_def)
  ultimately show ?thesis using Cons that by blast
qed (use assms in \<open>simp add: tag_name_ok_def\<close>)

lemma next_token_less_than:
  "next_token (at_input pre (CHR ''<'' # r) TS_DATA rs None) =
   next_token (at_input (pre @ ''<'') r TS_TAG_OPEN rs None)"
  by (intro next_token_again) (simp add: state_turn_def data_turn_def goto_advance_def)

lemma read_open_tag:
  assumes "markup_ok (Open_Tag n avs closed)"
  shows "next_token (at_input pre (render (Open_Tag n avs closed) @ r) TS_DATA rs None) =
    Some (at_input (pre @ render (Open_Tag n avs closed)) r TS_DATA rs None,
      token_of (Open_Tag n avs closed))"
proof -
  have n: "tag_name_ok n" and avs: "length avs \<le> 16" "list_all attribute_ok avs" using assms by simp_all
  obtain c n' where c: "n = c # n'" "is_ascii_alpha c" "c \<noteq> NUL" "c \<noteq> CHR ''!''" "c \<noteq> CHR ''/''"
    using n by (rule tag_name_nonempty)
  let ?e = "if closed then ''/>'' else ''>''"
  let ?as = "concat (map render_attr avs)"
  let ?t = "new_token TT_START_TAG\<lparr>tok_name := n\<rparr>"
  let ?s = "if avs = [] then TS_TAG_NAME else TS_AFTER_ATTRIBUTE_VALUE_QUOTED"
  have t0: "with_attrs t [] = t" if "tok_attrs t = replicate 16 None" "tok_attr_count t = 0" for t
    using that by (simp add: with_attrs_def)
  have "next_token (at_input pre (render (Open_Tag n avs closed) @ r) TS_DATA rs None) =
      next_token (at_input (pre @ ''<'') (n @ ?as @ ?e @ r) TS_TAG_OPEN rs None)"
    using next_token_less_than by simp
  also have "\<dots> = next_token (at_input (pre @ ''<'') (n @ ?as @ ?e @ r) TS_TAG_NAME rs
      (Some (new_token TT_START_TAG)))"
    using c by (intro next_token_again) (simp add: state_turn_def tag_open_turn_def goto_def)
  also have "\<dots> = next_token (at_input (pre @ ''<'' @ n) (?as @ ?e @ r) TS_TAG_NAME rs (Some ?t))"
    using read_tag_name [of n "new_token TT_START_TAG" "pre @ ''<''"] n
    by (simp add: tag_name_ok_def new_token_def)
  also have "\<dots> = next_token (at_input (pre @ ''<'' @ n @ ?as) (?e @ r) ?s rs
      (Some (with_attrs ?t (map attr_of avs))))"
    using read_attrs [of avs "[]" TS_TAG_NAME "pre @ ''<'' @ n" "?e @ r" rs ?t] avs
    by (simp add: t0 new_token_def)
  also have "\<dots> = Some (at_input (pre @ render (Open_Tag n avs closed)) r TS_DATA rs None,
      token_of (Open_Tag n avs closed))"
  proof -
    have s: "?s = TS_TAG_NAME \<or> ?s = TS_AFTER_ATTRIBUTE_VALUE_QUOTED" by simp
    show ?thesis
      using read_tag_end [OF s, of "pre @ ''<'' @ n @ ?as" r rs "with_attrs ?t (map attr_of avs)"]
      by (cases closed) (simp_all add: with_attrs_def new_token_def)
  qed
  finally show ?thesis .
qed

lemma read_close_tag:
  assumes "tag_name_ok n"
  shows "next_token (at_input pre (render (Close_Tag n) @ r) TS_DATA rs None) =
    Some (at_input (pre @ render (Close_Tag n)) r TS_DATA rs None, token_of (Close_Tag n))"
proof -
  obtain c n' where c: "n = c # n'" "is_ascii_alpha c" "c \<noteq> NUL" "c \<noteq> CHR ''!''" "c \<noteq> CHR ''/''"
    using assms by (rule tag_name_nonempty)
  have "next_token (at_input pre (render (Close_Tag n) @ r) TS_DATA rs None) =
      next_token (at_input (pre @ ''<'') (CHR ''/'' # n @ CHR ''>'' # r) TS_TAG_OPEN rs None)"
    using next_token_less_than by simp
  also have "\<dots> = next_token (at_input (pre @ ''</'') (n @ CHR ''>'' # r) TS_END_TAG_OPEN rs None)"
    by (intro next_token_again) (simp add: state_turn_def tag_open_turn_def goto_advance_def)
  also have "\<dots> = next_token (at_input (pre @ ''</'') (n @ CHR ''>'' # r) TS_TAG_NAME rs
      (Some (new_token TT_END_TAG)))"
    using c by (intro next_token_again) (simp add: state_turn_def end_tag_open_turn_def goto_def)
  also have "\<dots> = next_token (at_input (pre @ ''</'' @ n) (CHR ''>'' # r) TS_TAG_NAME rs
      (Some (new_token TT_END_TAG\<lparr>tok_name := n\<rparr>)))"
    using read_tag_name [of n "new_token TT_END_TAG" "pre @ ''</''"] assms
    by (simp add: tag_name_ok_def new_token_def)
  also have "\<dots> = Some (at_input (pre @ render (Close_Tag n)) r TS_DATA rs None, token_of (Close_Tag n))"
    using read_tag_end(1) [of TS_TAG_NAME "pre @ ''</'' @ n" r] by simp
  finally show ?thesis .
qed

lemma read_comment_data:
  assumes "single_dashes d" "NUL \<notin> set d" "length (tok_data t) + length d < 256"
  shows "next_token (at_input pre (d @ r) TS_COMMENT rs (Some t)) =
    next_token (at_input (pre @ d) r TS_COMMENT rs (Some (t\<lparr>tok_data := tok_data t @ d\<rparr>)))"
  using assms
proof (induction d arbitrary: pre t rule: single_dashes.induct)
  case (2 c s)
  show ?case
  proof (cases "c = CHR ''-''")
    case True
    then obtain c' s' where s: "s = c' # s'" "c' \<noteq> CHR ''-''" "single_dashes s'" "c' \<noteq> NUL"
      using "2.prems" by (cases s) auto
    have "next_token (at_input pre ((c # s) @ r) TS_COMMENT rs (Some t)) =
        next_token (at_input (pre @ ''-'') (s @ r) TS_COMMENT_END_DASH rs (Some t))"
      using True by (intro next_token_again) (simp add: state_turn_def comment_turn_def goto_advance_def)
    also have "\<dots> = next_token (at_input (pre @ [CHR ''-'', c']) (s' @ r) TS_COMMENT rs
        (Some (t\<lparr>tok_data := tok_data t @ [CHR ''-'', c']\<rparr>)))"
      using s "2.prems" by (intro next_token_again)
        (simp add: state_turn_def comment_end_dash_turn_def update_current_def goto_advance_def
          append_dash_data_def)
    finally show ?thesis using "2.IH"(1) [OF True] s "2.prems" True by simp
  next
    case False
    then have "next_token (at_input pre ((c # s) @ r) TS_COMMENT rs (Some t)) =
        next_token (at_input (pre @ [c]) (s @ r) TS_COMMENT rs (Some (t\<lparr>tok_data := tok_data t @ [c]\<rparr>)))"
      using "2.prems" by (intro next_token_again)
        (auto simp: state_turn_def comment_turn_def update_current_def advance_again_def append_data_def)
    then show ?thesis using "2.IH"(2) [OF False] "2.prems" False by simp
  qed
qed simp

lemma read_comment:
  assumes "markup_ok (Comment_Text d)"
  shows "next_token (at_input pre (render (Comment_Text d) @ r) TS_DATA rs None) =
    Some (at_input (pre @ render (Comment_Text d)) r TS_DATA rs None, token_of (Comment_Text d))"
proof -
  let ?t = "new_token TT_COMMENT"
  let ?td = "Some (?t\<lparr>tok_data := d\<rparr>)"
  have "next_token (at_input pre (render (Comment_Text d) @ r) TS_DATA rs None) =
      next_token (at_input (pre @ ''<'') (''!--'' @ d @ ''-->'' @ r) TS_TAG_OPEN rs None)"
    using next_token_less_than by simp
  also have "\<dots> = next_token (at_input (pre @ ''<!'') (''--'' @ d @ ''-->'' @ r) TS_COMMENT_START rs None)"
    by (intro next_token_again) (simp add: state_turn_def tag_open_turn_def goto_advance_def)
  also have "\<dots> = next_token (at_input (pre @ ''<!-'') (''-'' @ d @ ''-->'' @ r) TS_COMMENT_START_DASH rs None)"
    by (intro next_token_again) (simp add: state_turn_def comment_start_turn_def goto_advance_def)
  also have "\<dots> = next_token (at_input (pre @ ''<!--'') (d @ ''-->'' @ r) TS_COMMENT rs (Some ?t))"
    by (intro next_token_again) (simp add: state_turn_def comment_start_dash_turn_def goto_advance_def)
  also have "\<dots> = next_token (at_input (pre @ ''<!--'' @ d) (''-->'' @ r) TS_COMMENT rs ?td)"
    using read_comment_data [of d ?t "pre @ ''<!--''"] assms by (simp add: new_token_def)
  also have "\<dots> = next_token (at_input (pre @ ''<!--'' @ d @ ''-'') (''->'' @ r) TS_COMMENT_END_DASH rs ?td)"
    by (intro next_token_again) (simp add: state_turn_def comment_turn_def goto_advance_def Let_def)
  also have "\<dots> = next_token (at_input (pre @ ''<!--'' @ d @ ''--'') (''>'' @ r) TS_COMMENT_END rs ?td)"
    by (intro next_token_again) (simp add: state_turn_def comment_end_dash_turn_def goto_advance_def Let_def)
  also have "\<dots> = Some (at_input (pre @ render (Comment_Text d)) r TS_DATA rs None, token_of (Comment_Text d))"
    by (intro next_token_emit)
      (simp add: state_turn_def comment_end_turn_def finish_token_def emit_current_def)
  finally show ?thesis .
qed

lemma read_doctype:
  assumes "markup_ok (Doctype n)"
  shows "\<exists>rs'. next_token (at_input pre (render (Doctype n) @ r) TS_DATA rs None) =
    Some (at_input (pre @ render (Doctype n)) r TS_DATA rs' None, token_of (Doctype n))"
proof -
  obtain c n' where n: "n = c # n'" "c \<noteq> NUL" "\<not> is_space c"
    using assms by (cases n) (auto simp: stays_lower_def)
  have space: "is_space CHR '' ''" by (simp add: is_space_def)
  have "next_token (at_input pre (render (Doctype n) @ r) TS_DATA rs None) =
      next_token (at_input (pre @ ''<'') (''!DOCTYPE '' @ n @ ''>'' @ r) TS_TAG_OPEN rs None)"
    using next_token_less_than by simp
  also have "\<dots> = next_token (at_input (pre @ ''<!'') (''DOCTYPE '' @ n @ ''>'' @ r) TS_COMMENT_START rs None)"
    by (intro next_token_again) (simp add: state_turn_def tag_open_turn_def goto_advance_def)
  also have "\<dots> = next_token (at_input (pre @ ''<!DOCTYPE'') ('' '' @ n @ ''>'' @ r) TS_DOCTYPE rs None)"
    by (intro next_token_again) (simp add: state_turn_def comment_start_turn_def numeral_eq_Suc)
  also have "\<dots> = next_token (at_input (pre @ ''<!DOCTYPE '') (n @ ''>'' @ r) TS_DOCTYPE rs None)"
    by (intro next_token_again) (simp add: state_turn_def doctype_turn_def space advance_again_def)
  also have "\<dots> = next_token (at_input (pre @ ''<!DOCTYPE '') (n @ ''>'' @ r) TS_DOCTYPE_NAME rs
      (Some (new_token TT_DOCTYPE)))"
    using n by (intro next_token_again) (simp add: state_turn_def doctype_turn_def goto_def)
  also have "\<dots> = next_token (at_input (pre @ ''<!DOCTYPE '' @ n) (''>'' @ r) TS_DOCTYPE_NAME rs
      (Some (new_token TT_DOCTYPE\<lparr>tok_name := n\<rparr>)))"
    using read_doctype_name [of n "new_token TT_DOCTYPE" "pre @ ''<!DOCTYPE ''"] assms
    by (simp add: new_token_def)
  also have "\<dots> = Some (at_input (pre @ render (Doctype n)) r TS_DATA rs None, token_of (Doctype n))"
    by (intro next_token_emit)
      (simp add: state_turn_def doctype_name_turn_def finish_token_def emit_current_def is_space_def)
  finally show ?thesis by blast
qed

text \<open>One piece of markup, whatever stands behind it.\<close>

lemma read_markup:
  assumes "markup_ok m"
  shows "\<exists>rs'. next_token (at_input pre (render m @ r) TS_DATA rs None) =
    Some (at_input (pre @ render m) r TS_DATA rs' None, token_of m)"
proof (cases m)
  case (Doctype n)
  with read_doctype [of n] assms show ?thesis by simp
next
  case (Open_Tag n avs closed)
  with read_open_tag [of n avs closed] assms show ?thesis by blast
next
  case (Close_Tag n)
  with read_close_tag [of n] assms show ?thesis by auto
next
  case (Comment_Text d)
  with read_comment [of d] assms show ?thesis by blast
next
  case (Text c)
  with read_text [of c] assms show ?thesis by simp
qed

lemma token_of_not_eof [simp]: "tok_type (token_of m) \<noteq> TT_EOF_TOKEN"
  by (cases m) (simp_all add: new_token_def char_token_def with_attrs_def)




text \<open>
  C22: For every input, asking for tokens until the end of the input comes to an end, the
  pointer to the token under construction is never used while it is null, and in every
  token returned no more than 16 attributes are counted and the name, the data, and the name
  and value of each attribute counted hold terminated strings within their arrays (the
  attributes that are not counted may be uninitialised).
\<close>

theorem html_tokens_well_formed:
  "\<exists>ts. html_tokens inp = Some ts \<and> list_all token_ok ts"
  using tokens_from_returns [of "new_tokenizer inp"] by (auto simp: html_tokens_def list_all_iff)

lemma read_markups_then:
  assumes "\<forall>m \<in> set ms. markup_ok m"
  shows "\<exists>pre' rs'. tokens_from (at_input pre (concat (map render ms) @ r) TS_DATA rs None) =
    do { ts \<leftarrow> tokens_from (at_input pre' r TS_DATA rs' None); Some (map token_of ms @ ts) }"
  using assms
proof (induction ms arbitrary: pre rs)
  case Nil
  have "x = do { ts \<leftarrow> x; Some ts }" for x :: "html_token list option" by (cases x) simp_all
  then show ?case by auto
next
  case (Cons m ms)
  obtain rs1 where m: "next_token (at_input pre (render m @ concat (map render ms) @ r) TS_DATA rs None) =
      Some (at_input (pre @ render m) (concat (map render ms) @ r) TS_DATA rs1 None, token_of m)"
    using read_markup [of m pre _ rs] Cons.prems by fastforce
  from Cons obtain pre' rs' where
    "tokens_from (at_input (pre @ render m) (concat (map render ms) @ r) TS_DATA rs1 None) =
      do { ts \<leftarrow> tokens_from (at_input pre' r TS_DATA rs' None); Some (map token_of ms @ ts) }"
    by fastforce
  with m show ?case by (auto simp: tokens_from.simps [of "at_input pre _ TS_DATA rs None"])
qed

lemma read_numeric_reference:
  assumes "tk_state tk = TS_NUMERIC_CHARACTER_REFERENCE" "tk_current tk = None"
  shows "\<exists>tk'. next_token tk = Some (tk', new_token TT_EOF_TOKEN)"
  using assms
proof (induction tk rule: next_token.induct)
  case (1 tk)
  show ?case
  proof (cases "current_char tk = NUL")
    case True
    with 1 show ?thesis
      by (auto simp: next_token.simps [of tk] next_token_turn_def end_of_input_turn_def)
  next
    case False
    with "1.prems" have again: "next_token_turn tk = Again (advance tk)"
      by (simp add: next_token_turn_def state_turn_def advance_again_def)
    with 1 show ?thesis by (simp add: next_token_again [OF again])
  qed
qed

text \<open>
  A numeric character reference ends the document: whatever follows an ampersand and a
  number sign in the text, to the end of the input, no token is returned for it.
\<close>

theorem html_numeric_reference_ends_document:
  assumes "\<forall>m \<in> set ms. markup_ok m"
  shows "html_tokens (concat (map render ms) @ ''&#'' @ r) = Some (map token_of ms)"
proof -
  have "tokens_from (at_input pre (''&#'' @ r) TS_DATA rs None) = Some []" for pre rs
  proof -
    have "next_token (at_input pre (''&#'' @ r) TS_DATA rs None) =
        next_token (at_input (pre @ ''&'') (''#'' @ r) TS_CHARACTER_REFERENCE TS_DATA None)"
      by (intro next_token_again)
        (simp add: state_turn_def data_turn_def start_reference_def goto_advance_def)
    also have "\<dots> = next_token (at_input (pre @ ''&#'') r TS_NUMERIC_CHARACTER_REFERENCE TS_DATA None)"
      by (intro next_token_again)
        (simp add: state_turn_def character_reference_turn_def goto_advance_def is_ascii_alpha_def)
    finally show ?thesis
      using read_numeric_reference [of "at_input (pre @ ''&#'') r TS_NUMERIC_CHARACTER_REFERENCE TS_DATA None"]
      by (auto simp: tokens_from.simps [of "at_input pre _ TS_DATA rs None"])
  qed
  then show ?thesis
    using read_markups_then [OF assms, of "[]" "''&#'' @ r" TS_DATA]
    by (auto simp: html_tokens_def new_tokenizer_at_input)
qed

lemma html_numeric_reference_ends_document_witness:
  "html_tokens ''<p>a&#65;</p>'' = Some [token_of (Open_Tag ''p'' [] False), char_token CHR ''a'']"
  using html_numeric_reference_ends_document [of "[Open_Tag ''p'' [] False, Text CHR ''a'']" "''65;</p>''"]
  by (simp add: tag_name_ok_def name_char_def stays_lower_def ascii_lower_def is_space_def
      is_ascii_alpha_def render_char_def)

end
