(* ===== verification/HtmlDom.thy ===== *)
theory HtmlDom
  imports HtmlTokens
begin

text \<open>
  The document tree (\<^verbatim>\<open>include/html_dom.h\<close>): nodes in the order of their creation, linked by
  the indices that stand for the pointers, and the two operations the parser uses on them.
  A node is linked to its parent, its neighbours and its first and last child; the theory
  shows that the links of a store built by appending new nodes describe one tree, and that
  appending is appending in that tree. Allocation always succeeds in the model; destructors
  are not modelled, the parser deletes no node.
\<close>

section \<open>Nodes\<close>

text \<open>
  The subclasses of \<^verbatim>\<open>Node\<close> with their fields: name, attributes and capacity of the attribute
  array of an element, the text of a text node, the mode of the document, the name of a
  doctype, whose two identifiers the parser always leaves empty.
\<close>

record dom_attribute =
  da_name :: string
  da_value :: string

datatype node_kind =
    ELEMENT_NODE string "dom_attribute list" nat
  | TEXT_NODE string
  | DOCUMENT_NODE string
  | DOCUMENT_TYPE_NODE string

record dom_node =
  nd_kind :: node_kind
  nd_parent :: "nat option"
  nd_prev_sibling :: "nat option"
  nd_next_sibling :: "nat option"
  nd_first_child :: "nat option"
  nd_last_child :: "nat option"

definition new_node :: "node_kind \<Rightarrow> dom_node" where
  "new_node k = \<lparr>nd_kind = k, nd_parent = None, nd_prev_sibling = None, nd_next_sibling = None,
     nd_first_child = None, nd_last_child = None\<rparr>"

definition new_document_node :: dom_node where
  "new_document_node = new_node (DOCUMENT_NODE ''no-quirks'')"

definition new_text_node :: "string \<Rightarrow> dom_node" where
  "new_text_node t = new_node (TEXT_NODE t)"

definition new_doctype_node :: "string \<Rightarrow> dom_node" where
  "new_doctype_node n = new_node (DOCUMENT_TYPE_NODE (take 63 n))"

definition new_element :: "string \<Rightarrow> node_kind" where
  "new_element tag = ELEMENT_NODE (take 63 tag) [] 8"

section \<open>Attributes of an element\<close>

text \<open>The loop of \<^verbatim>\<open>set_attribute\<close> that overwrites an attribute of that name, if there is one.\<close>

fun replace_attribute :: "string \<Rightarrow> string \<Rightarrow> dom_attribute list \<Rightarrow> dom_attribute list option" where
  "replace_attribute n v [] = None"
| "replace_attribute n v (a # as) =
     (if da_name a = n then Some (a\<lparr>da_value := take 255 v\<rparr> # as)
      else map_option ((#) a) (replace_attribute n v as))"

definition set_attribute :: "string \<Rightarrow> string \<Rightarrow> node_kind \<Rightarrow> node_kind" where
  "set_attribute n v k = (case k of
       ELEMENT_NODE tag as cap \<Rightarrow>
         (case replace_attribute n v as of
            Some as' \<Rightarrow> ELEMENT_NODE tag as' cap
          | None \<Rightarrow> ELEMENT_NODE tag (as @ [\<lparr>da_name = take 63 n, da_value = take 255 v\<rparr>])
              (if length as \<ge> cap then cap * 2 else cap))
     | _ \<Rightarrow> k)"

fun get_attribute :: "string \<Rightarrow> dom_attribute list \<Rightarrow> string option" where
  "get_attribute n [] = None"
| "get_attribute n (a # as) = (if da_name a = n then Some (da_value a) else get_attribute n as)"

text \<open>The element fits its buffers, and its attribute array.\<close>

fun kind_ok :: "node_kind \<Rightarrow> bool" where
  "kind_ok (ELEMENT_NODE tag as cap) \<longleftrightarrow> length tag < 64 \<and> length as \<le> cap \<and> 8 \<le> cap
     \<and> (\<forall>a \<in> set as. length (da_name a) < 64 \<and> length (da_value a) < 256)
     \<and> distinct (map da_name as)"
| "kind_ok (DOCUMENT_TYPE_NODE n) \<longleftrightarrow> length n < 64"
| "kind_ok _ \<longleftrightarrow> True"

lemma replace_attribute_names:
  "replace_attribute n v as = Some as' \<Longrightarrow> map da_name as' = map da_name as"
  by (induction as arbitrary: as') (auto split: if_splits)

lemma replace_attribute_fits:
  "replace_attribute n v as = Some as' \<Longrightarrow>
   \<forall>a \<in> set as. length (da_name a) < 64 \<and> length (da_value a) < 256 \<Longrightarrow>
   \<forall>a \<in> set as'. length (da_name a) < 64 \<and> length (da_value a) < 256"
  by (induction as arbitrary: as') (auto split: if_splits)

lemma replace_attribute_None: "replace_attribute n v as = None \<longleftrightarrow> n \<notin> da_name ` set as"
  by (induction as) auto

lemma set_attribute_ok [simp]:
  assumes "kind_ok k" "length n < 64"
  shows "kind_ok (set_attribute n v k)"
proof (cases k)
  case (ELEMENT_NODE tag as cap)
  show ?thesis
  proof (cases "replace_attribute n v as")
    case None
    then have "n \<notin> da_name ` set as" by (simp add: replace_attribute_None)
    with None assms ELEMENT_NODE show ?thesis by (auto simp: set_attribute_def)
  next
    case (Some as')
    note names = replace_attribute_names [OF Some]
    from names have "length as' = length as" by (metis length_map)
    with Some names replace_attribute_fits [OF Some] assms ELEMENT_NODE show ?thesis
      by (simp add: set_attribute_def)
  qed
qed (use assms in \<open>simp_all add: set_attribute_def\<close>)

section \<open>Linking nodes\<close>

type_synonym dom_store = "dom_node list"

definition append_child :: "nat \<Rightarrow> nat \<Rightarrow> dom_store \<Rightarrow> dom_store" where
  "append_child p c s =
     (let s1 = s[c := (s ! c)\<lparr>nd_parent := Some p\<rparr>] in
      if nd_first_child (s1 ! p) = None
      then s1[p := (s1 ! p)\<lparr>nd_first_child := Some c, nd_last_child := Some c\<rparr>]
      else (let l = the (nd_last_child (s1 ! p));
                s2 = s1[l := (s1 ! l)\<lparr>nd_next_sibling := Some c\<rparr>];
                s3 = s2[c := (s2 ! c)\<lparr>nd_prev_sibling := Some l\<rparr>]
            in s3[p := (s3 ! p)\<lparr>nd_last_child := Some c\<rparr>]))"

text \<open>The parser appends a node it has just created.\<close>

definition append_new :: "nat \<Rightarrow> dom_node \<Rightarrow> dom_store \<Rightarrow> dom_store" where
  "append_new p nd s = append_child p (length s) (s @ [nd])"

section \<open>The tree in the store\<close>

text \<open>The children of a node, in the order of their creation.\<close>

definition kids :: "dom_store \<Rightarrow> nat \<Rightarrow> nat list" where
  "kids s i = filter (\<lambda>j. nd_parent (s ! j) = Some i) [0..<length s]"

text \<open>
  The links agree with the parents: the first and the last child, the chain of the children
  in both directions. Only the first node has no parent, and a parent is older than its
  children, so the parents lead to the first node.
\<close>

definition chain_ok :: "dom_store \<Rightarrow> nat list \<Rightarrow> bool" where
  "chain_ok s js \<longleftrightarrow> (\<forall>k < length js.
      nd_next_sibling (s ! (js ! k)) = (if k + 1 < length js then Some (js ! (k + 1)) else None)
      \<and> nd_prev_sibling (s ! (js ! k)) = (if k = 0 then None else Some (js ! (k - 1))))"

definition links_ok :: "dom_store \<Rightarrow> nat \<Rightarrow> bool" where
  "links_ok s i \<longleftrightarrow>
     nd_first_child (s ! i) = (if kids s i = [] then None else Some (hd (kids s i)))
     \<and> nd_last_child (s ! i) = (if kids s i = [] then None else Some (List.last (kids s i)))
     \<and> chain_ok s (kids s i)
     \<and> (case nd_parent (s ! i) of None \<Rightarrow> i = 0 | Some p \<Rightarrow> p < i)"

definition tree_ok :: "dom_store \<Rightarrow> bool" where
  "tree_ok s \<longleftrightarrow> s \<noteq> [] \<and> (\<forall>i < length s. links_ok s i)"
lemma kids_in_range: "j \<in> set (kids s i) \<Longrightarrow> j < length s \<and> nd_parent (s ! j) = Some i"
  by (simp add: kids_def)

lemma distinct_kids [simp]: "distinct (kids s i)"
  by (simp add: kids_def)

lemma sorted_kids [simp]: "sorted (kids s i)"
  by (simp add: kids_def sorted_wrt_filter)

lemma links_okD:
  assumes "tree_ok s" "i < length s"
  shows "nd_first_child (s ! i) = (if kids s i = [] then None else Some (hd (kids s i)))"
    and "nd_last_child (s ! i) = (if kids s i = [] then None else Some (List.last (kids s i)))"
    and "chain_ok s (kids s i)"
  using assms by (simp_all add: tree_ok_def links_ok_def)

lemma tree_ok_parent:
  assumes "tree_ok s" "i < length s" "nd_parent (s ! i) = Some p"
  shows "p < i"
  using assms by (auto simp: tree_ok_def links_ok_def)

lemma tree_ok_root:
  assumes "tree_ok s" "i < length s" "nd_parent (s ! i) = None"
  shows "i = 0"
  using assms by (auto simp: tree_ok_def links_ok_def)

lemma length_append_new [simp]: "length (append_new p nd s) = Suc (length s)"
  by (simp add: append_new_def append_child_def Let_def)

lemma append_new_nth:
  assumes s: "tree_ok s" and p: "p < length s" and j: "j \<le> length s"
  shows "append_new p (new_node k) s ! j =
    (if j = length s
     then (new_node k)\<lparr>nd_parent := Some p, nd_prev_sibling := nd_last_child (s ! p)\<rparr>
     else if j = p
     then (s ! p)\<lparr>nd_first_child := (if kids s p = [] then Some (length s) else Some (hd (kids s p))),
                  nd_last_child := Some (length s)\<rparr>
     else if kids s p \<noteq> [] \<and> j = List.last (kids s p)
     then (s ! j)\<lparr>nd_next_sibling := Some (length s)\<rparr>
     else s ! j)"
proof -
  note links = links_okD [OF s p]
  show ?thesis
  proof (cases "kids s p = []")
    case True
    with links p j show ?thesis
      by (auto simp: append_new_def append_child_def Let_def nth_append nth_list_update new_node_def)
  next
    case False
    then have "List.last (kids s p) \<in> set (kids s p)" by simp
    from kids_in_range [OF this] have l: "List.last (kids s p) < length s"
      "nd_parent (s ! List.last (kids s p)) = Some p" by auto
    from tree_ok_parent [OF s l] have "List.last (kids s p) \<noteq> p" by simp
    with False links p j l show ?thesis
      by (auto simp: append_new_def append_child_def Let_def nth_append nth_list_update new_node_def)
  qed
qed

lemma append_new_parent:
  assumes "tree_ok s" "p < length s" "j \<le> length s"
  shows "nd_parent (append_new p (new_node k) s ! j) =
    (if j = length s then Some p else nd_parent (s ! j))"
  using append_new_nth [OF assms] by auto

lemma append_new_kind:
  assumes "tree_ok s" "p < length s" "j \<le> length s"
  shows "nd_kind (append_new p (new_node k) s ! j) = (if j = length s then k else nd_kind (s ! j))"
  using append_new_nth [OF assms] by (auto simp: new_node_def)

lemma kids_append_new:
  assumes s: "tree_ok s" and p: "p < length s"
  shows "kids (append_new p (new_node k) s) i = (if i = p then kids s i @ [length s] else kids s i)"
proof -
  have "filter (\<lambda>j. nd_parent (append_new p (new_node k) s ! j) = Some i) [0..<length s] = kids s i"
    unfolding kids_def by (rule filter_cong) (auto simp: append_new_parent [OF s p])
  then show ?thesis by (simp add: kids_def append_new_parent [OF s p])
qed

lemma kids_beyond: "tree_ok s \<Longrightarrow> length s \<le> i \<Longrightarrow> kids s i = []"
  using tree_ok_parent [of s] by (fastforce simp: kids_def filter_empty_conv)

lemma kids_of_two_parents: "j \<in> set (kids s i) \<Longrightarrow> j \<in> set (kids s i') \<Longrightarrow> i = i'"
  by (simp add: kids_def)

text \<open>Appending keeps the chain of every other node, and extends the one of the parent.\<close>

lemma chain_append_other:
  assumes s: "tree_ok s" and p: "p < length s" and i: "i < length s" "i \<noteq> p"
  shows "chain_ok (append_new p (new_node k) s) (kids s i)"
proof -
  have "nd_next_sibling (append_new p (new_node k) s ! j) = nd_next_sibling (s ! j)
      \<and> nd_prev_sibling (append_new p (new_node k) s ! j) = nd_prev_sibling (s ! j)"
    if "j \<in> set (kids s i)" for j
  proof -
    have "j < length s" using kids_in_range [OF that] by simp
    moreover have "kids s p = [] \<or> j \<noteq> List.last (kids s p)"
      using kids_of_two_parents [OF that, of p] i(2) by (metis last_in_set)
    ultimately show ?thesis using append_new_nth [OF s p, of j k] by auto
  qed
  with links_okD(3) [OF s i(1)] show ?thesis by (simp add: chain_ok_def)
qed

lemma chain_append_same:
  assumes s: "tree_ok s" and p: "p < length s"
  shows "chain_ok (append_new p (new_node k) s) (kids s p @ [length s])"
proof -
  let ?s = "append_new p (new_node k) s"
  let ?n = "length s"
  let ?js = "kids s p"
  have old: "nd_next_sibling (?s ! j) = (if j = List.last ?js then Some ?n else nd_next_sibling (s ! j))
      \<and> nd_prev_sibling (?s ! j) = nd_prev_sibling (s ! j)" if "j \<in> set ?js" for j
  proof -
    have "j < ?n" "p < j" using kids_in_range [OF that] tree_ok_parent [OF s] by auto
    moreover have "?js \<noteq> []" using that by auto
    ultimately show ?thesis using append_new_nth [OF s p, of j k] by auto
  qed
  have new: "nd_next_sibling (?s ! ?n) = None \<and> nd_prev_sibling (?s ! ?n) = nd_last_child (s ! p)"
    using append_new_nth [OF s p, of ?n k] by (simp add: new_node_def)
  have last_index: "?js ! i = List.last ?js \<longleftrightarrow> i + 1 = length ?js" if "i < length ?js" for i
  proof -
    have "?js \<noteq> []" using that by auto
    then have "List.last ?js = ?js ! (length ?js - 1)" by (simp add: last_conv_nth)
    then show ?thesis using that by (auto simp: nth_eq_iff_index_eq)
  qed
  show ?thesis
    unfolding chain_ok_def
  proof (intro allI impI)
    fix i
    assume i: "i < length (?js @ [?n])"
    show "nd_next_sibling (?s ! ((?js @ [?n]) ! i)) =
        (if i + 1 < length (?js @ [?n]) then Some ((?js @ [?n]) ! (i + 1)) else None)
      \<and> nd_prev_sibling (?s ! ((?js @ [?n]) ! i)) =
        (if i = 0 then None else Some ((?js @ [?n]) ! (i - 1)))"
    proof (cases "i < length ?js")
      case True
      with links_okD(3) [OF s p] have "nd_next_sibling (s ! (?js ! i)) =
          (if i + 1 < length ?js then Some (?js ! (i + 1)) else None)"
        "nd_prev_sibling (s ! (?js ! i)) = (if i = 0 then None else Some (?js ! (i - 1)))"
        by (auto simp: chain_ok_def)
      with old [of "?js ! i"] True last_index [OF True] show ?thesis
        by (auto simp: nth_append)
    next
      case False
      with i have "i = length ?js" by simp
      with new links_okD(2) [OF s p] show ?thesis by (auto simp: nth_append last_conv_nth)
    qed
  qed
qed

lemma append_new_tree_ok:
  assumes s: "tree_ok s" and p: "p < length s"
  shows "tree_ok (append_new p (new_node k) s)"
proof -
  let ?s = "append_new p (new_node k) s"
  have kid: "kids ?s i = (if i = p then kids s i @ [length s] else kids s i)" for i
    by (rule kids_append_new [OF s p])
  have "links_ok ?s i" if i: "i < Suc (length s)" for i
  proof -
    have fl: "nd_first_child (?s ! i) = (if kids ?s i = [] then None else Some (hd (kids ?s i)))
        \<and> nd_last_child (?s ! i) = (if kids ?s i = [] then None else Some (List.last (kids ?s i)))"
    proof (cases "i = length s")
      case True
      then show ?thesis
        using append_new_nth [OF s p, of i k] kids_beyond [OF s, of i] p kid [of i]
        by (simp add: new_node_def)
    next
      case False
      then have "i < length s" using i by simp
      then show ?thesis
        using append_new_nth [OF s p, of i k] links_okD(1,2) [OF s, of i] kid [of i] by auto
    qed
    have ch: "chain_ok ?s (kids ?s i)"
      using chain_append_same [OF s p, of k] chain_append_other [OF s p, of i k] kid [of i]
        kids_beyond [OF s, of i] p
      by (cases "i < length s") (auto simp: chain_ok_def)
    have "case nd_parent (?s ! i) of None \<Rightarrow> i = 0 | Some q \<Rightarrow> q < i"
      using append_new_parent [OF s p, of i k] i p tree_ok_parent [OF s, of i] tree_ok_root [OF s, of i]
      by (auto split: option.split)
    with fl ch show ?thesis by (simp add: links_ok_def)
  qed
  moreover have "?s \<noteq> []" using length_append_new [of p "new_node k" s] by force
  ultimately show ?thesis by (simp add: tree_ok_def)
qed

section \<open>The tree as the links show it\<close>

datatype dom_tree = Dom_Tree node_kind "dom_tree list"

text \<open>From a child along \<^verbatim>\<open>next_sibling\<close>; no chain is longer than the store.\<close>

fun follow :: "nat \<Rightarrow> dom_store \<Rightarrow> nat option \<Rightarrow> nat list" where
  "follow (Suc f) s (Some i) = i # follow f s (nd_next_sibling (s ! i))"
| "follow f s x = []"

definition child_nodes :: "dom_store \<Rightarrow> nat \<Rightarrow> nat list" where
  "child_nodes s i = follow (length s) s (nd_first_child (s ! i))"

text \<open>
  The tree below a node, as one reads it who follows the links. The test for a child that
  is not younger than its parent only serves the termination: there is none in a tree.
\<close>

function tree_below :: "dom_store \<Rightarrow> nat \<Rightarrow> dom_tree" where
  "tree_below s i = Dom_Tree (nd_kind (s ! i))
     (map (\<lambda>j. if i < j \<and> j < length s then tree_below s j else Dom_Tree (nd_kind (s ! j)) [])
       (child_nodes s i))"
  by pat_completeness auto

termination tree_below
  by (relation "measure (\<lambda>(s, i). length s - i)") auto

declare tree_below.simps [simp del]

lemma follow_chain:
  assumes "chain_ok s js" "k < length js" "length js - k \<le> f"
  shows "follow f s (Some (js ! k)) = drop k js"
  using assms(2,3)
proof (induction f arbitrary: k)
  case (Suc f)
  have next_k: "nd_next_sibling (s ! (js ! k)) = (if k + 1 < length js then Some (js ! (k + 1)) else None)"
    using assms(1) Suc.prems(1) by (simp add: chain_ok_def)
  show ?case
  proof (cases "k + 1 < length js")
    case True
    with next_k Suc show ?thesis by (simp add: Cons_nth_drop_Suc [symmetric])
  next
    case False
    then have "drop k js = [js ! k]" using Suc.prems(1) by (simp add: Cons_nth_drop_Suc [symmetric])
    with False next_k show ?thesis by (cases f) simp_all
  qed
qed simp

lemma length_kids: "length (kids s i) \<le> length s"
  unfolding kids_def using length_filter_le [of _ "[0..<length s]"] by simp

lemma child_nodes_kids:
  assumes "tree_ok s" "i < length s"
  shows "child_nodes s i = kids s i"
proof (cases "kids s i = []")
  case True
  with links_okD(1) [OF assms] show ?thesis by (cases s) (simp_all add: child_nodes_def)
next
  case False
  with links_okD(1) [OF assms] follow_chain [OF links_okD(3) [OF assms], of 0 "length s"] length_kids
  show ?thesis by (simp add: child_nodes_def hd_conv_nth)
qed

lemma tree_below_kids:
  assumes "tree_ok s" "i < length s"
  shows "tree_below s i = Dom_Tree (nd_kind (s ! i)) (map (tree_below s) (kids s i))"
  using tree_ok_parent [OF assms(1)] kids_in_range [of _ s i]
  by (auto simp: tree_below.simps [of s i] child_nodes_kids [OF assms])

text \<open>A tree only depends on its own nodes, which are not older than its root.\<close>

lemma tree_below_cong:
  assumes "tree_ok s" "tree_ok s'" "length s \<le> length s'" "i < length s"
    and "\<And>j. i \<le> j \<Longrightarrow> j < length s \<Longrightarrow> kids s' j = kids s j \<and> nd_kind (s' ! j) = nd_kind (s ! j)"
  shows "tree_below s' i = tree_below s i"
  using assms(4,5)
proof (induction "length s - i" arbitrary: i rule: less_induct)
  case less
  have "tree_below s' j = tree_below s j" if "j \<in> set (kids s i)" for j
  proof -
    have "j < length s" "i < j" using kids_in_range [OF that] tree_ok_parent [OF assms(1)] by auto
    with less show ?thesis by simp
  qed
  with less.prems assms(1-3) show ?case
    by (simp add: tree_below_kids)
qed

section \<open>Changing what a node holds\<close>

definition set_kind :: "nat \<Rightarrow> node_kind \<Rightarrow> dom_store \<Rightarrow> dom_store" where
  "set_kind i k s = s[i := (s ! i)\<lparr>nd_kind := k\<rparr>]"

lemma set_kind_nth:
  "set_kind i k s ! j = (if i < length s \<and> j = i then (s ! j)\<lparr>nd_kind := k\<rparr> else s ! j)"
  by (cases "i < length s") (simp_all add: set_kind_def list_update_beyond)

lemma length_set_kind [simp]: "length (set_kind i k s) = length s"
  by (simp add: set_kind_def)

lemma set_kind_fields [simp]:
  "nd_parent (set_kind i k s ! j) = nd_parent (s ! j)"
  "nd_next_sibling (set_kind i k s ! j) = nd_next_sibling (s ! j)"
  "nd_prev_sibling (set_kind i k s ! j) = nd_prev_sibling (s ! j)"
  "nd_first_child (set_kind i k s ! j) = nd_first_child (s ! j)"
  "nd_last_child (set_kind i k s ! j) = nd_last_child (s ! j)"
  by (simp_all add: set_kind_nth)

lemma set_kind_kind:
  "i < length s \<Longrightarrow> nd_kind (set_kind i k s ! j) = (if j = i then k else nd_kind (s ! j))"
  by (simp add: set_kind_nth)

lemma kids_set_kind [simp]: "kids (set_kind i k s) j = kids s j"
  by (simp add: kids_def)

lemma tree_ok_set_kind [simp]: "tree_ok (set_kind i k s) = tree_ok s"
proof -
  have "links_ok (set_kind i k s) j = links_ok s j" for j by (simp add: links_ok_def chain_ok_def)
  moreover have "set_kind i k s = [] \<longleftrightarrow> s = []" by (simp add: set_kind_def)
  ultimately show ?thesis by (simp add: tree_ok_def)
qed

end
