(* ===== verification/HtmlDocument.thy ===== *)
theory HtmlDocument
  imports HtmlParser
begin

text \<open>
  Whole documents through tokenizer, parser and tree: a tree of elements and texts that is
  written out as markup is what the links of the parsed document show. And what an end tag
  does in the body, also one that closes nothing.
\<close>

section \<open>Trees and their markup\<close>



definition dom_attribute_of :: "string \<times> string \<Rightarrow> dom_attribute" where
  "dom_attribute_of av = \<lparr>da_name = fst av, da_value = snd av\<rparr>"

definition element_kind :: "string \<Rightarrow> (string \<times> string) list \<Rightarrow> node_kind" where
  "element_kind n avs =
     ELEMENT_NODE n (map dom_attribute_of avs) (if length avs \<le> 8 then 8 else 16)"



definition attributes_ok :: "(string \<times> string) list \<Rightarrow> bool" where
  "attributes_ok avs \<longleftrightarrow> length avs \<le> 16 \<and> list_all attribute_ok avs \<and> distinct (map fst avs)"




section \<open>Attributes of a token become attributes of the element\<close>

definition capacity_of :: "nat \<Rightarrow> nat" where
  "capacity_of n = (if n \<le> 8 then 8 else 16)"

lemma set_fresh_attribute:
  assumes "a \<notin> da_name ` set as" "length a < 64" "length v < 256" "length as < 16"
  shows "set_attribute a v (ELEMENT_NODE tag as (capacity_of (length as))) =
    ELEMENT_NODE tag (as @ [\<lparr>da_name = a, da_value = v\<rparr>]) (capacity_of (Suc (length as)))"
proof -
  have "replace_attribute a v as = None" using assms(1) by (simp add: replace_attribute_None)
  with assms show ?thesis by (auto simp: set_attribute_def capacity_of_def)
qed

lemma fold_set_attribute:
  assumes "distinct (map fst avs)" "list_all attribute_ok avs"
    and "\<forall>av \<in> set avs. fst av \<notin> da_name ` set as" "length as + length avs \<le> 16"
  shows "fold (\<lambda>x. case x of None \<Rightarrow> (\<lambda>k. k) | Some a \<Rightarrow> set_attribute (attr_name a) (attr_value a)) (map (\<lambda>av. Some (attr_of av)) avs)
      (ELEMENT_NODE tag as (capacity_of (length as))) =
    ELEMENT_NODE tag (as @ map dom_attribute_of avs) (capacity_of (length as + length avs))"
  using assms
proof (induction avs arbitrary: as)
  case (Cons av avs)
  obtain a v where av: "av = (a, v)" by (cases av)
  let ?as = "as @ [dom_attribute_of av]"
  have "set_attribute a v (ELEMENT_NODE tag as (capacity_of (length as))) =
      ELEMENT_NODE tag ?as (capacity_of (length ?as))"
    using set_fresh_attribute [of a as v tag] Cons.prems by (simp add: av dom_attribute_of_def)
  moreover have "\<forall>w \<in> set avs. fst w \<notin> da_name ` set ?as"
  proof
    fix w
    assume w: "w \<in> set avs"
    then have "fst w \<noteq> fst av" using Cons.prems(1) by (metis distinct.simps(2) image_eqI list.map(2) list.set_map)
    with w Cons.prems(3) show "fst w \<notin> da_name ` set ?as" by (simp add: dom_attribute_of_def)
  qed
  ultimately show ?case
    using Cons.IH [of ?as] Cons.prems by (simp add: av attr_of_def)
qed simp

lemma element_of_open_tag:
  assumes "attributes_ok avs" "length n < 64"
  shows "element_of_token (token_of (Open_Tag n avs closed)) = element_kind n avs"
  using fold_set_attribute [of avs "[]" n] assms
  by (simp add: element_of_token_def with_attrs_def new_token_def comp_def new_element_def attributes_ok_def
      element_kind_def capacity_of_def)

section \<open>Feeding markup to the parser\<close>






lemma process_token_done:
  "mode_outcome t p tk = Done p' tk' \<Longrightarrow> process_token t p tk = Some (p', tk')"
  by (simp add: process_token.simps [of t p tk])

section \<open>Growing the tree below one node\<close>






lemma tree_below_new:
  assumes "tree_ok s" "c < length s"
  shows "tree_below (append_new c (new_node k) s) (length s) = Dom_Tree k []"
  using append_new_tree_ok [OF assms, of k] kids_beyond [OF assms(1), of "length s"] assms(2)
  by (simp add: tree_below_kids append_new_kind [OF assms] kids_append_new [OF assms])
section \<open>Texts\<close>





lemma char_token_data [simp]: "tok_data (char_token ch) = [ch]" "data0 (char_token ch) = ch"
  by (simp_all add: char_token_def new_token_def data0_def)




lemma set_kind_twice [simp]: "set_kind l k (set_kind l k' s) = set_kind l k s"
  by (cases "l < length s") (simp_all add: set_kind_def list_update_beyond)





section \<open>Elements and forests\<close>


lemma token_of_names [simp]:
  "tok_type (token_of (Open_Tag n avs b)) = TT_START_TAG" "tok_name (token_of (Open_Tag n avs b)) = n"
  "tok_type (token_of (Close_Tag n)) = TT_END_TAG" "tok_name (token_of (Close_Tag n)) = n"
  by (simp_all add: with_attrs_def new_token_def)








section \<open>A whole document\<close>





definition start_nodes :: "nat \<Rightarrow> dom_store" where
  "start_nodes n = fold (\<lambda>(c, k) s. append_new c (new_node k) s)
     (take n [(0, DOCUMENT_TYPE_NODE ''html''), (0, element_kind ''html'' []),
        (2, element_kind ''head'' []), (2, element_kind ''body'' [])]) [new_document_node]"

lemma start_nodes_ok: "n \<le> 4 \<Longrightarrow> tree_ok (start_nodes n) \<and> length (start_nodes n) = Suc n"
proof -
  have 0: "tree_ok [new_document_node]"
    using new_parser_ok by (simp add: parser_ok_def dom_ok_def new_parser_def push_element_def)
  assume "n \<le> 4"
  then consider "n = 0" | "n = 1" | "n = 2" | "n = 3" | "n = 4" by linarith
  then show ?thesis
    by cases (simp_all add: start_nodes_def 0 append_new_tree_ok numeral_eq_Suc)
qed




lemma start_nodes_kinds:
  "map nd_kind (start_nodes 4) = [DOCUMENT_NODE ''no-quirks'', DOCUMENT_TYPE_NODE ''html'',
     element_kind ''html'' [], element_kind ''head'' [], element_kind ''body'' []]"
  by (simp add: start_nodes_def append_new_def append_child_def new_document_node_def new_node_def
      numeral_eq_Suc Let_def)

definition start_parser :: "nat \<Rightarrow> nat list \<Rightarrow> insertion_mode \<Rightarrow> html_parser" where
  "start_parser n os m = \<lparr>hp_nodes = start_nodes n, hp_open = os, hp_mode = m\<rparr>"

lemma element_of_plain [simp]:
  "length n < 64 \<Longrightarrow> element_of_token (token_of (Open_Tag n [] False)) = element_kind n []"
  by (rule element_of_open_tag) (simp_all add: attributes_ok_def)

lemma not_blank [simp]: "tok_type t \<noteq> TT_CHARACTER \<Longrightarrow> \<not> is_blank t"
  by (simp add: is_blank_def)





section \<open>End tags in the body\<close>

lemma close_elements_bottom:
  "close_elements s n (xs @ [d]) = tl (dropWhile (\<lambda>i. \<not> is_element s i n) xs) @ [d]"
proof (induction xs)
  case (Cons x xs)
  then show ?case by (cases xs) auto
qed simp

text \<open>
  An end tag in the body closes the open elements from the current one down to the
  nearest of its name. When no open element has the name it closes all of them, html and
  body included, down to the document itself, so what follows is no longer in the body.
\<close>

theorem html_end_tag_closes:
  assumes "hp_mode p = IN_BODY" "hp_open p \<noteq> []" "tok_type t = TT_END_TAG" "tok_name t \<noteq> ''body''"
  shows "\<exists>p'. process_token t p tk = Some (p', tk) \<and> hp_nodes p' = hp_nodes p \<and> hp_mode p' = IN_BODY
    \<and> hp_open p' = hd (hp_open p) #
        rev (tl (dropWhile (\<lambda>i. \<not> is_element (hp_nodes p) i (tok_name t)) (rev (tl (hp_open p)))))"
proof -
  obtain d os where os: "hp_open p = d # os" using assms(2) by (cases "hp_open p") auto
  have "mode_outcome t p tk =
      Done (p\<lparr>hp_open := rev (close_elements (hp_nodes p) (tok_name t) (rev os @ [d]))\<rparr>) tk"
    using assms os by (simp add: mode_outcome_def in_body_mode_def)
  from process_token_done [OF this] show ?thesis
    using assms(1) os by (simp add: close_elements_bottom)
qed

lemma html_end_tag_closes_witness:
  "\<exists>p'. process_token (token_of (Close_Tag ''i'')) (start_parser 4 [0, 2, 4] IN_BODY)
      (new_tokenizer []) = Some (p', new_tokenizer []) \<and> hp_open p' = [0]"
proof -
  have "length (start_nodes 4) = 5" using start_nodes_ok [of 4] by simp
  then have nth: "nd_kind (start_nodes 4 ! j) = map nd_kind (start_nodes 4) ! j" if "j < 5" for j
    using that by simp
  have kinds: "nd_kind (start_nodes 4 ! 2) = element_kind ''html'' []"
    "nd_kind (start_nodes 4 ! 4) = element_kind ''body'' []"
    by (simp_all add: nth start_nodes_kinds)
  show ?thesis
    using html_end_tag_closes [of "start_parser 4 [0, 2, 4] IN_BODY" "token_of (Close_Tag ''i'')"
      "new_tokenizer []"] kinds
    by (auto simp: start_parser_def is_element_def element_kind_def)
qed

end
