(* ===== verification/Slab.thy ===== *)
theory Slab
  imports Buddy
begin

text \<open>
  The slab allocator for small objects (\<^verbatim>\<open>kernel/slab.cpp\<close>) on the memory of the kernel heap.
  The memory is a map from addresses to 32-bit words, of which only the words at multiples of
  four are memory of the machine: the allocators read and write nothing else, as all headers
  and objects start at multiples of four. The fields of a header are words at their offsets, and the free objects of a slab hold the index of the next free one. A
  pointer to an entry of \<^verbatim>\<open>slab_caches\<close> is the index of the entry. The theory holds the
  operations on one slab, with the list of free objects that its words stand for.
\<close>

type_synonym heap_mem = "u32 \<Rightarrow> u32"

definition SLAB_MAGIC :: u32 where "SLAB_MAGIC = 0x51AB51AB"

definition SLAB_PAGE_SIZE :: u32 where "SLAB_PAGE_SIZE = 4096"

section \<open>Caches\<close>

record slab_cache =
  object_size :: u32
  first_slab :: u32

definition get_slab_index :: "u32 \<Rightarrow> nat option" where
  "get_slab_index sz =
     (if sz \<le> 32 then Some 0 else if sz \<le> 64 then Some 1 else if sz \<le> 128 then Some 2
      else if sz \<le> 256 then Some 3 else if sz \<le> 512 then Some 4
      else if sz \<le> 1024 then Some 5 else if sz \<le> 2048 then Some 6 else None)"

definition slab_sizes :: "u32 list" where
  "slab_sizes = [32, 64, 128, 256, 512, 1024, 2048]"

definition slab_init :: "slab_cache list" where
  "slab_init = map (\<lambda>s. \<lparr>object_size = s, first_slab = 0\<rparr>) slab_sizes"

section \<open>Operations on one slab\<close>

text \<open>The fields of \<^verbatim>\<open>slab_header_t\<close>, 24 bytes from the magic word on, and the objects behind them.\<close>

definition sh_cache :: "u32 \<Rightarrow> u32" where "sh_cache s = s + 4"

definition sh_next :: "u32 \<Rightarrow> u32" where "sh_next s = s + 8"

definition sh_prev :: "u32 \<Rightarrow> u32" where "sh_prev s = s + 12"

definition sh_free_objects :: "u32 \<Rightarrow> u32" where "sh_free_objects s = s + 16"

definition sh_first_free :: "u32 \<Rightarrow> u32" where "sh_first_free s = s + 20"

definition slab_base :: "u32 \<Rightarrow> u32" where
  "slab_base s = s + 24"

definition mem_clear :: "u32 \<Rightarrow> nat \<Rightarrow> heap_mem \<Rightarrow> heap_mem" where
  "mem_clear a n m = (\<lambda>x. if unat a \<le> unat x \<and> unat x < unat a + n then 0 else m x)"

text \<open>The search for a slab with a free object; a null result is a cache with none.\<close>

partial_function (option) find_slab :: "heap_mem \<Rightarrow> u32 \<Rightarrow> u32 option" where
  "find_slab m s =
     (if s = 0 then Some 0
      else if m (sh_free_objects s) > 0 then Some s
      else find_slab m (m (sh_next s)))"

text \<open>The loop that links the objects of a new slab, and its last object.\<close>

definition link_object :: "u32 \<Rightarrow> u32 \<Rightarrow> nat \<Rightarrow> heap_mem \<Rightarrow> heap_mem" where
  "link_object base sz i m = m(base + of_nat i * sz := of_nat (i + 1))"

definition link_objects :: "u32 \<Rightarrow> u32 \<Rightarrow> nat \<Rightarrow> heap_mem \<Rightarrow> heap_mem" where
  "link_objects base sz max_objs m =
     (fold (link_object base sz) [0..<max_objs - 1] m)
       (base + of_nat (max_objs - 1) * sz := - 1)"

text \<open>Setting up the page for cache \<open>c\<close> in front of the slabs it has.\<close>

definition slab_setup :: "nat \<Rightarrow> u32 \<Rightarrow> u32 \<Rightarrow> u32 \<Rightarrow> heap_mem \<Rightarrow> heap_mem" where
  "slab_setup c sz first s m =
     (let m1 = m(s := SLAB_MAGIC, sh_cache s := of_nat c, sh_prev s := 0, sh_next s := first);
          m2 = (if first \<noteq> 0 then m1(sh_prev first := s) else m1);
          max_objs = (SLAB_PAGE_SIZE - 24) div sz;
          m3 = m2(sh_free_objects s := max_objs, sh_first_free s := 0)
      in link_objects (slab_base s) sz (unat max_objs) m3)"

text \<open>Taking the first free object of a slab.\<close>

definition slab_take :: "u32 \<Rightarrow> u32 \<Rightarrow> heap_mem \<Rightarrow> u32 \<times> heap_mem" where
  "slab_take sz s m =
     (let obj_idx = m (sh_first_free s);
          obj_ptr = slab_base s + obj_idx * sz;
          m1 = m(sh_first_free s := m obj_ptr);
          m2 = m1(sh_free_objects s := m1 (sh_free_objects s) - 1)
      in (obj_ptr, mem_clear obj_ptr (unat sz) m2))"

text \<open>\<^verbatim>\<open>slab_free\<close>: whether the pointer was taken for a slab object, and the memory.\<close>

definition slab_free :: "slab_cache list \<Rightarrow> u32 \<Rightarrow> heap_mem \<Rightarrow> bool \<times> heap_mem" where
  "slab_free caches ptr m =
     (if ptr = 0 then (False, m)
      else
        let page_start = ptr AND 0xFFFFF000;
            slab = page_start + 4
        in if m (slab) \<noteq> SLAB_MAGIC then (False, m)
           else
             let offset = ptr - slab_base slab;
                 sz = object_size (caches ! unat (m (sh_cache slab)))
             in if offset mod sz \<noteq> 0 then (False, m)
                else
                  let obj_idx = offset div sz;
                      m1 = m(ptr := m (sh_first_free slab));
                      m2 = m1(sh_first_free slab := obj_idx)
                  in (True, m2(sh_free_objects slab := m2 (sh_free_objects slab) + 1)))"

section \<open>Addresses inside a block\<close>

lemma unat_of_nat_small: "n < 4294967296 \<Longrightarrow> unat (of_nat n :: u32) = n"
  by (simp add: unsigned_of_nat take_bit_nat_eq_self)

lemma unat_plus_small:
  "unat a + unat b < 4294967296 \<Longrightarrow> unat (a + b) = unat a + unat b" for a b :: u32
  by (simp add: unat_word_ariths)

lemma unat_plus_offset:
  "unat a + n < 4294967296 \<Longrightarrow> unat (a + of_nat n) = unat a + n" for a :: u32
  using unat_plus_small [of a "of_nat n"] by (simp add: unat_of_nat_small)

lemma unat_plus_numeral:
  "unat a + numeral k < 4294967296 \<Longrightarrow> unat (a + numeral k) = unat a + numeral k" for a :: u32
  using unat_plus_offset [of a "numeral k"] by simp

lemma address_eq: "a = b \<longleftrightarrow> unat a = unat b" for a b :: u32
  by (rule word_unat_eq_iff)
section \<open>The slab behind the words\<close>

text \<open>
  Sizes and numbers of objects as natural numbers, the addresses of the fields and objects
  of a slab that does not wrap around, and the list of free objects its words stand for.
\<close>

definition osize :: "nat \<Rightarrow> nat" where
  "osize c = 32 * 2 ^ c"

definition max_objects :: "nat \<Rightarrow> nat" where
  "max_objects c = 4072 div osize c"

definition slab_obj :: "u32 \<Rightarrow> nat \<Rightarrow> nat \<Rightarrow> u32" where
  "slab_obj s c i = slab_base s + of_nat i * of_nat (osize c)"

fun free_chain :: "heap_mem \<Rightarrow> u32 \<Rightarrow> nat \<Rightarrow> u32 \<Rightarrow> nat list \<Rightarrow> bool" where
  "free_chain m s c w [] \<longleftrightarrow> True"
| "free_chain m s c w (i # fl) \<longleftrightarrow> w = of_nat i \<and> free_chain m s c (m (slab_obj s c i)) fl"

definition slab_ok :: "heap_mem \<Rightarrow> u32 \<Rightarrow> nat \<Rightarrow> nat list \<Rightarrow> bool" where
  "slab_ok m s c fl \<longleftrightarrow> m s = SLAB_MAGIC \<and> m (sh_cache s) = of_nat c
     \<and> m (sh_free_objects s) = of_nat (length fl) \<and> distinct fl \<and> (\<forall>i \<in> set fl. i < max_objects c)
     \<and> free_chain m s c (m (sh_first_free s)) fl"

definition slab_room :: "u32 \<Rightarrow> bool" where
  "slab_room s \<longleftrightarrow> unat s + 4096 < 4294967296"

lemma cache_cases:
  fixes c :: nat
  assumes "c < 7"
  obtains "c = 0" | "c = 1" | "c = 2" | "c = 3" | "c = 4" | "c = 5" | "c = 6"
  using assms by linarith

lemma cache_facts:
  assumes "c < 7"
  shows "0 < max_objects c" "max_objects c < 128" "24 + max_objects c * osize c \<le> 4096"
    "32 \<le> osize c" "osize c \<le> 2048"
  using assms by (cases c rule: cache_cases; simp add: osize_def max_objects_def)+

lemma slab_sizes_nth: "c < 7 \<Longrightarrow> slab_sizes ! c = of_nat (osize c)"
  by (cases c rule: cache_cases) (simp_all add: osize_def slab_sizes_def)

lemma unat_osize: "c < 7 \<Longrightarrow> unat (of_nat (osize c) :: u32) = osize c"
  using cache_facts(5) [of c] by (intro unat_of_nat_small) simp

lemma unat_max_objects:
  assumes "c < 7"
  shows "unat ((SLAB_PAGE_SIZE - 24) div of_nat (osize c)) = max_objects c"
  by (simp add: unat_div unat_osize [OF assms] max_objects_def SLAB_PAGE_SIZE_def)

lemma field_addresses:
  assumes "slab_room s"
  shows "unat (sh_cache s) = unat s + 4" "unat (sh_next s) = unat s + 8" "unat (sh_prev s) = unat s + 12"
    "unat (sh_free_objects s) = unat s + 16" "unat (sh_first_free s) = unat s + 20"
    "unat (slab_base s) = unat s + 24"
  using assms
  by (simp_all add: slab_room_def sh_cache_def sh_next_def sh_prev_def sh_free_objects_def
      sh_first_free_def slab_base_def unat_plus_numeral)

lemma object_end:
  assumes "c < 7" "i < max_objects c"
  shows "i * osize c + osize c \<le> 4072"
proof -
  have "Suc i * osize c \<le> max_objects c * osize c" using assms(2) by (intro mult_le_mono1) simp
  with cache_facts(3) [OF assms(1)] show ?thesis by simp
qed

lemma object_address:
  assumes "slab_room s" "c < 7" "i < max_objects c"
  shows "unat (slab_obj s c i) = unat s + 24 + i * osize c"
proof -
  have "unat (slab_base s + of_nat (i * osize c)) = unat (slab_base s) + i * osize c"
    using assms object_end [OF assms(2,3)] by (intro unat_plus_offset) (simp add: field_addresses slab_room_def)
  then show ?thesis using assms(1) by (simp add: slab_obj_def field_addresses)
qed

lemma object_neq:
  assumes "slab_room s" "c < 7" "i < max_objects c" "j < max_objects c" "i \<noteq> j"
  shows "slab_obj s c i \<noteq> slab_obj s c j"
proof
  assume "slab_obj s c i = slab_obj s c j"
  then have "unat (slab_obj s c i) = unat (slab_obj s c j)" by simp
  with assms cache_facts(4) [OF assms(2)] show False by (simp add: object_address)
qed

text \<open>The words of a slab that the allocator relies on.\<close>

definition slab_cells :: "u32 \<Rightarrow> nat \<Rightarrow> nat list \<Rightarrow> u32 set" where
  "slab_cells s c fl = {s, sh_cache s, sh_free_objects s, sh_first_free s} \<union> slab_obj s c ` set fl"

lemma free_chain_cong:
  assumes "\<And>i. i \<in> set fl \<Longrightarrow> m' (slab_obj s c i) = m (slab_obj s c i)"
  shows "free_chain m' s c w fl = free_chain m s c w fl"
  using assms by (induction fl arbitrary: w) simp_all

lemma slab_ok_cong:
  assumes "\<And>x. x \<in> slab_cells s c fl \<Longrightarrow> m' x = m x"
  shows "slab_ok m' s c fl = slab_ok m s c fl"
proof -
  have "free_chain m' s c w fl = free_chain m s c w fl" for w
    by (rule free_chain_cong) (simp add: assms slab_cells_def)
  then show ?thesis using assms by (simp add: slab_ok_def slab_cells_def)
qed

section \<open>A new slab\<close>

lemma link_object_slab:
  "link_object (slab_base s) (of_nat (osize c)) i m = m(slab_obj s c i := of_nat (i + 1))"
  by (simp add: link_object_def slab_obj_def)

abbreviation link_first :: "u32 \<Rightarrow> nat \<Rightarrow> nat \<Rightarrow> heap_mem \<Rightarrow> heap_mem" where
  "link_first s c n m \<equiv> fold (link_object (slab_base s) (of_nat (osize c))) [0..<n] m"

lemma fold_link_other:
  "x \<notin> slab_obj s c ` {..<n} \<Longrightarrow> link_first s c n m x = m x"
proof (induction n)
  case (Suc n)
  then have "x \<noteq> slab_obj s c n" "x \<notin> slab_obj s c ` {..<n}" by auto
  with Suc.IH show ?case by (simp add: link_object_slab)
qed simp

lemma fold_link_object:
  assumes "slab_room s" "c < 7" "n \<le> max_objects c" "j < n"
  shows "link_first s c n m (slab_obj s c j) = of_nat (j + 1)"
  using assms(3,4)
proof (induction n)
  case (Suc n)
  have "slab_obj s c j \<noteq> slab_obj s c n" if "j < n"
    using that Suc.prems by (intro object_neq [OF assms(1,2)]) auto
  with Suc show ?case by (cases "j = n") (simp_all add: link_object_slab)
qed simp

lemma link_objects_spec:
  fixes m :: heap_mem
  assumes "slab_room s" "c < 7"
  defines "m' \<equiv> link_objects (slab_base s) (of_nat (osize c)) (max_objects c) m"
  shows "j + 1 < max_objects c \<Longrightarrow> m' (slab_obj s c j) = of_nat (j + 1)"
    and "x \<notin> slab_obj s c ` {..<max_objects c} \<Longrightarrow> m' x = m x"
proof -
  let ?n = "max_objects c - 1"
  let ?f = "link_first s c ?n m"
  have n: "0 < max_objects c" using cache_facts(1) assms(2) by simp
  have m': "m' = ?f(slab_obj s c ?n := - 1)"
    by (simp add: m'_def link_objects_def slab_obj_def)
  show "m' (slab_obj s c j) = of_nat (j + 1)" if "j + 1 < max_objects c"
  proof -
    have "slab_obj s c j \<noteq> slab_obj s c ?n" using that by (intro object_neq [OF assms(1,2)]) auto
    with that show ?thesis using fold_link_object [OF assms(1,2), of ?n j m] by (simp add: m')
  qed
  show "m' x = m x" if "x \<notin> slab_obj s c ` {..<max_objects c}"
  proof -
    have "x \<noteq> slab_obj s c ?n" "x \<notin> slab_obj s c ` {..<?n}" using that n by auto
    then show ?thesis by (simp add: m' fold_link_other)
  qed
qed

lemma chain_from:
  assumes "\<And>j. j + 1 < n \<Longrightarrow> m (slab_obj s c j) = of_nat (j + 1)" "k \<le> n"
  shows "free_chain m s c (of_nat k) [k..<n]"
  using assms(2)
proof (induction "n - k" arbitrary: k)
  case (Suc d)
  then have k: "[k..<n] = k # [Suc k..<n]" by (simp add: upt_conv_Cons)
  show ?case
  proof (cases "Suc k < n")
    case True
    with Suc.hyps(1) [of "Suc k"] Suc.hyps(2) assms(1) [of k] show ?thesis by (simp add: k)
  qed (simp add: k)
qed simp

lemma header_not_object:
  assumes "slab_room s" "c < 7" "i < max_objects c"
  shows "slab_obj s c i \<noteq> s" "slab_obj s c i \<noteq> sh_cache s" "slab_obj s c i \<noteq> sh_next s"
    "slab_obj s c i \<noteq> sh_prev s" "slab_obj s c i \<noteq> sh_free_objects s" "slab_obj s c i \<noteq> sh_first_free s"
  using object_address [OF assms] field_addresses [OF assms(1)] by (auto dest!: arg_cong [where f = unat])

lemma fields_distinct:
  assumes "slab_room s"
  shows "distinct [s, sh_cache s, sh_next s, sh_prev s, sh_free_objects s, sh_first_free s]"
  using field_addresses [OF assms] by (auto simp: address_eq)

lemma slab_setup_ok:
  fixes m :: heap_mem
  assumes room: "slab_room s" and c: "c < 7" and first: "unat (sh_prev first) < unat s \<or> unat s + 4096 \<le> unat (sh_prev first)"
  defines "m' \<equiv> slab_setup c (of_nat (osize c)) first s m"
  shows "slab_ok m' s c [0..<max_objects c]" "m' (sh_next s) = first"
    and "unat x < unat s \<or> unat s + 4096 \<le> unat x \<Longrightarrow> x \<noteq> sh_prev first \<Longrightarrow> m' x = m x"
    and "first = 0 \<Longrightarrow> unat x < unat s \<or> unat s + 4096 \<le> unat x \<Longrightarrow> m' x = m x"
proof -
  define m3 where "m3 = (let m1 = m(s := SLAB_MAGIC, sh_cache s := of_nat c, sh_prev s := 0, sh_next s := first)
    in (if first \<noteq> 0 then m1(sh_prev first := s) else m1)
      (sh_free_objects s := (SLAB_PAGE_SIZE - 24) div of_nat (osize c), sh_first_free s := 0))"
  have m': "m' = link_objects (slab_base s) (of_nat (osize c)) (max_objects c) m3"
    by (simp add: m'_def slab_setup_def m3_def unat_max_objects [OF c] Let_def)
  note link = link_objects_spec [OF room c, of _ m3, folded m']
  note addr = field_addresses [OF room]
  have fields: "x \<notin> slab_obj s c ` {..<max_objects c}" if "x \<in> {s, sh_cache s, sh_next s, sh_free_objects s, sh_first_free s}" for x
    using that header_not_object [OF room c] by force
  have prev: "sh_prev first \<noteq> x" if "x \<in> {s, sh_cache s, sh_next s, sh_free_objects s, sh_first_free s}" for x
    using that first addr by (auto simp: address_eq)
  have neq: "sh_prev first \<noteq> s" "sh_prev first \<noteq> sh_cache s" "sh_prev first \<noteq> sh_next s"
    by (simp_all add: prev)
  have vals: "m3 s = SLAB_MAGIC" "m3 (sh_cache s) = of_nat c" "m3 (sh_next s) = first"
    "m3 (sh_free_objects s) = (SLAB_PAGE_SIZE - 24) div of_nat (osize c)" "m3 (sh_first_free s) = 0"
    using fields_distinct [OF room] neq neq [symmetric] by (simp_all add: m3_def Let_def)
  have "m' y = m3 y" if "y \<in> {s, sh_cache s, sh_next s, sh_free_objects s, sh_first_free s}" for y
    using link(2) [OF fields [OF that]] .
  note vals' = this [THEN trans]
  have count: "(SLAB_PAGE_SIZE - 24) div of_nat (osize c) = (of_nat (max_objects c) :: u32)"
    using cache_facts(2) [OF c] by (simp only: address_eq unat_max_objects [OF c]) (simp add: unat_of_nat_small)
  have "free_chain m' s c (of_nat 0) [0..<max_objects c]"
    by (rule chain_from) (simp_all add: link(1))
  then show "slab_ok m' s c [0..<max_objects c]" "m' (sh_next s) = first"
    using vals count by (simp_all add: slab_ok_def vals')
  have m3_out: "m3 x = m x" if "unat x < unat s \<or> unat s + 4096 \<le> unat x" "first = 0 \<or> x \<noteq> sh_prev first" for x
  proof -
    have "x \<noteq> s" "x \<noteq> sh_cache s" "x \<noteq> sh_prev s" "x \<noteq> sh_next s" "x \<noteq> sh_free_objects s"
      "x \<noteq> sh_first_free s" using that(1) addr by (force simp: address_eq)+
    with that(2) show ?thesis by (auto simp: m3_def Let_def)
  qed
  have out: "x \<notin> slab_obj s c ` {..<max_objects c}" if "unat x < unat s \<or> unat s + 4096 \<le> unat x" for x
    using that object_address [OF room c] object_end [OF c] cache_facts(4) [OF c] by fastforce
  show "m' x = m x" if "unat x < unat s \<or> unat s + 4096 \<le> unat x" "x \<noteq> sh_prev first"
    using link(2) [OF out] m3_out that by auto
  show "m' x = m x" if "first = 0" "unat x < unat s \<or> unat s + 4096 \<le> unat x"
    using link(2) [OF out] m3_out that by auto
qed

section \<open>The page of an address\<close>

lemma page_start_bits: "w AND 0xFFFFF000 = push_bit 12 (drop_bit 12 w)" for w :: u32
proof -
  have mask: "(0xFFFFF000 :: u32) = NOT (mask 12)" by (simp add: mask_eq_exp_minus_1)
  show ?thesis unfolding mask by (rule bit_word_eqI) (auto simp: bit_simps)
qed

lemma unat_page_start: "unat (w AND 0xFFFFF000) = unat w div 4096 * 4096" for w :: u32
proof -
  have "unat (w AND 0xFFFFF000) = take_bit 32 (push_bit 12 (unat (drop_bit 12 w)))"
    by (simp only: page_start_bits unsigned_push_bit_eq) simp
  also have "unat (drop_bit 12 w) = unat w div 4096"
    by (simp add: drop_bit_eq_div unat_div)
  also have "take_bit 32 (push_bit 12 (unat w div 4096)) = unat w div 4096 * 4096"
    using unat_u32_less [of w] by (simp add: push_bit_eq_mult take_bit_nat_eq_self)
  finally show ?thesis .
qed

text \<open>The header of a slab is the second word of its page, and all its objects are in that page.\<close>

definition slab_aligned :: "u32 \<Rightarrow> bool" where
  "slab_aligned s \<longleftrightarrow> unat s mod 4096 = 4 \<and> slab_room s"

lemma page_of_address:
  assumes "slab_aligned s" "unat s \<le> unat p" "unat p < unat s + 4092"
  shows "(p AND 0xFFFFF000) + 4 = s"
proof -
  obtain q where q: "unat s = 4096 * q + 4"
    using assms(1) by (metis slab_aligned_def mult_div_mod_eq)
  then have "unat p div 4096 = q" using assms(2,3) by (intro div_nat_eqI) simp_all
  then have "unat (p AND 0xFFFFF000) = 4096 * q" by (simp add: unat_page_start)
  with assms(1) q show ?thesis by (simp add: address_eq slab_aligned_def slab_room_def unat_plus_numeral)
qed

lemma page_of_object:
  assumes "slab_aligned s" "c < 7" "i < max_objects c"
  shows "(slab_obj s c i AND 0xFFFFF000) + 4 = s"
proof (rule page_of_address [OF assms(1)])
  have "slab_room s" using assms(1) by (simp add: slab_aligned_def)
  note a = object_address [OF this assms(2,3)]
  show "unat s \<le> unat (slab_obj s c i)" "unat (slab_obj s c i) < unat s + 4092"
    using a object_end [OF assms(2,3)] cache_facts(4) [OF assms(2)] by simp_all
qed

section \<open>Taking and returning an object\<close>

lemma mem_clear_outside: "unat x < unat a \<or> unat a + n \<le> unat x \<Longrightarrow> mem_clear a n m x = m x"
  by (auto simp: mem_clear_def)

lemma slab_take_ok:
  fixes m :: heap_mem
  assumes room: "slab_room s" and c: "c < 7" and ok: "slab_ok m s c (i # fl)"
  obtains m' where "slab_take (of_nat (osize c)) s m = (slab_obj s c i, m')" "slab_ok m' s c fl"
    "\<And>x. x \<noteq> sh_first_free s \<Longrightarrow> x \<noteq> sh_free_objects s \<Longrightarrow>
      unat x < unat (slab_obj s c i) \<or> unat (slab_obj s c i) + osize c \<le> unat x \<Longrightarrow> m' x = m x"
    "\<And>x. unat (slab_obj s c i) \<le> unat x \<Longrightarrow> unat x < unat (slab_obj s c i) + osize c \<Longrightarrow> m' x = 0"
proof -
  let ?o = "slab_obj s c i"
  define m2 where "m2 = m(sh_first_free s := m ?o, sh_free_objects s := of_nat (length fl))"
  define m' where "m' = mem_clear ?o (osize c) m2"
  have i: "i < max_objects c" "i \<notin> set fl" "\<forall>j \<in> set fl. j < max_objects c" "distinct fl"
    using ok by (simp_all add: slab_ok_def)
  note addr = field_addresses [OF room] object_address [OF room c i(1)]
  note fd = fields_distinct [OF room]
  have first: "m (sh_first_free s) = of_nat i" and count: "m (sh_free_objects s) = of_nat (Suc (length fl))"
    and chain: "free_chain m s c (m ?o) fl"
    using ok by (simp_all add: slab_ok_def)
  have take: "slab_take (of_nat (osize c)) s m = (?o, m')"
    using fd first count
    by (simp add: slab_take_def Let_def m'_def m2_def slab_obj_def unat_osize [OF c])
  have field: "m' x = m2 x" if "x \<in> {s, sh_cache s, sh_free_objects s, sh_first_free s}" for x
    unfolding m'_def by (rule mem_clear_outside) (use that addr in auto)
  have object: "m' (slab_obj s c j) = m (slab_obj s c j)" if "j \<in> set fl" for j
  proof -
    have j: "j < max_objects c" "j \<noteq> i" using that i by auto
    have "j * osize c + osize c \<le> i * osize c \<or> i * osize c + osize c \<le> j * osize c"
    proof (cases "j < i")
      case True
      then have "Suc j * osize c \<le> i * osize c" by (intro mult_le_mono1) simp
      then show ?thesis by simp
    next
      case False
      then have "Suc i * osize c \<le> j * osize c" using j by (intro mult_le_mono1) simp
      then show ?thesis by simp
    qed
    then have "m' (slab_obj s c j) = m2 (slab_obj s c j)"
      unfolding m'_def using addr object_address [OF room c j(1)] cache_facts(4) [OF c]
      by (intro mem_clear_outside) linarith
    then show ?thesis using header_not_object [OF room c j(1)] by (simp add: m2_def)
  qed
  have "free_chain m' s c (m ?o) fl" using chain object free_chain_cong by metis
  moreover have "m2 s = m s" "m2 (sh_cache s) = m (sh_cache s)" "m2 (sh_first_free s) = m ?o"
    "m2 (sh_free_objects s) = of_nat (length fl)" using fd by (auto simp: m2_def)
  ultimately have "slab_ok m' s c fl"
    using ok i by (simp add: slab_ok_def field)
  moreover have "m' x = m x" if "x \<noteq> sh_first_free s" "x \<noteq> sh_free_objects s"
    "unat x < unat ?o \<or> unat ?o + osize c \<le> unat x" for x
    using that by (simp add: m'_def mem_clear_outside m2_def)
  moreover have "m' x = 0" if "unat ?o \<le> unat x" "unat x < unat ?o + osize c" for x
    using that by (simp add: m'_def mem_clear_def)
  ultimately show ?thesis using that [OF take] by blast
qed

lemma slab_free_object:
  fixes m :: heap_mem
  assumes s: "slab_aligned s" and c: "c < 7" and i: "i < max_objects c" "i \<notin> set fl"
    and ok: "slab_ok m s c fl" and cache: "object_size (caches ! c) = of_nat (osize c)"
  obtains m' where "slab_free caches (slab_obj s c i) m = (True, m')" "slab_ok m' s c (i # fl)"
    "\<And>x. x \<noteq> sh_first_free s \<Longrightarrow> x \<noteq> sh_free_objects s \<Longrightarrow> x \<noteq> slab_obj s c i \<Longrightarrow> m' x = m x"
proof -
  let ?o = "slab_obj s c i"
  have room: "slab_room s" using s by (simp add: slab_aligned_def)
  note addr = field_addresses [OF room] object_address [OF room c i(1)]
  note fd = fields_distinct [OF room]
  note ho = header_not_object [OF room c i(1)]
  define m' where "m' = m(?o := m (sh_first_free s), sh_first_free s := of_nat i,
    sh_free_objects s := of_nat (Suc (length fl)))"
  have "0 < unat ?o" using addr by simp
  then have nz: "?o \<noteq> 0" by auto
  have offset: "?o - slab_base s = of_nat (i * osize c)" by (simp add: slab_obj_def)
  have small: "i * osize c < 4294967296" using object_end [OF c i(1)] by simp
  have "unat (of_nat (i * osize c) mod of_nat (osize c) :: u32) = 0"
    by (simp only: unat_mod unat_of_nat_small [OF small] unat_osize [OF c]) simp
  then have md: "(of_nat (i * osize c) mod of_nat (osize c) :: u32) = 0" by (simp only: unat_eq_0)
  have "unat (of_nat (i * osize c) div of_nat (osize c) :: u32) = i"
    using cache_facts(4) [OF c] by (simp only: unat_div unat_of_nat_small [OF small] unat_osize [OF c]) simp
  moreover have "unat (of_nat i :: u32) = i"
    using i(1) cache_facts(2) [OF c] by (intro unat_of_nat_small) simp
  ultimately have dv: "(of_nat (i * osize c) div of_nat (osize c) :: u32) = of_nat i"
    by (simp only: address_eq)
  have magic: "m s = SLAB_MAGIC" and c': "unat (m (sh_cache s)) = c"
    and first: "free_chain m s c (m (sh_first_free s)) fl" and count: "m (sh_free_objects s) = of_nat (length fl)"
    using ok c by (simp_all add: slab_ok_def unat_of_nat_small)
  have free: "slab_free caches ?o m = (True, m')"
    unfolding slab_free_def Let_def page_of_object [OF s c i(1)] offset c' cache md dv
    using nz magic fd ho count by (simp add: m'_def add.commute)
  have object: "m' (slab_obj s c j) = m (slab_obj s c j)" if "j \<in> set fl" for j
  proof -
    have j: "j < max_objects c" "j \<noteq> i" using that ok i(2) by (auto simp: slab_ok_def)
    show ?thesis
      using object_neq [OF room c i(1) j(1)] j(2) header_not_object [OF room c j(1)] by (simp add: m'_def)
  qed
  have "free_chain m' s c (m (sh_first_free s)) fl" using first object free_chain_cong by metis
  moreover have "m' s = SLAB_MAGIC" "m' (sh_cache s) = of_nat c" "m' ?o = m (sh_first_free s)"
    "m' (sh_first_free s) = of_nat i" "m' (sh_free_objects s) = of_nat (Suc (length fl))"
    using fd ho magic ok by (auto simp: m'_def slab_ok_def)
  ultimately have "slab_ok m' s c (i # fl)" using ok i by (simp add: slab_ok_def)
  moreover have "m' x = m x" if "x \<noteq> sh_first_free s" "x \<noteq> sh_free_objects s" "x \<noteq> ?o" for x
    using that by (simp add: m'_def)
  ultimately show ?thesis using that [OF free] by blast
qed

section \<open>The list of slabs of a cache\<close>

fun slab_chain :: "heap_mem \<Rightarrow> u32 \<Rightarrow> u32 list \<Rightarrow> bool" where
  "slab_chain m w [] \<longleftrightarrow> w = 0"
| "slab_chain m w (s # ss) \<longleftrightarrow> w = s \<and> s \<noteq> 0 \<and> slab_chain m (m (sh_next s)) ss"

lemma slab_chain_cong:
  "(\<And>s. s \<in> set ss \<Longrightarrow> m' (sh_next s) = m (sh_next s)) \<Longrightarrow> slab_chain m' w ss = slab_chain m w ss"
  by (induction ss arbitrary: w) simp_all

lemma find_slab_chain:
  assumes "slab_chain m w ss" "\<And>s. s \<in> set ss \<Longrightarrow> m (sh_free_objects s) = of_nat (length (fr s)) \<and> length (fr s) < 128"
  shows "find_slab m w = Some (case find (\<lambda>s. fr s \<noteq> []) ss of None \<Rightarrow> 0 | Some s \<Rightarrow> s)"
  using assms
proof (induction ss arbitrary: w)
  case Nil
  then show ?case by (simp add: find_slab.simps)
next
  case (Cons s ss)
  have "(of_nat (length (fr s)) :: u32) > 0 \<longleftrightarrow> fr s \<noteq> []"
    using Cons.prems(2) [of s] by (simp add: word_less_nat_alt unat_of_nat_small)
  then show ?case using Cons by (simp add: find_slab.simps [of m s])
qed

end
