(* ===== verification/KHeap.thy ===== *)
theory KHeap
  imports Slab
begin

text \<open>
  The kernel heap (\<^verbatim>\<open>kernel/heap.cpp\<close>, the cache level of \<^verbatim>\<open>kernel/slab.cpp\<close>, and
  \<^verbatim>\<open>kernel/memory.cpp\<close>): allocation from slabs or from buddy blocks behind a header, and
  freeing by what stands in front of a pointer. The memory of the buddy blocks is part of the
  state, the words the buddy allocator keeps in its free blocks are its lists. Then the
  invariant that says who owns which block, and what a history of calls guarantees to the
  clients: their blocks never overlap and keep what is stored in them.
\<close>

section \<open>State\<close>

text \<open>The interrupt flag is part of the state because every call of the heap sets it.\<close>

record kheap =
  kh_start :: u32
  kh_end :: u32
  kh_max :: u32
  kh_supervisor :: "8 word"
  kh_readonly :: "8 word"
  kh_buddy :: buddy
  kh_mem :: heap_mem
  kh_caches :: "slab_cache list"
  kh_slab_ready :: bool
  kh_interrupts :: bool

definition cli :: "kheap \<Rightarrow> kheap" where "cli h = h\<lparr>kh_interrupts := False\<rparr>"

definition sti :: "kheap \<Rightarrow> kheap" where "sti h = h\<lparr>kh_interrupts := True\<rparr>"

definition init_kheap :: "u32 \<Rightarrow> u32 \<Rightarrow> u32 \<Rightarrow> kheap \<Rightarrow> kheap option" where
  "init_kheap start stop mx h =
     (if start mod 4096 \<noteq> 0 \<or> stop mod 4096 \<noteq> 0 then Some h
      else do {
        b \<leftarrow> buddy_init start stop;
        Some (h\<lparr>kh_start := start, kh_end := stop, kh_max := mx, kh_supervisor := 1, kh_readonly := 0, kh_buddy := b\<rparr>)
      })"

section \<open>Blocks with a header\<close>

text \<open>The fields of \<^verbatim>\<open>header_t\<close>, 20 bytes at the start of a buddy block.\<close>

definition hd_size :: "u32 \<Rightarrow> u32" where "hd_size b = b + 8"

definition hd_allocated :: "u32 \<Rightarrow> u32" where "hd_allocated b = b + 12"

definition hd_magic :: "u32 \<Rightarrow> u32" where "hd_magic b = b + 16"

definition set_byte :: "u32 \<Rightarrow> u32 \<Rightarrow> u32" where
  "set_byte v w = (w AND 0xFFFFFF00) OR v"

definition required_size :: "u32 \<Rightarrow> bool \<Rightarrow> u32" where
  "required_size sz align = (let r = sz + 20 + 4 in if align then r + 4096 else r)"

definition adjusted_ptr :: "u32 \<Rightarrow> bool \<Rightarrow> u32" where
  "adjusted_ptr b align =
     (let data_start = b + 20;
          adjusted = (if align \<and> data_start AND 0xFFF \<noteq> 0
                      then (data_start + 0xFFF) AND 0xFFFFF000 else data_start)
      in adjusted + 4)"

text \<open>The second half of \<^verbatim>\<open>kmalloc_real\<close>: a buddy block, cleared by \<^verbatim>\<open>buddy_alloc\<close>, with its header.\<close>

definition kmalloc_block :: "u32 \<Rightarrow> bool \<Rightarrow> kheap \<Rightarrow> (u32 \<times> kheap) option" where
  "kmalloc_block sz align h = do {
     let req = required_size sz align;
     (b, bud) \<leftarrow> buddy_alloc (kh_buddy h) req;
     if b = 0 then Some (0, sti (h\<lparr>kh_buddy := bud\<rparr>))
     else do {
       order \<leftarrow> get_order req;
       let p = adjusted_ptr b align;
       let m = mem_clear b (2 ^ clamp_order order) (kh_mem h);
       let m = m(p - 4 := b);
       let m = m(hd_size b := req);
       let m = m(hd_allocated b := set_byte 1 (m (hd_allocated b)));
       let m = m(hd_magic b := 0xCAFEBABE);
       Some (p, sti (h\<lparr>kh_buddy := bud, kh_mem := m\<rparr>))
     }
   }"

section \<open>Slabs\<close>

text \<open>
  \<^verbatim>\<open>slab_alloc\<close>. It asks \<^verbatim>\<open>kmalloc_real\<close> for an aligned page, which is never served from a
  slab, so the request is one of \<^verbatim>\<open>kmalloc_block\<close>.
\<close>

definition new_slab :: "nat \<Rightarrow> kheap \<Rightarrow> (u32 \<times> kheap) option" where
  "new_slab idx h = do {
     (page, h1) \<leftarrow> kmalloc_block SLAB_PAGE_SIZE True (cli h);
     if page = 0 then Some (0, h1)
     else
       let cache = kh_caches h1 ! idx
       in Some (page, h1\<lparr>kh_mem := slab_setup idx (object_size cache) (first_slab cache) page (kh_mem h1),
                        kh_caches := (kh_caches h1)[idx := cache\<lparr>first_slab := page\<rparr>]\<rparr>)
   }"

definition slab_alloc :: "u32 \<Rightarrow> kheap \<Rightarrow> (u32 \<times> kheap) option" where
  "slab_alloc sz h = (case get_slab_index sz of
       None \<Rightarrow> Some (0, h)
     | Some idx \<Rightarrow> do {
         found \<leftarrow> find_slab (kh_mem h) (first_slab (kh_caches h ! idx));
         (s, h1) \<leftarrow> (if found \<noteq> 0 then Some (found, h) else new_slab idx h);
         if s = 0 then Some (0, h1)
         else
           let (p, m) = slab_take (object_size (kh_caches h1 ! idx)) s (kh_mem h1)
           in Some (p, h1\<lparr>kh_mem := m\<rparr>)
       })"

section \<open>The entry points\<close>

definition kmalloc_real :: "u32 \<Rightarrow> bool \<Rightarrow> kheap \<Rightarrow> (u32 \<times> kheap) option" where
  "kmalloc_real sz align h0 = do {
     let h = cli h0;
     (p, h1) \<leftarrow> (if kh_slab_ready h \<and> sz \<le> 2048 \<and> \<not> align then slab_alloc sz h else Some (0, h));
     if p \<noteq> 0 then Some (p, sti h1)
     else if sz = 0 then Some (0, sti h1)
     else kmalloc_block sz align h1
   }"

definition kfree :: "u32 \<Rightarrow> kheap \<Rightarrow> kheap option" where
  "kfree p h0 =
     (let h = cli h0 in
      if p = 0 then Some (sti h)
      else
        let (handled, m) = (if kh_slab_ready h then slab_free (kh_caches h) p (kh_mem h) else (False, kh_mem h))
        in if handled then Some (sti (h\<lparr>kh_mem := m\<rparr>))
           else
             let b = m (p - 4)
             in if b < kh_start h \<or> b > kh_end h then Some (sti h)
                else if m (hd_magic b) \<noteq> 0xCAFEBABE then Some (sti h)
                else
                  let sz = m (hd_size b);
                      m = m(hd_allocated b := set_byte 0 (m (hd_allocated b)));
                      m = m(hd_magic b := 0xBADB00B5)
                  in do {
                       bud \<leftarrow> buddy_free (kh_buddy h) b sz;
                       Some (sti (h\<lparr>kh_buddy := bud, kh_mem := m\<rparr>))
                     })"

text \<open>An aligned request of a page takes the path of \<^verbatim>\<open>kmalloc_block\<close>.\<close>

lemma kmalloc_real_page: "kmalloc_real SLAB_PAGE_SIZE True h = kmalloc_block SLAB_PAGE_SIZE True (cli h)"
  by (simp add: kmalloc_real_def SLAB_PAGE_SIZE_def Let_def)

section \<open>Before the heap is ready\<close>

record kmem =
  free_mem_addr :: u32
  heap_ready :: bool
  km_heap :: kheap

definition init_memory :: "u32 \<Rightarrow> kmem \<Rightarrow> kmem" where
  "init_memory start km = km\<lparr>free_mem_addr := start\<rparr>"

definition placement_kmalloc :: "u32 \<Rightarrow> bool \<Rightarrow> kmem \<Rightarrow> u32 \<times> kmem" where
  "placement_kmalloc sz align km =
     (let a = free_mem_addr km;
          a = (if align \<and> a AND 0xFFFFF000 \<noteq> 0 then (a AND 0xFFFFF000) + 0x1000 else a)
      in (a, km\<lparr>free_mem_addr := a + sz\<rparr>))"

definition kmalloc_a :: "u32 \<Rightarrow> bool \<Rightarrow> kmem \<Rightarrow> (u32 \<times> kmem) option" where
  "kmalloc_a sz align km =
     (if heap_ready km
      then do { (p, h) \<leftarrow> kmalloc_real sz align (km_heap km); Some (p, km\<lparr>km_heap := h\<rparr>) }
      else Some (placement_kmalloc sz align km))"

definition kmalloc :: "u32 \<Rightarrow> kmem \<Rightarrow> (u32 \<times> kmem) option" where
  "kmalloc sz km = kmalloc_a sz False km"

definition kmalloc_align_page :: "kmem \<Rightarrow> kmem" where
  "kmalloc_align_page km =
     (if free_mem_addr km AND 0xFFF \<noteq> 0
      then km\<lparr>free_mem_addr := (free_mem_addr km AND 0xFFFFF000) + 0x1000\<rparr> else km)"

definition set_heap_status :: "bool \<Rightarrow> kmem \<Rightarrow> kmem" where
  "set_heap_status status km = km\<lparr>heap_ready := status\<rparr>"
section \<open>Who owns which block\<close>

text \<open>
  Every buddy block in use is a request with its header, or holds the page of a slab of some
  cache. The ghost state names the owners, the slabs of each cache in the order of their
  list, and the free objects of each slab.
\<close>

datatype owner = Big u32 nat u32 bool | Slab_Page nat u32

fun own_block :: "owner \<Rightarrow> nat \<times> u32" where
  "own_block (Big b k sz al) = (k, b)"
| "own_block (Slab_Page c s) = (2, s - 4100)"

definition span :: "owner \<Rightarrow> nat set" where
  "span x = block_span (own_block x)"

record ghost =
  g_owners :: "owner set"
  g_slabs :: "nat \<Rightarrow> u32 list"
  g_free :: "u32 \<Rightarrow> nat list"

definition big_ptr :: "u32 \<Rightarrow> bool \<Rightarrow> u32" where
  "big_ptr b al = (if al then b + 4100 else b + 24)"

text \<open>The words of an owner that the allocator relies on.\<close>

fun cells :: "ghost \<Rightarrow> owner \<Rightarrow> u32 set" where
  "cells g (Big b k sz al) = {b + 4, hd_size b, hd_magic b, big_ptr b al - 4}"
| "cells g (Slab_Page c s) = insert (sh_next s) (slab_cells s c (g_free g s))"

text \<open>The areas of an owner that its clients may use.\<close>

fun areas :: "ghost \<Rightarrow> owner \<Rightarrow> (u32 \<times> nat) set" where
  "areas g (Big b k sz al) = {(big_ptr b al, unat sz)}"
| "areas g (Slab_Page c s) = {(slab_obj s c i, osize c) | i. i < max_objects c \<and> i \<notin> set (g_free g s)}"

definition area_span :: "u32 \<times> nat \<Rightarrow> nat set" where
  "area_span a = {unat (fst a) ..< unat (fst a) + snd a}"

fun owner_ok :: "u32 \<Rightarrow> u32 \<Rightarrow> heap_mem \<Rightarrow> ghost \<Rightarrow> owner \<Rightarrow> bool" where
  "owner_ok start stop m g (Big b k sz al) \<longleftrightarrow> k < 17 \<and> block_ok start stop (k, b) \<and> sz \<noteq> 0
     \<and> unat sz + (if al then 4120 else 24) \<le> 2 ^ (k + 12)
     \<and> (k = 0 \<or> 2 ^ (k + 11) < unat sz + (if al then 4120 else 24))
     \<and> m (hd_size b) = required_size sz al \<and> m (hd_magic b) = 0xCAFEBABE
     \<and> m (big_ptr b al - 4) = b \<and> (\<not> al \<longrightarrow> m (b + 4) = 0)"
| "owner_ok start stop m g (Slab_Page c s) \<longleftrightarrow> c < 7 \<and> block_ok start stop (2, s - 4100) \<and> 4100 \<le> unat s
     \<and> slab_ok m s c (g_free g s)"

definition caches_ok :: "slab_cache list \<Rightarrow> bool" where
  "caches_ok cs \<longleftrightarrow> length cs = 7 \<and> (\<forall>c < 7. object_size (cs ! c) = of_nat (osize c))"

definition kheap_inv :: "ghost \<Rightarrow> kheap \<Rightarrow> bool" where
  "kheap_inv g h \<longleftrightarrow> buddy_inv (kh_buddy h) \<and> buddy_start (kh_buddy h) = kh_start h
     \<and> buddy_end (kh_buddy h) = kh_end h \<and> unat (kh_start h) mod 4096 = 0 \<and> kh_slab_ready h
     \<and> caches_ok (kh_caches h)
     \<and> (\<forall>x \<in> g_owners g. owner_ok (kh_start h) (kh_end h) (kh_mem h) g x
          \<and> span x \<inter> free_region (buddy_lists (kh_buddy h)) = {})
     \<and> pairwise (\<lambda>x y. span x \<inter> span y = {}) (g_owners g)
     \<and> (\<forall>c s. Slab_Page c s \<in> g_owners g \<longleftrightarrow> c < 7 \<and> s \<in> set (g_slabs g c))
     \<and> (\<forall>c < 7. slab_chain (kh_mem h) (first_slab (kh_caches h ! c)) (g_slabs g c))"

section \<open>Addresses of an owner\<close>

lemma block_bounds:
  assumes "block_ok start stop (k, b)" "n < 2 ^ (k + 12)"
  shows "unat (b + of_nat n) = unat b + n" "unat b + 2 ^ (k + 12) \<le> unat stop" "unat start \<le> unat b"
  using assms unat_u32_less [of stop] by (auto simp: block_ok_def intro!: unat_plus_offset)

lemma block_aligned:
  assumes "block_ok start stop (k, b)" "unat start mod 4096 = 0"
  shows "unat b mod 4096 = 0"
proof -
  have "(2::nat) ^ 12 dvd 2 ^ (k + 12)" by (rule le_imp_power_dvd) simp
  also have "\<dots> dvd unat b - unat start" using assms(1) by (simp add: block_ok_def)
  finally have "4096 dvd unat b - unat start" by simp
  moreover have "unat start \<le> unat b" using assms(1) by (simp add: block_ok_def)
  ultimately show ?thesis using assms(2)
    by (metis dvd_diffD mod_0_imp_dvd mod_eq_0_iff_dvd dvd_diffD1)
qed

lemma adjusted_is_big_ptr:
  assumes "block_ok start stop (k, b)" "unat start mod 4096 = 0" "al \<longrightarrow> 8192 \<le> (2::nat) ^ (k + 12)"
  shows "adjusted_ptr b al = big_ptr b al"
proof (cases al)
  case True
  note b = block_aligned [OF assms(1,2)]
  have bound: "4115 < (2::nat) ^ (k + 12)" using assms(3) True by simp
  have u: "unat (b + 20) = unat b + 20" "unat (b + 4115) = unat b + 4115" "unat (b + 4096) = unat b + 4096"
    using block_bounds(1) [OF assms(1), of 20] block_bounds(1) [OF assms(1), of 4115]
      block_bounds(1) [OF assms(1), of 4096] bound by simp_all
  obtain q where q: "unat b = 4096 * q" using b by (metis mod_0_imp_dvd dvdE)
  have "(b + 20) AND 0xFFF \<noteq> 0"
  proof
    assume z: "(b + 20) AND 0xFFF = 0"
    have "(0xFFF :: u32) = mask 12" by (simp add: mask_eq_exp_minus_1)
    then have "(b + 20) AND 0xFFF = take_bit 12 (b + 20)" by (simp only: take_bit_eq_mask)
    with z have "unat (take_bit 12 (b + 20)) = 0" by simp
    then have "unat (b + 20) mod 4096 = 0" by (simp add: unsigned_take_bit_eq take_bit_eq_mod unat_mod)
    with u(1) q show False by simp
  qed
  moreover have "((b + 20) + 0xFFF) AND 0xFFFFF000 = b + 4096"
  proof -
    have "unat (b + 4115) div 4096 * 4096 = unat b + 4096" using u(2) q by simp
    then have "unat ((b + 4115) AND 0xFFFFF000) = unat (b + 4096)" by (simp add: unat_page_start u(3))
    then show ?thesis by (simp add: address_eq add.assoc)
  qed
  ultimately show ?thesis using True by (simp add: adjusted_ptr_def big_ptr_def Let_def)
next
  case False
  then show ?thesis by (simp add: adjusted_ptr_def big_ptr_def)
qed


lemma heap_span_bounds:
  assumes "block_ok start stop (k, b)"
  shows "block_span (k, b) \<subseteq> {unat start ..< unat stop}"
  using assms by (auto simp: block_ok_def block_span.simps)

lemma block_power: "4096 \<le> (2::nat) ^ (k + 12)"
  using power_increasing [of 12 "k + 12" "2::nat"] by simp

text \<open>The addresses of a block with a header, and of the page of a slab.\<close>

lemma big_block_addresses:
  assumes ok: "block_ok start stop (k, b)" and sz: "sz \<noteq> 0" "unat sz + (if al then 4120 else 24) \<le> 2 ^ (k + 12)"
  shows "unat (b + 4) = unat b + 4" "unat (hd_size b) = unat b + 8" "unat (hd_allocated b) = unat b + 12"
    "unat (hd_magic b) = unat b + 16"
    "unat (big_ptr b al - 4) = unat (big_ptr b al) - 4"
    "unat (big_ptr b al) = unat b + (if al then 4100 else 24)"
proof -
  have "unat sz \<noteq> 0" using sz(1) by (simp add: unat_eq_0)
  then have room: "(if al then 4100 else 24) < (2::nat) ^ (k + 12)" using sz(2) by (simp split: if_splits)
  have small: "n < 4096 \<Longrightarrow> unat (b + of_nat n) = unat b + n" for n
    using block_bounds(1) [OF ok, of n] block_power [of k] by simp
  show "unat (b + 4) = unat b + 4" "unat (hd_size b) = unat b + 8" "unat (hd_allocated b) = unat b + 12"
    "unat (hd_magic b) = unat b + 16"
    using small [of 4] small [of 8] small [of 12] small [of 16]
    by (simp_all add: hd_size_def hd_allocated_def hd_magic_def)
  have p: "unat (b + of_nat (if al then 4100 else 24)) = unat b + (if al then 4100 else 24)"
    by (rule block_bounds(1) [OF ok room])
  then show "unat (big_ptr b al) = unat b + (if al then 4100 else 24)"
    by (simp add: big_ptr_def split: if_splits)
  have "unat (b + of_nat (if al then 4096 else 20)) = unat b + (if al then 4096 else 20)"
    by (rule block_bounds(1) [OF ok]) (use room in \<open>simp split: if_splits\<close>)
  with p show "unat (big_ptr b al - 4) = unat (big_ptr b al) - 4"
    by (simp add: big_ptr_def add.commute [of b] add.commute [of "unat b"] split: if_splits)
qed

lemma big_addresses:
  assumes "owner_ok start stop m g (Big b k sz al)"
  shows "unat (b + 4) = unat b + 4" "unat (hd_size b) = unat b + 8" "unat (hd_allocated b) = unat b + 12"
    "unat (hd_magic b) = unat b + 16"
    "unat (big_ptr b al - 4) = unat (big_ptr b al) - 4"
    "unat (big_ptr b al) = unat b + (if al then 4100 else 24)"
proof -
  have "block_ok start stop (k, b)" "sz \<noteq> 0" "unat sz + (if al then 4120 else 24) \<le> 2 ^ (k + 12)"
    using assms by simp_all
  note a = big_block_addresses [OF this]
  show "unat (b + 4) = unat b + 4" "unat (hd_size b) = unat b + 8" "unat (hd_allocated b) = unat b + 12"
    "unat (hd_magic b) = unat b + 16"
    "unat (big_ptr b al - 4) = unat (big_ptr b al) - 4"
    "unat (big_ptr b al) = unat b + (if al then 4100 else 24)" by (fact a)+
qed

lemma aligned_ptr:
  assumes "owner_ok start stop m g (Big b k sz al)" "unat start mod 4096 = 0"
  shows "al \<longrightarrow> unat (big_ptr b al) mod 4096 = 4"
proof -
  have ok: "block_ok start stop (k, b)" using assms(1) by simp
  obtain q where "unat b = 4096 * q" using block_aligned [OF ok assms(2)] by (metis mod_0_imp_dvd dvdE)
  then have "unat (big_ptr b al) = 4 + 4096 * (q + 1)" if al
    using big_addresses(6) [OF assms(1)] that by simp
  then show ?thesis by (simp only: mod_mult_self2) simp
qed

lemma slab_page:
  assumes "unat start mod 4096 = 0" "owner_ok start stop m g (Slab_Page c s)"
  shows "slab_aligned s" "slab_room s" "span (Slab_Page c s) = {unat s - 4100 ..< unat s + 12284}"
    "c < 7" "slab_ok m s c (g_free g s)" "4100 \<le> unat s"
proof -
  have ok: "block_ok start stop (2, s - 4100)" and s: "4100 \<le> unat s"
    using assms(2) by simp_all
  have "unat (s - 4100) = unat s - 4100" using s by (simp add: unat_sub word_le_nat_alt)
  note u = this
  have b: "unat s - 4100 + 16384 \<le> unat stop" using ok by (simp add: block_ok_def u)
  show "span (Slab_Page c s) = {unat s - 4100 ..< unat s + 12284}"
    using s by (simp add: span_def block_span.simps u add.commute [of "unat s"])
  obtain q where "unat s - 4100 = 4096 * q" using block_aligned [OF ok assms(1)] u by (metis mod_0_imp_dvd dvdE)
  then have "unat s = 4096 * (q + 1) + 4" using s by simp
  then have "unat s mod 4096 = 4" by (simp only: mod_mult_self4) simp
  moreover show "slab_room s" using b unat_u32_less [of stop] by (simp add: slab_room_def)
  ultimately show "slab_aligned s" by (simp add: slab_aligned_def)
  show "c < 7" "slab_ok m s c (g_free g s)" "4100 \<le> unat s" using assms(2) by simp_all
qed


lemma cells_in_span:
  assumes "unat start mod 4096 = 0" "owner_ok start stop m g x" "y \<in> cells g x"
  shows "unat y \<in> span x"
proof (cases x)
  case (Big b k sz al)
  note a = big_addresses [OF assms(2) [unfolded Big]]
  have "unat sz + (if al then 4120 else 24) \<le> 2 ^ (k + 12)" using assms(2) Big by simp
  then show ?thesis using assms(3) Big a block_power [of k]
    by (auto simp: span_def block_span.simps split: if_splits)
next
  case (Slab_Page c s)
  note p = slab_page [OF assms(1) assms(2) [unfolded Slab_Page]]
  have "unat (slab_obj s c i) < unat s + 4096" if "i \<in> set (g_free g s)" for i
  proof -
    have i: "i < max_objects c" using that p(5) by (simp add: slab_ok_def)
    show ?thesis using object_address [OF p(2,4) i] object_end [OF p(4) i] cache_facts(4) [OF p(4)] by simp
  qed
  moreover have "unat s \<le> unat (slab_obj s c i)" if "i \<in> set (g_free g s)" for i
    using that p(5) object_address [OF p(2,4)] by (simp add: slab_ok_def)
  ultimately have "unat s \<le> unat y \<and> unat y < unat s + 4096"
    using assms(3) Slab_Page field_addresses [OF p(2)] by (force simp: slab_cells_def)
  then have "unat s - 4100 \<le> unat y" "unat y < unat s + 12284" by linarith+
  then show ?thesis by (simp add: Slab_Page p(3))
qed

lemma areas_in_span:
  assumes "unat start mod 4096 = 0" "owner_ok start stop m g x" "a \<in> areas g x"
  shows "area_span a \<subseteq> span x" "0 < unat (fst a)" "unat (fst a) \<in> span x" "0 < snd a"
proof -
  have "area_span a \<subseteq> span x \<and> 0 < unat (fst a) \<and> unat (fst a) \<in> span x \<and> 0 < snd a"
  proof (cases x)
    case (Big b k sz al)
    note ad = big_addresses [OF assms(2) [unfolded Big]]
    have "unat sz + (if al then 4120 else 24) \<le> 2 ^ (k + 12)" "0 < unat sz"
      using assms(2) Big by (simp_all add: unat_gt_0)
    then show ?thesis using assms(3) Big ad(6)
      by (auto simp: span_def block_span.simps area_span_def split: if_splits)
  next
    case (Slab_Page c s)
    note p = slab_page [OF assms(1) assms(2) [unfolded Slab_Page]]
    from assms(3) Slab_Page obtain i where i: "a = (slab_obj s c i, osize c)" "i < max_objects c" by auto
    show ?thesis using object_address [OF p(2,4) i(2)] object_end [OF p(4) i(2)] cache_facts(4) [OF p(4)] p(6)
      by (auto simp: Slab_Page p(3) i(1) area_span_def)
  qed
  then show "area_span a \<subseteq> span x" "0 < unat (fst a)" "unat (fst a) \<in> span x" "0 < snd a" by simp_all
qed

lemma objects_apart:
  assumes "slab_room s" "c < 7" "i < max_objects c" "j < max_objects c" "i \<noteq> j"
  shows "unat (slab_obj s c i) + osize c \<le> unat (slab_obj s c j)
    \<or> unat (slab_obj s c j) + osize c \<le> unat (slab_obj s c i)"
proof -
  have "i * osize c + osize c \<le> j * osize c" if "i < j" for i j
    using mult_le_mono1 [of "Suc i" j "osize c"] that by simp
  from this [of i j] this [of j i] show ?thesis
    using assms(5) object_address [OF assms(1,2,3)] object_address [OF assms(1,2,4)]
    by (cases "i < j") simp_all
qed

text \<open>What the clients of an owner may write is none of the words the allocator relies on.\<close>

lemma areas_off_cells:
  assumes "unat start mod 4096 = 0" "owner_ok start stop m g x" "a \<in> areas g x" "y \<in> cells g x"
  shows "unat y \<notin> area_span a"
proof (cases x)
  case (Big b k sz al)
  note ad = big_addresses [OF assms(2) [unfolded Big]]
  show ?thesis using assms(3,4) Big ad by (auto simp: area_span_def)
next
  case (Slab_Page c s)
  note p = slab_page [OF assms(1) assms(2) [unfolded Slab_Page]]
  from assms(3) Slab_Page obtain i where
    i: "a = (slab_obj s c i, osize c)" "i < max_objects c" "i \<notin> set (g_free g s)" by auto
  have "unat (slab_obj s c j) \<notin> area_span a" if "j \<in> set (g_free g s)" for j
  proof -
    have j: "j < max_objects c" "i \<noteq> j" using that p(5) i(3) by (auto simp: slab_ok_def)
    show ?thesis using objects_apart [OF p(2,4) i(2) j] i(1) cache_facts(4) [OF p(4)] by (auto simp: area_span_def)
  qed
  then show ?thesis using assms(4) Slab_Page i(1) object_address [OF p(2,4) i(2)] field_addresses [OF p(2)]
    by (auto simp: slab_cells_def area_span_def)
qed

lemma areas_disjoint:
  assumes "unat start mod 4096 = 0" "owner_ok start stop m g x" "a \<in> areas g x" "b \<in> areas g x" "fst a \<noteq> fst b"
  shows "area_span a \<inter> area_span b = {}"
proof (cases x)
  case (Slab_Page c s)
  note p = slab_page [OF assms(1) assms(2) [unfolded Slab_Page]]
  from assms(3,4) Slab_Page obtain i j where
    a: "a = (slab_obj s c i, osize c)" "i < max_objects c" "b = (slab_obj s c j, osize c)" "j < max_objects c" by auto
  then have "i \<noteq> j" using assms(5) by auto
  with a objects_apart [OF p(2,4), of i j] show ?thesis by (auto simp: area_span_def)
qed (use assms in auto)

lemma area_unique:
  assumes "unat start mod 4096 = 0" "owner_ok start stop m g x" "a \<in> areas g x" "b \<in> areas g x" "fst a = fst b"
  shows "a = b"
  using assms(3-5) by (cases x) auto


section \<open>Allocation keeps the invariant\<close>

lemma owner_ok_cong:
  assumes "\<And>y. y \<in> cells g x \<Longrightarrow> m' y = m y" "\<And>c s. x = Slab_Page c s \<Longrightarrow> g_free g' s = g_free g s"
  shows "owner_ok start stop m' g' x = owner_ok start stop m g x"
proof (cases x)
  case (Slab_Page c s)
  then show ?thesis using assms slab_ok_cong [of s c "g_free g s" m' m] by simp
next
  case (Big b k sz al)
  then show ?thesis using assms(1) by (cases al) (simp_all add: big_ptr_def)
qed

lemma kheap_inv_owner:
  assumes "kheap_inv g h" "x \<in> g_owners g"
  shows "owner_ok (kh_start h) (kh_end h) (kh_mem h) g x" "span x \<inter> free_region (buddy_lists (kh_buddy h)) = {}"
    "unat (kh_start h) mod 4096 = 0"
  using assms by (auto simp: kheap_inv_def)

lemma kheap_inv_spans:
  assumes "kheap_inv g h" "x \<in> g_owners g" "y \<in> g_owners g" "x \<noteq> y"
  shows "span x \<inter> span y = {}"
  using assms by (auto simp: kheap_inv_def pairwise_def)

lemma kheap_inv_cli: "kheap_inv g (h\<lparr>kh_interrupts := i\<rparr>) = kheap_inv g h"
  by (simp add: kheap_inv_def)

lemma kheap_inv_cells_elsewhere:
  assumes "kheap_inv g h" "x \<in> g_owners g" "y \<in> g_owners g" "x \<noteq> y" "z \<in> cells g x"
  shows "unat z \<notin> span y"
  using cells_in_span [OF kheap_inv_owner(3,1) assms(5)] kheap_inv_spans [OF assms(1-4)] assms(1,2) by blast

lemma unat_required_size:
  assumes "unat sz + 4120 \<le> 2 ^ 31"
  shows "unat (required_size sz al) = unat sz + (if al then 4120 else 24)"
proof -
  have "unat (sz + of_nat (if al then 4120 else 24)) = unat sz + (if al then 4120 else 24)"
    using assms by (intro unat_plus_offset) simp
  then show ?thesis by (simp add: required_size_def Let_def add.assoc split: if_splits)
qed

lemma kmalloc_block_spec:
  assumes inv: "kheap_inv g h" and sz: "sz \<noteq> 0" "unat sz + 4120 \<le> 2 ^ 31"
  obtains (fail) "kmalloc_block sz al h = Some (0, sti h)"
  | (block) b k bud m where
      "kmalloc_block sz al h = Some (big_ptr b al, sti (h\<lparr>kh_buddy := bud, kh_mem := m\<rparr>))"
      "block_span (k, b) \<subseteq> free_region (buddy_lists (kh_buddy h))"
      "buddy_inv bud" "buddy_start bud = kh_start h" "buddy_end bud = kh_end h"
      "free_region (buddy_lists bud) = free_region (buddy_lists (kh_buddy h)) - block_span (k, b)"
      "owner_ok (kh_start h) (kh_end h) m g (Big b k sz al)"
      "\<And>x. unat x \<notin> block_span (k, b) \<Longrightarrow> m x = kh_mem h x"
      "\<And>x. unat x \<in> block_span (k, b) \<Longrightarrow> big_ptr b al \<le> x \<Longrightarrow> m x = 0"
proof -
  let ?req = "required_size sz al"
  note req = unat_required_size [OF sz(2), of al]
  have binv: "buddy_inv (kh_buddy h)" "buddy_start (kh_buddy h) = kh_start h" "buddy_end (kh_buddy h) = kh_end h"
    "unat (kh_start h) mod 4096 = 0" using inv by (simp_all add: kheap_inv_def)
  have "get_order ?req \<noteq> None" using req sz(2) by (simp add: get_order_None_iff)
  then obtain b bud where al: "buddy_alloc (kh_buddy h) ?req = Some (b, bud)"
    by (cases "buddy_alloc (kh_buddy h) ?req") (auto simp: buddy_alloc_def Let_def split: option.splits if_splits)
  show ?thesis
  proof (cases rule: buddy_alloc_cases [OF binv(1) al])
    case 1
    then show ?thesis using al by (intro fail) (simp add: kmalloc_block_def Let_def)
  next
    case (2 k)
    note ok = \<open>block_ok (buddy_start (kh_buddy h)) (buddy_end (kh_buddy h)) (k, b)\<close> [unfolded binv(2,3)]
    obtain r where r: "get_order ?req = Some r" "clamp_order r = k + 12"
      by (rule get_order_of_block [OF 2(1,3,4)])
    have big: "8192 \<le> (2::nat) ^ (k + 12)" if al
    proof -
      have "k \<noteq> 0" using 2(3) req that by (intro notI) simp
      then show ?thesis using power_increasing [of 13 "k + 12" "2::nat"] by simp
    qed
    note p = adjusted_is_big_ptr [OF ok binv(4)] big
    define m where "m = (let m = mem_clear b (2 ^ (k + 12)) (kh_mem h); m = m(big_ptr b al - 4 := b);
      m = m(hd_size b := ?req); m = m(hd_allocated b := set_byte 1 (m (hd_allocated b))) in m(hd_magic b := 0xCAFEBABE))"
    have res: "kmalloc_block sz al h = Some (big_ptr b al, sti (h\<lparr>kh_buddy := bud, kh_mem := m\<rparr>))"
      using al 2(2) r p by (simp add: kmalloc_block_def Let_def m_def)
    have szs: "unat sz + (if al then 4120 else 24) \<le> 2 ^ (k + 12)"
      "k = 0 \<or> 2 ^ (k + 11) < unat sz + (if al then 4120 else 24)" using 2(3,4) req by simp_all
    note ad = big_block_addresses [OF ok sz(1) szs(1)]
    have low: "unat y \<in> block_span (k, b)" if "unat b \<le> unat y" "unat y < unat b + 4096 \<or> unat y < unat (big_ptr b al)" for y
      using that szs(1) block_power [of k] ad(6) by (auto simp: block_span.simps split: if_splits)
    have cells: "m (hd_size b) = ?req" "m (hd_magic b) = 0xCAFEBABE" "m (big_ptr b al - 4) = b"
      "\<not> al \<longrightarrow> m (b + 4) = 0"
      using ad low [of "b + 4"] by (simp_all add: m_def Let_def address_eq mem_clear_def block_span.simps split: if_splits)
    have owner: "owner_ok (kh_start h) (kh_end h) m g (Big b k sz al)"
      using 2(1) ok sz(1) szs cells by simp
    have rest: "m x = kh_mem h x" if "unat x \<notin> block_span (k, b)" for x
    proof -
      have "x \<noteq> hd_size b" "x \<noteq> hd_allocated b" "x \<noteq> hd_magic b" "x \<noteq> big_ptr b al - 4"
        using that low [of x] ad by (cases al; auto)+
      then show ?thesis using that
        by (auto simp: m_def Let_def mem_clear_def block_span.simps)
    qed
    have zero: "m x = 0" if "unat x \<in> block_span (k, b)" "big_ptr b al \<le> x" for x
    proof -
      have le: "unat (big_ptr b al) \<le> unat x" using that(2) by (simp add: word_le_nat_alt)
      then have "x \<noteq> hd_size b" "x \<noteq> hd_allocated b" "x \<noteq> hd_magic b" "x \<noteq> big_ptr b al - 4"
        using ad by (cases al; auto)+
      then show ?thesis using that(1) by (simp add: m_def Let_def mem_clear_def block_span.simps)
    qed
    show ?thesis by (rule block [OF res 2(9) 2(6) _ _ 2(10) owner rest zero]) (simp_all add: 2(7,8) binv)
  qed
qed

lemma kheap_chains_cong:
  assumes "kheap_inv g h" "\<And>c s. Slab_Page c s \<in> g_owners g \<Longrightarrow> m' (sh_next s) = kh_mem h (sh_next s)" "c < 7"
  shows "slab_chain m' (first_slab (kh_caches h ! c)) (g_slabs g c)"
proof -
  have "slab_chain (kh_mem h) (first_slab (kh_caches h ! c)) (g_slabs g c)"
    using assms(1,3) by (simp add: kheap_inv_def)
  then show ?thesis using assms slab_chain_cong [of "g_slabs g c" m' "kh_mem h"] by (simp add: kheap_inv_def)
qed

lemma kheap_inv_insert:
  assumes inv: "kheap_inv g h" and x: "span x \<subseteq> free_region (buddy_lists (kh_buddy h))"
    and bud: "buddy_inv bud" "buddy_start bud = kh_start h" "buddy_end bud = kh_end h"
      "free_region (buddy_lists bud) = free_region (buddy_lists (kh_buddy h)) - span x"
    and ok: "owner_ok (kh_start h) (kh_end h) m g' x"
    and rest: "\<And>y z. y \<in> g_owners g \<Longrightarrow> z \<in> cells g y \<Longrightarrow> m z = kh_mem h z"
    and g': "g_owners g' = insert x (g_owners g)" "\<And>c s. Slab_Page c s \<in> g_owners g \<Longrightarrow> g_free g' s = g_free g s"
    and slabs: "caches_ok caches" "\<And>c s. Slab_Page c s \<in> g_owners g' \<longleftrightarrow> c < 7 \<and> s \<in> set (g_slabs g' c)"
      "\<And>c. c < 7 \<Longrightarrow> slab_chain m (first_slab (caches ! c)) (g_slabs g' c)"
  shows "kheap_inv g' (h\<lparr>kh_buddy := bud, kh_mem := m, kh_caches := caches, kh_interrupts := i\<rparr>)"
proof -
  have old: "owner_ok (kh_start h) (kh_end h) m g' y \<and> span y \<inter> free_region (buddy_lists bud) = {} \<and> span x \<inter> span y = {}"
    if "y \<in> g_owners g" for y
  proof -
    have "owner_ok (kh_start h) (kh_end h) m g' y = owner_ok (kh_start h) (kh_end h) (kh_mem h) g y"
      by (rule owner_ok_cong) (use that rest g'(2) in auto)
    with kheap_inv_owner [OF inv that] x bud(4) show ?thesis by blast
  qed
  have "pairwise (\<lambda>x y. span x \<inter> span y = {}) (g_owners g')"
    using inv old unfolding kheap_inv_def g'(1) pairwise_insert by blast
  moreover have "\<forall>y \<in> g_owners g'. owner_ok (kh_start h) (kh_end h) m g' y
      \<and> span y \<inter> free_region (buddy_lists bud) = {}"
    using old ok bud(4) g'(1) by auto
  ultimately show ?thesis
    using inv bud(1-3) slabs by (simp add: kheap_inv_def)
qed

section \<open>Slabs keep the invariant\<close>

lemma slab_page_inv:
  assumes "kheap_inv g h" "Slab_Page c s \<in> g_owners g"
  shows "slab_aligned s" "slab_room s" "span (Slab_Page c s) = {unat s - 4100 ..< unat s + 12284}"
    "c < 7" "slab_ok (kh_mem h) s c (g_free g s)" "4100 \<le> unat s"
  by (rule slab_page [OF kheap_inv_owner(3,1) [OF assms]])+

lemma span_nonempty:
  assumes "kheap_inv g h" "x \<in> g_owners g"
  shows "span x \<noteq> {}"
proof (cases x)
  case (Big b k sz al)
  then show ?thesis using block_span_nonempty [of b k] by (auto simp: span_def)
next
  case (Slab_Page c s)
  then show ?thesis using slab_page_inv [of g h c s] assms by auto
qed

lemma slab_owner_unique:
  assumes "kheap_inv g h" "Slab_Page c s \<in> g_owners g" "Slab_Page c' s \<in> g_owners g"
  shows "c = c'"
proof (rule ccontr)
  assume "c \<noteq> c'"
  then have "span (Slab_Page c s) \<inter> span (Slab_Page c' s) = {}"
    using kheap_inv_spans [OF assms] by simp
  moreover have "span (Slab_Page c s) = span (Slab_Page c' s)" by (simp add: span_def)
  ultimately show False using span_nonempty [OF assms(1,3)] by simp
qed

text \<open>The link to the slab in front is read by nobody, and no client has it.\<close>

definition owned_words :: "ghost \<Rightarrow> owner \<Rightarrow> nat set" where
  "owned_words g x = unat ` cells g x \<union> \<Union> (area_span ` areas g x)"

lemma owned_in_span:
  assumes "kheap_inv g h" "x \<in> g_owners g"
  shows "owned_words g x \<subseteq> span x"
  using cells_in_span [OF kheap_inv_owner(3,1) [OF assms]] areas_in_span(1) [OF kheap_inv_owner(3,1) [OF assms]]
  by (auto simp: owned_words_def)

lemma header_not_owned:
  assumes "kheap_inv g h" "Slab_Page c s \<in> g_owners g"
  shows "unat (sh_prev s) \<notin> owned_words g (Slab_Page c s)"
    and "a \<in> areas g (Slab_Page c s) \<Longrightarrow> unat s + 24 \<le> unat (fst a)"
proof -
  note p = slab_page_inv [OF assms]
  note f = field_addresses [OF p(2)]
  have obj: "unat s + 24 \<le> unat (slab_obj s c i)" if "i < max_objects c" for i
    using object_address [OF p(2,4) that] by simp
  then show area: "unat s + 24 \<le> unat (fst a)" if "a \<in> areas g (Slab_Page c s)" for a
    using that by auto
  have "unat (sh_prev s) \<notin> area_span a" if "a \<in> areas g (Slab_Page c s)" for a
    using area [OF that] f by (auto simp: area_span_def)
  moreover have "unat y \<noteq> unat (sh_prev s)" if "y \<in> cells g (Slab_Page c s)" for y
  proof -
    have "unat (slab_obj s c i) \<noteq> unat (sh_prev s)" if "i \<in> set (g_free g s)" for i
    proof -
      have "i < max_objects c" using p(5) that by (simp add: slab_ok_def)
      from obj [OF this] f show ?thesis by simp
    qed
    then show ?thesis using that f by (auto simp: slab_cells_def)
  qed
  ultimately show "unat (sh_prev s) \<notin> owned_words g (Slab_Page c s)"
    by (force simp: owned_words_def)
qed

lemma slab_prev_not_owned:
  assumes "kheap_inv g h" "Slab_Page c s \<in> g_owners g" "y \<in> g_owners g"
  shows "unat (sh_prev s) \<notin> owned_words g y"
proof (cases "y = Slab_Page c s")
  case True
  then show ?thesis using header_not_owned(1) [OF assms(1,2)] by simp
next
  case False
  note p = slab_page_inv [OF assms(1,2)]
  have "unat (sh_prev s) \<in> span (Slab_Page c s)" using p(3,6) field_addresses [OF p(2)] by simp
  then show ?thesis using kheap_inv_spans [OF assms(1,2,3)] False owned_in_span [OF assms(1,3)] by blast
qed

lemma caches_ok_first: "caches_ok cs \<Longrightarrow> caches_ok (cs[c := (cs ! c)\<lparr>first_slab := s\<rparr>])"
  unfolding caches_ok_def by (metis length_list_update nth_list_update_eq nth_list_update_neq slab_cache.select_convs(1)
      slab_cache.surjective slab_cache.update_convs(2) list_update_beyond linorder_not_le)

text \<open>What all clients together have, and a step that keeps its contents.\<close>

definition all_areas :: "ghost \<Rightarrow> (u32 \<times> nat) set" where
  "all_areas g = \<Union> (areas g ` g_owners g)"

definition contents_kept :: "(u32 \<times> nat) set \<Rightarrow> heap_mem \<Rightarrow> heap_mem \<Rightarrow> bool" where
  "contents_kept as m m' \<longleftrightarrow> (\<forall>a \<in> as. \<forall>z. unat z \<in> area_span a \<longrightarrow> m' z = m z)"

lemma contents_keptI: "(\<And>a z. a \<in> as \<Longrightarrow> unat z \<in> area_span a \<Longrightarrow> m' z = m z) \<Longrightarrow> contents_kept as m m'"
  by (simp add: contents_kept_def)

lemma contents_kept_trans: "contents_kept as m m' \<Longrightarrow> contents_kept bs m' m'' \<Longrightarrow> as \<subseteq> bs \<Longrightarrow> contents_kept as m m''"
  by (fastforce simp: contents_kept_def)

lemma new_slab_inv:
  assumes inv: "kheap_inv g h" and c: "c < 7"
  obtains (fail) "new_slab c h = Some (0, sti h)"
  | (slab) s h' where "new_slab c h = Some (s, h')" "s \<noteq> 0"
      "kheap_inv (g\<lparr>g_owners := insert (Slab_Page c s) (g_owners g), g_slabs := (g_slabs g)(c := s # g_slabs g c),
         g_free := (g_free g)(s := [0..<max_objects c])\<rparr>) h'"
      "\<And>c'. Slab_Page c' s \<notin> g_owners g" "contents_kept (all_areas g) (kh_mem h) (kh_mem h')"
      "kh_interrupts h'"
      "kh_start h' = kh_start h" "kh_end h' = kh_end h"
proof -
  have inv': "kheap_inv g (cli h)" using inv by (simp add: cli_def kheap_inv_cli)
  have ps: "SLAB_PAGE_SIZE \<noteq> 0" "unat SLAB_PAGE_SIZE + 4120 \<le> 2 ^ 31" "unat SLAB_PAGE_SIZE = 4096" by (simp_all add: SLAB_PAGE_SIZE_def)
  show ?thesis
  proof (cases rule: kmalloc_block_spec [OF inv' ps(1,2), of True])
    case 1
    then show ?thesis by (intro fail) (simp add: new_slab_def sti_def cli_def)
  next
    case (2 b k bud m)
    define s where "s = big_ptr b True"
    define x where "x = Slab_Page c s"
    define first where "first = first_slab (kh_caches h ! c)"
    define m' where "m' = slab_setup c (of_nat (osize c)) first s m"
    define g' where "g' = g\<lparr>g_owners := insert x (g_owners g), g_slabs := (g_slabs g)(c := s # g_slabs g c),
         g_free := (g_free g)(s := [0..<max_objects c])\<rparr>"
    note ad = big_addresses(6) [OF 2(7)]
    have u: "unat s = unat b + 4100" using ad by (simp add: s_def)
    have sb: "s - 4100 = b" by (simp add: s_def big_ptr_def)
    have k: "k = 2"
    proof -
      have "(8216::nat) \<le> 2 ^ (k + 12)" "k = 0 \<or> (2::nat) ^ (k + 11) < 8216" using 2(7) ps(3) by simp_all
      then show ?thesis
        using power_increasing [of "k + 12" 13 "2::nat"] power_increasing [of 14 "k + 11" "2::nat"]
        by (cases "k \<le> 1"; cases "3 \<le> k") auto
    qed
    have ok: "block_ok (kh_start h) (kh_end h) (2, b)" using 2(7) k by (simp add: cli_def)
    have ok_x: "owner_ok (kh_start h) (kh_end h) m g (Big b 2 SLAB_PAGE_SIZE True)" using 2(7) k by (simp add: cli_def)
    have start: "unat (kh_start h) mod 4096 = 0" using inv by (simp add: kheap_inv_def)
    have sp: "span x = block_span (2, b)" by (simp add: x_def span_def sb)
    have room: "slab_room s"
      using ok u unat_u32_less [of "kh_end h"] by (simp add: slab_room_def block_ok_def)
    have in_page: "unat s - 4100 \<le> n \<Longrightarrow> n < unat s + 4096 \<Longrightarrow> n \<in> span x" for n
      using u by (simp add: sp block_span.simps)
    have free: "span x \<subseteq> free_region (buddy_lists (kh_buddy h))" using 2(2) k sp by (simp add: cli_def)
    have first: "first = 0 \<or> (\<exists>ss. g_slabs g c = first # ss \<and> Slab_Page c first \<in> g_owners g)"
      using inv c by (cases "g_slabs g c") (auto simp: kheap_inv_def first_def)
    have prev_out: "unat (sh_prev first) \<notin> span x" if "first \<noteq> 0"
    proof -
      have o: "Slab_Page c first \<in> g_owners g" using first that by blast
      note p = slab_page_inv [OF inv o]
      have "unat (sh_prev first) \<in> span (Slab_Page c first)" using p(3,6) field_addresses [OF p(2)] by simp
      then show ?thesis using kheap_inv_owner(2) [OF inv o] free by blast
    qed
    have prev: "unat (sh_prev first) < unat s \<or> unat s + 4096 \<le> unat (sh_prev first)"
    proof (cases "first = 0")
      case True
      then show ?thesis using u by (simp add: sh_prev_def)
    next
      case False
      show ?thesis using prev_out [OF False] in_page [of "unat (sh_prev first)"] by linarith
    qed
    note su = slab_setup_ok [OF room c prev, where m = m, folded m'_def]
    have rest: "m' z = kh_mem h z" if "unat z \<notin> span x" "first = 0 \<or> z \<noteq> sh_prev first" for z
    proof -
      have "unat z < unat s \<or> unat s + 4096 \<le> unat z" using in_page [of "unat z"] that(1) by linarith
      then have "m' z = m z" using su(3,4) that(2) by blast
      then show ?thesis using 2(8) [of z] that(1) sp k by (simp add: cli_def)
    qed
    have owned: "m' z = kh_mem h z" if "y \<in> g_owners g" "unat z \<in> owned_words g y" for y z
    proof (rule rest)
      show "unat z \<notin> span x" using owned_in_span [OF inv that(1)] kheap_inv_owner(2) [OF inv that(1)] free that(2) by blast
      show "first = 0 \<or> z \<noteq> sh_prev first" using first slab_prev_not_owned [OF inv _ that(1)] that(2) by blast
    qed
    have new: "Slab_Page c' s \<notin> g_owners g" for c'
    proof
      assume o: "Slab_Page c' s \<in> g_owners g"
      have "span (Slab_Page c' s) = span x" by (simp add: x_def span_def)
      then show False using kheap_inv_owner(2) [OF inv o] free span_nonempty [OF inv o] by blast
    qed
    have cfree: "g_free g' s = [0..<max_objects c]" "\<And>c'' t. Slab_Page c'' t \<in> g_owners g \<Longrightarrow> g_free g' t = g_free g t"
      using new by (auto simp: g'_def)
    have "kheap_inv g' (h\<lparr>kh_buddy := bud, kh_mem := m', kh_caches := (kh_caches h)[c := (kh_caches h ! c)\<lparr>first_slab := s\<rparr>],
      kh_interrupts := True\<rparr>)"
    proof (rule kheap_inv_insert [OF inv free])
      show "owner_ok (kh_start h) (kh_end h) m' g' x"
        using c ok_x u su(1) by (simp add: x_def sb cfree)
      show "m' z = kh_mem h z" if "y \<in> g_owners g" "z \<in> cells g y" for y z
        using owned [OF that(1)] that(2) by (simp add: owned_words_def)
      show "caches_ok ((kh_caches h)[c := (kh_caches h ! c)\<lparr>first_slab := s\<rparr>])"
        using inv by (simp add: kheap_inv_def caches_ok_first)
      show "Slab_Page c' t \<in> g_owners g' \<longleftrightarrow> c' < 7 \<and> t \<in> set (g_slabs g' c')" for c' t
        using inv c by (auto simp: kheap_inv_def g'_def x_def)
      show "slab_chain m' (first_slab ((kh_caches h)[c := (kh_caches h ! c)\<lparr>first_slab := s\<rparr>] ! c')) (g_slabs g' c')"
        if "c' < 7" for c'
      proof -
        have len: "length (kh_caches h) = 7" using inv by (simp add: kheap_inv_def caches_ok_def)
        have old: "slab_chain m' (first_slab (kh_caches h ! c')) (g_slabs g c')"
          by (rule kheap_chains_cong [OF inv _ that]) (auto intro: owned simp: owned_words_def)
        show ?thesis
        proof (cases "c' = c")
          case True
          have "s \<noteq> 0" using u by (auto simp: unat_eq_0)
          then show ?thesis using True old su(2) c len by (simp add: g'_def first_def)
        qed (use old in \<open>simp add: g'_def\<close>)
      qed
    qed (use 2 k sp cfree in \<open>simp_all add: g'_def cli_def\<close>)
    note res = this
    have s0: "s \<noteq> 0" using u by (auto simp: unat_eq_0)
    have size: "object_size (kh_caches h ! c) = of_nat (osize c)" using inv c by (simp add: kheap_inv_def caches_ok_def)
    show ?thesis
    proof (rule slab)
      show "new_slab c h = Some (s, h\<lparr>kh_buddy := bud, kh_mem := m', kh_caches := (kh_caches h)[c := (kh_caches h ! c)\<lparr>first_slab := s\<rparr>],
        kh_interrupts := True\<rparr>)"
        using 2(1) s0 size by (simp add: new_slab_def s_def [symmetric] m'_def first_def sti_def cli_def Let_def)
      show "contents_kept (all_areas g) (kh_mem h) (kh_mem (h\<lparr>kh_buddy := bud, kh_mem := m', kh_caches := (kh_caches h)[c := (kh_caches h ! c)\<lparr>first_slab := s\<rparr>],
        kh_interrupts := True\<rparr>))"
        by (rule contents_keptI) (simp add: all_areas_def owned_words_def, blast intro: owned [unfolded owned_words_def])
    qed (use res s0 new in \<open>simp_all add: g'_def x_def\<close>)
  qed
qed

section \<open>The clients of the heap\<close>

lemma all_areas_apart:
  assumes inv: "kheap_inv g h" and a: "a \<in> all_areas g" and b: "b \<in> all_areas g" and ne: "a \<noteq> b"
  shows "fst a \<noteq> fst b" "area_span a \<inter> area_span b = {}"
proof -
  from a obtain x where x: "x \<in> g_owners g" "a \<in> areas g x" by (auto simp: all_areas_def)
  from b obtain y where y: "y \<in> g_owners g" "b \<in> areas g y" by (auto simp: all_areas_def)
  note ax = areas_in_span [OF kheap_inv_owner(3,1) [OF inv x(1)] x(2)]
  note ay = areas_in_span [OF kheap_inv_owner(3,1) [OF inv y(1)] y(2)]
  have "fst a \<noteq> fst b \<and> area_span a \<inter> area_span b = {}"
  proof (cases "x = y")
    case True
    have "fst a \<noteq> fst b"
      using area_unique [OF kheap_inv_owner(3,1) [OF inv x(1)] x(2)] y(2) True ne by blast
    with areas_disjoint [OF kheap_inv_owner(3,1) [OF inv x(1)] x(2)] y(2) True show ?thesis by blast
  next
    case False
    show ?thesis using kheap_inv_spans [OF inv x(1) y(1) False] ax(1,3) ay(1,3) by auto
  qed
  then show "fst a \<noteq> fst b" "area_span a \<inter> area_span b = {}" by simp_all
qed

lemma all_areas_bounds:
  assumes inv: "kheap_inv g h" and a: "a \<in> all_areas g"
  shows "fst a \<noteq> 0" "area_span a \<subseteq> {unat (kh_start h) ..< unat (kh_end h)}"
proof -
  from a obtain x where x: "x \<in> g_owners g" "a \<in> areas g x" by (auto simp: all_areas_def)
  note ax = areas_in_span [OF kheap_inv_owner(3,1) [OF inv x(1)] x(2)]
  have "block_ok (kh_start h) (kh_end h) (own_block x)"
    using kheap_inv_owner(1) [OF inv x(1)] by (cases x) simp_all
  then have "span x \<subseteq> {unat (kh_start h) ..< unat (kh_end h)}"
    using heap_span_bounds by (cases "own_block x") (simp add: span_def)
  with ax show "fst a \<noteq> 0" "area_span a \<subseteq> {unat (kh_start h) ..< unat (kh_end h)}"
    by (auto simp: unat_eq_0)
qed

lemma areas_cong: "(\<And>c s. x = Slab_Page c s \<Longrightarrow> g_free g' s = g_free g s) \<Longrightarrow> areas g' x = areas g x"
  by (cases x) auto

text \<open>A step inside one slab.\<close>

lemma kheap_inv_slab_update:
  assumes inv: "kheap_inv g h" and x: "Slab_Page c s \<in> g_owners g"
    and ok: "slab_ok m s c fl" and nxt: "m (sh_next s) = kh_mem h (sh_next s)"
    and rest: "\<forall>z. unat z \<notin> span (Slab_Page c s) \<longrightarrow> m z = kh_mem h z"
  defines "g' \<equiv> g\<lparr>g_free := (g_free g)(s := fl)\<rparr>"
  shows "kheap_inv g' (h\<lparr>kh_mem := m\<rparr>)"
    and "all_areas g' = \<Union> (areas g ` (g_owners g - {Slab_Page c s})) \<union> areas g' (Slab_Page c s)"
    and "\<And>y. y \<in> g_owners g \<Longrightarrow> y \<noteq> Slab_Page c s \<Longrightarrow> a \<in> areas g y \<Longrightarrow> unat z \<in> area_span a \<Longrightarrow> m z = kh_mem h z"
proof -
  have free: "g_free g' t = g_free g t" if "y \<in> g_owners g" "y \<noteq> Slab_Page c s" "y = Slab_Page c' t" for y c' t
    using that slab_owner_unique [OF inv x] by (auto simp: g'_def)
  have other: "m z = kh_mem h z" if "y \<in> g_owners g" "y \<noteq> Slab_Page c s" "unat z \<in> owned_words g y" for y z
    using rest owned_in_span [OF inv that(1)] kheap_inv_spans [OF inv x that(1)] that(2,3) by blast
  have "owner_ok (kh_start h) (kh_end h) m g' y" if y: "y \<in> g_owners g" for y
  proof (cases "y = Slab_Page c s")
    case True
    then show ?thesis using kheap_inv_owner(1) [OF inv x] ok by (simp add: g'_def)
  next
    case False
    have "owner_ok (kh_start h) (kh_end h) m g' y = owner_ok (kh_start h) (kh_end h) (kh_mem h) g y"
      by (rule owner_ok_cong) (use False y free other in \<open>auto simp: owned_words_def\<close>)
    then show ?thesis using kheap_inv_owner(1) [OF inv y] by simp
  qed
  moreover have "slab_chain m (first_slab (kh_caches h ! c')) (g_slabs g c')" if "c' < 7" for c'
  proof (rule kheap_chains_cong [OF inv _ that])
    show "m (sh_next t) = kh_mem h (sh_next t)" if "Slab_Page c'' t \<in> g_owners g" for c'' t
      using nxt other [OF that, of "sh_next t"] by (cases "t = s") (auto simp: owned_words_def)
  qed
  ultimately show "kheap_inv g' (h\<lparr>kh_mem := m\<rparr>)" using inv by (simp add: kheap_inv_def g'_def)
  have "areas g' ` (g_owners g - {Slab_Page c s}) = areas g ` (g_owners g - {Slab_Page c s})"
    by (rule image_cong [OF refl], rule areas_cong) (use free in blast)
  moreover have "g_owners g' = insert (Slab_Page c s) (g_owners g - {Slab_Page c s})"
    using x by (auto simp: g'_def)
  ultimately show "all_areas g' = \<Union> (areas g ` (g_owners g - {Slab_Page c s})) \<union> areas g' (Slab_Page c s)"
    by (metis all_areas_def Un_commute Union_insert image_insert)
  show "m z = kh_mem h z" if "y \<in> g_owners g" "y \<noteq> Slab_Page c s" "a \<in> areas g y" "unat z \<in> area_span a" for y
    using other [OF that(1,2)] that(3,4) by (auto simp: owned_words_def)
qed

lemma other_areas_kept:
  assumes "x \<in> g_owners g" "as \<subseteq> areas g x" "contents_kept as m m'"
    "\<And>y a z. y \<in> g_owners g \<Longrightarrow> y \<noteq> x \<Longrightarrow> a \<in> areas g y \<Longrightarrow> unat z \<in> area_span a \<Longrightarrow> m' z = m z"
  shows "contents_kept (\<Union> (areas g ` (g_owners g - {x})) \<union> as) m m'"
  using assms unfolding contents_kept_def by blast

lemma slab_take_inv:
  assumes inv: "kheap_inv g h" and x: "Slab_Page c s \<in> g_owners g" and fl: "g_free g s = i # fl"
  obtains m where "slab_take (object_size (kh_caches h ! c)) s (kh_mem h) = (slab_obj s c i, m)"
    "kheap_inv (g\<lparr>g_free := (g_free g)(s := fl)\<rparr>) (h\<lparr>kh_mem := m\<rparr>)"
    "all_areas (g\<lparr>g_free := (g_free g)(s := fl)\<rparr>) = insert (slab_obj s c i, osize c) (all_areas g)"
    "(slab_obj s c i, osize c) \<notin> all_areas g" "contents_kept (all_areas g) (kh_mem h) m"
    "\<And>z. unat z \<in> area_span (slab_obj s c i, osize c) \<Longrightarrow> m z = 0"
proof -
  note p = slab_page_inv [OF inv x]
  note f = field_addresses [OF p(2)]
  let ?x = "Slab_Page c s" and ?g' = "g\<lparr>g_free := (g_free g)(s := fl)\<rparr>" and ?a = "(slab_obj s c i, osize c)"
  have size: "object_size (kh_caches h ! c) = of_nat (osize c)"
    using inv p(4) by (simp add: kheap_inv_def caches_ok_def)
  have ok: "slab_ok (kh_mem h) s c (i # fl)" using p(5) fl by simp
  then have i: "i < max_objects c" "i \<notin> set fl" by (simp_all add: slab_ok_def)
  note oa = object_address [OF p(2,4) i(1)] object_end [OF p(4) i(1)] cache_facts(4) [OF p(4)]
  obtain m where m: "slab_take (of_nat (osize c)) s (kh_mem h) = (slab_obj s c i, m)" "slab_ok m s c fl"
    "\<And>z. z \<noteq> sh_first_free s \<Longrightarrow> z \<noteq> sh_free_objects s \<Longrightarrow>
      unat z < unat (slab_obj s c i) \<or> unat (slab_obj s c i) + osize c \<le> unat z \<Longrightarrow> m z = kh_mem h z"
    "\<And>z. unat (slab_obj s c i) \<le> unat z \<Longrightarrow> unat z < unat (slab_obj s c i) + osize c \<Longrightarrow> m z = 0"
    by (rule slab_take_ok [OF p(2,4) ok]) blast
  have nxt: "m (sh_next s) = kh_mem h (sh_next s)"
    using f oa by (intro m(3)) (simp_all add: address_eq)
  have rest: "\<forall>z. unat z \<notin> span ?x \<longrightarrow> m z = kh_mem h z"
    by (intro allI impI m(3)) (use p(3,6) f oa in auto)
  note up = kheap_inv_slab_update [OF inv x m(2) nxt rest]
  have areas: "areas ?g' ?x = insert ?a (areas g ?x)" using fl i by auto
  have all: "all_areas g = \<Union> (areas g ` (g_owners g - {?x})) \<union> areas g ?x"
    unfolding all_areas_def using insert_Diff [OF x] by (metis Un_commute Union_insert image_insert)
  have mem: "all_areas ?g' = insert ?a (all_areas g)"
    by (simp only: up(2) areas all Un_insert_right)
  have "slab_obj s c j \<noteq> slab_obj s c i" if "j \<notin> set (g_free g s)" "j < max_objects c" for j
    using object_neq [OF p(2,4) that(2) i(1)] that(1) fl by auto
  then have notin: "?a \<notin> areas g ?x" by fastforce
  have "?a \<notin> areas g y" if y: "y \<in> g_owners g" "y \<noteq> ?x" for y
  proof
    assume "?a \<in> areas g y"
    then have "unat (slab_obj s c i) \<in> span y"
      using areas_in_span(3) [OF kheap_inv_owner(3,1) [OF inv y(1)]] by force
    moreover have "unat (slab_obj s c i) \<in> span ?x" using p(3,6) oa by auto
    ultimately show False using kheap_inv_spans [OF inv x y(1)] y(2) by blast
  qed
  with notin have new: "?a \<notin> all_areas g" unfolding all_areas_def by blast
  have "contents_kept (areas g ?x) (kh_mem h) m"
  proof (rule contents_keptI)
    fix a and z :: u32 assume a: "a \<in> areas g ?x" "unat z \<in> area_span a"
    have "a \<in> all_areas ?g'" "?a \<in> all_areas ?g'" "a \<noteq> ?a"
      using a(1) notin unfolding mem all by blast+
    then have "area_span a \<inter> area_span ?a = {}" by (rule all_areas_apart(2) [OF up(1)])
    then have "unat z \<notin> area_span ?a" using a(2) by blast
    moreover have "unat s + 24 \<le> unat z" using header_not_owned(2) [OF inv x a(1)] a(2) by (simp add: area_span_def)
    ultimately show "m z = kh_mem h z" using f by (intro m(3)) (auto simp: area_span_def)
  qed
  then have "contents_kept (all_areas g) (kh_mem h) m"
    unfolding all by (rule other_areas_kept [OF x subset_refl _ up(3)])
  then show ?thesis
    by (rule that [OF m(1) [folded size] up(1) mem new]) (simp add: m(4) area_span_def)
qed

lemma all_areas_new_slab:
  assumes "\<And>c'. Slab_Page c' s \<notin> g_owners g"
  shows "all_areas (g\<lparr>g_owners := insert (Slab_Page c s) (g_owners g), g_slabs := gs,
    g_free := (g_free g)(s := [0..<max_objects c])\<rparr>) = all_areas g"
proof -
  let ?g' = "g\<lparr>g_owners := insert (Slab_Page c s) (g_owners g), g_slabs := gs, g_free := (g_free g)(s := [0..<max_objects c])\<rparr>"
  have "areas ?g' y = areas g y" if "y \<in> g_owners g" for y
    by (rule areas_cong) (use that assms in auto)
  moreover have "areas ?g' (Slab_Page c s) = {}" by auto
  ultimately show ?thesis by (simp add: all_areas_def)
qed

section \<open>What the calls promise\<close>

lemma get_slab_index_small:
  assumes "sz \<le> 2048"
  obtains c where "get_slab_index sz = Some c" "c < 7" "unat sz \<le> osize c"
proof -
  have "\<exists>c. get_slab_index sz = Some c \<and> c < 7 \<and> unat sz \<le> osize c"
    using assms by (simp add: get_slab_index_def osize_def word_le_nat_alt)
  with that show ?thesis by blast
qed

lemma free_slab_found:
  assumes inv: "kheap_inv g h" and c: "c < 7"
  obtains (none) "find_slab (kh_mem h) (first_slab (kh_caches h ! c)) = Some 0"
  | (slab) s where "find_slab (kh_mem h) (first_slab (kh_caches h ! c)) = Some s" "s \<noteq> 0"
      "Slab_Page c s \<in> g_owners g" "g_free g s \<noteq> []"
proof -
  let ?ss = "g_slabs g c"
  have owner: "Slab_Page c s \<in> g_owners g" if "s \<in> set ?ss" for s
    using inv c that by (simp add: kheap_inv_def)
  have chain: "slab_chain (kh_mem h) (first_slab (kh_caches h ! c)) ?ss"
    using inv c by (simp add: kheap_inv_def)
  have count: "kh_mem h (sh_free_objects s) = of_nat (length (g_free g s)) \<and> length (g_free g s) < 128"
    if "s \<in> set ?ss" for s
  proof -
    note ok = slab_page_inv(5) [OF inv owner [OF that]]
    have "card (set (g_free g s)) \<le> card {..<max_objects c}"
      by (rule card_mono) (use ok in \<open>auto simp: slab_ok_def\<close>)
    then show ?thesis using ok cache_facts(2) [OF c] by (simp add: slab_ok_def distinct_card)
  qed
  note found = find_slab_chain [OF chain count]
  show ?thesis
  proof (cases "find (\<lambda>s. g_free g s \<noteq> []) ?ss")
    case None
    then show ?thesis using found by (intro none) simp
  next
    case (Some s)
    then have s: "s \<in> set ?ss" "g_free g s \<noteq> []" by (auto simp: find_Some_iff)
    have "s \<noteq> 0" using slab_page_inv(6) [OF inv owner [OF s(1)]] by (auto simp: unat_eq_0)
    then show ?thesis using Some found s owner by (intro slab) simp_all
  qed
qed

text \<open>
  A new area for a client: apart from all the others, cleared, big enough; nothing else changes
  for the other clients.
\<close>

definition gives :: "ghost \<Rightarrow> kheap \<Rightarrow> nat \<Rightarrow> u32 \<times> nat \<Rightarrow> ghost \<Rightarrow> kheap \<Rightarrow> bool" where
  "gives g h n a g' h' \<longleftrightarrow> kheap_inv g' h' \<and> all_areas g' = insert a (all_areas g) \<and> a \<notin> all_areas g
     \<and> n \<le> snd a \<and> contents_kept (all_areas g) (kh_mem h) (kh_mem h')
     \<and> (\<forall>z. unat z \<in> area_span a \<longrightarrow> kh_mem h' z = 0) \<and> kh_start h' = kh_start h \<and> kh_end h' = kh_end h"

lemma slab_alloc_spec:
  assumes inv: "kheap_inv g h" and sz: "sz \<le> 2048"
  obtains (fail) h' where "slab_alloc sz h = Some (0, h')" "h' = h \<or> h' = sti h"
  | (object) a g' h' where "slab_alloc sz h = Some (fst a, h')" "gives g h (unat sz) a g' h'"
proof -
  obtain c where c: "get_slab_index sz = Some c" "c < 7" "unat sz \<le> osize c"
    by (rule get_slab_index_small [OF sz])
  show ?thesis
  proof (cases rule: free_slab_found [OF inv c(2)])
    case (2 s)
    obtain i fl where fl: "g_free g s = i # fl" using 2(4) by (cases "g_free g s") auto
    obtain m where m: "slab_take (object_size (kh_caches h ! c)) s (kh_mem h) = (slab_obj s c i, m)"
      "kheap_inv (g\<lparr>g_free := (g_free g)(s := fl)\<rparr>) (h\<lparr>kh_mem := m\<rparr>)"
      "all_areas (g\<lparr>g_free := (g_free g)(s := fl)\<rparr>) = insert (slab_obj s c i, osize c) (all_areas g)"
      "(slab_obj s c i, osize c) \<notin> all_areas g" "contents_kept (all_areas g) (kh_mem h) m"
      "\<And>z. unat z \<in> area_span (slab_obj s c i, osize c) \<Longrightarrow> m z = 0"
      by (rule slab_take_inv [OF inv 2(3) fl]) blast
    show ?thesis
    proof (rule object)
      show "slab_alloc sz h = Some (fst (slab_obj s c i, osize c), h\<lparr>kh_mem := m\<rparr>)"
        using c(1) 2(1,2) m(1) by (simp add: slab_alloc_def)
      show "gives g h (unat sz) (slab_obj s c i, osize c) (g\<lparr>g_free := (g_free g)(s := fl)\<rparr>) (h\<lparr>kh_mem := m\<rparr>)"
        using m(2-6) c(3) by (simp add: gives_def)
    qed
  next
    case 1
    show ?thesis
    proof (cases rule: new_slab_inv [OF inv c(2)])
      case 1
      then show ?thesis using \<open>find_slab _ _ = _\<close> c(1) by (intro fail [of "sti h"]) (simp_all add: slab_alloc_def)
    next
      case (2 s h1)
      let ?g1 = "g\<lparr>g_owners := insert (Slab_Page c s) (g_owners g), g_slabs := (g_slabs g)(c := s # g_slabs g c),
         g_free := (g_free g)(s := [0..<max_objects c])\<rparr>"
      have x: "Slab_Page c s \<in> g_owners ?g1" by simp
      have "0 < max_objects c" using cache_facts(1) [OF c(2)] .
      then have fl: "g_free ?g1 s = 0 # [1..<max_objects c]" by (simp add: upt_conv_Cons)
      note same = all_areas_new_slab [OF 2(4), of c "(g_slabs g)(c := s # g_slabs g c)"]
      obtain m where m: "slab_take (object_size (kh_caches h1 ! c)) s (kh_mem h1) = (slab_obj s c 0, m)"
        "kheap_inv (?g1\<lparr>g_free := (g_free ?g1)(s := [1..<max_objects c])\<rparr>) (h1\<lparr>kh_mem := m\<rparr>)"
        "all_areas (?g1\<lparr>g_free := (g_free ?g1)(s := [1..<max_objects c])\<rparr>) = insert (slab_obj s c 0, osize c) (all_areas ?g1)"
        "(slab_obj s c 0, osize c) \<notin> all_areas ?g1" "contents_kept (all_areas ?g1) (kh_mem h1) m"
        "\<And>z. unat z \<in> area_span (slab_obj s c 0, osize c) \<Longrightarrow> m z = 0"
        by (rule slab_take_inv [OF 2(3) x fl]) (rule that; assumption)
      show ?thesis
      proof (rule object)
        show "slab_alloc sz h = Some (fst (slab_obj s c 0, osize c), h1\<lparr>kh_mem := m\<rparr>)"
          using c(1) \<open>find_slab _ _ = _\<close> 2(1,2) m(1) by (simp add: slab_alloc_def)
        show "gives g h (unat sz) (slab_obj s c 0, osize c) (?g1\<lparr>g_free := (g_free ?g1)(s := [1..<max_objects c])\<rparr>) (h1\<lparr>kh_mem := m\<rparr>)"
          using m(2-6) c(3) 2(5,7,8) contents_kept_trans [OF 2(5) m(5)] unfolding same by (simp add: gives_def)
      qed
    qed
  qed
qed

lemma kheap_inv_interrupts: "kheap_inv g (h\<lparr>kh_interrupts := i\<rparr>) = kheap_inv g h"
  by (simp add: kheap_inv_def)

lemma gives_interrupts:
  "gives g (h\<lparr>kh_interrupts := i\<rparr>) n a g' h' = gives g h n a g' h'"
  "gives g h n a g' (h'\<lparr>kh_interrupts := j\<rparr>) = gives g h n a g' h'"
  by (simp_all add: gives_def kheap_inv_interrupts)

lemma kmalloc_block_gives:
  assumes inv: "kheap_inv g h" and sz: "sz \<noteq> 0" "unat sz + 4120 \<le> 2 ^ 31"
  obtains (fail) "kmalloc_block sz al h = Some (0, sti h)"
  | (block) a g' h' where "kmalloc_block sz al h = Some (fst a, h')" "gives g h (unat sz) a g' h'" "kh_interrupts h'"
proof (cases rule: kmalloc_block_spec [OF inv sz, of al])
  case 1
  then show ?thesis by (rule fail)
next
  case (2 b k bud m)
  let ?x = "Big b k sz al" and ?a = "(big_ptr b al, unat sz)"
  let ?g' = "g\<lparr>g_owners := insert ?x (g_owners g)\<rparr>" and ?h' = "sti (h\<lparr>kh_buddy := bud, kh_mem := m\<rparr>)"
  have sp: "span ?x = block_span (k, b)" by (simp add: span_def)
  note ad = big_addresses(6) [OF 2(7)]
  have fits: "unat sz + (if al then 4120 else 24) \<le> 2 ^ (k + 12)" "0 < unat sz"
    using 2(7) by (simp_all add: unat_gt_0)
  have same: "m z = kh_mem h z" if "y \<in> g_owners g" "unat z \<in> owned_words g y" for y z
    using 2(8) [of z] owned_in_span [OF inv that(1)] kheap_inv_owner(2) [OF inv that(1)] 2(2) that(2) by blast
  have rest: "m z = kh_mem h z" if "y \<in> g_owners g" "z \<in> cells g y" for y z
    using same [OF that(1), of z] that(2) by (simp add: owned_words_def)
  have "kheap_inv ?g' (h\<lparr>kh_buddy := bud, kh_mem := m, kh_caches := kh_caches h, kh_interrupts := True\<rparr>)"
  proof (rule kheap_inv_insert [OF inv, where x = ?x])
    show "owner_ok (kh_start h) (kh_end h) m ?g' ?x" using 2(7) by simp
    show "slab_chain m (first_slab (kh_caches h ! c)) (g_slabs ?g' c)" if "c < 7" for c
      using kheap_chains_cong [OF inv _ that, of m] rest by fastforce
  qed (use 2 sp rest inv in \<open>auto simp: kheap_inv_def\<close>)
  then have inv': "kheap_inv ?g' ?h'" by (simp add: sti_def)
  have areas: "areas ?g' y = areas g y" for y by (rule areas_cong) simp
  have all: "all_areas ?g' = insert ?a (all_areas g)" unfolding all_areas_def areas by simp
  have new: "?a \<notin> all_areas g"
  proof
    assume "?a \<in> all_areas g"
    then obtain y where y: "y \<in> g_owners g" "?a \<in> areas g y" by (auto simp: all_areas_def)
    have "unat (big_ptr b al) \<in> span y" using areas_in_span(3) [OF kheap_inv_owner(3,1) [OF inv y(1)] y(2)] by simp
    moreover have "unat (big_ptr b al) \<in> span ?x" unfolding sp using ad fits
      by (simp add: block_span.simps split: if_splits)
    ultimately show False using kheap_inv_owner(2) [OF inv y(1)] 2(2) sp by blast
  qed
  have "gives g h (unat sz) ?a ?g' ?h'"
    unfolding gives_def all
  proof (intro conjI)
    show "contents_kept (all_areas g) (kh_mem h) (kh_mem ?h')"
      by (rule contents_keptI) (unfold all_areas_def sti_def, simp, blast intro: same [unfolded owned_words_def])
    show "\<forall>z. unat z \<in> area_span ?a \<longrightarrow> kh_mem ?h' z = 0"
      using 2(9) ad fits by (auto simp: area_span_def sti_def block_span.simps word_le_nat_alt split: if_splits)
  qed (use inv' new in \<open>simp_all add: sti_def\<close>)
  then show ?thesis by (intro block [of ?a ?h' ?g']) (use 2(1) in \<open>simp_all add: sti_def\<close>)
qed

lemma kmalloc_real_spec:
  assumes inv: "kheap_inv g h" and sz: "unat sz + 4120 \<le> 2 ^ 31"
  obtains (fail) h' where "kmalloc_real sz al h = Some (0, h')" "kheap_inv g h'" "kh_mem h' = kh_mem h"
      "kh_start h' = kh_start h" "kh_end h' = kh_end h" "kh_interrupts h'"
  | (block) a g' h' where "kmalloc_real sz al h = Some (fst a, h')" "gives g h (unat sz) a g' h'" "kh_interrupts h'"
proof -
  have inv': "kheap_inv g (cli h)" and ready: "kh_slab_ready (cli h)"
    using inv by (simp_all add: cli_def kheap_inv_interrupts) (simp add: kheap_inv_def)
  have h1: "h1 = h\<lparr>kh_interrupts := kh_interrupts h1\<rparr>" if "h1 = cli h \<or> h1 = sti (cli h)" for h1
    using that by (auto simp: cli_def sti_def)
  have rest: thesis if r: "kmalloc_real sz al h = (if sz = 0 then Some (0, sti h1) else kmalloc_block sz al h1)"
    and h1: "h1 = cli h \<or> h1 = sti (cli h)" for h1
  proof -
    have e: "h1 = h\<lparr>kh_interrupts := kh_interrupts h1\<rparr>" using h1 by (auto simp: cli_def sti_def)
    have i: "kheap_inv g h1" by (subst e) (simp add: kheap_inv_interrupts inv)
    have f: "kh_mem h1 = kh_mem h" "kh_start h1 = kh_start h" "kh_end h1 = kh_end h"
      by (subst e, simp)+
    show thesis
    proof (cases "sz = 0")
      case True
      then show ?thesis using r i f by (intro fail [of "sti h1"]) (simp_all add: sti_def kheap_inv_interrupts)
    next
      case False
      show ?thesis
      proof (cases rule: kmalloc_block_gives [OF i False sz, of al])
        case 1
        then show ?thesis using False r i f
          by (intro fail [of "sti h1"]) (simp_all add: sti_def kheap_inv_interrupts)
      next
        case (2 a g' h')
        have "gives g h (unat sz) a g' h'" using 2(2) f by (simp add: gives_def)
        then show ?thesis using False r 2(1,3) by (intro block [of a h' g']) simp_all
      qed
    qed
  qed
  show thesis
  proof (cases "sz \<le> 2048 \<and> \<not> al")
    case False
    then show ?thesis by (intro rest [of "cli h"]) (auto simp: kmalloc_real_def Let_def)
  next
    case True
    then have t: "sz \<le> 2048" "\<not> al" by simp_all
    show ?thesis
    proof (cases rule: slab_alloc_spec [OF inv' t(1)])
      case (1 h1)
      then show ?thesis using t ready by (intro rest [of h1]) (simp_all add: kmalloc_real_def Let_def)
    next
      case (2 a g' h1)
      have "fst a \<noteq> 0" using all_areas_bounds(1) [of g' h1 a] 2(2) by (simp add: gives_def)
      then have "kmalloc_real sz al h = Some (fst a, sti h1)" using t ready 2(1) by (simp add: kmalloc_real_def Let_def)
      moreover have "gives g h (unat sz) a g' (sti h1)"
        using 2(2) by (simp add: cli_def sti_def gives_interrupts)
      ultimately show ?thesis by (rule block) (simp add: sti_def)
    qed
  qed
qed

section \<open>Freeing\<close>

lemma kheap_inv_remove_big:
  assumes inv: "kheap_inv g h" and x: "x \<in> g_owners g" "x = Big b k sz al"
    and bud: "buddy_inv bud" "buddy_start bud = kh_start h" "buddy_end bud = kh_end h"
      "free_region (buddy_lists bud) = free_region (buddy_lists (kh_buddy h)) \<union> span x"
    and rest: "\<forall>z. unat z \<notin> span x \<longrightarrow> m z = kh_mem h z"
  defines "g' \<equiv> g\<lparr>g_owners := g_owners g - {x}\<rparr>"
  shows "kheap_inv g' (h\<lparr>kh_buddy := bud, kh_mem := m, kh_interrupts := i\<rparr>)"
    and "all_areas g' = all_areas g - areas g x" and "contents_kept (all_areas g') (kh_mem h) m"
proof -
  have apart: "span x \<inter> span y = {}" if "y \<in> g_owners g - {x}" for y
    using kheap_inv_spans [OF inv x(1)] that by blast
  have other: "m z = kh_mem h z" if "y \<in> g_owners g - {x}" "unat z \<in> owned_words g y" for y z
    using rest owned_in_span [OF inv, of y] apart [OF that(1)] that by blast
  have "owner_ok (kh_start h) (kh_end h) m g' y \<and> span y \<inter> free_region (buddy_lists bud) = {}"
    if y: "y \<in> g_owners g - {x}" for y
  proof -
    have "owner_ok (kh_start h) (kh_end h) m g' y = owner_ok (kh_start h) (kh_end h) (kh_mem h) g y"
      by (rule owner_ok_cong) (use y other in \<open>auto simp: owned_words_def g'_def\<close>)
    then show ?thesis using kheap_inv_owner(1,2) [OF inv, of y] y apart [OF y] bud(4) by blast
  qed
  moreover have "slab_chain m (first_slab (kh_caches h ! c)) (g_slabs g c)" if "c < 7" for c
  proof (rule kheap_chains_cong [OF inv _ that])
    show "m (sh_next s) = kh_mem h (sh_next s)" if "Slab_Page c' s \<in> g_owners g" for c' s
      using other [of "Slab_Page c' s" "sh_next s"] that x(2) by (simp add: owned_words_def)
  qed
  moreover have "pairwise (\<lambda>x y. span x \<inter> span y = {}) (g_owners g - {x})"
    using inv by (auto simp: kheap_inv_def pairwise_def)
  ultimately show "kheap_inv g' (h\<lparr>kh_buddy := bud, kh_mem := m, kh_interrupts := i\<rparr>)"
    using inv bud(1-3) x(2) by (auto simp: kheap_inv_def g'_def)
  have same: "areas g' y = areas g y" for y by (rule areas_cong) (simp add: g'_def)
  have "areas g x \<inter> areas g y = {}" if y: "y \<in> g_owners g - {x}" for y
  proof -
    have "False" if "a \<in> areas g x" "a \<in> areas g y" for a
      using areas_in_span(3) [OF kheap_inv_owner(3,1) [OF inv x(1)] that(1)]
        areas_in_span(3) [OF kheap_inv_owner(3,1) [OF inv, of y] that(2)] apart [OF y] y by blast
    then show ?thesis by blast
  qed
  then show "all_areas g' = all_areas g - areas g x"
    unfolding all_areas_def same using x(1) by (auto simp: g'_def)
  show "contents_kept (all_areas g') (kh_mem h) m"
    by (rule contents_keptI) (unfold all_areas_def same, auto simp: g'_def owned_words_def intro!: other)
qed

lemma kfree_big:
  assumes inv: "kheap_inv g h" and x: "Big b k sz al \<in> g_owners g"
    and magic: "al \<longrightarrow> kh_mem h (big_ptr b al) \<noteq> SLAB_MAGIC"
  obtains bud m where "kfree (big_ptr b al) h = Some (h\<lparr>kh_buddy := bud, kh_mem := m, kh_interrupts := True\<rparr>)"
    "buddy_inv bud" "buddy_start bud = kh_start h" "buddy_end bud = kh_end h"
    "free_region (buddy_lists bud) = free_region (buddy_lists (kh_buddy h)) \<union> span (Big b k sz al)"
    "\<forall>z. unat z \<notin> span (Big b k sz al) \<longrightarrow> m z = kh_mem h z"
proof -
  let ?p = "big_ptr b al"
  note o = kheap_inv_owner [OF inv x]
  note ad = big_addresses [OF o(1)]
  have ok: "k < 17" "block_ok (kh_start h) (kh_end h) (k, b)" "sz \<noteq> 0"
    "unat sz + (if al then 4120 else 24) \<le> 2 ^ (k + 12)"
    "k = 0 \<or> 2 ^ (k + 11) < unat sz + (if al then 4120 else 24)"
    "kh_mem h (hd_size b) = required_size sz al" "kh_mem h (hd_magic b) = 0xCAFEBABE"
    "kh_mem h (?p - 4) = b" "\<not> al \<longrightarrow> kh_mem h (b + 4) = 0"
    using o(1) by simp_all
  have "unat (required_size sz al) = unat sz + (if al then 4120 else 24)"
  proof (rule unat_required_size)
    have "(2::nat) ^ (k + 12) \<le> 2 ^ 28" by (rule power_increasing) (use ok(1) in simp_all)
    with ok(4) show "unat sz + 4120 \<le> 2 ^ 31" by (simp split: if_splits)
  qed
  with ok(4,5) have req: "unat (required_size sz al) \<le> 2 ^ (k + 12)"
    "k = 0 \<or> 2 ^ (k + 11) < unat (required_size sz al)" by simp_all
  have p0: "?p \<noteq> 0" using ad(6) by (auto split: if_splits)
  have "(?p AND 0xFFFFF000) + 4 = (if al then ?p else b + 4)"
  proof -
    obtain q where q: "unat b = 4096 * q" using block_aligned [OF ok(2) o(3)] by (metis mod_0_imp_dvd dvdE)
    have "unat ?p div 4096 = (if al then q + 1 else q)"
      using ad(6) q by (intro div_nat_eqI) (simp_all split: if_splits)
    then have u: "unat (?p AND 0xFFFFF000) = (if al then unat b + 4096 else unat b)"
      using q by (simp add: unat_page_start)
    then have "unat ((?p AND 0xFFFFF000) + 4) = (if al then unat b + 4096 else unat b) + 4"
      using ad(1,6) unat_u32_less [of ?p] unat_plus_small [of "?p AND 0xFFFFF000" 4] unat_u32_less [of "b + 4"]
      by (simp split: if_splits)
    then show ?thesis using ad(1,6) by (simp add: address_eq split: if_splits)
  qed
  then have "kh_mem h ((?p AND 0xFFFFF000) + 4) \<noteq> SLAB_MAGIC"
    using magic ok(9) by (simp add: SLAB_MAGIC_def split: if_splits)
  then have notslab: "slab_free (kh_caches h) ?p (kh_mem h) = (False, kh_mem h)"
    using p0 by (simp add: slab_free_def Let_def)
  have range: "\<not> b < kh_start h" "\<not> b > kh_end h"
    using ok(2) by (auto simp: block_ok_def word_less_nat_alt)
  have binv: "buddy_inv (kh_buddy h)" "buddy_start (kh_buddy h) = kh_start h" "buddy_end (kh_buddy h) = kh_end h"
    using inv by (simp_all add: kheap_inv_def)
  have sp: "span (Big b k sz al) = block_span (k, b)" by (simp add: span_def)
  obtain bud where bud: "buddy_free (kh_buddy h) b (required_size sz al) = Some bud" "buddy_inv bud"
    "buddy_start bud = kh_start h" "buddy_end bud = kh_end h"
    "free_region (buddy_lists bud) = free_region (buddy_lists (kh_buddy h)) \<union> block_span (k, b)"
    using buddy_free_spec [OF binv(1) ok(1), of b "required_size sz al"] ok(2) o(2) req binv(2,3) sp by metis
  define m where "m = (kh_mem h)(hd_allocated b := set_byte 0 (kh_mem h (hd_allocated b)), hd_magic b := 0xBADB00B5)"
  have res: "kfree ?p h = Some (h\<lparr>kh_buddy := bud, kh_mem := m, kh_interrupts := True\<rparr>)"
    using p0 notslab range ok(6-8) bud(1) unfolding kfree_def by (simp add: Let_def cli_def sti_def m_def)
  have "m z = kh_mem h z" if "unat z \<notin> span (Big b k sz al)" for z
    using that ad(3,4) block_power [of k] by (auto simp: m_def sp block_span.simps)
  with that [OF res bud(2-4)] bud(5) sp show ?thesis by simp
qed

lemma kfree_object:
  assumes inv: "kheap_inv g h" and x: "Slab_Page c s \<in> g_owners g" and i: "i < max_objects c" "i \<notin> set (g_free g s)"
  defines "g' \<equiv> g\<lparr>g_free := (g_free g)(s := i # g_free g s)\<rparr>"
  obtains m where "kfree (slab_obj s c i) h = Some (h\<lparr>kh_mem := m, kh_interrupts := True\<rparr>)"
    "kheap_inv g' (h\<lparr>kh_mem := m\<rparr>)" "all_areas g' = all_areas g - {(slab_obj s c i, osize c)}"
    "contents_kept (all_areas g') (kh_mem h) m"
proof -
  note p = slab_page_inv [OF inv x]
  note f = field_addresses [OF p(2)]
  let ?x = "Slab_Page c s" and ?a = "(slab_obj s c i, osize c)"
  note oa = object_address [OF p(2,4) i(1)] object_end [OF p(4) i(1)] cache_facts(4) [OF p(4)]
  have size: "object_size (kh_caches h ! c) = of_nat (osize c)"
    using inv p(4) by (simp add: kheap_inv_def caches_ok_def)
  obtain m where m: "slab_free (kh_caches h) (slab_obj s c i) (kh_mem h) = (True, m)" "slab_ok m s c (i # g_free g s)"
    "\<And>z. z \<noteq> sh_first_free s \<Longrightarrow> z \<noteq> sh_free_objects s \<Longrightarrow> z \<noteq> slab_obj s c i \<Longrightarrow> m z = kh_mem h z"
    by (rule slab_free_object [OF p(1,4) i p(5) size]) blast
  have nxt: "m (sh_next s) = kh_mem h (sh_next s)"
    using f oa by (intro m(3)) (simp_all add: address_eq)
  have rest: "\<forall>z. unat z \<notin> span ?x \<longrightarrow> m z = kh_mem h z"
    by (intro allI impI m(3)) (use p(3,6) f oa in auto)
  note up = kheap_inv_slab_update [OF inv x m(2) nxt rest, folded g'_def]
  have a: "?a \<in> areas g ?x" using i by auto
  have areas: "areas g' ?x = areas g ?x - {?a}"
    using object_neq [OF p(2,4)] i(1) unfolding g'_def by auto
  have all: "all_areas g = \<Union> (areas g ` (g_owners g - {?x})) \<union> areas g ?x"
    unfolding all_areas_def using insert_Diff [OF x] by (metis Un_commute Union_insert image_insert)
  have "?a \<notin> areas g y" if y: "y \<in> g_owners g" "y \<noteq> ?x" for y
  proof
    assume "?a \<in> areas g y"
    then have "unat (slab_obj s c i) \<in> span y"
      using areas_in_span(3) [OF kheap_inv_owner(3,1) [OF inv y(1)]] by force
    moreover have "unat (slab_obj s c i) \<in> span ?x" using p(3,6) oa by auto
    ultimately show False using kheap_inv_spans [OF inv x y(1)] y(2) by blast
  qed
  then have mem: "all_areas g' = all_areas g - {?a}"
    unfolding up(2) areas all by blast
  have "contents_kept (areas g ?x - {?a}) (kh_mem h) m"
  proof (rule contents_keptI)
    fix b and z :: u32 assume b: "b \<in> areas g ?x - {?a}" "unat z \<in> area_span b"
    have "a \<in> areas g ?x \<Longrightarrow> a \<in> all_areas g" for a unfolding all by blast
    then have "area_span b \<inter> area_span ?a = {}" using b(1) a by (intro all_areas_apart(2) [OF inv]) auto
    then have "unat z \<notin> area_span ?a" using b(2) by blast
    moreover have "unat s + 24 \<le> unat z" using header_not_owned(2) [OF inv x, of b] b by (simp add: area_span_def)
    ultimately show "m z = kh_mem h z" using f oa(3) by (intro m(3)) (auto simp: area_span_def)
  qed
  then have "contents_kept (\<Union> (areas g ` (g_owners g - {?x})) \<union> (areas g ?x - {?a})) (kh_mem h) m"
    by (intro other_areas_kept [OF x _ _ up(3)]) blast+
  then have k: "contents_kept (all_areas g') (kh_mem h) m" unfolding up(2) areas .
  have nz: "slab_obj s c i \<noteq> 0" using oa(1) by (auto simp: unat_eq_0)
  have "kfree (slab_obj s c i) h = Some (h\<lparr>kh_mem := m, kh_interrupts := True\<rparr>)"
    using nz m(1) inv by (simp add: kfree_def cli_def sti_def kheap_inv_def Let_def)
  from that [OF this up(1) mem k] show ?thesis .
qed

lemma kfree_spec:
  assumes inv: "kheap_inv g h" and a: "a \<in> all_areas g"
    and magic: "unat (fst a) mod 4096 = 4 \<longrightarrow> kh_mem h (fst a) \<noteq> SLAB_MAGIC"
  obtains g' h' where "kfree (fst a) h = Some h'" "kheap_inv g' h'" "all_areas g' = all_areas g - {a}"
    "contents_kept (all_areas g') (kh_mem h) (kh_mem h')" "kh_interrupts h'" "kh_start h' = kh_start h" "kh_end h' = kh_end h"
proof -
  from a obtain x where x: "x \<in> g_owners g" "a \<in> areas g x" by (auto simp: all_areas_def)
  show ?thesis
  proof (cases x)
    case (Slab_Page c s)
    from x(2) Slab_Page obtain i where i: "a = (slab_obj s c i, osize c)" "i < max_objects c" "i \<notin> set (g_free g s)" by auto
    obtain m where "kfree (slab_obj s c i) h = Some (h\<lparr>kh_mem := m, kh_interrupts := True\<rparr>)"
      "kheap_inv (g\<lparr>g_free := (g_free g)(s := i # g_free g s)\<rparr>) (h\<lparr>kh_mem := m\<rparr>)"
      "all_areas (g\<lparr>g_free := (g_free g)(s := i # g_free g s)\<rparr>) = all_areas g - {(slab_obj s c i, osize c)}"
      "contents_kept (all_areas (g\<lparr>g_free := (g_free g)(s := i # g_free g s)\<rparr>)) (kh_mem h) m"
      by (rule kfree_object [OF inv x(1) [unfolded Slab_Page] i(2,3)]) blast
    then show ?thesis using i(1)
      by (intro that [of "h\<lparr>kh_mem := m, kh_interrupts := True\<rparr>"
            "g\<lparr>g_free := (g_free g)(s := i # g_free g s)\<rparr>"])
        (simp_all add: kheap_inv_interrupts [where h = "h\<lparr>kh_mem := m\<rparr>", simplified])
  next
    case (Big b k sz al)
    note o = kheap_inv_owner [OF inv x(1) [unfolded Big]]
    have a': "a = (big_ptr b al, unat sz)" using x(2) Big by simp
    have mg: "al \<longrightarrow> kh_mem h (big_ptr b al) \<noteq> SLAB_MAGIC" using magic using aligned_ptr [OF o(1,3)] unfolding a' fst_conv by blast
    obtain bud m where r: "kfree (big_ptr b al) h = Some (h\<lparr>kh_buddy := bud, kh_mem := m, kh_interrupts := True\<rparr>)"
      "buddy_inv bud" "buddy_start bud = kh_start h" "buddy_end bud = kh_end h"
      "free_region (buddy_lists bud) = free_region (buddy_lists (kh_buddy h)) \<union> span x"
      "\<forall>z. unat z \<notin> span x \<longrightarrow> m z = kh_mem h z"
      by (rule kfree_big [OF inv x(1) [unfolded Big] mg]) (unfold Big, blast)
    note rem = kheap_inv_remove_big [OF inv x(1) Big r(2-6)]
    have ar: "areas g x = {a}" using Big a' by simp
    from rem r(1) show ?thesis
      by (intro that [of "h\<lparr>kh_buddy := bud, kh_mem := m, kh_interrupts := True\<rparr>" "g\<lparr>g_owners := g_owners g - {x}\<rparr>"])
        (simp_all add: ar, simp add: a')
  qed
qed

section \<open>Histories of the heap\<close>

text \<open>
  The heap the kernel starts with, whatever its memory holds, and the events of a history: a
  request, a release, and a client that stores a byte. \<open>live\<close> are the blocks in use with the
  size that was asked for. The byte at an address is a part of the word at the multiple of four
  below it, with the low byte first.
\<close>

definition word_address :: "u32 \<Rightarrow> u32" where
  "word_address x = x AND NOT 3"

definition byte_shift :: "u32 \<Rightarrow> nat" where
  "byte_shift x = 8 * unat (x AND 3)"

definition byte_at :: "heap_mem \<Rightarrow> u32 \<Rightarrow> 8 word" where
  "byte_at m x = ucast (drop_bit (byte_shift x) (m (word_address x)))"

definition put_byte :: "u32 \<Rightarrow> 8 word \<Rightarrow> heap_mem \<Rightarrow> heap_mem" where
  "put_byte x v m = m(word_address x :=
     (m (word_address x) AND NOT (push_bit (byte_shift x) 0xFF)) OR push_bit (byte_shift x) (ucast v))"

definition boot_heap :: "u32 \<Rightarrow> u32 \<Rightarrow> u32 \<Rightarrow> kheap \<Rightarrow> kheap option" where
  "boot_heap start stop mx h = do {
     h' \<leftarrow> init_kheap start stop mx h;
     Some (h'\<lparr>kh_caches := slab_init, kh_slab_ready := True\<rparr>)
   }"

datatype heap_event = Request u32 bool | Release u32 | Store u32 "8 word"

type_synonym heap_run = "kheap \<times> (u32 \<rightharpoonup> nat)"

fun heap_step :: "heap_event \<Rightarrow> heap_run \<Rightarrow> heap_run option" where
  "heap_step (Request sz al) (h, live) = do {
     (p, h') \<leftarrow> kmalloc_real sz al h;
     Some (h', if p = 0 then live else live(p \<mapsto> unat sz))
   }"
| "heap_step (Release p) (h, live) = do { h' \<leftarrow> kfree p h; Some (h', live(p := None)) }"
| "heap_step (Store x v) (h, live) = Some (h\<lparr>kh_mem := put_byte x v (kh_mem h)\<rparr>, live)"

text \<open>
  What a client may do: ask for less than 2 GB, release what it has, and store into its
  blocks. A block at offset 4 of a page whose first word is the magic word of slabs cannot
  be released: \<open>slab_free\<close> would take it for a slab.
\<close>

fun heap_event_ok :: "heap_event \<Rightarrow> heap_run \<Rightarrow> bool" where
  "heap_event_ok (Request sz al) s \<longleftrightarrow> unat sz + 4120 \<le> 2 ^ 31"
| "heap_event_ok (Release p) (h, live) \<longleftrightarrow> p \<in> dom live \<and> (unat p mod 4096 = 4 \<longrightarrow> kh_mem h p \<noteq> SLAB_MAGIC)"
| "heap_event_ok (Store x v) (h, live) \<longleftrightarrow> (\<exists>p n. live p = Some n \<and> unat p \<le> unat x \<and> unat x < unat p + n)"

fun run_events :: "heap_event list \<Rightarrow> heap_run \<Rightarrow> heap_run option" where
  "run_events [] s = Some s"
| "run_events (e # es) s = (if heap_event_ok e s then Option.bind (heap_step e s) (run_events es) else None)"

text \<open>The addresses of a client's block.\<close>

definition block_bytes :: "u32 \<Rightarrow> nat \<Rightarrow> u32 set" where
  "block_bytes p n = {x. unat p \<le> unat x \<and> unat x < unat p + n}"

inductive heap_reach :: "u32 \<Rightarrow> u32 \<Rightarrow> heap_run \<Rightarrow> bool" for start stop where
  boot: "boot_heap start stop mx h0 = Some h \<Longrightarrow> heap_reach start stop (h, Map.empty)"
| step: "heap_reach start stop s \<Longrightarrow> heap_event_ok e s \<Longrightarrow> heap_step e s = Some s' \<Longrightarrow> heap_reach start stop s'"

definition live_ok :: "ghost \<Rightarrow> (u32 \<rightharpoonup> nat) \<Rightarrow> bool" where
  "live_ok g live \<longleftrightarrow> (\<forall>p n. live p = Some n \<longrightarrow> (\<exists>n'. (p, n') \<in> all_areas g \<and> n \<le> n'))"

definition heap_run_ok :: "u32 \<Rightarrow> u32 \<Rightarrow> heap_run \<Rightarrow> bool" where
  "heap_run_ok start stop s \<longleftrightarrow> (\<exists>g. kheap_inv g (fst s) \<and> live_ok g (snd s)) \<and> kh_start (fst s) = start \<and> kh_end (fst s) = stop"

text \<open>A pool the kernel can be given.\<close>

definition pool_ok :: "u32 \<Rightarrow> u32 \<Rightarrow> bool" where
  "pool_ok start stop \<longleftrightarrow> start \<noteq> 0 \<and> start \<le> stop \<and> unat stop - unat start < 2 ^ 31
     \<and> start mod 4096 = 0 \<and> stop mod 4096 = 0"

lemma boot_heap_ok:
  assumes "pool_ok start stop" "boot_heap start stop mx h0 = Some h"
  shows "heap_run_ok start stop (h, Map.empty)"
proof -
  obtain b e where b: "buddy_init start stop = Some b" "buddy_inv b" "buddy_start b = start" "buddy_end b = stop"
    using buddy_init_spec [of start stop] assms(1) unfolding pool_ok_def by metis
  have "unat (start mod 4096) = unat start mod 4096" by (simp add: unat_mod)
  then have st: "unat start mod 4096 = 0" using assms(1) by (simp add: pool_ok_def)
  let ?g = "\<lparr>g_owners = {}, g_slabs = \<lambda>_. [], g_free = \<lambda>_. []\<rparr>"
  have h: "h = h0\<lparr>kh_start := start, kh_end := stop, kh_max := mx, kh_supervisor := 1, kh_readonly := 0, kh_buddy := b, kh_caches := slab_init, kh_slab_ready := True\<rparr>"
    using assms b(1) by (simp add: boot_heap_def init_kheap_def pool_ok_def)
  have "length slab_sizes = 7" by (simp add: slab_sizes_def)
  then have "caches_ok slab_init"
    using slab_sizes_nth by (simp add: caches_ok_def slab_init_def)
  moreover have "first_slab (slab_init ! c) = 0" if "c < 7" for c
    using that \<open>length slab_sizes = 7\<close> by (simp add: slab_init_def)
  ultimately have "kheap_inv ?g h" using b st by (simp add: kheap_inv_def h)
  then show ?thesis by (auto simp: heap_run_ok_def live_ok_def h intro!: exI [of _ ?g])
qed

text \<open>The bytes of the clients after an event, as the clients expect them.\<close>

fun stored :: "heap_event \<Rightarrow> (u32 \<Rightarrow> 8 word) \<Rightarrow> u32 \<Rightarrow> 8 word" where
  "stored (Store x v) m = m(x := v)"
| "stored (Request sz al) m = m"
| "stored (Release p) m = m"

lemma bit_of_byte: "n < 8 \<Longrightarrow> bit (byte_at m x) n \<longleftrightarrow> bit (m (word_address x)) (byte_shift x + n)"
  by (simp add: byte_at_def bit_ucast_iff bit_drop_bit_eq)

lemma same_word:
  assumes "word_address x = word_address y" "byte_shift x = byte_shift y"
  shows "x = y"
proof -
  have "x AND 3 = y AND 3" using assms(2) by (simp add: byte_shift_def word_unat_eq_iff)
  moreover have "x AND NOT 3 = y AND NOT 3" using assms(1) by (simp add: word_address_def)
  ultimately have "(x AND 3) OR (x AND NOT 3) = (y AND 3) OR (y AND NOT 3)" by simp
  moreover have "(w AND 3) OR (w AND NOT 3) = w" for w :: u32 by (rule bit_word_eqI) (auto simp: bit_simps)
  ultimately show ?thesis by simp
qed

lemma byte_shift_cases: "byte_shift x = 0 \<or> byte_shift x = 8 \<or> byte_shift x = 16 \<or> byte_shift x = 24"
proof -
  have "x AND 3 \<le> 3" by (rule word_and_le1)
  then have "unat (x AND 3) \<le> 3" by (simp add: word_le_nat_alt)
  then consider "unat (x AND 3) = 0" | "unat (x AND 3) = 1" | "unat (x AND 3) = 2" | "unat (x AND 3) = 3"
    by linarith
  then show ?thesis unfolding byte_shift_def by cases simp_all
qed

lemma byte_at_put: "byte_at (put_byte x v m) = (byte_at m)(x := v)"
proof (rule ext)
  fix y
  have ff: "bit (0xFF :: int) n \<longleftrightarrow> n < 8" for n
  proof -
    have "(0xFF :: int) = mask 8" by code_simp
    then show ?thesis by (simp only: bit_mask_iff) auto
  qed
  show "byte_at (put_byte x v m) y = ((byte_at m)(x := v)) y"
  proof (cases "word_address y = word_address x")
    case False
    then have "y \<noteq> x" by auto
    with False show ?thesis by (simp add: byte_at_def put_byte_def)
  next
    case True
    have "bit (byte_at (put_byte x v m) y) n \<longleftrightarrow> bit (((byte_at m)(x := v)) y) n" if n: "n < 8" for n
    proof (cases "y = x")
      case True
      then show ?thesis using n byte_shift_cases [of x]
        by (auto simp: bit_of_byte put_byte_def bit_simps ff)
    next
      case False
      then have "byte_shift y \<noteq> byte_shift x" using True same_word by blast
      then show ?thesis using n True False byte_shift_cases [of x] byte_shift_cases [of y]
        by (auto simp: bit_of_byte put_byte_def bit_simps ff dest: bit_imp_le_length)
    qed
    then show ?thesis by (intro bit_word_eqI) simp
  qed
qed

lemma live_area:
  assumes "live_ok g live" "live p = Some n"
  obtains n' where "(p, n') \<in> all_areas g" "n \<le> n'"
  using assms by (auto simp: live_ok_def)

lemma block_bytes_area: "x \<in> block_bytes p n \<Longrightarrow> n \<le> n' \<Longrightarrow> unat x \<in> area_span (p, n')"
  by (simp add: block_bytes_def area_span_def)

text \<open>The blocks of the clients start at multiples of four, so they hold their words whole.\<close>

lemma unat_word_address: "unat (word_address x) = unat x div 4 * 4"
proof -
  have "word_address x = push_bit 2 (drop_bit 2 x)"
  proof (rule bit_word_eqI)
    fix n
    have "(3 :: u32) = mask 2" by (simp add: mask_eq_exp_minus_1)
    then have "word_address x = x AND NOT (mask 2)" by (simp only: word_address_def)
    then show "bit (word_address x) n = bit (push_bit 2 (drop_bit 2 x)) n" if "n < LENGTH(32)"
      using that by (cases "n < 2") (auto simp: bit_simps simp flip: add_2_eq_Suc)
  qed
  then have "unat (word_address x) = take_bit 32 (push_bit 2 (unat (drop_bit 2 x)))"
    by (simp only: unsigned_push_bit_eq) simp
  also have "unat (drop_bit 2 x) = unat x div 4"
    by (simp add: drop_bit_eq_div unat_div)
  also have "take_bit 32 (push_bit 2 (unat x div 4)) = unat x div 4 * 4"
    using unat_u32_less [of x] by (simp add: push_bit_eq_mult take_bit_nat_eq_self)
  finally show ?thesis .
qed

lemma areas_aligned:
  assumes "unat start mod 4096 = 0" "owner_ok start stop m g x" "a \<in> areas g x"
  shows "4 dvd unat (fst a)"
proof (cases x)
  case (Big b k sz al)
  have "block_ok start stop (k, b)" using assms(2) Big by simp
  from block_aligned [OF this assms(1)] have "4096 dvd unat b" by (simp add: mod_eq_0_iff_dvd)
  then have "4 dvd unat b" by (rule dvd_trans [rotated]) simp
  then show ?thesis using assms(3) Big big_addresses(6) [OF assms(2) [unfolded Big]] by simp
next
  case (Slab_Page c s)
  note p = slab_page [OF assms(1) assms(2) [unfolded Slab_Page]]
  from assms(3) Slab_Page obtain i where i: "a = (slab_obj s c i, osize c)" "i < max_objects c" by auto
  have "unat s mod 4096 = 4" using p(1) by (simp add: slab_aligned_def)
  then have "unat s = 4 * (1024 * (unat s div 4096) + 1)" using mult_div_mod_eq [of 4096 "unat s"] by (simp add: distrib_left)
  then have "4 dvd unat s" by (rule dvdI)
  moreover have "4 dvd osize c" by (simp add: osize_def)
  ultimately show ?thesis using object_address [OF p(2,4) i(2)] by (simp add: i(1))
qed

lemma live_word:
  assumes "kheap_inv g h" "live_ok g live" "live p = Some n" "x \<in> block_bytes p n"
  shows "word_address x \<in> block_bytes p n"
proof -
  obtain n' where "(p, n') \<in> all_areas g" by (rule live_area [OF assms(2,3)])
  then obtain z where "z \<in> g_owners g" "(p, n') \<in> areas g z" by (auto simp: all_areas_def)
  then have "4 dvd unat p" using areas_aligned [OF kheap_inv_owner(3,1) [OF assms(1)]] by fastforce
  then obtain q where "unat p = 4 * q" by blast
  then show ?thesis using assms(4) by (simp add: block_bytes_def unat_word_address) linarith
qed

lemma live_kept:
  assumes "live_ok g live" "live p = Some n" "x \<in> block_bytes p n" "contents_kept (all_areas g) m m'"
  shows "m' x = m x"
  using assms by (metis contents_kept_def live_area block_bytes_area)

lemma live_words_not_cells:
  assumes inv: "kheap_inv g h" and live: "live_ok g live" "live p = Some n" and x: "x \<in> block_bytes p n" "y \<in> g_owners g"
  shows "x \<notin> cells g y"
proof
  assume c: "x \<in> cells g y"
  obtain n' where a: "(p, n') \<in> all_areas g" "n \<le> n'" by (rule live_area [OF live])
  then obtain z where z: "z \<in> g_owners g" "(p, n') \<in> areas g z" by (auto simp: all_areas_def)
  have sp: "unat x \<in> area_span (p, n')" by (rule block_bytes_area [OF x(1) a(2)])
  show False
  proof (cases "z = y")
    case True
    with areas_off_cells [OF kheap_inv_owner(3,1) [OF inv z(1)] z(2)] c sp show ?thesis by blast
  next
    case False
    have "unat x \<in> span y" using cells_in_span [OF kheap_inv_owner(3,1) [OF inv x(2)] c] .
    moreover have "unat x \<in> span z" using areas_in_span(1) [OF kheap_inv_owner(3,1) [OF inv z(1)] z(2)] sp by blast
    ultimately show ?thesis using kheap_inv_spans [OF inv z(1) x(2) False] by blast
  qed
qed

lemma kheap_inv_store:
  assumes inv: "kheap_inv g h" and x: "\<forall>y \<in> g_owners g. x \<notin> cells g y"
  shows "kheap_inv g (h\<lparr>kh_mem := (kh_mem h)(x := w)\<rparr>)"
proof -
  let ?m = "(kh_mem h)(x := w)"
  have "owner_ok (kh_start h) (kh_end h) ?m g y = owner_ok (kh_start h) (kh_end h) (kh_mem h) g y"
    if "y \<in> g_owners g" for y
    by (rule owner_ok_cong) (use x that in auto)
  moreover have "slab_chain ?m (first_slab (kh_caches h ! c)) (g_slabs g c)" if "c < 7" for c
  proof (rule kheap_chains_cong [OF inv _ that])
    show "?m (sh_next s) = kh_mem h (sh_next s)" if "Slab_Page c' s \<in> g_owners g" for c' s
      using x that by fastforce
  qed
  ultimately show ?thesis using inv by (simp add: kheap_inv_def)
qed

lemma heap_step_spec:
  assumes ok: "heap_run_ok start stop (h, live)" and e: "heap_event_ok e (h, live)"
  obtains h' live' where "heap_step e (h, live) = Some (h', live')" "heap_run_ok start stop (h', live')"
    "\<And>p n x. live p = Some n \<Longrightarrow> live' p = Some n \<Longrightarrow> x \<in> block_bytes p n \<Longrightarrow> byte_at (kh_mem h') x = stored e (byte_at (kh_mem h)) x"
    "\<And>p n x. live p = None \<Longrightarrow> live' p = Some n \<Longrightarrow> x \<in> block_bytes p n \<Longrightarrow> byte_at (kh_mem h') x = 0"
proof -
  from ok obtain g where g: "kheap_inv g h" "live_ok g live" "kh_start h = start" "kh_end h = stop"
    by (auto simp: heap_run_ok_def)
  show ?thesis
  proof (cases e)
    case (Store x v)
    then obtain p n where p: "live p = Some n" "unat p \<le> unat x" "unat x < unat p + n" using e by auto
    then have "x \<in> block_bytes p n" by (simp add: block_bytes_def)
    then have "word_address x \<in> block_bytes p n" by (rule live_word [OF g(1,2) p(1)])
    then have "kheap_inv g (h\<lparr>kh_mem := put_byte x v (kh_mem h)\<rparr>)"
      using live_words_not_cells [OF g(1,2) p(1)] unfolding put_byte_def by (intro kheap_inv_store [OF g(1)]) blast
    then show ?thesis using g Store
      by (intro that [of "h\<lparr>kh_mem := put_byte x v (kh_mem h)\<rparr>" live]) (auto simp: heap_run_ok_def byte_at_put)
  next
    case (Release p)
    then obtain n where n: "live p = Some n" and mg: "unat p mod 4096 = 4 \<longrightarrow> kh_mem h p \<noteq> SLAB_MAGIC"
      using e by auto
    obtain n' where a: "(p, n') \<in> all_areas g" by (rule live_area [OF g(2) n])
    obtain g' h' where f: "kfree (fst (p, n')) h = Some h'" "kheap_inv g' h'" "all_areas g' = all_areas g - {(p, n')}"
      "contents_kept (all_areas g') (kh_mem h) (kh_mem h')" "kh_interrupts h'" "kh_start h' = kh_start h" "kh_end h' = kh_end h"
      by (rule kfree_spec [OF g(1) a]) (use mg in simp, blast)
    have lv: "live_ok g' (live(p := None))"
      using g(2) by (auto simp: live_ok_def f(3))
    show ?thesis
    proof (rule that)
      show "heap_step e (h, live) = Some (h', live(p := None))" using Release f(1) by simp
      show "heap_run_ok start stop (h', live(p := None))" using f(2,6,7) lv g(3,4) by (auto simp: heap_run_ok_def)
      show "byte_at (kh_mem h') x = stored e (byte_at (kh_mem h)) x"
        if "live q = Some m" "(live(p := None)) q = Some m" "x \<in> block_bytes q m" for q m x
        using live_kept [OF lv that(2) live_word [OF g(1,2) that(1,3)] f(4)] Release by (simp add: byte_at_def)
    qed (simp split: if_splits)
  next
    case (Request sz al)
    then have sz: "unat sz + 4120 \<le> 2 ^ 31" using e by simp
    show ?thesis
    proof (cases rule: kmalloc_real_spec [OF g(1) sz, of al])
      case (1 h')
      then show ?thesis using Request g
        by (intro that [of h' live]) (auto simp: heap_run_ok_def)
    next
      case (2 a g' h')
      from 2(2) have g': "kheap_inv g' h'" "all_areas g' = insert a (all_areas g)" "a \<notin> all_areas g" "unat sz \<le> snd a"
        "contents_kept (all_areas g) (kh_mem h) (kh_mem h')" "\<And>z. unat z \<in> area_span a \<Longrightarrow> kh_mem h' z = 0"
        "kh_start h' = kh_start h" "kh_end h' = kh_end h" by (simp_all add: gives_def)
      have nz: "fst a \<noteq> 0" using all_areas_bounds(1) [OF g'(1), of a] g'(2) by simp
      have lv: "live_ok g' (live(fst a \<mapsto> unat sz))"
        using g(2) g'(2,4) by (auto simp: live_ok_def) (metis prod.collapse)+
      have other: "q \<noteq> fst a" if q: "live q = Some m" for q m
      proof -
        obtain n' where n': "(q, n') \<in> all_areas g" by (rule live_area [OF g(2) q])
        then have "(q, n') \<noteq> a" using g'(3) by blast
        then have "fst (q, n') \<noteq> fst a" using n' g'(2) by (intro all_areas_apart(1) [OF g'(1)]) simp_all
        then show ?thesis by simp
      qed
      show ?thesis
      proof (rule that)
        show "heap_step e (h, live) = Some (h', live(fst a \<mapsto> unat sz))" using Request 2(1) nz by simp
        show "heap_run_ok start stop (h', live(fst a \<mapsto> unat sz))" using g' lv g(3,4) by (auto simp: heap_run_ok_def)
        show "byte_at (kh_mem h') x = stored e (byte_at (kh_mem h)) x" if "live q = Some m" "x \<in> block_bytes q m" for q m x
          using live_kept [OF g(2) that(1) live_word [OF g(1,2) that] g'(5)] Request by (simp add: byte_at_def)
        show "byte_at (kh_mem h') x = 0"
          if q: "live q = None" "(live(fst a \<mapsto> unat sz)) q = Some m" "x \<in> block_bytes q m" for q m x
        proof -
          have qm: "q = fst a" "m = unat sz" using q(1,2) by (simp_all split: if_splits)
          have "word_address x \<in> block_bytes q m" by (rule live_word [OF g'(1) lv q(2,3)])
          then have "unat (word_address x) \<in> area_span (fst a, snd a)"
            unfolding qm by (rule block_bytes_area) (rule g'(4))
          then show ?thesis using g'(6) by (simp add: byte_at_def)
        qed
      qed
    qed
  qed
qed

lemma heap_reach_ok:
  assumes "heap_reach start stop s" "pool_ok start stop"
  shows "heap_run_ok start stop s"
  using assms
proof (induction rule: heap_reach.induct)
  case (boot mx h0 h)
  then show ?case by (intro boot_heap_ok)
next
  case (step s e s')
  obtain h live where s: "s = (h, live)" by (cases s)
  obtain h' live' where "heap_step e (h, live) = Some (h', live')" "heap_run_ok start stop (h', live')"
    by (rule heap_step_spec [of start stop h live e]) (use step s in simp_all)
  then show ?case using step s by simp
qed

lemma run_events_reach:
  assumes "run_events es s = Some s'" "heap_reach start stop s"
  shows "heap_reach start stop s'"
  using assms by (induction es arbitrary: s) (auto split: if_splits bind_splits intro: heap_reach.step)

section \<open>An example\<close>

definition heap_example :: kheap where
  "heap_example = \<lparr>kh_start = 0xC1000000, kh_end = 0xD1000000, kh_max = 0xD1000000, kh_supervisor = 1, kh_readonly = 0, kh_buddy = buddy_example,
     kh_mem = (\<lambda>_. 0xDEADBEEF), kh_caches = slab_init, kh_slab_ready = True, kh_interrupts = False\<rparr>"

lemma heap_example_boot: "boot_heap 0xC1000000 0xD1000000 0xD1000000 heap_example = Some heap_example"
  by (simp add: boot_heap_def init_kheap_def buddy_example_init) (simp add: heap_example_def)

lemma heap_example_pool: "pool_ok 0xC1000000 0xD1000000"
  by (simp add: pool_ok_def)

lemma heap_example_reach: "heap_reach 0xC1000000 0xD1000000 (heap_example, Map.empty)"
  by (rule heap_reach.boot [OF heap_example_boot])

lemma heap_example_events:
  "\<exists>h. run_events [Request 5000 False, Request 5000 False, Store 0xC1000018 7] (heap_example, Map.empty)
    = Some (h, [0xC1000018 \<mapsto> 5000, 0xC1002018 \<mapsto> 5000]) \<and> byte_at (kh_mem h) 0xC1000018 = 7"
  by (simp add: kmalloc_real_def kmalloc_block_def heap_example_def cli_def sti_def required_size_def
      buddy_alloc_def get_order_def get_order_loop.simps buddy_example_def clamp_order_def upt_rec
      adjusted_ptr_def byte_at_put Let_def)

section \<open>Properties\<close>

text \<open>
  Every call of the heap returns, in every history of requests below 2 GB (less 4120
  bytes), stores of a byte into blocks in use and releases of blocks in use, where a block at
  offset 4 of a page is not released while its first word is the magic word of slabs. Larger
  requests may not return.
\<close>

theorem heap_calls_return:
  assumes "pool_ok start stop" and "heap_reach start stop (h, live)" and "heap_event_ok e (h, live)"
  shows "\<exists>h' live'. heap_step e (h, live) = Some (h', live') \<and> heap_reach start stop (h', live')"
proof -
  obtain h' live' where "heap_step e (h, live) = Some (h', live')"
    using heap_step_spec [OF heap_reach_ok [OF assms(2,1)] assms(3)] by metis
  with heap_reach.step [OF assms(2,3)] show ?thesis by blast
qed

theorem heap_calls_return_witness:
  "\<exists>h' live'. heap_step (Request 100 False) (heap_example, Map.empty) = Some (h', live')
    \<and> heap_reach 0xC1000000 0xD1000000 (h', live')"
  by (rule heap_calls_return [OF heap_example_pool heap_example_reach]) simp

text \<open>
  C10: the blocks in use lie in the heap and no two of them overlap, whether they are objects of
  slabs or blocks of the buddy allocator, aligned or not, after any history of requests below
  2 GB (less 4120 bytes), stores into and releases of blocks in use (but not of a block at
  offset 4 of a page while its first word is the magic word of slabs).
\<close>

theorem heap_blocks_apart:
  assumes "pool_ok start stop" and "heap_reach start stop (h, live)"
    and "live p = Some n" and "live q = Some m" and "p \<noteq> q"
  shows "p \<noteq> 0 \<and> unat start \<le> unat p \<and> unat p + n \<le> unat stop
    \<and> (unat p + n \<le> unat q \<or> unat q + m \<le> unat p)"
proof -
  obtain g where g: "kheap_inv g h" "live_ok g live" "kh_start h = start" "kh_end h = stop"
    using heap_reach_ok [OF assms(2,1)] by (auto simp: heap_run_ok_def)
  obtain n' where n': "(p, n') \<in> all_areas g" "n \<le> n'" by (rule live_area [OF g(2) assms(3)])
  obtain m' where m': "(q, m') \<in> all_areas g" "m \<le> m'" by (rule live_area [OF g(2) assms(4)])
  have pos: "0 < n'" "0 < m'"
    using n'(1) m'(1) areas_in_span(4) [OF kheap_inv_owner(3,1) [OF g(1)]] by (fastforce simp: all_areas_def)+
  have "area_span (p, n') \<inter> area_span (q, m') = {}"
    using all_areas_apart(2) [OF g(1) n'(1) m'(1)] assms(5) by simp
  then have "unat p + n' \<le> unat q \<or> unat q + m' \<le> unat p"
    using pos by (auto simp: area_span_def ivl_disj_un)
  moreover have "unat start \<le> unat p" "unat p + n' \<le> unat stop"
    using all_areas_bounds(2) [OF g(1) n'(1)] pos(1) g(3,4) by (auto simp: area_span_def)
  moreover have "p \<noteq> 0" using all_areas_bounds(1) [OF g(1) n'(1)] by simp
  ultimately show ?thesis using n'(2) m'(2) by linarith
qed

theorem heap_blocks_apart_witness:
  "unat (0xC1000018 :: u32) + 5000 \<le> unat (0xC1002018 :: u32)"
proof -
  obtain h where h: "run_events [Request 5000 False, Request 5000 False, Store 0xC1000018 7] (heap_example, Map.empty)
    = Some (h, [0xC1000018 \<mapsto> 5000, 0xC1002018 \<mapsto> 5000])" using heap_example_events by blast
  note r = run_events_reach [OF h heap_example_reach]
  have "(0xC1000018 :: u32) \<noteq> 0xC1002018" by simp
  from heap_blocks_apart [OF heap_example_pool r _ _ this, of 5000 5000] show ?thesis by simp
qed

text \<open>
  C9: a block keeps its bytes from its request to its release: an event changes no byte of a
  block that is in use before and after it, except the one a store names, and a block that is
  new after the event is all zero. The events are requests below 2 GB (less 4120 bytes),
  stores of a byte into a block in use, and releases of a block in use; not covered is the
  release of a block at offset 4 of a page whose first word is the magic word of slabs, which
  the slab allocator would take for a slab.
\<close>

theorem heap_contents_kept:
  assumes "pool_ok start stop" and "heap_reach start stop (h, live)" and "heap_event_ok e (h, live)"
    and "heap_step e (h, live) = Some (h', live')" and "live' p = Some n" and "x \<in> block_bytes p n"
  shows "(live p = Some n \<longrightarrow> byte_at (kh_mem h') x = stored e (byte_at (kh_mem h)) x)
    \<and> (live p = None \<longrightarrow> byte_at (kh_mem h') x = 0)"
  using heap_step_spec [OF heap_reach_ok [OF assms(2,1)] assms(3)] assms(4-6) by (metis option.inject prod.inject)

theorem heap_contents_kept_witness:
  "\<exists>h h' live'. byte_at (kh_mem h) 0xC1000018 = 7 \<and> heap_step (Release 0xC1002018)
     (h, [0xC1000018 \<mapsto> 5000, 0xC1002018 \<mapsto> 5000]) = Some (h', live') \<and> byte_at (kh_mem h') 0xC1000018 = 7"
proof -
  let ?l = "[0xC1000018 \<mapsto> 5000, 0xC1002018 \<mapsto> 5000] :: u32 \<rightharpoonup> nat"
  obtain h where h: "run_events [Request 5000 False, Request 5000 False, Store 0xC1000018 7] (heap_example, Map.empty)
    = Some (h, ?l)" "byte_at (kh_mem h) 0xC1000018 = 7" using heap_example_events by blast
  note r = run_events_reach [OF h(1) heap_example_reach]
  have e: "heap_event_ok (Release 0xC1002018) (h, ?l)" by simp
  obtain h' live' where s: "heap_step (Release 0xC1002018) (h, ?l) = Some (h', live')"
    by (rule heap_step_spec [OF heap_reach_ok [OF r heap_example_pool] e])
  then have "live' = ?l(0xC1002018 := None)" by (auto split: bind_splits)
  moreover have "(0xC1000018 :: u32) \<in> block_bytes 0xC1000018 5000" by (simp add: block_bytes_def)
  ultimately have "byte_at (kh_mem h') 0xC1000018 = 7"
    using heap_contents_kept [OF heap_example_pool r e s, where p = "0xC1000018" and x = "0xC1000018"] h(2) by simp
  with s h(2) show ?thesis by blast
qed

text \<open>
  A request within 24 bytes of 4 GB wraps around and is served from a block of 4 KB: only
  the 4096 addresses around the result leave the free memory.
\<close>

theorem heap_request_wraps:
  assumes "pool_ok start stop" and "heap_reach start stop (h, live)" and "2 ^ 32 - 24 \<le> unat sz"
    and "kmalloc_real sz False h = Some (p, h')" and "p \<noteq> 0"
  shows "free_region (buddy_lists (kh_buddy h')) =
    free_region (buddy_lists (kh_buddy h)) - {unat p - 24 ..< unat p + 4072}"
proof -
  obtain g where g: "kheap_inv g h" using heap_reach_ok [OF assms(2,1)] by (auto simp: heap_run_ok_def)
  let ?req = "required_size sz False"
  have "unat ?req = (unat sz + 24) mod 2 ^ 32" by (simp add: required_size_def add.assoc unat_word_ariths)
  also have "\<dots> = unat sz + 24 - 2 ^ 32" using assms(3) unat_u32_less [of sz] by (subst mod_if) simp
  finally have req: "unat ?req < 24" using unat_u32_less [of sz] by simp
  have big: "\<not> sz \<le> 2048" "sz \<noteq> 0" using assms(3) by (auto simp: word_le_nat_alt)
  then have km: "kmalloc_block sz False (cli h) = Some (p, h')"
    using assms(4) by (simp add: kmalloc_real_def)
  then obtain b bud where al: "buddy_alloc (kh_buddy h) ?req = Some (b, bud)"
    by (auto simp: kmalloc_block_def cli_def Let_def split: bind_splits)
  have binv: "buddy_inv (kh_buddy h)" using g by (simp add: kheap_inv_def)
  show ?thesis
  proof (cases rule: buddy_alloc_cases [OF binv al])
    case 1
    then show ?thesis using km al assms(5) by (simp add: kmalloc_block_def cli_def sti_def)
  next
    case (2 k)
    have k: "k = 0"
    proof (rule ccontr)
      assume "k \<noteq> 0"
      then have "(2::nat) ^ (k + 11) < 24" using 2(4) req by simp
      then show False using power_increasing [of 11 "k + 11" "2::nat"] by simp
    qed
    have p: "p = b + 24" "kh_buddy h' = bud"
      using km al 2(2) by (auto simp: kmalloc_block_def cli_def sti_def adjusted_ptr_def Let_def split: bind_splits)
    have "unat p = unat b + 24" using block_bounds(1) [OF 2(5), of 24] k p(1) by simp
    then show ?thesis using 2(10) k p(2) by (simp add: block_span.simps add.commute [of "unat b"])
  qed
qed

theorem heap_request_wraps_witness:
  "\<exists>h'. kmalloc_real 0xFFFFFFF0 False heap_example = Some (0xC1000018, h')
    \<and> free_region (buddy_lists (kh_buddy h')) = free_region (buddy_lists buddy_example) - {0xC1000000 ..< 0xC1001000}"
proof -
  obtain h' where h: "kmalloc_real 0xFFFFFFF0 False heap_example = Some (0xC1000018, h')"
    by (simp add: kmalloc_real_def kmalloc_block_def heap_example_def cli_def sti_def required_size_def
      buddy_alloc_def get_order_def get_order_loop.simps buddy_example_def clamp_order_def upt_rec
      adjusted_ptr_def Let_def)
  have "2 ^ 32 - 24 \<le> unat (0xFFFFFFF0 :: u32)" "(0xC1000018 :: u32) \<noteq> 0" by simp_all
  from heap_request_wraps [OF heap_example_pool heap_example_reach this(1) h this(2)] h
  show ?thesis by (simp add: heap_example_def)
qed

text \<open>
  A page-aligned request never returns a page boundary: the result is always four bytes
  behind one.
\<close>

theorem heap_aligned_requests:
  assumes "pool_ok start stop" and "heap_reach start stop (h, live)" and "unat sz + 4120 \<le> 2 ^ 31"
    and "kmalloc_real sz True h = Some (p, h')" and "p \<noteq> 0"
  shows "unat p mod 4096 = 4"
proof -
  obtain g where g: "kheap_inv g h" using heap_reach_ok [OF assms(2,1)] by (auto simp: heap_run_ok_def)
  then have g': "kheap_inv g (cli h)" by (simp add: cli_def kheap_inv_interrupts)
  have sz: "sz \<noteq> 0" using assms(4,5) by (auto simp: kmalloc_real_def)
  then have km: "kmalloc_block sz True (cli h) = Some (p, h')" using assms(4) by (simp add: kmalloc_real_def)
  show ?thesis
  proof (cases rule: kmalloc_block_spec [OF g' sz assms(3), of True])
    case 1
    with km assms(5) show ?thesis by simp
  next
    case (2 b k bud m)
    from aligned_ptr [OF 2(7)] g' km 2(1) show ?thesis by (simp add: kheap_inv_def)
  qed
qed

theorem heap_aligned_requests_witness:
  "\<exists>p h'. kmalloc_real 4096 True heap_example = Some (p, h') \<and> unat p mod 4096 = 4"
proof -
  obtain h' where h: "kmalloc_real 4096 True heap_example = Some (0xC1001004, h')"
    by (simp add: kmalloc_real_def kmalloc_block_def heap_example_def cli_def sti_def required_size_def
      buddy_alloc_def get_order_def get_order_loop.simps buddy_example_def clamp_order_def upt_rec
      adjusted_ptr_def Let_def)
  have "unat (4096 :: u32) + 4120 \<le> 2 ^ 31" "(0xC1001004 :: u32) \<noteq> 0" by simp_all
  from heap_aligned_requests [OF heap_example_pool heap_example_reach this(1) h this(2)] h
  show ?thesis by blast
qed

end
