(* ===== verification/Dns.thy ===== *)
theory Dns
  imports Inet
begin

text \<open>
  The name resolver (\<^verbatim>\<open>kernel/dns.cpp\<close>): names in wire format, the cache, queries, the handler of
  responses and the loop that waits for one. A response is given by the bytes from its start
  on; those behind its length are whatever the memory holds, and the handler may read them.
  Strings are their bytes up to the null character. \<open>None\<close> stands for a loop that does not
  end, or, where noted, for a write behind the packet buffer.
\<close>

abbreviation DNS_PORT :: u16 where "DNS_PORT \<equiv> 53"
abbreviation DNS_SERVER :: u32 where "DNS_SERVER \<equiv> 0x0302000A"
abbreviation DNS_CACHE_SIZE :: nat where "DNS_CACHE_SIZE \<equiv> 32"
abbreviation DNS_TIMEOUT_MS :: u32 where "DNS_TIMEOUT_MS \<equiv> 5000"
abbreviation DNS_MAX_RETRIES :: nat where "DNS_MAX_RETRIES \<equiv> 3"
abbreviation DNS_MAX_NAME :: nat where "DNS_MAX_NAME \<equiv> 256"
abbreviation DNS_TYPE_A :: u16 where "DNS_TYPE_A \<equiv> 1"
abbreviation DNS_CLASS_IN :: u16 where "DNS_CLASS_IN \<equiv> 1"
abbreviation DNS_RD :: u16 where "DNS_RD \<equiv> 0x0100"
abbreviation dot :: u8 where "dot \<equiv> 46"

type_synonym bytes_from = "nat \<Rightarrow> u8"

definition dns_htons :: "u16 \<Rightarrow> u16" where
  "dns_htons x = push_bit 8 x OR drop_bit 8 x"

text \<open>A field of a packed structure at a pointer.\<close>

definition load16 :: "bytes_from \<Rightarrow> nat \<Rightarrow> u16" where
  "load16 rd i = ucast (rd i) OR push_bit 8 (ucast (rd (i + 1)))"

definition load32 :: "bytes_from \<Rightarrow> nat \<Rightarrow> u32" where
  "load32 rd i = ucast (rd i) OR push_bit 8 (ucast (rd (i + 1))) OR push_bit 16 (ucast (rd (i + 2)))
     OR push_bit 24 (ucast (rd (i + 3)))"

section \<open>Names in wire format\<close>

text \<open>The bytes that \<^verbatim>\<open>dns_encode_name\<close> writes, and whether it returns their number and not -1.\<close>

function encode_labels :: "u8 list \<Rightarrow> u8 list \<Rightarrow> u8 list \<times> bool" where
  "encode_labels p buf =
     (if p = [] then (buf @ [0], True)
      else
        let label = takeWhile (\<lambda>c. c \<noteq> dot) p
        in if length label > 63 \<or> length label = 0 then (buf, False)
           else encode_labels (drop (length label + 1) p) (buf @ of_nat (length label) # label))"
  by pat_completeness auto
termination by (relation "measure (\<lambda>(p, buf). length p)") auto

declare encode_labels.simps [simp del]

definition dns_encode_name :: "u8 list \<Rightarrow> u8 list \<times> bool" where
  "dns_encode_name name = encode_labels name []"

text \<open>
  The loop of \<^verbatim>\<open>dns_decode_name\<close> over \<open>ptr\<close> and the output so far; \<open>jump\<close> is \<open>jump_offset\<close> once
  a compression pointer was followed, \<open>Inl\<close> the return of -1.
\<close>

partial_function (option) decode_loop ::
  "bytes_from \<Rightarrow> nat \<Rightarrow> nat \<Rightarrow> nat \<Rightarrow> nat \<Rightarrow> u8 list \<Rightarrow> nat option \<Rightarrow> (unit + nat \<times> u8 list \<times> nat option) option" where
  "decode_loop rd len max_len start ptr out jump =
     (if rd ptr \<noteq> 0 \<and> length out < max_len - 1 then
        if rd ptr AND 0xC0 = 0xC0 then
          let jump' = (case jump of None \<Rightarrow> Some (ptr - start + 2) | Some j \<Rightarrow> Some j);
              offset = push_bit 8 (unat (rd ptr AND 0x3F)) OR unat (rd (ptr + 1))
          in if len \<le> offset then Some (Inl ())
             else decode_loop rd len max_len start offset out jump'
        else
          let label_len = unat (rd ptr)
          in if label_len > 63 then Some (Inl ())
             else
               let out1 = (if length out > 0 then out @ [dot] else out);
                   n = min label_len (max_len - 1 - length out1)
               in decode_loop rd len max_len start (ptr + 1 + n) (out1 @ map rd [ptr + 1..<ptr + 1 + n]) jump
      else Some (Inr (ptr, out, jump)))"

text \<open>The result is the number of bytes of the name at \<open>ptr\<close> and the string; the inner \<open>None\<close> is -1.\<close>

definition dns_decode_name :: "bytes_from \<Rightarrow> nat \<Rightarrow> nat \<Rightarrow> nat \<Rightarrow> (nat \<times> u8 list) option option" where
  "dns_decode_name rd len ptr max_len =
     map_option (\<lambda>r. case r of
         Inl _ \<Rightarrow> None
       | Inr (p, out, jump) \<Rightarrow> Some (case jump of Some j \<Rightarrow> j | None \<Rightarrow> p - ptr + 1, out))
       (decode_loop rd len max_len ptr ptr [] None)"

section \<open>The cache\<close>

record dns_cache_entry =
  name :: "u8 list"
  ip :: u32
  ttl :: u32
  timestamp :: u32
  valid :: bool

definition cached :: "u8 list \<Rightarrow> dns_cache_entry \<Rightarrow> bool" where
  "cached host e \<longleftrightarrow> valid e \<and> name e = host"

fun oldest_slot :: "dns_cache_entry list \<Rightarrow> nat \<Rightarrow> nat \<Rightarrow> u32 \<Rightarrow> nat" where
  "oldest_slot [] i oldest oldest_time = oldest"
| "oldest_slot (e # es) i oldest oldest_time =
     (if \<not> valid e then i
      else if timestamp e < oldest_time then oldest_slot es (Suc i) i (timestamp e)
      else oldest_slot es (Suc i) oldest oldest_time)"

definition dns_cache_insert :: "u32 \<Rightarrow> u8 list \<Rightarrow> u32 \<Rightarrow> u32 \<Rightarrow> dns_cache_entry list \<Rightarrow> dns_cache_entry list" where
  "dns_cache_insert now host addr life c =
     (case find (\<lambda>i. cached host (c ! i)) [0..<length c] of
        Some i \<Rightarrow> c[i := (c ! i)\<lparr>ip := addr, ttl := life, timestamp := now\<rparr>]
      | None \<Rightarrow> c[oldest_slot c 0 0 0xFFFFFFFF :=
          \<lparr>name = take (DNS_MAX_NAME - 1) host, ip = addr, ttl = life, timestamp = now, valid = True\<rparr>])"

fun dns_cache_lookup :: "u32 \<Rightarrow> u8 list \<Rightarrow> dns_cache_entry list \<Rightarrow> u32 \<times> dns_cache_entry list" where
  "dns_cache_lookup now host [] = (0, [])"
| "dns_cache_lookup now host (e # es) =
     (if cached host e then
        if now - timestamp e < ttl e * 1000 then (ip e, e # es)
        else let (a, es') = dns_cache_lookup now host es in (a, e\<lparr>valid := False\<rparr> # es')
      else let (a, es') = dns_cache_lookup now host es in (a, e # es'))"

definition dns_cache_clear :: "dns_cache_entry list \<Rightarrow> dns_cache_entry list" where
  "dns_cache_clear c = map (\<lambda>e. e\<lparr>valid := False\<rparr>) c"

section \<open>Responses\<close>

record dns =
  dns_cache :: "dns_cache_entry list"
  dns_tx_id :: u16
  dns_response_received :: int
  dns_resolved_ip :: u32
  dns_pending_id :: u16

text \<open>Skipping the labels of a question, then the question.\<close>

partial_function (option) skip_labels :: "bytes_from \<Rightarrow> nat \<Rightarrow> nat option" where
  "skip_labels rd ptr =
     (if rd ptr \<noteq> 0 then
        if rd ptr AND 0xC0 = 0xC0 then Some (ptr + 2)
        else skip_labels rd (ptr + (unat (rd ptr) + 1))
      else Some ptr)"

fun skip_questions :: "bytes_from \<Rightarrow> nat \<Rightarrow> nat \<Rightarrow> nat option" where
  "skip_questions rd 0 ptr = Some ptr"
| "skip_questions rd (Suc n) ptr = do {
     p \<leftarrow> skip_labels rd ptr;
     skip_questions rd n ((if rd p = 0 then p + 1 else p) + 4)
   }"

text \<open>The answer section: the address of the first A record, if the loop gets to one.\<close>

fun find_answer :: "bytes_from \<Rightarrow> nat \<Rightarrow> nat \<Rightarrow> nat \<Rightarrow> u32 option option" where
  "find_answer rd len 0 ptr = Some None"
| "find_answer rd len (Suc n) ptr = do {
     r \<leftarrow> dns_decode_name rd len ptr DNS_MAX_NAME;
     case r of
       None \<Rightarrow> Some None
     | Some (name_len, _) \<Rightarrow>
         let p = ptr + name_len
         in if p + 10 > len then Some None
            else
              let rtype = dns_htons (load16 rd p); rdlen = dns_htons (load16 rd (p + 8))
              in if rtype = DNS_TYPE_A \<and> rdlen = 4 then Some (Some (load32 rd (p + 10)))
                 else find_answer rd len n (p + 10 + unat rdlen)
   }"

definition dns_rx_handler :: "bytes_from \<Rightarrow> nat \<Rightarrow> dns \<Rightarrow> dns option" where
  "dns_rx_handler rd len d =
     (if len < 12 then Some d
      else
        let ident = dns_htons (load16 rd 0); flags = dns_htons (load16 rd 2);
            qdcount = unat (dns_htons (load16 rd 4)); ancount = unat (dns_htons (load16 rd 6))
        in if ident \<noteq> dns_pending_id d then Some d
           else if flags AND 0x000F \<noteq> 0 then Some (d\<lparr>dns_response_received := - 1\<rparr>)
           else if ancount = 0 then Some (d\<lparr>dns_response_received := - 1\<rparr>)
           else do {
             ptr \<leftarrow> skip_questions rd qdcount 12;
             r \<leftarrow> find_answer rd len ancount ptr;
             case r of
               Some a \<Rightarrow> Some (d\<lparr>dns_resolved_ip := a, dns_response_received := 1\<rparr>)
             | None \<Rightarrow> Some (if dns_response_received d = 0 then d\<lparr>dns_response_received := - 1\<rparr> else d)
           })"

section \<open>Queries\<close>

definition dns_header_bytes :: "u16 \<Rightarrow> u8 list" where
  "dns_header_bytes ident = le16 (dns_htons ident) @ le16 (dns_htons DNS_RD) @ le16 (dns_htons 1) @ replicate 6 0"

text \<open>
  The state, and the packet handed to \<^verbatim>\<open>udp_send\<close> for port 53 of the server unless the name is
  refused; \<open>None\<close> when a byte is written behind the 512 bytes of the packet.
\<close>

definition dns_send_query :: "u8 list \<Rightarrow> u16 \<Rightarrow> dns \<Rightarrow> (dns \<times> u8 list option) option" where
  "dns_send_query host qtype d =
     (let (qname, ok) = dns_encode_name host
      in if 12 + length qname > 512 then None
         else if \<not> ok then Some (d, None)
         else if 12 + length qname + 4 > 512 then None
         else Some (d\<lparr>dns_pending_id := dns_tx_id d, dns_tx_id := dns_tx_id d + 1,
                      dns_response_received := 0, dns_resolved_ip := 0\<rparr>,
                    Some (dns_header_bytes (dns_tx_id d) @ qname @ le16 (dns_htons qtype) @ le16 (dns_htons DNS_CLASS_IN))))"

section \<open>Resolving\<close>

text \<open>
  The world of \<^verbatim>\<open>dns_resolve\<close>: the readings of the clock in the order they are taken, and the
  responses that \<^verbatim>\<open>net_poll\<close> hands over in each turn of the loop.
\<close>

type_synonym dns_clock = "nat \<Rightarrow> u32"
type_synonym dns_net = "nat \<Rightarrow> (bytes_from \<times> nat) list"

fun rx_all :: "(bytes_from \<times> nat) list \<Rightarrow> dns \<Rightarrow> dns option" where
  "rx_all [] d = Some d"
| "rx_all ((rd, len) # ps) d = Option.bind (dns_rx_handler rd len d) (rx_all ps)"

definition sent_with :: "u8 list option \<Rightarrow> u8 list list \<Rightarrow> u8 list list" where
  "sent_with p sent = (case p of None \<Rightarrow> sent | Some b \<Rightarrow> sent @ [b])"

partial_function (option) resolve_loop ::
  "dns_clock \<Rightarrow> dns_net \<Rightarrow> u8 list \<Rightarrow> nat \<Rightarrow> u32 \<Rightarrow> nat \<Rightarrow> nat \<Rightarrow> dns \<Rightarrow> u8 list list
    \<Rightarrow> (u32 \<times> dns \<times> u8 list list) option" where
  "resolve_loop clock net host retries start i turn d sent =
     (if retries < DNS_MAX_RETRIES then
        if dns_response_received d = 1 then
          Some (dns_resolved_ip d,
            d\<lparr>dns_cache := dns_cache_insert (clock i) host (dns_resolved_ip d) 300 (dns_cache d)\<rparr>, sent)
        else if dns_response_received d = - 1 then Some (0, d, sent)
        else if clock i - start > DNS_TIMEOUT_MS then
          if Suc retries < DNS_MAX_RETRIES then do {
            (d1, p) \<leftarrow> dns_send_query host DNS_TYPE_A d;
            d2 \<leftarrow> rx_all (net turn) d1;
            resolve_loop clock net host (Suc retries) (clock (i + 1)) (i + 2) (Suc turn) d2 (sent_with p sent)
          }
          else do {
            d2 \<leftarrow> rx_all (net turn) d;
            resolve_loop clock net host (Suc retries) start (i + 1) (Suc turn) d2 sent
          }
        else do {
          d2 \<leftarrow> rx_all (net turn) d;
          resolve_loop clock net host retries start (i + 1) (Suc turn) d2 sent
        }
      else Some (0, d, sent))"

definition dns_resolve :: "dns_clock \<Rightarrow> dns_net \<Rightarrow> u8 list \<Rightarrow> dns \<Rightarrow> (u32 \<times> dns \<times> u8 list list) option" where
  "dns_resolve clock net host d =
     (let (a, c) = dns_cache_lookup (clock 0) host (dns_cache d); d1 = d\<lparr>dns_cache := c\<rparr>
      in if a \<noteq> 0 then Some (a, d1, [])
         else do {
           (d2, p) \<leftarrow> dns_send_query host DNS_TYPE_A d1;
           resolve_loop clock net host 0 (clock 1) 2 0 d2 (sent_with p [])
         })"

definition dns_resolve_async :: "u32 \<Rightarrow> u8 list \<Rightarrow> dns \<Rightarrow> (dns \<times> u8 list option) option" where
  "dns_resolve_async now host d =
     (let (a, c) = dns_cache_lookup now host (dns_cache d); d1 = d\<lparr>dns_cache := c\<rparr>
      in if a \<noteq> 0 then Some (d1\<lparr>dns_resolved_ip := a, dns_response_received := 1\<rparr>, None)
         else dns_send_query host DNS_TYPE_A d1)"

definition dns_get_result :: "dns \<Rightarrow> int \<times> u32 option" where
  "dns_get_result d =
     (if dns_response_received d = 1 then (1, Some (dns_resolved_ip d))
      else if dns_response_received d = - 1 then (- 1, None) else (0, None))"

definition dns_init :: "dns \<Rightarrow> dns" where
  "dns_init d = d\<lparr>dns_cache := replicate DNS_CACHE_SIZE \<lparr>name = [], ip = 0, ttl = 0, timestamp = 0, valid = False\<rparr>\<rparr>"

section \<open>Names as lists of labels\<close>

text \<open>A name of labels, as a string and in wire format.\<close>

fun dotted :: "u8 list list \<Rightarrow> u8 list" where
  "dotted [] = []"
| "dotted [l] = l"
| "dotted (l # ls) = l @ dot # dotted ls"

fun wire :: "u8 list list \<Rightarrow> u8 list" where
  "wire [] = [0]"
| "wire (l # ls) = of_nat (length l) # l @ wire ls"

definition label_ok :: "u8 list \<Rightarrow> bool" where
  "label_ok l \<longleftrightarrow> l \<noteq> [] \<and> length l \<le> 63 \<and> dot \<notin> set l"

definition bytes_at :: "bytes_from \<Rightarrow> nat \<Rightarrow> u8 list \<Rightarrow> bool" where
  "bytes_at rd i bs \<longleftrightarrow> map rd [i..<i + length bs] = bs"

lemma bytes_at_Nil [simp]: "bytes_at rd i []"
  by (simp add: bytes_at_def)

lemma bytes_at_Cons [simp]: "bytes_at rd i (b # bs) \<longleftrightarrow> rd i = b \<and> bytes_at rd (Suc i) bs"
  by (simp add: bytes_at_def upt_rec [of i] del: upt_Suc)

lemma bytes_at_append [simp]: "bytes_at rd i (xs @ ys) \<longleftrightarrow> bytes_at rd i xs \<and> bytes_at rd (i + length xs) ys"
  by (induction xs arbitrary: i) simp_all

lemma bytes_at_map: "bytes_at rd i bs \<Longrightarrow> n = length bs \<Longrightarrow> map rd [i..<i + n] = bs"
  by (simp add: bytes_at_def)


lemma encode_wire:
  assumes "\<forall>l \<in> set ls. label_ok l"
  shows "encode_labels (dotted ls) buf = (buf @ wire ls, True)"
  using assms
proof (induction ls arbitrary: buf rule: dotted.induct)
  case 1
  then show ?case by (simp add: encode_labels.simps)
next
  case (2 l)
  then have l: "takeWhile (\<lambda>c. c \<noteq> dot) l = l" "l \<noteq> []" "length l \<le> 63"
    by (auto simp: label_ok_def takeWhile_eq_all_conv)
  show ?case
    using l(2,3) by (subst encode_labels.simps) (simp only: dotted.simps Let_def l(1), simp add: encode_labels.simps [of "[]"])
next
  case (3 l l' ls)
  then have l: "takeWhile (\<lambda>c. c \<noteq> dot) (l @ dot # dotted (l' # ls)) = l" "l \<noteq> []" "length l \<le> 63"
    by (auto simp: label_ok_def takeWhile_append)
  have "encode_labels (dotted (l # l' # ls)) buf = encode_labels (dotted (l' # ls)) (buf @ of_nat (length l) # l)"
    using l(2,3) by (subst encode_labels.simps) (simp only: Let_def dotted.simps l(1), simp)
  with 3 show ?case by simp
qed

lemma label_length_byte:
  assumes "l \<noteq> []" "length l \<le> 63"
  shows "unat (of_nat (length l) :: u8) = length l" "(of_nat (length l) :: u8) \<noteq> 0"
    "(of_nat (length l) :: u8) AND 0xC0 \<noteq> 0xC0"
proof -
  show u: "unat (of_nat (length l) :: u8) = length l"
    using assms(2) by (simp add: unsigned_of_nat take_bit_nat_eq_self)
  then show "(of_nat (length l) :: u8) \<noteq> 0" using assms(1) by (metis length_0_conv unsigned_0)
  have "list_all (\<lambda>n. (of_nat n :: u8) AND 0xC0 \<noteq> 0xC0) [0..<64]" by code_simp
  then show "(of_nat (length l) :: u8) AND 0xC0 \<noteq> 0xC0" using assms(2) by (simp only: list_all_iff set_upt) simp
qed

text \<open>What the decoder has after it read some labels behind an output.\<close>

fun after_labels :: "u8 list \<Rightarrow> u8 list list \<Rightarrow> u8 list" where
  "after_labels out [] = out"
| "after_labels out (l # ls) = after_labels (if out = [] then l else out @ dot # l) ls"

lemma after_labels_out: "out \<noteq> [] \<Longrightarrow> after_labels out ls = (if ls = [] then out else out @ dot # dotted ls)"
proof (induction ls arbitrary: out)
  case (Cons l ls)
  have "after_labels out (l # ls) = after_labels (out @ dot # l) ls" using Cons.prems by simp
  also have "\<dots> = (if ls = [] then out @ dot # l else (out @ dot # l) @ dot # dotted ls)"
    by (rule Cons.IH) simp
  finally show ?case by (cases ls) simp_all
qed simp

lemma dotted_Cons: "dotted (l # ls) = l @ (if ls = [] then [] else dot # dotted ls)"
  by (cases ls) simp_all

lemma after_labels_dotted: "\<forall>l \<in> set ls. label_ok l \<Longrightarrow> after_labels [] ls = dotted ls"
  by (cases ls) (simp_all add: label_ok_def after_labels_out dotted_Cons)

lemma length_after_labels: "length out \<le> length (after_labels out ls)"
proof (induction ls arbitrary: out)
  case (Cons l ls)
  have "length out \<le> length (if out = [] then l else out @ dot # l)" by simp
  also have "\<dots> \<le> length (after_labels out (l # ls))" using Cons.IH by simp
  finally show ?case .
qed simp

lemma decode_wire:
  assumes "bytes_at rd ptr (wire ls)" "\<forall>l \<in> set ls. label_ok l" "length (after_labels out ls) \<le> max_len - 1"
  shows "decode_loop rd len max_len start ptr out jump =
    Some (Inr (ptr + length (wire ls) - 1, after_labels out ls, jump))"
  using assms
proof (induction ls arbitrary: ptr out)
  case Nil
  then show ?case by (subst decode_loop.simps) simp
next
  case (Cons l ls)
  then have l: "l \<noteq> []" "length l \<le> 63" by (simp_all add: label_ok_def)
  note b = label_length_byte [OF l]
  let ?out = "if out = [] then l else out @ dot # l"
  have le: "length ?out \<le> max_len - 1"
    using Cons.prems(3) length_after_labels [of ?out ls] by simp
  have rd: "rd ptr = of_nat (length l)" "bytes_at rd (ptr + 1) l" "bytes_at rd (ptr + 1 + length l) (wire ls)"
    using Cons.prems(1) by simp_all
  have n: "min (length l) (max_len - 1 - length (if length out > 0 then out @ [dot] else out)) = length l"
    using le by (simp split: if_splits)
  have "length out < length ?out" using l(1) by simp
  then have lt: "length out < max_len - 1" using le by linarith
  have "decode_loop rd len max_len start ptr out jump =
    decode_loop rd len max_len start (ptr + 1 + length l) ?out jump"
  proof -
    have c: "(rd ptr \<noteq> 0 \<and> length out < max_len - 1) = True" "(rd ptr AND 0xC0 = 0xC0) = False"
      "unat (rd ptr) = length l" "(length l > 63) = False" using b l lt by (simp_all add: rd(1))
    have o: "(if length out > 0 then out @ [dot] else out) @ l = ?out" by simp
    show ?thesis
      by (subst decode_loop.simps)
        (simp only: Let_def c if_True if_False n bytes_at_map [OF rd(2) refl] o)
  qed
  also have "\<dots> = Some (Inr (ptr + 1 + length l + length (wire ls) - 1, after_labels ?out ls, jump))"
    using Cons.prems(2,3) by (intro Cons.IH [OF rd(3)]) simp_all
  finally show ?case by simp
qed

section \<open>A name that points to itself\<close>

lemma decode_loop_self_pointer:
  assumes "decode_loop rd len max_len start ptr out jump = Some r"
  shows "\<not> (rd ptr AND 0xC0 = 0xC0 \<and> push_bit 8 (unat (rd ptr AND 0x3F)) OR unat (rd (ptr + 1)) = ptr
    \<and> ptr < len \<and> length out < max_len - 1)"
proof (induction rule: decode_loop.raw_induct [OF _ assms])
  case (1 decode_loop rd len max_len start ptr out jump r)
  show ?case
  proof
    assume a: "rd ptr AND 0xC0 = 0xC0 \<and> push_bit 8 (unat (rd ptr AND 0x3F)) OR unat (rd (ptr + 1)) = ptr
      \<and> ptr < len \<and> length out < max_len - 1"
    then have nz: "rd ptr \<noteq> 0" by auto
    have "decode_loop rd len max_len start ptr out (case jump of None \<Rightarrow> Some (ptr - start + 2) | Some j \<Rightarrow> Some j) = Some r"
      using 1(2) a nz by (simp only: Let_def) simp
    from 1(1) [OF this] a show False by blast
  qed
qed

text \<open>A compression pointer to a plain name takes two bytes.\<close>

lemma decode_pointer:
  assumes p: "rd ptr = 0xC0" "rd (ptr + 1) = 0x0C" and len: "12 < len" and ls: "bytes_at rd 12 (wire ls)"
    "\<forall>l \<in> set ls. label_ok l" "length (dotted ls) \<le> 255"
  shows "dns_decode_name rd len ptr 256 = Some (Some (2, dotted ls))"
proof -
  have o: "push_bit 8 (unat ((0xC0 :: u8) AND 0x3F)) OR unat (0x0C :: u8) = 12" by code_simp
  have c: "((0xC0 :: u8) \<noteq> 0 \<and> length ([] :: u8 list) < 256 - 1) = True" "((0xC0 :: u8) AND 0xC0 = 0xC0) = True"
    "(len \<le> 12) = False" using len by simp_all
  have "decode_loop rd len 256 ptr ptr [] None = decode_loop rd len 256 ptr 12 [] (Some (ptr - ptr + 2))"
    by (subst decode_loop.simps) (simp only: Let_def p c o if_True if_False option.case)
  also have "\<dots> = Some (Inr (12 + length (wire ls) - 1, after_labels [] ls, Some (ptr - ptr + 2)))"
    by (rule decode_wire [OF ls(1,2)]) (simp add: after_labels_dotted ls)
  finally show ?thesis by (simp add: dns_decode_name_def after_labels_dotted ls(2))
qed

lemma skip_wire:
  assumes "bytes_at rd ptr (wire ls)" "\<forall>l \<in> set ls. label_ok l"
  shows "skip_labels rd ptr = Some (ptr + length (wire ls) - 1)"
  using assms
proof (induction ls arbitrary: ptr)
  case Nil
  then show ?case by (subst skip_labels.simps) simp
next
  case (Cons l ls)
  then have "l \<noteq> []" "length l \<le> 63" by (simp_all add: label_ok_def)
  note b = label_length_byte [OF this]
  have rd: "rd ptr = of_nat (length l)" "bytes_at rd (ptr + (length l + 1)) (wire ls)"
    using Cons.prems(1) by simp_all
  have "skip_labels rd ptr = skip_labels rd (ptr + (length l + 1))"
    using b by (subst skip_labels.simps) (simp add: rd(1))
  also have "\<dots> = Some (ptr + (length l + 1) + length (wire ls) - 1)"
    using Cons.prems by (intro Cons.IH rd(2)) simp
  finally show ?case by simp
qed

lemma wire_end: "bytes_at rd ptr (wire ls) \<Longrightarrow> rd (ptr + length (wire ls) - 1) = 0"
proof (induction ls arbitrary: ptr)
  case (Cons l ls)
  have "rd (ptr + (length l + 1) + length (wire ls) - 1) = 0"
    by (rule Cons.IH) (use Cons.prems in simp)
  moreover have "ptr + (length l + 1) + length (wire ls) - 1 = ptr + length (wire (l # ls)) - 1" by simp
  ultimately show ?case by metis
qed simp

section \<open>Responses of a server\<close>

definition be16 :: "u16 \<Rightarrow> u8 list" where
  "be16 x = le16 (dns_htons x)"

definition be32 :: "u32 \<Rightarrow> u8 list" where
  "be32 x = rev (le32 x)"

text \<open>A record for the name of the question, and a response to a question for an address.\<close>

definition record_bytes :: "u16 \<Rightarrow> u32 \<Rightarrow> u8 list \<Rightarrow> u8 list" where
  "record_bytes ty life rdata =
     [0xC0, 0x0C] @ be16 ty @ be16 DNS_CLASS_IN @ be32 life @ be16 (of_nat (length rdata)) @ rdata"

definition response_bytes :: "u16 \<Rightarrow> u16 \<Rightarrow> u8 list list \<Rightarrow> (u16 \<times> u32 \<times> u8 list) list \<Rightarrow> u8 list" where
  "response_bytes ident flags ls rrs =
     be16 ident @ be16 flags @ be16 1 @ be16 (of_nat (length rrs)) @ be16 0 @ be16 0
     @ wire ls @ be16 DNS_TYPE_A @ be16 DNS_CLASS_IN
     @ concat (map (\<lambda>(ty, life, rdata). record_bytes ty life rdata) rrs)"

lemma dns_htons_htons [simp]: "dns_htons (dns_htons x) = x"
  by (rule bit_word_eqI) (auto simp: dns_htons_def bit_simps)

lemma length_be [simp]: "length (be16 x) = 2" "length (be32 y) = 4"
  by (simp_all add: be16_def be32_def)

lemma load_be16: "bytes_at rd i (be16 x) \<Longrightarrow> dns_htons (load16 rd i) = x"
proof -
  assume "bytes_at rd i (be16 x)"
  then have "load16 rd i = dns_htons x"
    by (intro bit_word_eqI) (auto simp: be16_def le16_def load16_def bit_simps)
  then show ?thesis by simp
qed

lemma load_le32: "bytes_at rd i (le32 w) \<Longrightarrow> load32 rd i = w"
proof -
  assume "bytes_at rd i (le32 w)"
  then have b: "rd i = ucast w" "rd (i + 1) = ucast (drop_bit 8 w)" "rd (i + 2) = ucast (drop_bit 16 w)"
    "rd (i + 3) = ucast (drop_bit 24 w)" by (simp_all add: le32_def numeral_eq_Suc)
  show ?thesis
  proof (rule bit_word_eqI)
    fix n assume "n < LENGTH(32)"
    then consider "n < 8" | "8 \<le> n" "n < 16" | "16 \<le> n" "n < 24" | "24 \<le> n" "n < 32" by force
    then show "bit (load32 rd i) n = bit w n"
      unfolding load32_def b by cases (auto simp: bit_simps)
  qed
qed

definition is_address :: "u16 \<times> u32 \<times> u8 list \<Rightarrow> bool" where
  "is_address = (\<lambda>(ty, life, rdata). ty = DNS_TYPE_A \<and> length rdata = 4)"

definition records :: "(u16 \<times> u32 \<times> u8 list) list \<Rightarrow> u8 list" where
  "records rrs = concat (map (\<lambda>(ty, life, rdata). record_bytes ty life rdata) rrs)"

lemma records_simps [simp]:
  "records [] = []" "records ((ty, life, rdata) # rrs) = record_bytes ty life rdata @ records rrs"
  by (simp_all add: records_def)

lemma length_record [simp]: "length (record_bytes ty life rdata) = 12 + length rdata"
  by (simp add: record_bytes_def)

lemma record_fields:
  assumes "bytes_at rd p (record_bytes ty life rdata)" "length rdata < 65536"
  shows "rd p = 0xC0" "rd (p + 1) = 0x0C" "dns_htons (load16 rd (p + 2)) = ty"
    "unat (dns_htons (load16 rd (p + 2 + 8))) = length rdata" "bytes_at rd (p + 12) rdata"
proof -
  have b: "bytes_at rd (p + 2) (be16 ty)" "bytes_at rd (p + 2 + 8) (be16 (of_nat (length rdata)))"
    using assms(1) by (simp_all add: record_bytes_def add.assoc numeral_eq_Suc)
  show "rd p = 0xC0" "rd (p + 1) = 0x0C" "bytes_at rd (p + 12) rdata"
    using assms(1) by (simp_all add: record_bytes_def numeral_eq_Suc)
  show "dns_htons (load16 rd (p + 2)) = ty" by (rule load_be16 [OF b(1)])
  show "unat (dns_htons (load16 rd (p + 2 + 8))) = length rdata"
    unfolding load_be16 [OF b(2)] using assms(2) by (simp add: unsigned_of_nat take_bit_nat_eq_self)
qed

lemma find_answer_first:
  assumes name: "12 < len" "bytes_at rd 12 (wire ls)" "\<forall>l \<in> set ls. label_ok l" "length (dotted ls) \<le> 255"
    and pre: "\<forall>r \<in> set pre. \<not> is_address r \<and> length (snd (snd r)) < 65536"
    and at: "bytes_at rd ptr (records pre @ record_bytes DNS_TYPE_A life (le32 w))"
    and fits: "ptr + length (records pre) + 16 \<le> len" and n: "length pre < n"
  shows "find_answer rd len n ptr = Some (Some w)"
  using pre at fits n
proof (induction pre arbitrary: ptr n)
  case Nil
  then obtain m where n: "n = Suc m" by (cases n) auto
  have "bytes_at rd ptr (record_bytes DNS_TYPE_A life (le32 w))" "length (le32 w) < 65536" using Nil by simp_all
  note f = record_fields [OF this]
  have "unat (dns_htons (load16 rd (ptr + 2 + 8))) = unat (4 :: u16)" using f(4) by simp
  then have "dns_htons (load16 rd (ptr + 2 + 8)) = 4" by (simp only: word_unat_eq_iff)
  then show ?case
    using decode_pointer [OF f(1,2) name] f(3) load_le32 [OF f(5)] Nil.prems(3)
    by (simp add: n Let_def add.commute [of ptr] add.assoc)
next
  case (Cons r pre)
  obtain ty l rdata where r: "r = (ty, l, rdata)" by (metis prod.collapse)
  obtain m where n: "n = Suc m" using Cons.prems(4) by (cases n) auto
  have "bytes_at rd ptr (record_bytes ty l rdata)" "length rdata < 65536" using Cons.prems r by simp_all
  note f = record_fields [OF this]
  have "\<not> (ty = DNS_TYPE_A \<and> dns_htons (load16 rd (ptr + 2 + 8)) = 4)"
    using Cons.prems(1) r f(4) by (auto simp: is_address_def)
  then have "find_answer rd len n ptr = find_answer rd len m (ptr + 2 + 10 + length rdata)"
    using decode_pointer [OF f(1,2) name] f(3,4) Cons.prems(3) r by (auto simp: n Let_def add.assoc)
  also have "\<dots> = Some (Some w)"
    by (rule Cons.IH) (use Cons.prems r n in \<open>simp_all add: add.commute add.left_commute\<close>)
  finally show ?case .
qed

lemma bytes_at_prefix: "bytes_at rd i (xs @ ys) \<Longrightarrow> bytes_at rd i xs"
  by simp

section \<open>Properties\<close>

text \<open>
  A host name of labels of 1 to 63 bytes, at most 255 bytes long, is encoded as its labels
  with their lengths, and decoding those bytes anywhere in a response gives the name back.
\<close>

theorem dns_name_roundtrip:
  assumes "\<forall>l \<in> set ls. label_ok l" and "length (dotted ls) \<le> 255" and "bytes_at rd ptr (wire ls)"
  shows "dns_encode_name (dotted ls) = (wire ls, True)
    \<and> dns_decode_name rd len ptr DNS_MAX_NAME = Some (Some (length (wire ls), dotted ls))"
proof -
  have "decode_loop rd len DNS_MAX_NAME ptr ptr [] None = Some (Inr (ptr + length (wire ls) - 1, after_labels [] ls, None))"
    by (rule decode_wire [OF assms(3,1)]) (simp add: after_labels_dotted assms)
  moreover have "0 < length (wire ls)" by (cases ls) simp_all
  ultimately show ?thesis
    by (simp add: dns_encode_name_def encode_wire [OF assms(1)] dns_decode_name_def after_labels_dotted assms(1))
qed

definition example_labels :: "u8 list list" where
  "example_labels = [[119, 119, 119], [97, 98]]"

definition memory_of :: "u8 list \<Rightarrow> bytes_from" where
  "memory_of bs = (\<lambda>i. if i < length bs then bs ! i else 0)"

lemma bytes_at_memory: "bytes_at (memory_of bs) 0 bs"
  unfolding bytes_at_def by (rule nth_equalityI) (simp_all add: memory_of_def)

theorem dns_name_roundtrip_witness:
  "dns_encode_name [119, 119, 119, 46, 97, 98] = ([3, 119, 119, 119, 2, 97, 98, 0], True)
    \<and> dns_decode_name (memory_of [3, 119, 119, 119, 2, 97, 98, 0]) 8 0 256 = Some (Some (8, [119, 119, 119, 46, 97, 98]))"
proof -
  have w: "wire example_labels = [3, 119, 119, 119, 2, 97, 98, 0]" "dotted example_labels = [119, 119, 119, 46, 97, 98]"
    by (simp_all add: example_labels_def)
  have l: "\<forall>l \<in> set example_labels. label_ok l" "length (dotted example_labels) \<le> 255"
    by (simp_all add: example_labels_def label_ok_def)
  from dns_name_roundtrip [OF l bytes_at_memory] show ?thesis by (simp add: w)
qed

text \<open>
  A response with the pending identifier and no error code whose first answer is named by a
  compression pointer to itself makes the handler loop for ever.
\<close>

theorem dns_self_pointer_hangs:
  assumes "12 \<le> len" and "dns_htons (load16 rd 0) = dns_pending_id d"
    and "dns_htons (load16 rd 2) AND 0x000F = 0" and "load16 rd 6 \<noteq> 0"
    and "skip_questions rd (unat (dns_htons (load16 rd 4))) 12 = Some p"
    and "rd p AND 0xC0 = 0xC0" and "push_bit 8 (unat (rd p AND 0x3F)) OR unat (rd (p + 1)) = p" and "p < len"
  shows "dns_rx_handler rd len d = None"
proof -
  have "dns_htons (load16 rd 6) \<noteq> 0" using assms(4) by (metis dns_htons_htons dns_htons_def drop_bit_of_0 or.right_neutral push_bit_of_0)
  then have n0: "unat (dns_htons (load16 rd 6)) \<noteq> 0" by (simp add: unat_eq_0)
  then obtain n where n: "unat (dns_htons (load16 rd 6)) = Suc n" using not0_implies_Suc by blast
  have "decode_loop rd len DNS_MAX_NAME p p [] None = None"
    using decode_loop_self_pointer [of rd len DNS_MAX_NAME p p "[]" None] assms(6-8)
    by (cases "decode_loop rd len DNS_MAX_NAME p p [] None") auto
  then have "find_answer rd len (Suc n) p = None" by (simp add: dns_decode_name_def)
  then have "find_answer rd len (unat (dns_htons (load16 rd 6))) p = None" by (simp only: n)
  then show ?thesis
    using assms(1-3,5) n0 by (simp add: dns_rx_handler_def Let_def)
qed

definition example_dns :: dns where
  "example_dns = \<lparr>dns_cache = [], dns_tx_id = 0x1235, dns_response_received = 0, dns_resolved_ip = 0, dns_pending_id = 0x1234\<rparr>"

theorem dns_self_pointer_hangs_witness:
  "dns_rx_handler (memory_of [0x12, 0x34, 0x81, 0x80, 0, 0, 0, 1, 0, 0, 0, 0, 0xC0, 0x0C]) 14 example_dns = None"
proof -
  let ?rd = "memory_of [0x12, 0x34, 0x81, 0x80, 0, 0, 0, 1, 0, 0, 0, 0, 0xC0, 0x0C]"
  have "dns_htons (load16 ?rd 0) = 0x1234" "dns_htons (load16 ?rd 2) AND 0x000F = 0" "load16 ?rd 6 \<noteq> 0"
    "unat (dns_htons (load16 ?rd 4)) = 0" "?rd 12 AND 0xC0 = 0xC0"
    "push_bit 8 (unat (?rd 12 AND 0x3F)) OR unat (?rd (12 + 1)) = 12" by code_simp+
  then show ?thesis
    by (intro dns_self_pointer_hangs [where p = 12]) (simp_all add: example_dns_def)
qed

text \<open>
  C39: a response to the pending query with one question of class IN, whose records all are of
  class IN and owned by the name of the question, written as the pointer C0 0C, resolves to the
  address of its first A record, whatever records of this form and other types stand before it and
  whatever records of this form stand behind it. Records with a name written out or with a pointer
  to another place are not covered, nor is a question whose name is longer than 255 bytes.
\<close>

theorem dns_answer_resolves:
  assumes "\<forall>l \<in> set ls. label_ok l" and "length (dotted ls) \<le> 255"
    and "\<forall>r \<in> set pre. \<not> is_address r \<and> length (snd (snd r)) < 65536" and "length pre + length post < 65535"
    and "flags AND 0x000F = 0"
    and "bytes_at rd 0 (response_bytes (dns_pending_id d) flags ls (pre @ (DNS_TYPE_A, life, le32 w) # post))"
    and "length (response_bytes (dns_pending_id d) flags ls (pre @ (DNS_TYPE_A, life, le32 w) # post)) \<le> len"
  shows "dns_rx_handler rd len d = Some (d\<lparr>dns_resolved_ip := w, dns_response_received := 1\<rparr>)"
proof -
  let ?rrs = "pre @ (DNS_TYPE_A, life, le32 w) # post"
  have split: "records ?rrs = records pre @ record_bytes DNS_TYPE_A life (le32 w) @ records post"
    by (simp add: records_def)
  let ?a = "12 + length (wire ls) + 4"
  have b: "bytes_at rd 0 (be16 (dns_pending_id d))" "bytes_at rd 2 (be16 flags)" "bytes_at rd 4 (be16 1)"
    "bytes_at rd 6 (be16 (of_nat (length ?rrs)))" "bytes_at rd 12 (wire ls)" "bytes_at rd ?a (records ?rrs)"
    using assms(6) unfolding response_bytes_def records_def [symmetric]
    by (simp_all add: numeral_eq_Suc)
  have ln: "?a + length (records pre) + 16 \<le> len"
    using assms(7) unfolding response_bytes_def records_def [symmetric] split by simp
  have n: "unat (dns_htons (load16 rd 6)) = length ?rrs"
    unfolding load_be16 [OF b(4)] unsigned_of_nat of_nat_id
    by (rule take_bit_nat_eq_self) (use assms(4) in simp)
  have wl: "0 < length (wire ls)" by (cases ls) simp_all
  have skip: "skip_questions rd (unat (dns_htons (load16 rd 4))) 12 = Some ?a"
    unfolding load_be16 [OF b(3)]
    using skip_wire [OF b(5) assms(1)] wire_end [OF b(5)] wl by simp
  have find: "find_answer rd len (unat (dns_htons (load16 rd 6))) ?a = Some (Some w)"
    by (rule find_answer_first [OF _ b(5) assms(1,2,3) _ ln, of life])
      (use ln b(6) split n in \<open>simp_all\<close>)
  have nz: "unat (dns_htons (load16 rd 6)) \<noteq> 0" unfolding n by simp
  show ?thesis
    using skip find nz ln load_be16 [OF b(1)] load_be16 [OF b(2)] assms(5)
    by (simp add: dns_rx_handler_def Let_def)
qed

theorem dns_answer_resolves_witness:
  "dns_rx_handler (memory_of (response_bytes 0x1234 0x8180 example_labels
      [(5, 60, [192, 12]), (1, 60, [93, 184, 216, 34]), (1, 60, [1, 2, 3, 4])])) 512 example_dns
    = Some (example_dns\<lparr>dns_resolved_ip := 0x22D8B85D, dns_response_received := 1\<rparr>)"
proof -
  let ?pre = "[(5, 60, [192, 12])] :: (u16 \<times> u32 \<times> u8 list) list" and ?post = "[(1, 60, [1, 2, 3, 4])] :: (u16 \<times> u32 \<times> u8 list) list"
  have l: "\<forall>l \<in> set example_labels. label_ok l" "length (dotted example_labels) \<le> 255"
    by (simp_all add: example_labels_def label_ok_def)
  have le: "le32 0x22D8B85D = [93, 184, 216, 34]" by (simp add: le32_def)
  have r: "(0x8180 :: u16) AND 0x000F = 0" "\<forall>r \<in> set ?pre. \<not> is_address r \<and> length (snd (snd r)) < 65536"
    by (simp_all add: is_address_def)
  have p: "dns_pending_id example_dns = 0x1234" by (simp add: example_dns_def)
  have "length (response_bytes 0x1234 0x8180 example_labels (?pre @ (1, 60, le32 0x22D8B85D) # ?post)) \<le> 512"
    by (simp add: response_bytes_def example_labels_def le)
  then show ?thesis
    using dns_answer_resolves [OF l r(2) _ r(1), where rd = "memory_of (response_bytes 0x1234 0x8180 example_labels
        (?pre @ (1, 60, le32 0x22D8B85D) # ?post))" and d = example_dns and life = 60 and w = "0x22D8B85D" and post = ?post]
    by (simp add: p bytes_at_memory le)
qed

text \<open>
  Resolving a name that cannot be encoded (an empty label, or one of more than 63 bytes)
  answers the address of the name resolved before, if that was the last thing the resolver
  did, and caches it under the bad name.
\<close>

theorem dns_bad_name_answers_last:
  assumes "\<not> snd (dns_encode_name host)" and "length (fst (dns_encode_name host)) \<le> 500"
    and "dns_cache_lookup (clock 0) host (dns_cache d) = (0, c)" and "dns_response_received d = 1"
  shows "dns_resolve clock net host d = Some (dns_resolved_ip d,
    d\<lparr>dns_cache := dns_cache_insert (clock 2) host (dns_resolved_ip d) 300 c\<rparr>, [])"
proof -
  obtain q where q: "dns_encode_name host = (q, False)" using assms(1) by (cases "dns_encode_name host") simp
  then have "dns_send_query host DNS_TYPE_A (d\<lparr>dns_cache := c\<rparr>) = Some (d\<lparr>dns_cache := c\<rparr>, None)"
    using assms(2) by (simp add: dns_send_query_def)
  then show ?thesis
    using assms(3,4) by (subst dns_resolve_def) (simp add: sent_with_def resolve_loop.simps numeral_2_eq_2)
qed

theorem dns_bad_name_answers_last_witness:
  "map_option fst (dns_resolve (\<lambda>_. 7) (\<lambda>_. []) [97, 46, 46, 98]
    (example_dns\<lparr>dns_response_received := 1, dns_resolved_ip := 0x22D8B85D\<rparr>)) = Some 0x22D8B85D"
proof -
  let ?d = "example_dns\<lparr>dns_response_received := 1, dns_resolved_ip := 0x22D8B85D\<rparr>"
  have e: "dns_encode_name [97, 46, 46, 98] = ([1, 97], False)"
    by (simp add: dns_encode_name_def encode_labels.simps)
  have "dns_cache_lookup 7 [97, 46, 46, 98] (dns_cache ?d) = (0, [])" by (simp add: example_dns_def)
  from dns_bad_name_answers_last [of "[97, 46, 46, 98]" "\<lambda>_. 7", OF _ _ this, where net = "\<lambda>_. []"]
  show ?thesis by (simp add: e)
qed

section \<open>The cache and the clock\<close>

lemma oldest_slot_bound: "oldest \<le> i \<Longrightarrow> oldest_slot es i oldest t < i + length es \<or> oldest_slot es i oldest t = oldest"
  by (induction es arbitrary: i oldest t) (auto, (metis Suc_leI add_Suc_right add_Suc_shift le_refl le_SucI lessI less_add_Suc1 linorder_not_less order.trans)+)

lemma lookup_first:
  assumes "i < length c" "cached host (c ! i)" "\<forall>j < i. \<not> cached host (c ! j)" "now - timestamp (c ! i) < ttl (c ! i) * 1000"
  shows "dns_cache_lookup now host c = (ip (c ! i), c)"
  using assms
proof (induction c arbitrary: i)
  case (Cons e es)
  show ?case
  proof (cases i)
    case 0
    then show ?thesis using Cons.prems by simp
  next
    case (Suc k)
    then have "\<not> cached host e" "\<forall>j < k. \<not> cached host (es ! j)" using Cons.prems(3) by (auto simp: less_Suc_eq_0_disj)
    then show ?thesis using Cons Suc by simp
  qed
qed simp

text \<open>
  A name of at most 255 bytes that was put into the cache is found there with its address
  until its life is over.
\<close>

theorem dns_cache_finds_inserted:
  assumes "c \<noteq> []" and "length host \<le> 255" and "now' - now < life * 1000"
  shows "fst (dns_cache_lookup now' host (dns_cache_insert now host addr life c)) = addr"
proof (cases "find (\<lambda>i. cached host (c ! i)) [0..<length c]")
  case (Some i)
  then have i: "i < length c" "cached host (c ! i)" "\<forall>j < i. \<not> cached host (c ! j)"
    by (auto simp: find_Some_iff)
  let ?c = "c[i := (c ! i)\<lparr>ip := addr, ttl := life, timestamp := now\<rparr>]"
  have "dns_cache_lookup now' host ?c = (ip (?c ! i), ?c)"
    by (rule lookup_first) (use i assms(3) in \<open>auto simp: cached_def\<close>)
  then show ?thesis using Some i(1) by (simp add: dns_cache_insert_def)
next
  case None
  then have none: "\<forall>j < length c. \<not> cached host (c ! j)" by (auto simp: find_None_iff)
  let ?i = "oldest_slot c 0 0 0xFFFFFFFF"
  have i: "?i < length c" using oldest_slot_bound [of 0 0 c "0xFFFFFFFF"] assms(1) by auto
  let ?c = "c[?i := \<lparr>name = take 255 host, ip = addr, ttl = life, timestamp = now, valid = True\<rparr>]"
  have "dns_cache_lookup now' host ?c = (ip (?c ! ?i), ?c)"
    by (rule lookup_first) (use i none assms(2,3) in \<open>auto simp: cached_def\<close>)
  then show ?thesis using None i by (simp add: dns_cache_insert_def)
qed

theorem dns_cache_finds_inserted_witness:
  "fst (dns_cache_lookup 299999 [97] (dns_cache_insert 0 [97] 5 300
     [\<lparr>name = [98], ip = 1, ttl = 300, timestamp = 0, valid = True\<rparr>])) = 5"
  by (rule dns_cache_finds_inserted) simp_all







end
