(* ===== verification/PthreadMutex.thy ===== *)
theory PthreadMutex
  imports Prelude
begin

text \<open>
  The mutexes and spin locks of \<^verbatim>\<open>kernel/pthread.cpp\<close>. A pointer is an option, \<open>None\<close> the null
  pointer. A thread may be interrupted anywhere, so the calls are split into the accesses to
  the shared mutex: a program counter names the next access, \<open>mutex_step\<close> performs it. Then
  the calls of any number of threads in any interleaving.
\<close>

abbreviation (input) EPERM :: int where "EPERM \<equiv> 1"
abbreviation (input) EBUSY :: int where "EBUSY \<equiv> 16"
abbreviation (input) EINVAL :: int where "EINVAL \<equiv> 22"
abbreviation (input) EDEADLK :: int where "EDEADLK \<equiv> 35"

abbreviation (input) PTHREAD_MUTEX_NORMAL :: int where "PTHREAD_MUTEX_NORMAL \<equiv> 0"
abbreviation (input) PTHREAD_MUTEX_ERRORCHECK :: int where "PTHREAD_MUTEX_ERRORCHECK \<equiv> 1"
abbreviation (input) PTHREAD_MUTEX_RECURSIVE :: int where "PTHREAD_MUTEX_RECURSIVE \<equiv> 2"

section \<open>Mutexes\<close>

record pthread_mutex =
  locked :: int
  owner :: u32
  mutex_type :: int
  recursive_count :: int

record pthread_mutexattr =
  attr_type :: int
  pshared :: int
  protocol :: int
  prioceiling :: int
  robust :: int

definition pthread_mutexattr_init :: "pthread_mutexattr option \<Rightarrow> int \<times> pthread_mutexattr option" where
  "pthread_mutexattr_init a = (case a of None \<Rightarrow> (EINVAL, None)
     | Some _ \<Rightarrow> (0, Some \<lparr>attr_type = PTHREAD_MUTEX_NORMAL, pshared = 0, protocol = 0, prioceiling = 0, robust = 0\<rparr>))"

definition pthread_mutexattr_destroy :: "pthread_mutexattr option \<Rightarrow> int" where
  "pthread_mutexattr_destroy a = (if a = None then EINVAL else 0)"

definition pthread_mutexattr_settype :: "pthread_mutexattr option \<Rightarrow> int \<Rightarrow> int \<times> pthread_mutexattr option" where
  "pthread_mutexattr_settype a ty = (case a of None \<Rightarrow> (EINVAL, None)
     | Some x \<Rightarrow> if ty < 0 \<or> ty > PTHREAD_MUTEX_RECURSIVE then (EINVAL, Some x) else (0, Some (x\<lparr>attr_type := ty\<rparr>)))"

definition pthread_mutexattr_gettype :: "pthread_mutexattr option \<Rightarrow> int option \<Rightarrow> int \<times> int option" where
  "pthread_mutexattr_gettype a ty = (case (a, ty) of (Some x, Some _) \<Rightarrow> (0, Some (attr_type x)) | _ \<Rightarrow> (EINVAL, ty))"

definition atomic_cas :: "int \<Rightarrow> int \<Rightarrow> int \<Rightarrow> bool \<times> int" where
  "atomic_cas v expected desired = (if v = expected then (True, desired) else (False, v))"

definition new_mutex :: "pthread_mutexattr option \<Rightarrow> pthread_mutex" where
  "new_mutex attr = \<lparr>locked = 0, owner = 0,
     mutex_type = (case attr of Some a \<Rightarrow> attr_type a | None \<Rightarrow> PTHREAD_MUTEX_NORMAL), recursive_count = 0\<rparr>"

definition pthread_mutex_init :: "pthread_mutex option \<Rightarrow> pthread_mutexattr option \<Rightarrow> int \<times> pthread_mutex option" where
  "pthread_mutex_init m attr = (case m of None \<Rightarrow> (EINVAL, None) | Some _ \<Rightarrow> (0, Some (new_mutex attr)))"

definition pthread_mutex_destroy :: "pthread_mutex option \<Rightarrow> int" where
  "pthread_mutex_destroy m = (case m of None \<Rightarrow> EINVAL | Some x \<Rightarrow> if locked x \<noteq> 0 then EBUSY else 0)"

text \<open>Where a call is; \<open>Returned\<close> is between calls, with the last result.\<close>

datatype mutex_pc = Returned int
  | Lock_Entry | Lock_Recurse | Lock_Spin | Lock_Owner | Lock_Count
  | Try_Entry | Try_Cas
  | Unlock_Entry | Unlock_Recurse | Unlock_Owner | Unlock_Free

definition lock_step :: "u32 \<Rightarrow> mutex_pc \<Rightarrow> pthread_mutex \<Rightarrow> mutex_pc \<times> pthread_mutex" where
  "lock_step self pc m = (case pc of
       Lock_Entry \<Rightarrow>
         if mutex_type m = PTHREAD_MUTEX_RECURSIVE \<and> owner m = self then (Lock_Recurse, m)
         else if mutex_type m = PTHREAD_MUTEX_ERRORCHECK \<and> owner m = self then (Returned EDEADLK, m)
         else (Lock_Spin, m)
     | Lock_Recurse \<Rightarrow> (Returned 0, m\<lparr>recursive_count := recursive_count m + 1\<rparr>)
     | Lock_Spin \<Rightarrow> (let (ok, v) = atomic_cas (locked m) 0 1
                     in (if ok then Lock_Owner else Lock_Spin, m\<lparr>locked := v\<rparr>))
     | Lock_Owner \<Rightarrow> (Lock_Count, m\<lparr>owner := self\<rparr>)
     | Lock_Count \<Rightarrow> (Returned 0, m\<lparr>recursive_count := 1\<rparr>)
     | _ \<Rightarrow> (pc, m))"

definition trylock_step :: "u32 \<Rightarrow> mutex_pc \<Rightarrow> pthread_mutex \<Rightarrow> mutex_pc \<times> pthread_mutex" where
  "trylock_step self pc m = (case pc of
       Try_Entry \<Rightarrow>
         if mutex_type m = PTHREAD_MUTEX_RECURSIVE \<and> owner m = self then (Lock_Recurse, m) else (Try_Cas, m)
     | Try_Cas \<Rightarrow> (let (ok, v) = atomic_cas (locked m) 0 1
                   in (if ok then Lock_Owner else Returned EBUSY, m\<lparr>locked := v\<rparr>))
     | _ \<Rightarrow> (pc, m))"

definition unlock_step :: "u32 \<Rightarrow> mutex_pc \<Rightarrow> pthread_mutex \<Rightarrow> mutex_pc \<times> pthread_mutex" where
  "unlock_step self pc m = (case pc of
       Unlock_Entry \<Rightarrow>
         if mutex_type m = PTHREAD_MUTEX_ERRORCHECK \<and> owner m \<noteq> self then (Returned EPERM, m)
         else if mutex_type m = PTHREAD_MUTEX_RECURSIVE
         then if owner m \<noteq> self then (Returned EPERM, m) else (Unlock_Recurse, m)
         else (Unlock_Owner, m)
     | Unlock_Recurse \<Rightarrow>
         let n = recursive_count m - 1
         in (if n > 0 then Returned 0 else Unlock_Owner, m\<lparr>recursive_count := n\<rparr>)
     | Unlock_Owner \<Rightarrow> (Unlock_Free, m\<lparr>owner := 0\<rparr>)
     | Unlock_Free \<Rightarrow> (Returned 0, m\<lparr>locked := 0\<rparr>)
     | _ \<Rightarrow> (pc, m))"

definition mutex_step :: "u32 \<Rightarrow> mutex_pc \<Rightarrow> pthread_mutex \<Rightarrow> mutex_pc \<times> pthread_mutex" where
  "mutex_step self pc m =
     (if pc \<in> {Try_Entry, Try_Cas} then trylock_step self pc m
      else if pc \<in> {Unlock_Entry, Unlock_Recurse, Unlock_Owner, Unlock_Free} then unlock_step self pc m
      else lock_step self pc m)"

text \<open>A call that nobody interrupts; \<open>None\<close> when it spins for ever.\<close>

partial_function (option) run_call :: "u32 \<Rightarrow> mutex_pc \<Rightarrow> pthread_mutex \<Rightarrow> (int \<times> pthread_mutex) option" where
  "run_call self pc m =
     (case pc of Returned r \<Rightarrow> Some (r, m) | _ \<Rightarrow> (case mutex_step self pc m of (pc', m') \<Rightarrow> run_call self pc' m'))"

definition mutex_call :: "u32 \<Rightarrow> mutex_pc \<Rightarrow> pthread_mutex option \<Rightarrow> (int \<times> pthread_mutex option) option" where
  "mutex_call self pc m = (case m of None \<Rightarrow> Some (EINVAL, None)
     | Some x \<Rightarrow> map_option (\<lambda>(r, y). (r, Some y)) (run_call self pc x))"

definition pthread_mutex_lock :: "u32 \<Rightarrow> pthread_mutex option \<Rightarrow> (int \<times> pthread_mutex option) option" where
  "pthread_mutex_lock self m = mutex_call self Lock_Entry m"

definition pthread_mutex_trylock :: "u32 \<Rightarrow> pthread_mutex option \<Rightarrow> (int \<times> pthread_mutex option) option" where
  "pthread_mutex_trylock self m = mutex_call self Try_Entry m"

definition pthread_mutex_unlock :: "u32 \<Rightarrow> pthread_mutex option \<Rightarrow> (int \<times> pthread_mutex option) option" where
  "pthread_mutex_unlock self m = mutex_call self Unlock_Entry m"

definition pthread_mutex_timedlock :: "u32 \<Rightarrow> pthread_mutex option \<Rightarrow> 'timeout \<Rightarrow> (int \<times> pthread_mutex option) option" where
  "pthread_mutex_timedlock self m abstime = pthread_mutex_lock self m"

section \<open>Spin locks\<close>

definition pthread_spin_init :: "int option \<Rightarrow> int \<Rightarrow> int \<times> int option" where
  "pthread_spin_init l shared = (case l of None \<Rightarrow> (EINVAL, None) | Some _ \<Rightarrow> (0, Some 0))"

definition pthread_spin_destroy :: "int option \<Rightarrow> int" where
  "pthread_spin_destroy l = (if l = None then EINVAL else 0)"

text \<open>One round of the loop of \<^verbatim>\<open>pthread_spin_lock\<close>; without a result it spins.\<close>

definition pthread_spin_lock :: "int option \<Rightarrow> int option \<times> int option" where
  "pthread_spin_lock l = (case l of None \<Rightarrow> (Some EINVAL, None)
     | Some v \<Rightarrow> let (ok, w) = atomic_cas v 0 1 in (if ok then Some 0 else None, Some w))"

definition pthread_spin_trylock :: "int option \<Rightarrow> int \<times> int option" where
  "pthread_spin_trylock l = (case l of None \<Rightarrow> (EINVAL, None)
     | Some v \<Rightarrow> let (ok, w) = atomic_cas v 0 1 in (if ok then 0 else EBUSY, Some w))"

definition pthread_spin_unlock :: "int option \<Rightarrow> int \<times> int option" where
  "pthread_spin_unlock l = (case l of None \<Rightarrow> (EINVAL, None) | Some _ \<Rightarrow> (0, Some 0))"

section \<open>Any number of threads\<close>

text \<open>
  The mutex, where each thread is, and (ghost) how often each thread holds the mutex: its
  successful locks less its successful unlocks. A thread unlocks only what it holds.
\<close>

record mutex_sys =
  ms_mutex :: pthread_mutex
  ms_pc :: "u32 \<Rightarrow> mutex_pc"
  ms_held :: "u32 \<Rightarrow> nat"

definition held_after :: "mutex_pc \<Rightarrow> mutex_pc \<Rightarrow> nat \<Rightarrow> nat" where
  "held_after pc pc' n =
     (if pc' \<noteq> Returned 0 then n
      else if pc \<in> {Lock_Recurse, Lock_Count} then Suc n
      else if pc \<in> {Unlock_Recurse, Unlock_Free} then n - 1 else n)"

definition thread_step :: "u32 \<Rightarrow> mutex_sys \<Rightarrow> mutex_sys" where
  "thread_step t s =
     (let pc = ms_pc s t; (pc', m) = mutex_step t pc (ms_mutex s)
      in \<lparr>ms_mutex = m, ms_pc = (ms_pc s)(t := pc'), ms_held = (ms_held s)(t := held_after pc pc' (ms_held s t))\<rparr>)"

definition idle :: "mutex_sys \<Rightarrow> u32 \<Rightarrow> bool" where
  "idle s t \<longleftrightarrow> (case ms_pc s t of Returned _ \<Rightarrow> True | _ \<Rightarrow> False)"

inductive mutex_reach :: "u32 set \<Rightarrow> pthread_mutexattr option \<Rightarrow> mutex_sys \<Rightarrow> bool" for T attr where
  start: "mutex_reach T attr \<lparr>ms_mutex = new_mutex attr, ms_pc = (\<lambda>_. Returned 0), ms_held = (\<lambda>_. 0)\<rparr>"
| call: "mutex_reach T attr s \<Longrightarrow> t \<in> T \<Longrightarrow> idle s t \<Longrightarrow>
    pc \<in> {Lock_Entry, Try_Entry} \<or> pc = Unlock_Entry \<and> ms_held s t > 0 \<Longrightarrow>
    mutex_reach T attr (s\<lparr>ms_pc := (ms_pc s)(t := pc)\<rparr>)"
| access: "mutex_reach T attr s \<Longrightarrow> t \<in> T \<Longrightarrow> mutex_reach T attr (thread_step t s)"

text \<open>A thread is inside from its successful compare-and-swap to the store that frees the lock.\<close>

definition inside :: "mutex_sys \<Rightarrow> u32 \<Rightarrow> bool" where
  "inside s t \<longleftrightarrow> ms_held s t > 0 \<or> ms_pc s t \<in> {Lock_Owner, Lock_Count}"

definition inside_ok :: "mutex_sys \<Rightarrow> u32 \<Rightarrow> bool" where
  "inside_ok s t \<longleftrightarrow>
     owner (ms_mutex s) = (if ms_pc s t \<in> {Lock_Owner, Unlock_Free} then 0 else t) \<and>
     (ms_pc s t \<in> {Lock_Owner, Lock_Count} \<longrightarrow> ms_held s t = 0) \<and>
     (mutex_type (ms_mutex s) \<noteq> PTHREAD_MUTEX_RECURSIVE \<longrightarrow> ms_held s t \<le> 1) \<and>
     (mutex_type (ms_mutex s) = PTHREAD_MUTEX_RECURSIVE \<longrightarrow>
        (if ms_pc s t \<in> {Unlock_Owner, Unlock_Free} then ms_held s t = 1
         else ms_pc s t \<notin> {Lock_Owner, Lock_Count} \<longrightarrow> recursive_count (ms_mutex s) = int (ms_held s t)))"

definition pc_ok :: "mutex_sys \<Rightarrow> u32 \<Rightarrow> bool" where
  "pc_ok s t \<longleftrightarrow>
     (ms_pc s t \<in> {Lock_Recurse, Unlock_Entry, Unlock_Recurse, Unlock_Owner, Unlock_Free} \<longrightarrow> ms_held s t > 0) \<and>
     (ms_pc s t \<in> {Lock_Recurse, Unlock_Recurse} \<longrightarrow> mutex_type (ms_mutex s) = PTHREAD_MUTEX_RECURSIVE)"


section \<open>The invariant\<close>

lemmas step_defs = thread_step_def mutex_step_def lock_step_def trylock_step_def unlock_step_def atomic_cas_def
  held_after_def inside_def inside_ok_def pc_ok_def Let_def






section \<open>Properties\<close>


text \<open>Three steps of thread 7 after its call of lock, and the identifier 0 as it is.\<close>

fun thread_steps :: "nat \<Rightarrow> u32 \<Rightarrow> mutex_sys \<Rightarrow> mutex_sys" where
  "thread_steps 0 t s = s"
| "thread_steps (Suc n) t s = thread_steps n t (thread_step t s)"

lemma thread_steps_reach:
  "mutex_reach T attr s \<Longrightarrow> t \<in> T \<Longrightarrow> mutex_reach T attr (thread_steps n t s)"
  by (induction n arbitrary: s) (auto intro: mutex_reach.access)

definition start_sys :: "pthread_mutexattr option \<Rightarrow> mutex_sys" where
  "start_sys attr = \<lparr>ms_mutex = new_mutex attr, ms_pc = (\<lambda>_. Returned 0), ms_held = (\<lambda>_. 0)\<rparr>"

definition lock_by :: "u32 \<Rightarrow> nat \<Rightarrow> mutex_sys \<Rightarrow> mutex_sys" where
  "lock_by t n s = thread_steps n t (s\<lparr>ms_pc := (ms_pc s)(t := Lock_Entry)\<rparr>)"

lemma lock_by_reach:
  "mutex_reach T attr s \<Longrightarrow> t \<in> T \<Longrightarrow> idle s t \<Longrightarrow> mutex_reach T attr (lock_by t n s)"
  unfolding lock_by_def by (intro thread_steps_reach mutex_reach.call) simp_all


text \<open>
  A recursive mutex that is free takes the thread with identifier 0 for its owner (the owner
  field of a free mutex is 0): its lock call counts and returns 0 without locking, and another
  thread can lock the mutex as well.
\<close>

theorem recursive_mutex_fails_for_thread_0:
  assumes "t \<noteq> 0" and "attr_type a = PTHREAD_MUTEX_RECURSIVE"
  shows "\<exists>s. mutex_reach {0, t} (Some a) s \<and> idle s 0 \<and> idle s t \<and> ms_held s 0 > 0 \<and> ms_held s t > 0"
proof -
  let ?s1 = "lock_by 0 2 (start_sys (Some a))"
  let ?s2 = "lock_by t 4 ?s1"
  have r1: "mutex_reach {0, t} (Some a) ?s1"
    by (rule lock_by_reach [OF mutex_reach.start [folded start_sys_def]]) (simp_all add: idle_def start_sys_def)
  have s1: "ms_held ?s1 0 = 1" "ms_held ?s1 t = 0" "ms_pc ?s1 0 = Returned 0" "ms_pc ?s1 t = Returned 0"
    "locked (ms_mutex ?s1) = 0" "owner (ms_mutex ?s1) = 0"
    using assms by (simp_all add: lock_by_def start_sys_def new_mutex_def step_defs numeral_eq_Suc)
  then have r2: "mutex_reach {0, t} (Some a) ?s2"
    by (intro lock_by_reach [OF r1]) (simp_all add: idle_def)
  have "ms_held ?s2 0 = 1" "ms_held ?s2 t = 1" "idle ?s2 0" "idle ?s2 t"
    using assms s1 by (simp_all add: lock_by_def [of t] step_defs idle_def numeral_eq_Suc)
  with r2 show ?thesis by (intro exI [of _ ?s2]) simp
qed

theorem recursive_mutex_fails_for_thread_0_witness:
  "\<exists>s. mutex_reach {0, 5} (Some \<lparr>attr_type = 2, pshared = 0, protocol = 0, prioceiling = 0, robust = 0\<rparr>) s
    \<and> ms_held s 0 > 0 \<and> ms_held s 5 > 0"
  using recursive_mutex_fails_for_thread_0 [of 5 "\<lparr>attr_type = 2, pshared = 0, protocol = 0, prioceiling = 0, robust = 0\<rparr>"]
  by auto

end
