(* ===== verification/PthreadSync.thy ===== *)
theory PthreadSync
  imports PthreadMutex
begin

text \<open>
  Condition variables, read-write locks, barriers and one-time initialisation of
  \<^verbatim>\<open>kernel/pthread.cpp\<close>. What a call does between taking and releasing the mutex of its object
  is one step (by \<open>mutex_excludes\<close> no other thread is inside), and a call that waits is cut
  where it calls the scheduler.
\<close>

section \<open>Condition variables\<close>

text \<open>\<open>cond_mutex\<close> is the address of the mutex of the last waiter.\<close>

record pthread_cond =
  waiters :: int
  signal_count :: int
  cond_mutex :: u32

definition new_cond :: pthread_cond where
  "new_cond = \<lparr>waiters = 0, signal_count = 0, cond_mutex = 0\<rparr>"

definition pthread_cond_init :: "pthread_cond option \<Rightarrow> int \<times> pthread_cond option" where
  "pthread_cond_init c = (case c of None \<Rightarrow> (EINVAL, None) | Some _ \<Rightarrow> (0, Some new_cond))"

definition pthread_cond_destroy :: "pthread_cond option \<Rightarrow> int" where
  "pthread_cond_destroy c = (case c of None \<Rightarrow> EINVAL | Some x \<Rightarrow> if waiters x > 0 then EBUSY else 0)"

text \<open>
  \<^verbatim>\<open>pthread_cond_wait\<close>: up to the release of the mutex (with the value of \<open>my_signal\<close>), the test of
  its loop, and the store behind the loop, which happens before the mutex is taken again and
  stores what was read into \<open>w\<close> a moment earlier, less 1.
\<close>

definition cond_wait_begin :: "u32 \<Rightarrow> pthread_cond \<Rightarrow> int \<times> pthread_cond" where
  "cond_wait_begin mutex c = (signal_count c, c\<lparr>cond_mutex := mutex, waiters := waiters c + 1\<rparr>)"

definition cond_wait_over :: "int \<Rightarrow> pthread_cond \<Rightarrow> bool" where
  "cond_wait_over my_signal c \<longleftrightarrow> signal_count c \<noteq> my_signal"

definition cond_wait_end :: "int \<Rightarrow> pthread_cond \<Rightarrow> pthread_cond" where
  "cond_wait_end w c = c\<lparr>waiters := w - 1\<rparr>"

definition cond_signal :: "pthread_cond \<Rightarrow> pthread_cond" where
  "cond_signal c = (if waiters c > 0 then c\<lparr>signal_count := signal_count c + 1\<rparr> else c)"

definition cond_broadcast :: "pthread_cond \<Rightarrow> pthread_cond" where
  "cond_broadcast c = c\<lparr>signal_count := signal_count c + waiters c\<rparr>"

definition pthread_cond_signal :: "pthread_cond option \<Rightarrow> int \<times> pthread_cond option" where
  "pthread_cond_signal c = (case c of None \<Rightarrow> (EINVAL, None) | Some x \<Rightarrow> (0, Some (cond_signal x)))"

definition pthread_cond_broadcast :: "pthread_cond option \<Rightarrow> int \<times> pthread_cond option" where
  "pthread_cond_broadcast c = (case c of None \<Rightarrow> (EINVAL, None) | Some x \<Rightarrow> (0, Some (cond_broadcast x)))"

record pthread_condattr =
  cond_pshared :: int
  cond_clock :: int

definition pthread_condattr_init :: "pthread_condattr option \<Rightarrow> int \<times> pthread_condattr option" where
  "pthread_condattr_init a = (case a of None \<Rightarrow> (EINVAL, None) | Some _ \<Rightarrow> (0, Some \<lparr>cond_pshared = 0, cond_clock = 0\<rparr>))"

definition pthread_condattr_destroy :: "pthread_condattr option \<Rightarrow> int" where
  "pthread_condattr_destroy a = (if a = None then EINVAL else 0)"

section \<open>Read-write locks\<close>

record pthread_rwlock =
  readers :: int
  writers :: int
  write_waiters :: int
  write_owner :: u32
  rw_lock :: pthread_mutex

definition new_rwlock :: pthread_rwlock where
  "new_rwlock = \<lparr>readers = 0, writers = 0, write_waiters = 0, write_owner = 0, rw_lock = new_mutex None\<rparr>"

definition pthread_rwlock_init :: "pthread_rwlock option \<Rightarrow> int \<times> pthread_rwlock option" where
  "pthread_rwlock_init l = (case l of None \<Rightarrow> (EINVAL, None) | Some _ \<Rightarrow> (0, Some new_rwlock))"

definition pthread_rwlock_destroy :: "pthread_rwlock option \<Rightarrow> int" where
  "pthread_rwlock_destroy l = (case l of None \<Rightarrow> EINVAL | Some x \<Rightarrow> if readers x > 0 \<or> writers x > 0 then EBUSY else 0)"

text \<open>A round of the loop of \<^verbatim>\<open>pthread_rwlock_rdlock\<close>; without a result it waits.\<close>

definition rdlock_round :: "pthread_rwlock \<Rightarrow> pthread_rwlock option" where
  "rdlock_round l = (if writers l > 0 \<or> write_waiters l > 0 then None else Some (l\<lparr>readers := readers l + 1\<rparr>))"

definition wrlock_begin :: "pthread_rwlock \<Rightarrow> pthread_rwlock" where
  "wrlock_begin l = l\<lparr>write_waiters := write_waiters l + 1\<rparr>"

definition wrlock_round :: "u32 \<Rightarrow> pthread_rwlock \<Rightarrow> pthread_rwlock option" where
  "wrlock_round self l =
     (if readers l > 0 \<or> writers l > 0 then None
      else Some (l\<lparr>write_waiters := write_waiters l - 1, writers := writers l + 1, write_owner := self\<rparr>))"

text \<open>The calls that do not wait; \<open>free\<close> says whether the inner mutex could be taken.\<close>

definition tryrdlock_section :: "bool \<Rightarrow> pthread_rwlock \<Rightarrow> int \<times> pthread_rwlock" where
  "tryrdlock_section free l =
     (if \<not> free then (EBUSY, l)
      else if writers l > 0 \<or> write_waiters l > 0 then (EBUSY, l) else (0, l\<lparr>readers := readers l + 1\<rparr>))"

definition trywrlock_section :: "u32 \<Rightarrow> bool \<Rightarrow> pthread_rwlock \<Rightarrow> int \<times> pthread_rwlock" where
  "trywrlock_section self free l =
     (if \<not> free then (EBUSY, l)
      else if readers l > 0 \<or> writers l > 0 then (EBUSY, l)
      else (0, l\<lparr>writers := writers l + 1, write_owner := self\<rparr>))"

definition pthread_rwlock_tryrdlock :: "bool \<Rightarrow> pthread_rwlock option \<Rightarrow> int \<times> pthread_rwlock option" where
  "pthread_rwlock_tryrdlock free l = (case l of None \<Rightarrow> (EINVAL, None) | Some x \<Rightarrow> map_prod (\<lambda>r. r) Some (tryrdlock_section free x))"

definition pthread_rwlock_trywrlock :: "u32 \<Rightarrow> bool \<Rightarrow> pthread_rwlock option \<Rightarrow> int \<times> pthread_rwlock option" where
  "pthread_rwlock_trywrlock self free l =
     (case l of None \<Rightarrow> (EINVAL, None) | Some x \<Rightarrow> map_prod (\<lambda>r. r) Some (trywrlock_section self free x))"

definition rwlock_unlock :: "pthread_rwlock \<Rightarrow> pthread_rwlock" where
  "rwlock_unlock l =
     (if writers l > 0 then l\<lparr>writers := writers l + 1, write_owner := 0\<rparr>
      else if readers l > 0 then l\<lparr>readers := readers l - 1\<rparr> else l)"

definition pthread_rwlock_unlock :: "pthread_rwlock option \<Rightarrow> int \<times> pthread_rwlock option" where
  "pthread_rwlock_unlock l = (case l of None \<Rightarrow> (EINVAL, None) | Some x \<Rightarrow> (0, Some (rwlock_unlock x)))"

text \<open>The lock with its threads: what each of them waits for or holds.\<close>

datatype rw_client = Outside | Wants_Read | Wants_Write | Reading | Writing

type_synonym rw_sys = "pthread_rwlock \<times> (u32 \<Rightarrow> rw_client)"

inductive rw_step :: "rw_sys \<Rightarrow> rw_sys \<Rightarrow> bool" where
  ask_read: "c t = Outside \<Longrightarrow> rw_step (l, c) (l, c(t := Wants_Read))"
| take_read: "c t = Wants_Read \<Longrightarrow> rdlock_round l = Some l' \<Longrightarrow> rw_step (l, c) (l', c(t := Reading))"
| ask_write: "c t = Outside \<Longrightarrow> rw_step (l, c) (wrlock_begin l, c(t := Wants_Write))"
| take_write: "c t = Wants_Write \<Longrightarrow> wrlock_round t l = Some l' \<Longrightarrow> rw_step (l, c) (l', c(t := Writing))"
| try_read: "c t = Outside \<Longrightarrow> tryrdlock_section free l = (0, l') \<Longrightarrow> rw_step (l, c) (l', c(t := Reading))"
| try_write: "c t = Outside \<Longrightarrow> trywrlock_section t free l = (0, l') \<Longrightarrow> rw_step (l, c) (l', c(t := Writing))"
| unlock: "c t = Reading \<or> c t = Writing \<Longrightarrow> rw_step (l, c) (rwlock_unlock l, c(t := Outside))"

inductive_cases rw_stepE: "rw_step (l, c) s'"

definition rw_start :: rw_sys where
  "rw_start = (new_rwlock, \<lambda>_. Outside)"

definition count :: "(u32 \<Rightarrow> rw_client) \<Rightarrow> rw_client \<Rightarrow> nat" where
  "count c w = card {t. c t = w}"

text \<open>Who holds the lock, by the counters of the lock.\<close>

definition rw_inv :: "rw_sys \<Rightarrow> bool" where
  "rw_inv s \<longleftrightarrow> (case s of (l, c) \<Rightarrow>
     readers l = int (count c Reading) \<and> write_waiters l = int (count c Wants_Write) \<and>
     (writers l = 0 \<and> count c Writing = 0 \<or>
      writers l = 1 \<and> count c Writing = 1 \<and> count c Reading = 0 \<or>
      writers l \<ge> 2 \<and> count c Writing = 0 \<and> count c Reading = 0))"

lemma count_update:
  "count (c(t := v)) w =
    (if v = w then (if c t = w then count c w else Suc (count c w))
     else if c t = w then count c w - 1 else count c w)"
proof -
  have "{u. (c(t := v)) u = w} = (if v = w then insert t {u. c u = w} else {u. c u = w} - {t})" by auto
  then show ?thesis by (simp add: count_def card_insert_if card_Diff_singleton_if)
qed

lemma count_pos: "c t = w \<Longrightarrow> count c w > 0"
  by (auto simp: count_def card_gt_0_iff)

lemma count_one: "count c w = 1 \<Longrightarrow> c t = w \<Longrightarrow> c t' = w \<Longrightarrow> t = t'"
  using card_1_singletonE [of "{t. c t = w}"] unfolding count_def by (metis (mono_tags, lifting) mem_Collect_eq singletonD)

lemma rw_step_inv:
  assumes "rw_step (l, c) s'" "rw_inv (l, c)"
  shows "rw_inv s'"
  using assms
proof (cases rule: rw_step.cases)
  case (ask_read t)
  then show ?thesis using assms(2) by (simp add: rw_inv_def count_update)
next
  case (take_read t l')
  then show ?thesis using assms(2)
    by (auto simp: rw_inv_def count_update rdlock_round_def split: if_splits)
next
  case (ask_write t)
  then show ?thesis using assms(2)
    by (simp add: rw_inv_def count_update wrlock_begin_def)
next
  case (take_write t l')
  with count_pos [of c t Wants_Write] show ?thesis using assms(2)
    by (auto simp: rw_inv_def count_update wrlock_round_def split: if_splits)
next
  case (try_read t free l')
  then show ?thesis using assms(2)
    by (auto simp: rw_inv_def count_update tryrdlock_section_def split: if_splits)
next
  case (try_write t free l')
  then show ?thesis using assms(2)
    by (auto simp: rw_inv_def count_update trywrlock_section_def split: if_splits)
next
  case (unlock t)
  with count_pos [of c t Reading] count_pos [of c t Writing] show ?thesis using assms(2)
    by (auto simp: rw_inv_def count_update rwlock_unlock_def)
qed

lemma rw_start_inv: "rw_inv rw_start"
  by (simp add: rw_inv_def rw_start_def count_def new_rwlock_def)

lemma rw_reach_inv: "rw_step\<^sup>*\<^sup>* rw_start s \<Longrightarrow> rw_inv s"
proof (induction rule: rtranclp_induct)
  case base
  show ?case by (rule rw_start_inv)
next
  case (step s s')
  then show ?case using rw_step_inv by (cases s) blast
qed

text \<open>
  C29: In every run of \<^verbatim>\<open>pthread_rwlock_rdlock\<close>, \<^verbatim>\<open>wrlock\<close>, the two try calls and \<^verbatim>\<open>unlock\<close> by any number of
  threads from a new lock, while a thread has the lock for writing no other thread has it, neither
  for writing nor for reading, and the counter of readers is the number of threads that read.
\<close>

theorem rwlock_excludes:
  assumes "rw_step\<^sup>*\<^sup>* rw_start (l, c)"
  shows "readers l = int (count c Reading) \<and>
    (\<forall>t t'. c t = Writing \<and> t' \<noteq> t \<longrightarrow> c t' \<noteq> Writing \<and> c t' \<noteq> Reading)"
proof -
  have inv: "rw_inv (l, c)" using assms by (rule rw_reach_inv)
  have "c t' \<noteq> Writing \<and> c t' \<noteq> Reading" if "c t = Writing" "t' \<noteq> t" for t t'
    using that inv count_pos [of c t Writing] count_pos [of c t' Reading] count_one [of c Writing t t']
    by (auto simp: rw_inv_def)
  with inv show ?thesis by (auto simp: rw_inv_def)
qed

lemma first_write: "rw_step\<^sup>*\<^sup>* rw_start (new_rwlock\<lparr>writers := 1, write_owner := t\<rparr>, (\<lambda>_. Outside)(t := Writing))"
  unfolding rw_start_def
  by (rule r_into_rtranclp, rule rw_step.try_write [where free = True])
    (simp_all add: trywrlock_section_def new_rwlock_def)

theorem rwlock_excludes_witness:
  "((\<lambda>_. Outside)(7 := Writing)) 8 \<noteq> Reading"
  using rwlock_excludes [OF first_write [of 7]] by auto

section \<open>The lock after a write\<close>

lemma rw_lost_step:
  assumes "rw_step (l, c) (l', c')" "writers l \<ge> 2" "\<forall>t. c t \<noteq> Writing \<and> c t \<noteq> Reading"
  shows "writers l' \<ge> 2 \<and> (\<forall>t. c' t \<noteq> Writing \<and> c' t \<noteq> Reading)"
  using assms
  by (cases rule: rw_step.cases)
    (auto simp: rdlock_round_def wrlock_begin_def wrlock_round_def tryrdlock_section_def
      trywrlock_section_def split: if_splits)

lemma rw_lost_reach:
  assumes "rw_step\<^sup>*\<^sup>* s s'" "writers (fst s) \<ge> 2" "\<forall>t. snd s t \<noteq> Writing \<and> snd s t \<noteq> Reading"
  shows "writers (fst s') \<ge> 2 \<and> (\<forall>t. snd s' t \<noteq> Writing \<and> snd s' t \<noteq> Reading)"
  using assms
proof (induction rule: rtranclp_induct)
  case base
  then show ?case by simp
next
  case (step s1 s2)
  then show ?case using rw_lost_step [of "fst s1" "snd s1" "fst s2" "snd s2"] by simp
qed

text \<open>
  C30: \<^verbatim>\<open>pthread_rwlock_unlock\<close> counts a writer up where it should count it down: after the first
  unlock of a writer, in no continuation of the run does any thread get the lock again, whatever the
  threads ask for.
\<close>

theorem rwlock_lost_after_write:
  assumes "rw_step\<^sup>*\<^sup>* rw_start (l, c)" "c t = Writing" "rw_step\<^sup>*\<^sup>* (rwlock_unlock l, c(t := Outside)) (l', c')"
  shows "c' u \<noteq> Writing \<and> c' u \<noteq> Reading"
proof -
  have "rw_step (l, c) (rwlock_unlock l, c(t := Outside))" by (rule rw_step.unlock) (simp add: assms(2))
  with assms(1) have "rw_inv (rwlock_unlock l, c(t := Outside))"
    by (intro rw_reach_inv) (rule rtranclp.rtrancl_into_rtrancl)
  moreover have "writers l = 1"
    using rw_reach_inv [OF assms(1)] count_pos [of c t Writing, OF assms(2)] by (auto simp: rw_inv_def)
  ultimately have "count (c(t := Outside)) Writing = 0" "count (c(t := Outside)) Reading = 0" "writers (rwlock_unlock l) = 2"
    by (auto simp: rw_inv_def rwlock_unlock_def)
  then have "writers (rwlock_unlock l) \<ge> 2 \<and> (\<forall>u. (c(t := Outside)) u \<noteq> Writing \<and> (c(t := Outside)) u \<noteq> Reading)"
    using count_pos [of "c(t := Outside)"] by (metis less_irrefl order_refl)
  then show ?thesis using rw_lost_reach [OF assms(3)] by simp
qed

theorem rwlock_lost_after_write_witness:
  "((\<lambda>_. Outside)(7 := Writing, 7 := Outside, 8 := Wants_Read)) 8 \<noteq> Reading"
proof -
  let ?c = "(\<lambda>_. Outside)(7 := Writing)"
  let ?l = "new_rwlock\<lparr>writers := 1, write_owner := 7\<rparr>"
  have "rw_step\<^sup>*\<^sup>* (rwlock_unlock ?l, ?c(7 := Outside)) (rwlock_unlock ?l, ?c(7 := Outside, 8 := Wants_Read))"
    by (rule r_into_rtranclp, rule rw_step.ask_read) simp
  from rwlock_lost_after_write [OF first_write [of 7] _ this, of 8] show ?thesis by simp
qed

section \<open>Barriers\<close>

record pthread_barrier =
  barrier_count :: u32
  current :: u32
  phase :: int
  barrier_lock :: pthread_mutex
  barrier_cond :: pthread_cond

definition new_barrier :: "u32 \<Rightarrow> pthread_barrier" where
  "new_barrier n = \<lparr>barrier_count = n, current = 0, phase = 0, barrier_lock = new_mutex None, barrier_cond = new_cond\<rparr>"

definition pthread_barrier_init :: "pthread_barrier option \<Rightarrow> u32 \<Rightarrow> int \<times> pthread_barrier option" where
  "pthread_barrier_init b n = (if b = None \<or> n = 0 then (EINVAL, b) else (0, Some (new_barrier n)))"

definition pthread_barrier_destroy :: "pthread_barrier option \<Rightarrow> int" where
  "pthread_barrier_destroy b = (if b = None then EINVAL else 0)"

text \<open>
  \<^verbatim>\<open>pthread_barrier_wait\<close>: what it does up to its loop (the result of the call, if it is the last
  of its group), and a test of the loop with the start of the wait (or the result).
\<close>

definition barrier_arrive :: "pthread_barrier \<Rightarrow> int option \<times> int \<times> pthread_barrier" where
  "barrier_arrive b =
     (let my_phase = phase b; b1 = b\<lparr>current := current b + 1\<rparr>
      in if current b1 \<ge> barrier_count b1
         then (Some (- 1), my_phase, b1\<lparr>current := 0, phase := phase b1 + 1, barrier_cond := cond_broadcast (barrier_cond b1)\<rparr>)
         else (None, my_phase, b1))"

definition barrier_round :: "u32 \<Rightarrow> int \<Rightarrow> pthread_barrier \<Rightarrow> (int + int) \<times> pthread_barrier" where
  "barrier_round lock_address my_phase b =
     (if phase b = my_phase
      then (case cond_wait_begin lock_address (barrier_cond b) of (my_signal, c) \<Rightarrow> (Inr my_signal, b\<lparr>barrier_cond := c\<rparr>))
      else (Inl 0, b))"

text \<open>
  The barrier with its threads: where each is in its call, and (ghosts) how many calls were made
  and which of them was the last one of each thread.
\<close>

datatype barrier_pc = Away | Testing int | Asleep int int | Awake int | Counting int int

record barrier_sys =
  bs_barrier :: pthread_barrier
  bs_pc :: "u32 \<Rightarrow> barrier_pc"
  bs_calls :: nat
  bs_call :: "u32 \<Rightarrow> nat"

definition goes :: "u32 \<Rightarrow> barrier_pc \<Rightarrow> pthread_barrier \<Rightarrow> barrier_sys \<Rightarrow> barrier_sys" where
  "goes t pc b s = s\<lparr>bs_barrier := b, bs_pc := (bs_pc s)(t := pc)\<rparr>"

inductive barrier_step :: "u32 \<Rightarrow> u32 set \<Rightarrow> barrier_sys \<Rightarrow> barrier_sys \<Rightarrow> bool" for a T where
  arrive: "t \<in> T \<Longrightarrow> bs_pc s t = Away \<Longrightarrow> barrier_arrive (bs_barrier s) = (r, p, b) \<Longrightarrow>
    barrier_step a T s ((goes t (if r = None then Testing p else Away) b s)
      \<lparr>bs_calls := Suc (bs_calls s), bs_call := (bs_call s)(t := bs_calls s)\<rparr>)"
| sleep: "t \<in> T \<Longrightarrow> bs_pc s t = Testing p \<Longrightarrow> barrier_round a p (bs_barrier s) = (Inr sig, b) \<Longrightarrow>
    barrier_step a T s (goes t (Asleep p sig) b s)"
| leave: "t \<in> T \<Longrightarrow> bs_pc s t = Testing p \<Longrightarrow> barrier_round a p (bs_barrier s) = (Inl r, b) \<Longrightarrow>
    barrier_step a T s (goes t Away b s)"
| wake: "t \<in> T \<Longrightarrow> bs_pc s t = Asleep p sig \<Longrightarrow> cond_wait_over sig (barrier_cond (bs_barrier s)) \<Longrightarrow>
    barrier_step a T s (goes t (Awake p) (bs_barrier s) s)"
| load: "t \<in> T \<Longrightarrow> bs_pc s t = Awake p \<Longrightarrow>
    barrier_step a T s (goes t (Counting p (waiters (barrier_cond (bs_barrier s)))) (bs_barrier s) s)"
| store: "t \<in> T \<Longrightarrow> bs_pc s t = Counting p w \<Longrightarrow>
    barrier_step a T s (goes t (Testing p)
      ((bs_barrier s)\<lparr>barrier_cond := cond_wait_end w (barrier_cond (bs_barrier s))\<rparr>) s)"

definition barrier_start :: "u32 \<Rightarrow> barrier_sys" where
  "barrier_start n = \<lparr>bs_barrier = new_barrier n, bs_pc = (\<lambda>_. Away), bs_calls = 0, bs_call = (\<lambda>_. 0)\<rparr>"

fun my_phase :: "barrier_pc \<Rightarrow> int option" where
  "my_phase Away = None"
| "my_phase (Testing p) = Some p"
| "my_phase (Asleep p sig) = Some p"
| "my_phase (Awake p) = Some p"
| "my_phase (Counting p w) = Some p"

definition barrier_inv :: "u32 \<Rightarrow> barrier_sys \<Rightarrow> bool" where
  "barrier_inv n s \<longleftrightarrow> barrier_count (bs_barrier s) = n \<and>
     phase (bs_barrier s) = int (bs_calls s div unat n) \<and> unat (current (bs_barrier s)) = bs_calls s mod unat n \<and>
     (\<forall>t p. my_phase (bs_pc s t) = Some p \<longrightarrow> p = int (bs_call s t div unat n) \<and> p \<le> phase (bs_barrier s))"

lemma div_mod_Suc:
  fixes k n :: nat
  assumes "n > 0"
  shows "Suc k div n = (if Suc (k mod n) = n then Suc (k div n) else k div n)"
    "Suc k mod n = (if Suc (k mod n) = n then 0 else Suc (k mod n))"
  using assms by (simp_all add: div_Suc mod_Suc)

lemma barrier_arrive_counts:
  assumes "barrier_arrive b = (r, p, b')" "0 < barrier_count b" "phase b = int (k div unat (barrier_count b))"
    "unat (current b) = k mod unat (barrier_count b)"
  shows "barrier_count b' = barrier_count b \<and> p = int (k div unat (barrier_count b)) \<and>
    phase b' = int (Suc k div unat (barrier_count b)) \<and> unat (current b') = Suc k mod unat (barrier_count b) \<and>
    (r = None \<longleftrightarrow> Suc (k mod unat (barrier_count b)) < unat (barrier_count b))"
proof -
  have n: "unat (barrier_count b) > 0" using assms(2) by (simp add: word_less_nat_alt)
  have lt: "unat (current b) < unat (barrier_count b)" using n assms(4) by simp
  then have "current b < barrier_count b" by (simp add: word_less_nat_alt)
  then have "unat (current b + 1) = Suc (unat (current b))"
    by unat_arith
  with assms lt show ?thesis
    by (auto simp: barrier_arrive_def Let_def word_le_nat_alt div_mod_Suc [OF n] split: if_splits)
qed

lemma barrier_invD:
  assumes "barrier_inv n s"
  shows "barrier_count (bs_barrier s) = n" "phase (bs_barrier s) = int (bs_calls s div unat n)"
    "unat (current (bs_barrier s)) = bs_calls s mod unat n"
    "my_phase (bs_pc s t) = Some p \<Longrightarrow> p = int (bs_call s t div unat n)"
    "my_phase (bs_pc s t) = Some p \<Longrightarrow> p \<le> int (bs_calls s div unat n)"
  using assms by (auto simp: barrier_inv_def)

lemma barrier_inv_goes:
  assumes "barrier_inv n s" "barrier_count b = barrier_count (bs_barrier s)" "phase b = phase (bs_barrier s)"
    "current b = current (bs_barrier s)" "my_phase pc = None \<or> my_phase pc = my_phase (bs_pc s t)"
  shows "barrier_inv n (goes t pc b s)"
  using assms by (auto simp: barrier_inv_def goes_def)

lemma barrier_step_inv:
  assumes "barrier_step a T s s'" "barrier_inv n s" "0 < n"
  shows "barrier_inv n s'"
  using assms(1)
proof (cases rule: barrier_step.cases)
  case (arrive t r p b)
  have b: "barrier_count b = n \<and> p = int (bs_calls s div unat n) \<and> phase b = int (Suc (bs_calls s) div unat n) \<and>
      unat (current b) = Suc (bs_calls s) mod unat n"
    using barrier_arrive_counts [OF arrive(4), of "bs_calls s"] barrier_invD(1-3) [OF assms(2)] assms(3) by simp
  then have le: "int (bs_calls s div unat n) \<le> phase b" by (simp add: div_le_mono)
  have "q = int (((bs_call s)(t := bs_calls s)) u div unat n) \<and> q \<le> phase b"
    if "my_phase (bs_pc s' u) = Some q" for u q
  proof (cases "u = t")
    case True
    then show ?thesis using that b order_refl le by (auto simp: arrive(1) goes_def split: if_splits)
  next
    case False
    then have "my_phase (bs_pc s u) = Some q" using that by (auto simp: arrive(1) goes_def)
    from barrier_invD(4,5) [OF assms(2) this] show ?thesis using False le by simp
  qed
  then show ?thesis using b by (simp add: barrier_inv_def arrive(1) goes_def)
qed (auto intro!: barrier_inv_goes [OF assms(2)] simp: barrier_round_def cond_wait_begin_def cond_wait_end_def
    split: if_splits)

lemma barrier_start_inv: "barrier_inv n (barrier_start n)"
  by (simp add: barrier_inv_def barrier_start_def new_barrier_def)

lemma barrier_reach_inv: "(barrier_step a T)\<^sup>*\<^sup>* (barrier_start n) s \<Longrightarrow> 0 < n \<Longrightarrow> barrier_inv n s"
  by (induction rule: rtranclp_induct) (simp_all add: barrier_start_inv barrier_step_inv)

text \<open>
  C31: Of the calls of \<^verbatim>\<open>pthread_barrier_wait\<close> on a barrier for \<open>n\<close> threads, numbered as they come, a
  waiting one returns only when the call that completes its group of \<open>n\<close> was made, and the phase
  and the counter of the barrier are the quotient and the remainder of the number of calls, in
  every interleaving of any number of threads.
\<close>

theorem barrier_waits_for_group:
  assumes "(barrier_step a T)\<^sup>*\<^sup>* (barrier_start n) s" and "0 < n"
  shows "phase (bs_barrier s) = int (bs_calls s div unat n) \<and> unat (current (bs_barrier s)) = bs_calls s mod unat n \<and>
    (\<forall>t p r b. bs_pc s t = Testing p \<and> barrier_round a p (bs_barrier s) = (Inl r, b) \<longrightarrow>
       (bs_call s t div unat n + 1) * unat n \<le> bs_calls s)"
proof -
  have inv: "barrier_inv n s" using barrier_reach_inv assms by blast
  have "(bs_call s t div unat n + 1) * unat n \<le> bs_calls s"
    if t: "bs_pc s t = Testing p" and r: "barrier_round a p (bs_barrier s) = (Inl r, b)" for t p r b
  proof -
    have "p \<noteq> phase (bs_barrier s)" using r by (auto simp: barrier_round_def cond_wait_begin_def)
    then have "bs_call s t div unat n + 1 \<le> bs_calls s div unat n"
      using barrier_invD(2) [OF inv] barrier_invD(4,5) [OF inv, of t p] t by simp
    then show ?thesis by (metis div_times_less_eq_dividend le_trans mult_le_mono1)
  qed
  with inv show ?thesis by (auto simp: barrier_inv_def)
qed

text \<open>The next step of a thread as a function, and a schedule of such steps.\<close>

definition barrier_move :: "u32 \<Rightarrow> u32 \<Rightarrow> barrier_sys \<Rightarrow> barrier_sys option" where
  "barrier_move a t s = (let b = bs_barrier s in case bs_pc s t of
       Away \<Rightarrow> (case barrier_arrive b of (r, p, b') \<Rightarrow>
         Some ((goes t (if r = None then Testing p else Away) b' s)
           \<lparr>bs_calls := Suc (bs_calls s), bs_call := (bs_call s)(t := bs_calls s)\<rparr>))
     | Testing p \<Rightarrow> (case barrier_round a p b of (Inr sig, b') \<Rightarrow> Some (goes t (Asleep p sig) b' s)
         | (Inl _, b') \<Rightarrow> Some (goes t Away b' s))
     | Asleep p sig \<Rightarrow> if cond_wait_over sig (barrier_cond b) then Some (goes t (Awake p) b s) else None
     | Awake p \<Rightarrow> Some (goes t (Counting p (waiters (barrier_cond b))) b s)
     | Counting p w \<Rightarrow> Some (goes t (Testing p) (b\<lparr>barrier_cond := cond_wait_end w (barrier_cond b)\<rparr>) s))"

lemma barrier_step_move: "barrier_step a T s s' \<longleftrightarrow> (\<exists>t\<in>T. barrier_move a t s = Some s')"
proof
  assume "barrier_step a T s s'"
  then show "\<exists>t\<in>T. barrier_move a t s = Some s'"
    by (cases rule: barrier_step.cases) (force simp: barrier_move_def Let_def)+
next
  assume "\<exists>t\<in>T. barrier_move a t s = Some s'"
  then obtain t where t: "t \<in> T" "barrier_move a t s = Some s'" by blast
  show "barrier_step a T s s'"
  proof (cases "bs_pc s t")
    case Away
    obtain r p b where "barrier_arrive (bs_barrier s) = (r, p, b)" by (rule prod_cases3)
    with barrier_step.arrive [OF t(1) Away this, of a] Away t show ?thesis by (simp add: barrier_move_def Let_def)
  qed (use t in \<open>auto simp: barrier_move_def Let_def intro: barrier_step.intros split: prod.splits sum.splits if_splits\<close>)
qed

fun barrier_moves :: "u32 \<Rightarrow> u32 list \<Rightarrow> barrier_sys \<Rightarrow> barrier_sys option" where
  "barrier_moves a [] s = Some s"
| "barrier_moves a (t # ts) s = (case barrier_move a t s of None \<Rightarrow> None | Some s' \<Rightarrow> barrier_moves a ts s')"

lemma barrier_moves_reach:
  "barrier_moves a ts s = Some s' \<Longrightarrow> set ts \<subseteq> T \<Longrightarrow> (barrier_step a T)\<^sup>*\<^sup>* s s'"
proof (induction ts arbitrary: s)
  case (Cons t ts)
  then obtain s1 where s1: "barrier_move a t s = Some s1" "barrier_moves a ts s1 = Some s'"
    by (auto split: option.splits)
  then have "barrier_step a T s s1" using Cons.prems(2) by (auto simp: barrier_step_move)
  moreover have "(barrier_step a T)\<^sup>*\<^sup>* s1 s'" using Cons s1 by simp
  ultimately show ?case by (rule converse_rtranclp_into_rtranclp)
qed simp

text \<open>Threads 1 and 2 come to a barrier for two, and thread 1, which came first, may leave.\<close>

theorem barrier_waits_for_group_witness:
  "\<exists>s. barrier_moves 0 [1, 2] (barrier_start 2) = Some s \<and> bs_pc s 1 = Testing 0 \<and>
    fst (barrier_round 0 0 (bs_barrier s)) = Inl 0 \<and> phase (bs_barrier s) = 1 \<and>
    (bs_call s 1 div 2 + 1) * 2 \<le> bs_calls s"
proof -
  have "\<exists>s. barrier_moves 0 [1, 2] (barrier_start 2) = Some s \<and> bs_pc s 1 = Testing 0 \<and>
      fst (barrier_round 0 0 (bs_barrier s)) = Inl 0 \<and> bs_calls s = 2"
    by (simp add: barrier_move_def barrier_start_def new_barrier_def new_cond_def goes_def barrier_arrive_def
        barrier_round_def cond_wait_begin_def cond_broadcast_def Let_def word_le_nat_alt)
  then obtain s where s: "barrier_moves 0 [1, 2] (barrier_start 2) = Some s" "bs_pc s 1 = Testing 0"
      "fst (barrier_round 0 0 (bs_barrier s)) = Inl 0" "bs_calls s = 2" by blast
  have "(barrier_step 0 {1, 2})\<^sup>*\<^sup>* (barrier_start 2) s" by (rule barrier_moves_reach [OF s(1)]) simp
  from barrier_waits_for_group [OF this] s show ?thesis by (cases "barrier_round 0 0 (bs_barrier s)") auto
qed

text \<open>
  C32: Two threads at a barrier for two can wait for ever although each of them has come three
  times and two groups are complete. A thread that is woken takes itself from the number of
  waiters in two accesses without the mutex, and the other one, which counts itself in between,
  is not seen by the next broadcast.
\<close>

theorem barrier_loses_wakeup:
  "\<exists>s. (barrier_step a {7, 8})\<^sup>*\<^sup>* (barrier_start 2) s \<and> bs_calls s = 5 \<and> phase (bs_barrier s) = 2 \<and>
    my_phase (bs_pc s 8) = Some 1 \<and> my_phase (bs_pc s 7) = Some 2 \<and> (\<nexists>s'. barrier_step a {7, 8} s s')"
proof -
  let ?run = "barrier_moves a [7, 7, 8, 7, 7, 8, 8, 7, 7, 7, 7, 7] (barrier_start 2)"
  have "\<exists>s. ?run = Some s \<and> bs_calls s = 5 \<and> phase (bs_barrier s) = 2 \<and>
      signal_count (barrier_cond (bs_barrier s)) = 1 \<and> bs_pc s 7 = Asleep 2 1 \<and> bs_pc s 8 = Asleep 1 1"
    by (simp add: barrier_move_def barrier_start_def new_barrier_def new_cond_def goes_def barrier_arrive_def
        barrier_round_def cond_wait_begin_def cond_wait_over_def cond_wait_end_def cond_broadcast_def Let_def word_le_nat_alt)
  then obtain s where s: "?run = Some s" "bs_calls s = 5" "phase (bs_barrier s) = 2"
      "signal_count (barrier_cond (bs_barrier s)) = 1" "bs_pc s 7 = Asleep 2 1" "bs_pc s 8 = Asleep 1 1" by blast
  have "(barrier_step a {7, 8})\<^sup>*\<^sup>* (barrier_start 2) s" by (rule barrier_moves_reach [OF s(1)]) simp
  moreover have "\<nexists>s'. barrier_step a {7, 8} s s'"
    using s by (simp add: barrier_step_move barrier_move_def cond_wait_over_def)
  ultimately show ?thesis using s by (intro exI [of _ s]) simp
qed

section \<open>One-time initialisation\<close>

text \<open>
  \<open>once_fast\<close> is the first test of \<^verbatim>\<open>pthread_once\<close> (without the mutex), \<open>once_locked\<close> the one with
  it; the routine of the user runs on a state of its own.
\<close>

record pthread_once_t =
  once_done :: int
  once_lock :: pthread_mutex

definition once_fast :: "pthread_once_t \<Rightarrow> bool" where
  "once_fast o1 \<longleftrightarrow> once_done o1 \<noteq> 0"

definition once_locked :: "('s \<Rightarrow> 's) \<Rightarrow> pthread_once_t \<Rightarrow> 's \<Rightarrow> bool \<times> 's" where
  "once_locked init_routine o1 x = (if once_done o1 = 0 then (True, init_routine x) else (False, x))"

definition once_finish :: "bool \<Rightarrow> pthread_once_t \<Rightarrow> pthread_once_t" where
  "once_finish own o1 = (if own then o1\<lparr>once_done := 1\<rparr> else o1)"

text \<open>The call without anybody else; the mutex is as before at its end.\<close>

definition pthread_once :: "pthread_once_t option \<Rightarrow> ('s \<Rightarrow> 's) option \<Rightarrow> 's \<Rightarrow> int \<times> pthread_once_t option \<times> 's" where
  "pthread_once o1 init_routine x = (case (o1, init_routine) of
       (Some y, Some f) \<Rightarrow> if once_fast y then (0, o1, x)
         else (case once_locked f y x of (own, x') \<Rightarrow> (0, Some (once_finish own y), x'))
     | _ \<Rightarrow> (EINVAL, o1, x))"

datatype once_pc = Once_Start | Once_Lock | Once_Inside bool | Once_Returned

record 's once_sys =
  os_control :: pthread_once_t
  os_pc :: "u32 \<Rightarrow> once_pc"
  os_data :: 's

inductive once_step :: "('s \<Rightarrow> 's) \<Rightarrow> 's once_sys \<Rightarrow> 's once_sys \<Rightarrow> bool" for f where
  first_test: "os_pc s t = Once_Start \<Longrightarrow>
    once_step f s (s\<lparr>os_pc := (os_pc s)(t := if once_fast (os_control s) then Once_Returned else Once_Lock)\<rparr>)"
| enter: "os_pc s t = Once_Lock \<Longrightarrow> \<forall>u own. os_pc s u \<noteq> Once_Inside own \<Longrightarrow>
    once_locked f (os_control s) (os_data s) = (own, x) \<Longrightarrow>
    once_step f s (s\<lparr>os_pc := (os_pc s)(t := Once_Inside own), os_data := x\<rparr>)"
| finish: "os_pc s t = Once_Inside own \<Longrightarrow>
    once_step f s (s\<lparr>os_pc := (os_pc s)(t := Once_Returned), os_control := once_finish own (os_control s)\<rparr>)"
| again: "os_pc s t = Once_Returned \<Longrightarrow> once_step f s (s\<lparr>os_pc := (os_pc s)(t := Once_Start)\<rparr>)"

definition once_inv :: "('s \<Rightarrow> 's) \<Rightarrow> 's \<Rightarrow> 's once_sys \<Rightarrow> bool" where
  "once_inv f x s \<longleftrightarrow>
     (once_done (os_control s) \<noteq> 0 \<longrightarrow> os_data s = f x) \<and>
     (once_done (os_control s) = 0 \<and> (\<forall>t. os_pc s t \<noteq> Once_Inside True) \<longrightarrow> os_data s = x) \<and>
     (\<forall>t u r q. os_pc s t = Once_Inside r \<and> os_pc s u = Once_Inside q \<longrightarrow> t = u) \<and>
     (\<forall>t. os_pc s t = Once_Inside False \<or> os_pc s t = Once_Returned \<longrightarrow> once_done (os_control s) \<noteq> 0) \<and>
     (\<forall>t. os_pc s t = Once_Inside True \<longrightarrow> once_done (os_control s) = 0 \<and> os_data s = f x)"

lemma once_inv_outside:
  assumes "once_inv f x s" "os_control s' = os_control s" "os_data s' = os_data s"
    "\<forall>u q. os_pc s' u = Once_Inside q \<longleftrightarrow> os_pc s u = Once_Inside q"
    "\<forall>u. os_pc s' u = Once_Returned \<longrightarrow> os_pc s u = Once_Returned \<or> once_done (os_control s) \<noteq> 0"
  shows "once_inv f x s'"
  using assms(1) assms(5) unfolding once_inv_def by (simp add: assms(2-4)) blast

lemma once_step_inv:
  assumes "once_step f s s'" "once_inv f x s"
  shows "once_inv f x s'"
  using assms(1)
proof (cases rule: once_step.cases)
  case (first_test t)
  then show ?thesis by (intro once_inv_outside [OF assms(2)]) (auto simp: once_fast_def)
next
  case (enter t own y)
  have nobody: "\<forall>u own. os_pc s u \<noteq> Once_Inside own" by (rule enter(3))
  show ?thesis
  proof (cases "once_done (os_control s) = 0")
    case True
    then have "own" "y = f (os_data s)" "os_data s = x"
      using enter(4) nobody assms(2) unfolding once_inv_def by (simp_all add: once_locked_def)
    then show ?thesis using True nobody assms(2) unfolding once_inv_def enter(1) by simp
  next
    case False
    then have "\<not> own" "y = os_data s" using enter(4) by (simp_all add: once_locked_def)
    then show ?thesis using False nobody assms(2) unfolding once_inv_def enter(1) by simp
  qed
next
  case (finish t own)
  have only: "u = t" if "os_pc s u = Once_Inside q" for u q
    using assms(2) finish(2) that unfolding once_inv_def by blast
  show ?thesis
  proof (cases own)
    case True
    then have "os_data s = f x" using assms(2) finish(2) unfolding once_inv_def by auto
    then show ?thesis using True only unfolding once_inv_def finish(1) once_finish_def by auto
  next
    case False
    then have "once_done (os_control s) \<noteq> 0" using assms(2) finish(2) unfolding once_inv_def by auto
    then show ?thesis using False only assms(2) unfolding once_inv_def finish(1) once_finish_def by auto
  qed
next
  case (again t)
  then show ?thesis by (intro once_inv_outside [OF assms(2)]) auto
qed

text \<open>
  In every interleaving of calls of \<^verbatim>\<open>pthread_once\<close> with the same control by any number of
  threads, whenever a call has returned the routine has run exactly once, and it never runs more
  often.
\<close>

theorem once_runs_once:
  assumes "(once_step f)\<^sup>*\<^sup>* \<lparr>os_control = \<lparr>once_done = 0, once_lock = m\<rparr>, os_pc = (\<lambda>_. Once_Start), os_data = x\<rparr> s"
  shows "os_data s \<in> {x, f x} \<and> (os_pc s t = Once_Returned \<longrightarrow> os_data s = f x)"
proof -
  have "once_inv f x s"
    using assms
  proof (induction rule: rtranclp_induct)
    case base
    show ?case by (simp add: once_inv_def)
  next
    case (step s s')
    show ?case by (rule once_step_inv [OF step.hyps(2) step.IH])
  qed
  then have "os_data s = x \<or> os_data s = f x" "os_pc s t = Once_Returned \<longrightarrow> os_data s = f x"
    unfolding once_inv_def by blast+
  then show ?thesis by blast
qed

end
