(* ===== verification/PthreadTable.thy ===== *)
theory PthreadTable
  imports PthreadMutex "HOL-Library.Multiset"
begin

text \<open>
  The table of threads of \<^verbatim>\<open>kernel/pthread.cpp\<close>: creation, exit, join, detach, cancellation,
  attributes and thread-specific data. Pointers are addresses (0 null), an out parameter is an
  option. \<open>self\<close> is \<open>current_thread_id\<close>, the result of \<^verbatim>\<open>kmalloc\<close> and the destructors of the
  user are parameters. \<^verbatim>\<open>pthread_join\<close> is cut at its waiting loop. Ghosts: the stacks that were
  allocated and freed so far.
\<close>

abbreviation (input) ESRCH :: int where "ESRCH \<equiv> 3"
abbreviation (input) EAGAIN :: int where "EAGAIN \<equiv> 11"
abbreviation (input) ENOMEM :: int where "ENOMEM \<equiv> 12"
abbreviation (input) PTHREAD_CREATE_JOINABLE :: int where "PTHREAD_CREATE_JOINABLE \<equiv> 0"
abbreviation (input) PTHREAD_CREATE_DETACHED :: int where "PTHREAD_CREATE_DETACHED \<equiv> 1"
abbreviation (input) PTHREAD_CANCEL_ENABLE :: int where "PTHREAD_CANCEL_ENABLE \<equiv> 0"
abbreviation (input) PTHREAD_CANCEL_DISABLE :: int where "PTHREAD_CANCEL_DISABLE \<equiv> 1"
abbreviation (input) PTHREAD_CANCEL_DEFERRED :: int where "PTHREAD_CANCEL_DEFERRED \<equiv> 0"
abbreviation (input) PTHREAD_CANCEL_ASYNCHRONOUS :: int where "PTHREAD_CANCEL_ASYNCHRONOUS \<equiv> 1"

definition MAX_THREADS :: nat where "MAX_THREADS = 64"
definition MAX_TSD_KEYS :: nat where "MAX_TSD_KEYS = 64"
definition DEFAULT_STACK_SIZE :: u32 where "DEFAULT_STACK_SIZE = 16384"

section \<open>Attributes\<close>

record pthread_attr =
  stacksize :: u32
  stackaddr :: u32
  detachstate :: int
  schedpolicy :: int
  schedpriority :: int
  scope :: int
  inheritsched :: int

definition pthread_attr_init :: "pthread_attr option \<Rightarrow> int \<times> pthread_attr option" where
  "pthread_attr_init a = (case a of None \<Rightarrow> (EINVAL, None)
     | Some _ \<Rightarrow> (0, Some \<lparr>stacksize = DEFAULT_STACK_SIZE, stackaddr = 0, detachstate = PTHREAD_CREATE_JOINABLE,
         schedpolicy = 0, schedpriority = 0, scope = 0, inheritsched = 0\<rparr>))"

definition pthread_attr_destroy :: "pthread_attr option \<Rightarrow> int" where
  "pthread_attr_destroy a = (if a = None then EINVAL else 0)"

definition attr_set :: "(pthread_attr \<Rightarrow> pthread_attr) \<Rightarrow> bool \<Rightarrow> pthread_attr option \<Rightarrow> int \<times> pthread_attr option" where
  "attr_set upd ok a = (case a of None \<Rightarrow> (EINVAL, None) | Some x \<Rightarrow> if ok then (0, Some (upd x)) else (EINVAL, a))"

definition attr_get :: "(pthread_attr \<Rightarrow> 'a) \<Rightarrow> pthread_attr option \<Rightarrow> 'a option \<Rightarrow> int \<times> 'a option" where
  "attr_get f a out = (case (a, out) of (Some x, Some _) \<Rightarrow> (0, Some (f x)) | _ \<Rightarrow> (EINVAL, out))"

definition pthread_attr_setdetachstate :: "pthread_attr option \<Rightarrow> int \<Rightarrow> int \<times> pthread_attr option" where
  "pthread_attr_setdetachstate a d =
     attr_set (detachstate_update (\<lambda>_. d)) (d = PTHREAD_CREATE_JOINABLE \<or> d = PTHREAD_CREATE_DETACHED) a"

definition pthread_attr_getdetachstate :: "pthread_attr option \<Rightarrow> int option \<Rightarrow> int \<times> int option" where
  "pthread_attr_getdetachstate = attr_get detachstate"

definition pthread_attr_setstacksize :: "pthread_attr option \<Rightarrow> u32 \<Rightarrow> int \<times> pthread_attr option" where
  "pthread_attr_setstacksize a n = attr_set (stacksize_update (\<lambda>_. n)) (\<not> n < 4096) a"

definition pthread_attr_getstacksize :: "pthread_attr option \<Rightarrow> u32 option \<Rightarrow> int \<times> u32 option" where
  "pthread_attr_getstacksize = attr_get stacksize"

definition pthread_attr_setstackaddr :: "pthread_attr option \<Rightarrow> u32 \<Rightarrow> int \<times> pthread_attr option" where
  "pthread_attr_setstackaddr a p = attr_set (stackaddr_update (\<lambda>_. p)) True a"

definition pthread_attr_getstackaddr :: "pthread_attr option \<Rightarrow> u32 option \<Rightarrow> int \<times> u32 option" where
  "pthread_attr_getstackaddr = attr_get stackaddr"

definition pthread_attr_setschedpolicy :: "pthread_attr option \<Rightarrow> int \<Rightarrow> int \<times> pthread_attr option" where
  "pthread_attr_setschedpolicy a p = attr_set (schedpolicy_update (\<lambda>_. p)) True a"

definition pthread_attr_getschedpolicy :: "pthread_attr option \<Rightarrow> int option \<Rightarrow> int \<times> int option" where
  "pthread_attr_getschedpolicy = attr_get schedpolicy"

section \<open>The table\<close>

record thread =
  tid :: u32
  in_use :: int
  detached :: int
  canceled :: int
  cancel_enabled :: int
  cancel_type :: int
  start_routine :: u32
  thread_arg :: u32
  retval :: u32
  stack :: u32
  stack_size :: u32
  joined :: int
  exited :: int
  tsd :: "u32 list"

record thread_state =
  threads :: "thread list"
  next_tid :: u32
  threads_initialized :: bool
  tsd_destructors :: "u32 list"
  tsd_key_used :: "int list"
  stack_memory :: "u32 \<Rightarrow> u32"
  allocated :: "u32 list"
  freed :: "u32 list"

definition boot_threads :: thread_state where
  "boot_threads = \<lparr>threads = replicate MAX_THREADS \<lparr>tid = 0, in_use = 0, detached = 0, canceled = 0, cancel_enabled = 0,
       cancel_type = 0, start_routine = 0, thread_arg = 0, retval = 0, stack = 0, stack_size = 0, joined = 0,
       exited = 0, tsd = replicate MAX_TSD_KEYS 0\<rparr>,
     next_tid = 1, threads_initialized = False, tsd_destructors = replicate MAX_TSD_KEYS 0,
     tsd_key_used = replicate MAX_TSD_KEYS 0, stack_memory = (\<lambda>_. 0), allocated = [], freed = []\<rparr>"

definition on_thread :: "nat \<Rightarrow> (thread \<Rightarrow> thread) \<Rightarrow> thread_state \<Rightarrow> thread_state" where
  "on_thread i f s = s\<lparr>threads := (threads s)[i := f (threads s ! i)]\<rparr>"

definition init_threads :: "thread_state \<Rightarrow> thread_state" where
  "init_threads s =
     (if threads_initialized s then s
      else on_thread 0 (\<lambda>t. t\<lparr>in_use := 1, tid := 0, detached := 0, exited := 0, joined := 0\<rparr>)
        (s\<lparr>threads := map (\<lambda>t. t\<lparr>in_use := 0, tid := 0\<rparr>) (threads s), tsd_destructors := replicate MAX_TSD_KEYS 0,
           tsd_key_used := replicate MAX_TSD_KEYS 0, threads_initialized := True\<rparr>))"

definition find_thread :: "u32 \<Rightarrow> thread_state \<Rightarrow> nat option" where
  "find_thread th s = List.find (\<lambda>i. in_use (threads s ! i) \<noteq> 0 \<and> tid (threads s ! i) = th) [0..<MAX_THREADS]"

definition alloc_thread :: "thread_state \<Rightarrow> nat option \<times> thread_state" where
  "alloc_thread s0 =
     (let s = init_threads s0
      in case List.find (\<lambda>i. in_use (threads s ! i) = 0) [0..<MAX_THREADS] of
           None \<Rightarrow> (None, s)
         | Some i \<Rightarrow> (Some i, on_thread i (\<lambda>t. t\<lparr>in_use := 1, tid := next_tid s, detached := 0, canceled := 0,
             cancel_enabled := 1, cancel_type := PTHREAD_CANCEL_DEFERRED, retval := 0, joined := 0, exited := 0,
             tsd := replicate MAX_TSD_KEYS 0\<rparr>) (s\<lparr>next_tid := next_tid s + 1\<rparr>)))"

text \<open>
  \<open>memory n\<close> is what \<^verbatim>\<open>kmalloc(n)\<close> returns, \<open>address i\<close> the address of slot \<open>i\<close>. \<open>out\<close> is the
  caller's \<^verbatim>\<open>pthread_t\<close>.
\<close>

definition pthread_create :: "(u32 \<Rightarrow> u32) \<Rightarrow> (nat \<Rightarrow> u32) \<Rightarrow> u32 option \<Rightarrow> pthread_attr option \<Rightarrow> u32 \<Rightarrow> u32 \<Rightarrow>
    thread_state \<Rightarrow> int \<times> u32 option \<times> thread_state" where
  "pthread_create memory address out attr routine arg s0 =
     (let s1 = init_threads s0
      in if out = None \<or> routine = 0 then (EINVAL, out, s1)
         else case alloc_thread s1 of (None, s2) \<Rightarrow> (EAGAIN, out, s2)
           | (Some i, s2) \<Rightarrow>
               let s3 = on_thread i (\<lambda>t. t\<lparr>start_routine := routine, thread_arg := arg\<rparr>) s2;
                   size = (case attr of Some a \<Rightarrow> if stacksize a > 0 then stacksize a else DEFAULT_STACK_SIZE
                             | None \<Rightarrow> DEFAULT_STACK_SIZE);
                   p = memory size;
                   s4 = on_thread i (\<lambda>t. t\<lparr>stack := p\<rparr>) s3
               in if p = 0 then (ENOMEM, out, on_thread i (\<lambda>t. t\<lparr>in_use := 0\<rparr>) s4)
                  else let s5 = on_thread i (\<lambda>t. t\<lparr>stack_size := size, detached := (case attr of
                             Some a \<Rightarrow> if detachstate a = PTHREAD_CREATE_DETACHED then 1 else detached t
                           | None \<Rightarrow> detached t)\<rparr>) s4;
                           s6 = s5\<lparr>stack_memory := (stack_memory s5)(p + size - 4 := address i, p + size - 8 := 0),
                                   allocated := p # allocated s5\<rparr>
                       in (0, Some (tid (threads s6 ! i)), s6))"

definition free_thread :: "nat \<Rightarrow> thread_state \<Rightarrow> thread_state" where
  "free_thread i s =
     (let p = stack (threads s ! i)
      in on_thread i (\<lambda>t. t\<lparr>in_use := 0\<rparr>) (if p \<noteq> 0 then s\<lparr>freed := p # freed s\<rparr> else s))"

definition call_destructor :: "(u32 \<Rightarrow> u32 \<Rightarrow> thread_state \<Rightarrow> thread_state) \<Rightarrow> nat \<Rightarrow> nat \<Rightarrow> thread_state \<Rightarrow> thread_state" where
  "call_destructor user i k s =
     (let v = tsd (threads s ! i) ! k
      in if tsd_key_used s ! k \<noteq> 0 \<and> v \<noteq> 0 \<and> tsd_destructors s ! k \<noteq> 0
         then user (tsd_destructors s ! k) v (on_thread i (\<lambda>t. t\<lparr>tsd := (tsd t)[k := 0]\<rparr>) s)
         else s)"

text \<open>\<open>Inl\<close>: the whole process exits.\<close>

definition pthread_exit :: "(u32 \<Rightarrow> u32 \<Rightarrow> thread_state \<Rightarrow> thread_state) \<Rightarrow> u32 \<Rightarrow> u32 \<Rightarrow> thread_state \<Rightarrow>
    u32 + thread_state" where
  "pthread_exit user self v s =
     (case find_thread self s of None \<Rightarrow> Inl v
      | Some i \<Rightarrow>
          let s1 = on_thread i (\<lambda>t. t\<lparr>retval := v, exited := 1\<rparr>) s;
              s2 = fold (call_destructor user i) [0..<MAX_TSD_KEYS] s1
          in Inr (if detached (threads s2 ! i) \<noteq> 0 then free_thread i s2 else s2))"

text \<open>\<open>routine f x\<close> is what the start routine \<open>f\<close> returns for \<open>x\<close>.\<close>

definition thread_wrapper :: "(u32 \<Rightarrow> u32 \<Rightarrow> u32) \<Rightarrow> (u32 \<Rightarrow> u32 \<Rightarrow> thread_state \<Rightarrow> thread_state) \<Rightarrow> nat \<Rightarrow>
    thread_state \<Rightarrow> u32 + thread_state" where
  "thread_wrapper routine user i s =
     (let t = threads s ! i; v = routine (start_routine t) (thread_arg t)
      in pthread_exit user (tid t) v (on_thread i (\<lambda>t. t\<lparr>retval := v\<rparr>) s))"

text \<open>\<^verbatim>\<open>pthread_join\<close> up to its loop (an error, or the slot it waits for), the test, and the rest.\<close>

definition join_begin :: "u32 \<Rightarrow> u32 \<Rightarrow> thread_state \<Rightarrow> (int + nat) \<times> thread_state" where
  "join_begin self th s =
     (case find_thread th s of None \<Rightarrow> (Inl ESRCH, s)
      | Some i \<Rightarrow>
          let t = threads s ! i
          in if detached t \<noteq> 0 then (Inl EINVAL, s)
             else if tid t = self then (Inl EDEADLK, s)
             else if joined t \<noteq> 0 then (Inl EINVAL, s)
             else (Inr i, on_thread i (\<lambda>t. t\<lparr>joined := 1\<rparr>) s))"

definition join_over :: "nat \<Rightarrow> thread_state \<Rightarrow> bool" where
  "join_over i s \<longleftrightarrow> exited (threads s ! i) \<noteq> 0"

definition join_end :: "nat \<Rightarrow> thread_state \<Rightarrow> u32 \<times> thread_state" where
  "join_end i s = (retval (threads s ! i), free_thread i s)"

definition pthread_detach :: "u32 \<Rightarrow> thread_state \<Rightarrow> int \<times> thread_state" where
  "pthread_detach th s =
     (case find_thread th s of None \<Rightarrow> (ESRCH, s)
      | Some i \<Rightarrow>
          if detached (threads s ! i) \<noteq> 0 then (EINVAL, s)
          else let s1 = on_thread i (\<lambda>t. t\<lparr>detached := 1\<rparr>) s
               in (0, if exited (threads s1 ! i) \<noteq> 0 then free_thread i s1 else s1))"

definition pthread_self :: "u32 \<Rightarrow> u32" where
  "pthread_self self = self"

definition pthread_equal :: "u32 \<Rightarrow> u32 \<Rightarrow> int" where
  "pthread_equal t1 t2 = of_bool (t1 = t2)"

definition pthread_cancel :: "u32 \<Rightarrow> thread_state \<Rightarrow> int \<times> thread_state" where
  "pthread_cancel th s =
     (case find_thread th s of None \<Rightarrow> (ESRCH, s) | Some i \<Rightarrow> (0, on_thread i (\<lambda>t. t\<lparr>canceled := 1\<rparr>) s))"

definition pthread_setcancelstate :: "u32 \<Rightarrow> int \<Rightarrow> int option \<Rightarrow> thread_state \<Rightarrow> int \<times> int option \<times> thread_state" where
  "pthread_setcancelstate self state old s =
     (case find_thread self s of None \<Rightarrow> (EINVAL, old, s)
      | Some i \<Rightarrow>
          if state \<noteq> PTHREAD_CANCEL_ENABLE \<and> state \<noteq> PTHREAD_CANCEL_DISABLE then (EINVAL, old, s)
          else (0, map_option (\<lambda>_. if cancel_enabled (threads s ! i) \<noteq> 0 then PTHREAD_CANCEL_ENABLE else PTHREAD_CANCEL_DISABLE) old,
            on_thread i (\<lambda>t. t\<lparr>cancel_enabled := of_bool (state = PTHREAD_CANCEL_ENABLE)\<rparr>) s))"

definition pthread_setcanceltype :: "u32 \<Rightarrow> int \<Rightarrow> int option \<Rightarrow> thread_state \<Rightarrow> int \<times> int option \<times> thread_state" where
  "pthread_setcanceltype self ty old s =
     (case find_thread self s of None \<Rightarrow> (EINVAL, old, s)
      | Some i \<Rightarrow>
          if ty \<noteq> PTHREAD_CANCEL_DEFERRED \<and> ty \<noteq> PTHREAD_CANCEL_ASYNCHRONOUS then (EINVAL, old, s)
          else (0, map_option (\<lambda>_. cancel_type (threads s ! i)) old, on_thread i (\<lambda>t. t\<lparr>cancel_type := ty\<rparr>) s))"

definition pthread_testcancel :: "(u32 \<Rightarrow> u32 \<Rightarrow> thread_state \<Rightarrow> thread_state) \<Rightarrow> u32 \<Rightarrow> thread_state \<Rightarrow> u32 + thread_state" where
  "pthread_testcancel user self s =
     (case find_thread self s of None \<Rightarrow> Inr s
      | Some i \<Rightarrow> if canceled (threads s ! i) \<noteq> 0 \<and> cancel_enabled (threads s ! i) \<noteq> 0
                  then pthread_exit user self (- 1) s else Inr s)"

section \<open>Thread-specific data\<close>

definition pthread_key_create :: "u32 option \<Rightarrow> u32 \<Rightarrow> thread_state \<Rightarrow> int \<times> u32 option \<times> thread_state" where
  "pthread_key_create key destructor s =
     (if key = None then (EINVAL, key, s)
      else case List.find (\<lambda>k. tsd_key_used s ! k = 0) [0..<MAX_TSD_KEYS] of
             Some k \<Rightarrow> (0, Some (of_nat k), s\<lparr>tsd_key_used := (tsd_key_used s)[k := 1],
                          tsd_destructors := (tsd_destructors s)[k := destructor]\<rparr>)
           | None \<Rightarrow> (EAGAIN, key, s))"

definition key_ok :: "u32 \<Rightarrow> thread_state \<Rightarrow> bool" where
  "key_ok key s \<longleftrightarrow> \<not> (unat key \<ge> MAX_TSD_KEYS \<or> tsd_key_used s ! unat key = 0)"

definition pthread_key_delete :: "u32 \<Rightarrow> thread_state \<Rightarrow> int \<times> thread_state" where
  "pthread_key_delete key s =
     (if \<not> key_ok key s then (EINVAL, s)
      else (0, s\<lparr>tsd_key_used := (tsd_key_used s)[unat key := 0], tsd_destructors := (tsd_destructors s)[unat key := 0]\<rparr>))"

definition pthread_getspecific :: "u32 \<Rightarrow> u32 \<Rightarrow> thread_state \<Rightarrow> u32" where
  "pthread_getspecific self key s =
     (if \<not> key_ok key s then 0
      else case find_thread self s of None \<Rightarrow> 0 | Some i \<Rightarrow> tsd (threads s ! i) ! unat key)"

definition pthread_setspecific :: "u32 \<Rightarrow> u32 \<Rightarrow> u32 \<Rightarrow> thread_state \<Rightarrow> int \<times> thread_state" where
  "pthread_setspecific self key v s =
     (if \<not> key_ok key s then (EINVAL, s)
      else case find_thread self s of None \<Rightarrow> (EINVAL, s)
           | Some i \<Rightarrow> (0, on_thread i (\<lambda>t. t\<lparr>tsd := (tsd t)[unat key := v]\<rparr>) s))"

section \<open>Histories\<close>

text \<open>
  Any sequence of calls by any threads, with the slots that a call of join waits for. With
  \<open>careful\<close> no thread is detached that somebody joins.
\<close>

inductive table_run :: "(u32 \<Rightarrow> u32 \<Rightarrow> thread_state \<Rightarrow> thread_state) \<Rightarrow> bool \<Rightarrow> thread_state \<Rightarrow> nat set \<Rightarrow> bool"
  for user careful where
  boot: "table_run user careful boot_threads {}"
| create: "table_run user careful s W \<Longrightarrow>
    table_run user careful (snd (snd (pthread_create memory address out attr routine arg s))) W"
| exit: "table_run user careful s W \<Longrightarrow> pthread_exit user self v s = Inr s' \<Longrightarrow> table_run user careful s' W"
| join: "table_run user careful s W \<Longrightarrow> join_begin self th s = (Inr i, s') \<Longrightarrow> table_run user careful s' (insert i W)"
| joined: "table_run user careful s W \<Longrightarrow> i \<in> W \<Longrightarrow> join_over i s \<Longrightarrow>
    table_run user careful (snd (join_end i s)) (W - {i})"
| detach: "table_run user careful s W \<Longrightarrow>
    \<forall>i. careful \<and> find_thread th s = Some i \<longrightarrow> joined (threads s ! i) = 0 \<Longrightarrow>
    table_run user careful (snd (pthread_detach th s)) W"
| cancel: "table_run user careful s W \<Longrightarrow> table_run user careful (snd (pthread_cancel th s)) W"
| cancelstate: "table_run user careful s W \<Longrightarrow>
    table_run user careful (snd (snd (pthread_setcancelstate self x old s))) W"
| canceltype: "table_run user careful s W \<Longrightarrow>
    table_run user careful (snd (snd (pthread_setcanceltype self x old s))) W"
| new_key: "table_run user careful s W \<Longrightarrow> table_run user careful (snd (snd (pthread_key_create key d s))) W"
| del_key: "table_run user careful s W \<Longrightarrow> table_run user careful (snd (pthread_key_delete k s)) W"
| set_value: "table_run user careful s W \<Longrightarrow> table_run user careful (snd (pthread_setspecific self k v s)) W"

text \<open>What a destructor must leave alone: all of the table but the values of the keys.\<close>

definition core :: "thread \<Rightarrow> thread" where
  "core t = t\<lparr>tsd := [], canceled := 0, cancel_enabled := 0, cancel_type := 0\<rparr>"

definition same_core :: "thread_state \<Rightarrow> thread_state \<Rightarrow> bool" where
  "same_core s s' \<longleftrightarrow> map core (threads s') = map core (threads s) \<and> next_tid s' = next_tid s \<and>
     threads_initialized s' = threads_initialized s \<and> allocated s' = allocated s \<and> freed s' = freed s"

definition keeps_table :: "(u32 \<Rightarrow> u32 \<Rightarrow> thread_state \<Rightarrow> thread_state) \<Rightarrow> bool" where
  "keeps_table user \<longleftrightarrow> (\<forall>d v s. same_core s (user d v s))"

text \<open>The stacks of the threads in use.\<close>

definition stack_of :: "thread \<Rightarrow> u32 list" where
  "stack_of t = (if in_use t \<noteq> 0 \<and> stack t \<noteq> 0 then [stack t] else [])"

definition live_stacks :: "thread_state \<Rightarrow> u32 list" where
  "live_stacks s = concat (map stack_of (threads s))"

definition table_inv :: "thread_state \<Rightarrow> nat set \<Rightarrow> bool" where
  "table_inv s W \<longleftrightarrow> length (threads s) = MAX_THREADS \<and>
     (\<not> threads_initialized s \<longrightarrow> (\<forall>i<MAX_THREADS. in_use (threads s ! i) = 0 \<and> stack (threads s ! i) = 0)) \<and>
     mset (allocated s) = mset (freed s) + mset (live_stacks s) \<and>
     (\<forall>i\<in>W. i < MAX_THREADS \<and> in_use (threads s ! i) \<noteq> 0 \<and> joined (threads s ! i) \<noteq> 0 \<and> detached (threads s ! i) = 0)"

lemma find_threadD:
  assumes "find_thread th s = Some i"
  shows "i < MAX_THREADS" "in_use (threads s ! i) \<noteq> 0" "tid (threads s ! i) = th"
  using assms by (auto simp: find_thread_def find_Some_iff)

lemma on_thread_sel [simp]:
  "threads (on_thread i f s) = (threads s)[i := f (threads s ! i)]"
  "threads_initialized (on_thread i f s) = threads_initialized s" "allocated (on_thread i f s) = allocated s"
  "freed (on_thread i f s) = freed s" "next_tid (on_thread i f s) = next_tid s"
  "tsd_key_used (on_thread i f s) = tsd_key_used s" "tsd_destructors (on_thread i f s) = tsd_destructors s"
  "stack_memory (on_thread i f s) = stack_memory s"
  by (simp_all add: on_thread_def)

lemma core_sel:
  assumes "core t = core t'"
  shows "in_use t = in_use t'" "stack t = stack t'" "joined t = joined t'" "detached t = detached t'" "exited t = exited t'"
    "tid t = tid t'" "stack_of t = stack_of t'"
  using assms by (cases t; cases t'; simp add: core_def stack_of_def)+

lemma same_core_nth:
  assumes "same_core s s'" "i < length (threads s)"
  shows "core (threads s' ! i) = core (threads s ! i)"
  using assms unfolding same_core_def by (metis length_map nth_map)

lemma same_core_live:
  assumes "same_core s s'"
  shows "live_stacks s' = live_stacks s"
proof -
  have "stack_of (core t) = stack_of t" for t by (simp add: core_def stack_of_def)
  then have live: "live_stacks s = concat (map stack_of (map core (threads s)))" for s
    by (simp add: live_stacks_def comp_def)
  show ?thesis using assms unfolding same_core_def by (simp only: live)
qed

lemma same_core_trans: "same_core s1 s2 \<Longrightarrow> same_core s2 s3 \<Longrightarrow> same_core s1 s3"
  by (simp add: same_core_def)

lemma same_core_refl [simp]: "same_core s s"
  by (simp add: same_core_def)

lemma same_core_on_thread: "core (f (threads s ! i)) = core (threads s ! i) \<Longrightarrow> same_core s (on_thread i f s)"
  by (simp add: same_core_def map_update) (metis list_update_id map_update)

lemma table_inv_core:
  assumes "table_inv s W" "same_core s s'"
  shows "table_inv s' W"
proof -
  have len: "length (threads s') = length (threads s)" using assms(2) by (metis same_core_def length_map)
  have "in_use (threads s' ! i) = in_use (threads s ! i) \<and> stack (threads s' ! i) = stack (threads s ! i) \<and>
      joined (threads s' ! i) = joined (threads s ! i) \<and> detached (threads s' ! i) = detached (threads s ! i)"
    if "i < MAX_THREADS" for i
    using core_sel [OF same_core_nth [OF assms(2), of i]] that assms(1) by (simp add: table_inv_def)
  then show ?thesis using assms len same_core_live [OF assms(2)] by (simp add: table_inv_def same_core_def)
qed

lemma table_inv_put:
  assumes inv: "table_inv s W" and i: "i < MAX_THREADS" and s': "threads s' = (threads s)[i := t]" "threads_initialized s'"
    and acc: "mset (allocated s') + mset (freed s) + mset (stack_of (threads s ! i)) =
      mset (allocated s) + mset (freed s') + mset (stack_of t)"
    and W: "W' - {i} \<subseteq> W" "i \<in> W' \<Longrightarrow> in_use t \<noteq> 0 \<and> joined t \<noteq> 0 \<and> detached t = 0"
  shows "table_inv s' W'"
proof -
  have len: "length (threads s) = MAX_THREADS" using inv by (simp add: table_inv_def)
  have split: "threads s = take i (threads s) @ threads s ! i # drop (Suc i) (threads s)"
    using i len by (simp add: id_take_nth_drop)
  have "mset (live_stacks s) = mset (concat (map stack_of (take i (threads s) @ threads s ! i # drop (Suc i) (threads s))))"
    using split by (simp add: live_stacks_def)
  moreover have "mset (live_stacks s') = mset (concat (map stack_of (take i (threads s) @ t # drop (Suc i) (threads s))))"
    using s'(1) i len by (simp add: live_stacks_def upd_conv_take_nth_drop)
  ultimately have live: "mset (live_stacks s') + mset (stack_of (threads s ! i)) = mset (live_stacks s) + mset (stack_of t)"
    by (simp add: ac_simps)
  have "mset (allocated s) = mset (freed s) + mset (live_stacks s)" using inv by (simp add: table_inv_def)
  with acc live have "mset (allocated s') + (mset (freed s) + mset (stack_of (threads s ! i))) =
      mset (freed s') + mset (live_stacks s') + (mset (freed s) + mset (stack_of (threads s ! i)))"
    by (simp add: ac_simps)
  then have "mset (allocated s') = mset (freed s') + mset (live_stacks s')" by (metis add_right_cancel)
  moreover have "j < MAX_THREADS \<and> in_use (threads s' ! j) \<noteq> 0 \<and> joined (threads s' ! j) \<noteq> 0 \<and> detached (threads s' ! j) = 0"
    if "j \<in> W'" for j
    using that inv W s'(1) i len by (cases "j = i") (auto simp: table_inv_def)
  ultimately show ?thesis using s' len by (simp add: table_inv_def)
qed

section \<open>Each call keeps the account\<close>

lemma in_use_init: "table_inv s W \<Longrightarrow> i < MAX_THREADS \<Longrightarrow> in_use (threads s ! i) \<noteq> 0 \<Longrightarrow> threads_initialized s"
  by (auto simp: table_inv_def)

lemma table_inv_W: "table_inv s W \<Longrightarrow> i \<in> W \<Longrightarrow>
    in_use (threads s ! i) \<noteq> 0 \<and> joined (threads s ! i) \<noteq> 0 \<and> detached (threads s ! i) = 0"
  by (simp add: table_inv_def)

lemma free_thread_inv:
  assumes "table_inv s W" "i < MAX_THREADS" "in_use (threads s ! i) \<noteq> 0"
  shows "table_inv (free_thread i s) (W - {i})"
  by (rule table_inv_put [OF assms(1,2), where t = "(threads s ! i)\<lparr>in_use := 0\<rparr>"])
    (use in_use_init [OF assms] assms(3) in \<open>auto simp: free_thread_def Let_def stack_of_def\<close>)

lemma boot_inv: "table_inv boot_threads {}"
proof -
  have "concat (replicate n []) = []" for n by (induction n) simp_all
  then show ?thesis by (simp add: table_inv_def boot_threads_def live_stacks_def stack_of_def)
qed

lemma init_threads_inv:
  assumes "table_inv s W"
  shows "table_inv (init_threads s) W" "threads_initialized (init_threads s)"
    "allocated (init_threads s) = allocated s" "freed (init_threads s) = freed s"
proof -
  show "threads_initialized (init_threads s)" "allocated (init_threads s) = allocated s" "freed (init_threads s) = freed s"
    by (simp_all add: init_threads_def)
  show "table_inv (init_threads s) W"
  proof (cases "threads_initialized s")
    case False
    have len: "length (threads s) = 64" using assms by (simp add: table_inv_def MAX_THREADS_def)
    have no: "in_use (threads s ! i) = 0 \<and> stack (threads s ! i) = 0" if "i < 64" for i
      using assms that False by (simp add: table_inv_def MAX_THREADS_def)
    then have "stack_of t = []" if "t \<in> set (threads s)" for t
      using that len by (auto simp: in_set_conv_nth stack_of_def)
    then have live: "live_stacks s = []" by (simp add: live_stacks_def)
    have "stack (threads (init_threads s) ! i) = 0" if "i < 64" for i
      using that len no False by (cases "i = 0") (simp_all add: init_threads_def)
    then have "stack_of t = []" if "t \<in> set (threads (init_threads s))" for t
      using that len False by (auto simp: in_set_conv_nth stack_of_def init_threads_def)
    then have "live_stacks (init_threads s) = []" by (simp add: live_stacks_def)
    moreover have "W = {}"
      using assms False by (auto simp: table_inv_def)
    ultimately show ?thesis using assms live False len
      by (simp add: table_inv_def init_threads_def MAX_THREADS_def)
  qed (use assms in \<open>simp add: init_threads_def\<close>)
qed

lemma create_inv:
  assumes "table_inv s W"
  shows "table_inv (snd (snd (pthread_create memory address out attr routine arg s))) W"
proof -
  let ?s = "init_threads s"
  have again: "init_threads ?s = ?s" by (simp add: init_threads_def)
  have inv: "table_inv ?s W" "threads_initialized ?s" using init_threads_inv [OF assms] by auto
  show ?thesis
  proof (cases "find (\<lambda>i. in_use (threads ?s ! i) = 0) [0..<MAX_THREADS]")
    case None
    then show ?thesis using inv by (simp add: pthread_create_def alloc_thread_def again Let_def)
  next
    case (Some i)
    then have i: "i < MAX_THREADS" "in_use (threads ?s ! i) = 0" by (auto simp: find_Some_iff)
    then have W: "i \<notin> W" "length (threads ?s) = MAX_THREADS" using inv(1) by (auto simp: table_inv_def)
    show ?thesis
    proof (cases "out = None \<or> routine = 0")
      case False
      let ?s' = "snd (snd (pthread_create memory address out attr routine arg s))"
      have "\<exists>t. threads ?s' = (threads ?s)[i := t] \<and> threads_initialized ?s' \<and> freed ?s' = freed ?s \<and>
          allocated ?s' = stack_of t @ allocated ?s"
        using False Some i(1) W(2) inv(2)
        by (intro exI [of _ "threads ?s' ! i"])
          (auto simp: pthread_create_def alloc_thread_def again Let_def stack_of_def)
      then obtain t where t: "threads ?s' = (threads ?s)[i := t]" "threads_initialized ?s'" "freed ?s' = freed ?s"
          "allocated ?s' = stack_of t @ allocated ?s" by blast
      show ?thesis
        by (rule table_inv_put [OF inv(1) i(1) t(1,2)]) (use t W(1) i(2) in \<open>auto simp: stack_of_def\<close>)
    qed (use inv in \<open>auto simp: pthread_create_def Let_def\<close>)
  qed
qed

lemma same_core_tsd: "same_core s (on_thread i (\<lambda>t. t\<lparr>tsd := (tsd t)[k := v]\<rparr>) s)"
  by (rule same_core_on_thread) (simp add: core_def)

lemma destructors_core:
  assumes "keeps_table user"
  shows "same_core s (fold (call_destructor user i) ks s)"
proof (induction ks arbitrary: s)
  case (Cons k ks)
  have "same_core s (call_destructor user i k s)"
    using assms unfolding call_destructor_def Let_def keeps_table_def by (auto intro: same_core_trans [OF same_core_tsd])
  then show ?case using Cons.IH [of "call_destructor user i k s"] by (auto intro: same_core_trans)
qed simp

lemma exit_inv:
  assumes "table_inv s W" "keeps_table user" "pthread_exit user self v s = Inr s'"
  shows "table_inv s' W"
proof -
  obtain i where i: "find_thread self s = Some i" using assms(3) by (auto simp: pthread_exit_def split: option.splits)
  define s1 where "s1 = on_thread i (\<lambda>t. t\<lparr>retval := v, exited := 1\<rparr>) s"
  define s2 where "s2 = fold (call_destructor user i) [0..<MAX_TSD_KEYS] s1"
  note iD = find_threadD [OF i]
  have 1: "table_inv s1 W"
    by (rule table_inv_put [OF assms(1) iD(1), where t = "(threads s ! i)\<lparr>retval := v, exited := 1\<rparr>"])
      (use in_use_init [OF assms(1) iD(1,2)] table_inv_W [OF assms(1)] in \<open>simp_all add: stack_of_def s1_def\<close>)
  have same: "same_core s1 s2" unfolding s2_def by (rule destructors_core [OF assms(2)])
  have 2: "table_inv s2 W" by (rule table_inv_core [OF 1 same])
  have len: "length (threads s1) = MAX_THREADS" "length (threads s) = MAX_THREADS"
    using 1 assms(1) by (simp_all add: table_inv_def)
  have "in_use (threads s2 ! i) = in_use (threads s1 ! i)"
    by (rule core_sel(1) [OF same_core_nth [OF same]]) (simp add: len iD)
  then have used: "in_use (threads s2 ! i) \<noteq> 0" using iD len by (simp add: s1_def)
  show ?thesis
  proof (cases "detached (threads s2 ! i) = 0")
    case True
    then show ?thesis using assms(3) i 2 by (simp add: pthread_exit_def s1_def s2_def)
  next
    case False
    then have "W - {i} = W" using table_inv_W [OF 2, of i] by blast
    then have "table_inv (free_thread i s2) W" using free_thread_inv [OF 2 iD(1) used] by simp
    then show ?thesis using assms(3) i False by (simp add: pthread_exit_def s1_def s2_def)
  qed
qed

lemma join_begin_inv:
  assumes "table_inv s W" "join_begin self th s = (Inr i, s')"
  shows "table_inv s' (insert i W)"
proof -
  have i: "find_thread th s = Some i" "detached (threads s ! i) = 0" "s' = on_thread i (\<lambda>t. t\<lparr>joined := 1\<rparr>) s"
    using assms(2) by (auto simp: join_begin_def Let_def split: option.splits if_splits)
  note iD = find_threadD [OF i(1)]
  show ?thesis
    by (rule table_inv_put [OF assms(1) iD(1), where t = "(threads s ! i)\<lparr>joined := 1\<rparr>"])
      (use i iD in_use_init [OF assms(1) iD(1,2)] in \<open>auto simp: stack_of_def\<close>)
qed

lemma join_end_inv:
  assumes "table_inv s W" "i \<in> W"
  shows "table_inv (snd (join_end i s)) (W - {i})"
  using free_thread_inv [OF assms(1), of i] assms by (simp add: join_end_def table_inv_def)

lemma detach_inv:
  assumes "table_inv s W" "\<forall>i. find_thread th s = Some i \<longrightarrow> joined (threads s ! i) = 0"
  shows "table_inv (snd (pthread_detach th s)) W"
proof (cases "find_thread th s")
  case (Some i)
  define s1 where "s1 = on_thread i (\<lambda>t. t\<lparr>detached := 1\<rparr>) s"
  note iD = find_threadD [OF Some]
  have W: "W - {i} = W" using table_inv_W [OF assms(1), of i] assms(2) Some by auto
  have 1: "table_inv s1 W"
    by (rule table_inv_put [OF assms(1) iD(1), where t = "(threads s ! i)\<lparr>detached := 1\<rparr>"])
      (use W in_use_init [OF assms(1) iD(1,2)] in \<open>auto simp: s1_def stack_of_def\<close>)
  have "in_use (threads s1 ! i) \<noteq> 0" using iD assms(1) by (simp add: s1_def table_inv_def)
  from free_thread_inv [OF 1 iD(1) this] W have "table_inv (free_thread i s1) W" by simp
  with 1 assms(1) Some show ?thesis by (simp add: pthread_detach_def s1_def Let_def)
qed (use assms in \<open>simp add: pthread_detach_def\<close>)

lemma small_calls_core:
  "same_core s (snd (pthread_cancel th s))" "same_core s (snd (snd (pthread_setcancelstate self x old s)))"
  "same_core s (snd (snd (pthread_setcanceltype self x old s)))" "same_core s (snd (snd (pthread_key_create key d s)))"
  "same_core s (snd (pthread_key_delete k s))" "same_core s (snd (pthread_setspecific self k v s))"
proof -
  have "same_core s (on_thread i (\<lambda>t. t\<lparr>canceled := n\<rparr>) s)" "same_core s (on_thread i (\<lambda>t. t\<lparr>cancel_enabled := n\<rparr>) s)"
    "same_core s (on_thread i (\<lambda>t. t\<lparr>cancel_type := n\<rparr>) s)" for i n
    by (rule same_core_on_thread; simp add: core_def)+
  then show "same_core s (snd (pthread_cancel th s))" "same_core s (snd (snd (pthread_setcancelstate self x old s)))"
    "same_core s (snd (snd (pthread_setcanceltype self x old s)))"
    by (auto simp: pthread_cancel_def pthread_setcancelstate_def pthread_setcanceltype_def split: option.splits)
  show "same_core s (snd (snd (pthread_key_create key d s)))" "same_core s (snd (pthread_key_delete k s))"
    "same_core s (snd (pthread_setspecific self k v s))"
    by (auto simp: pthread_key_create_def pthread_key_delete_def pthread_setspecific_def same_core_tsd split: option.splits)
      (simp_all add: same_core_def)
qed

lemma table_run_inv:
  assumes "table_run user True s W" "keeps_table user"
  shows "table_inv s W"
  using assms
  by (induction rule: table_run.induct)
    (blast intro: boot_inv create_inv exit_inv join_begin_inv join_end_inv detach_inv table_inv_core small_calls_core)+

section \<open>Properties\<close>

text \<open>
  C33: As long as nobody detaches a thread that somebody joins, and the destructors of
  thread-specific values leave the table of threads alone (they may store thread-specific values
  and use the cancellation calls, but create, join and detach nothing), after any history of calls of
  \<^verbatim>\<open>pthread_create\<close>, \<^verbatim>\<open>exit\<close>, \<^verbatim>\<open>join\<close>, \<^verbatim>\<open>detach\<close>, the cancellation calls and the key calls, and
  with joins that wait, the stacks that were allocated are those that were freed and those of the
  threads in use: none is freed twice or lost. And a slot somebody waits for stays in use.
\<close>

theorem stacks_freed_once:
  assumes "keeps_table user" and "table_run user True s W"
  shows "mset (allocated s) = mset (freed s) + mset (live_stacks s) \<and> (\<forall>i\<in>W. in_use (threads s ! i) \<noteq> 0)"
  using table_run_inv [OF assms(2,1)] by (simp add: table_inv_def)

lemma find_upt_Some: "List.find P [0..<n] = Some i \<longleftrightarrow> i < n \<and> P i \<and> (\<forall>j<i. \<not> P j)"
  by (auto simp: find_Some_iff)

lemma find_thread_update:
  assumes "find_thread th s = Some i" "length (threads s) = MAX_THREADS"
    "in_use (f (threads s ! i)) = in_use (threads s ! i)" "tid (f (threads s ! i)) = tid (threads s ! i)"
  shows "find_thread th (on_thread i f s) = Some i"
proof -
  have "(threads s)[i := f (threads s ! i)] ! j = (if j = i then f (threads s ! i) else threads s ! j)" if "j < MAX_THREADS" for j
    using that assms(2) by (simp add: nth_list_update)
  then show ?thesis using assms(1,3,4) by (auto simp: find_thread_def find_upt_Some)
qed

text \<open>
  Detaching a thread while another waits for it in \<^verbatim>\<open>pthread_join\<close> frees its stack twice: the
  thread frees it when it exits, and then the join, which sees the exit, frees it again.
\<close>

theorem join_detach_frees_twice:
  assumes "keeps_table user" and "length (threads s) = MAX_THREADS" and "stack (threads s ! i) \<noteq> 0"
    and "join_begin self th s = (Inr i, s1)" and "exited (threads s ! i) = 0"
  shows "\<exists>s2 s3. pthread_detach th s1 = (0, s2) \<and> pthread_exit user th v s2 = Inr s3 \<and> join_over i s3 \<and>
    freed (snd (join_end i s3)) = [stack (threads s ! i), stack (threads s ! i)] @ freed s"
proof -
  have i: "find_thread th s = Some i" "detached (threads s ! i) = 0" "s1 = on_thread i (\<lambda>t. t\<lparr>joined := 1\<rparr>) s"
    using assms(4) by (auto simp: join_begin_def Let_def split: option.splits if_splits)
  note iD = find_threadD [OF i(1)]
  have f1: "find_thread th s1 = Some i" unfolding i(3) by (rule find_thread_update [OF i(1) assms(2)]) simp_all
  have l1: "length (threads s1) = MAX_THREADS" by (simp add: i(3) assms(2))
  define s2 where "s2 = on_thread i (\<lambda>t. t\<lparr>detached := 1\<rparr>) s1"
  have f2: "find_thread th s2 = Some i" unfolding s2_def by (rule find_thread_update [OF f1 l1]) simp_all
  have detach: "pthread_detach th s1 = (0, s2)"
    using f1 i iD assms(2,5) by (simp add: pthread_detach_def s2_def Let_def)
  define sx where "sx = on_thread i (\<lambda>t. t\<lparr>retval := v, exited := 1\<rparr>) s2"
  define s3 where "s3 = fold (call_destructor user i) [0..<MAX_TSD_KEYS] sx"
  have same: "same_core sx s3" unfolding s3_def by (rule destructors_core [OF assms(1)])
  have lx: "length (threads sx) = MAX_THREADS" by (simp add: sx_def s2_def l1)
  have l3: "length (threads s3) = MAX_THREADS" using same lx by (metis same_core_def length_map)
  have "core (threads s3 ! i) = core (threads sx ! i)" by (rule same_core_nth [OF same]) (simp add: lx iD)
  from core_sel(2,4,5) [OF this] have c: "stack (threads s3 ! i) = stack (threads s ! i)" "detached (threads s3 ! i) = 1"
      "exited (threads s3 ! i) = 1"
    using iD by (simp_all add: sx_def s2_def i(3) assms(2))
  have fr: "freed s3 = freed s" using same by (simp add: same_core_def sx_def s2_def i(3))
  have "pthread_exit user th v s2 = Inr (free_thread i s3)"
    using f2 c by (simp add: pthread_exit_def sx_def s3_def)
  moreover have "join_over i (free_thread i s3)"
    using c iD l3 by (simp add: join_over_def free_thread_def Let_def)
  moreover have "freed (snd (join_end i (free_thread i s3))) = [stack (threads s ! i), stack (threads s ! i)] @ freed s"
    using c iD l3 fr assms(3) by (simp add: join_end_def free_thread_def Let_def)
  ultimately show ?thesis using detach by blast
qed

text \<open>A thread with identifier 1 and a stack at 4096, waited for by thread 0.\<close>

definition one_thread :: thread_state where
  "one_thread = snd (snd (pthread_create (\<lambda>_. 4096) (\<lambda>_. 0) (Some 0) None 9 0 boot_threads))"

lemma one_thread_run: "table_run user careful one_thread {}"
  unfolding one_thread_def by (intro table_run.create table_run.boot)

lemma one_thread_join:
  "find_thread 1 one_thread = Some 1" "detached (threads one_thread ! 1) = 0" "joined (threads one_thread ! 1) = 0"
  "exited (threads one_thread ! 1) = 0" "stack (threads one_thread ! 1) = 4096" "allocated one_thread = [4096]"
  "freed one_thread = []" "length (threads one_thread) = MAX_THREADS"
  by code_simp+

theorem stacks_freed_once_witness: "mset (freed one_thread) + mset (live_stacks one_thread) = {#4096#}"
  using stacks_freed_once [OF _ one_thread_run, of "\<lambda>_ _ s. s"] one_thread_join by (simp add: keeps_table_def)

theorem join_detach_frees_twice_witness:
  "\<exists>s2 s3. pthread_detach 1 (snd (join_begin 0 1 one_thread)) = (0, s2) \<and>
    pthread_exit (\<lambda>_ _ s. s) 1 0 s2 = Inr s3 \<and> freed (snd (join_end 1 s3)) = [4096, 4096]"
proof -
  have "join_begin 0 1 one_thread = (Inr 1, snd (join_begin 0 1 one_thread))"
    using one_thread_join find_threadD(3) [OF one_thread_join(1)] by (simp add: join_begin_def)
  from join_detach_frees_twice [OF _ one_thread_join(8) _ this, of "\<lambda>_ _ s. s" 0] show ?thesis
    using one_thread_join by (auto simp: keeps_table_def)
qed

text \<open>
  The restriction on destructors is needed: \<^verbatim>\<open>pthread_exit\<close> sets \<^verbatim>\<open>exited\<close> before it calls them, so a
  destructor that detaches its own thread frees the stack, and \<^verbatim>\<open>pthread_exit\<close> frees it again.
\<close>

definition thread_with_value :: thread_state where
  "thread_with_value = snd (pthread_setspecific 1 0 5 (snd (snd (pthread_key_create (Some 0) 7 one_thread))))"

definition detach_self :: "u32 \<Rightarrow> u32 \<Rightarrow> thread_state \<Rightarrow> thread_state" where
  "detach_self d v s = snd (pthread_detach 1 s)"

lemma fold_unused_keys:
  "\<forall>k \<in> set ks. tsd_key_used s ! k = 0 \<Longrightarrow> fold (call_destructor user i) ks s = s"
  by (induction ks) (simp_all add: call_destructor_def Let_def)

lemma destructor_detach_frees_twice:
  "\<exists>s. pthread_exit detach_self 1 0 thread_with_value = Inr s \<and> freed s = [4096, 4096]"
proof -
  let ?s1 = "on_thread 1 (\<lambda>t. t\<lparr>retval := 0, exited := 1\<rparr>) thread_with_value"
  let ?s2 = "call_destructor detach_self 1 0 ?s1"
  have f: "find_thread 1 thread_with_value = Some 1" by code_simp
  have s2: "freed ?s2 = [4096]" "detached (threads ?s2 ! 1) = 1" "stack (threads ?s2 ! 1) = 4096"
    "list_all (\<lambda>k. tsd_key_used ?s2 ! k = 0) [1..<64]" by code_simp+
  have "fold (call_destructor detach_self 1) [0..<64] ?s1 = ?s2"
    using fold_unused_keys [of "[1..<64]" ?s2 detach_self 1] s2(4)
    by (simp add: upt_conv_Cons [of 0 64] list_all_iff)
  then have "pthread_exit detach_self 1 0 thread_with_value = Inr (free_thread 1 ?s2)"
    using f s2(2) by (simp add: pthread_exit_def MAX_TSD_KEYS_def Let_def)
  then show ?thesis using s2(1,3) by (simp add: free_thread_def Let_def)
qed

section \<open>Keys\<close>

lemma key_value_roundtrip:
  assumes "key_ok k s" "find_thread self s = Some i" "length (threads s) = MAX_THREADS"
    "length (tsd (threads s ! i)) = MAX_TSD_KEYS"
  shows "fst (pthread_setspecific self k v s) = 0 \<and> pthread_getspecific self k (snd (pthread_setspecific self k v s)) = v"
proof -
  have "find_thread self (on_thread i (\<lambda>t. t\<lparr>tsd := (tsd t)[unat k := v]\<rparr>) s) = Some i"
    by (rule find_thread_update [OF assms(2,3)]) simp_all
  then show ?thesis using assms find_threadD [OF assms(2)]
    by (simp add: pthread_setspecific_def pthread_getspecific_def key_ok_def)
qed

text \<open>A key that is deleted and created again still has the values of the old one.\<close>

theorem new_key_has_old_value:
  assumes "key_ok k s" "\<forall>j<unat k. tsd_key_used s ! j \<noteq> 0" "length (tsd_key_used s) = MAX_TSD_KEYS"
  shows "\<exists>s'. pthread_key_create (Some x) d (snd (pthread_key_delete k s)) = (0, Some k, s') \<and>
    pthread_getspecific self k s' = pthread_getspecific self k s"
proof -
  let ?s = "snd (pthread_key_delete k s)"
  have k: "unat k < MAX_TSD_KEYS" "tsd_key_used s ! unat k \<noteq> 0" using assms(1) by (auto simp: key_ok_def)
  have used: "tsd_key_used ?s = (tsd_key_used s)[unat k := 0]" using assms(1) by (simp add: pthread_key_delete_def)
  have "List.find (\<lambda>j. tsd_key_used ?s ! j = 0) [0..<MAX_TSD_KEYS] = Some (unat k)"
    using k assms(2,3) by (simp add: used find_upt_Some)
  then have "pthread_key_create (Some x) d ?s = (0, Some k, ?s\<lparr>tsd_key_used := (tsd_key_used ?s)[unat k := 1],
      tsd_destructors := (tsd_destructors ?s)[unat k := d]\<rparr>)"
    by (simp add: pthread_key_create_def)
  then show ?thesis using assms(1,3) k
    by (auto simp: pthread_key_delete_def pthread_getspecific_def key_ok_def find_thread_def split: option.splits)
qed

end
