(* ===== verification/Spec2Isabelle.thy ===== *)
theory Spec2Isabelle
  imports Prelude Pmm Paging Buddy FsBridge Fifo WaitQueue Pipe Tty Pty FdContract HttpUrl Kstring MsgQueue Net HtmlDocument KHeap Dns PthreadSync PthreadTable
begin

text \<open>
  The parts of the Retro-OS kernel that decide something (who owns which memory, which
  byte is read next, what a message means) as definitions that follow the C and C++
  sources line by line, with the theorems that make each part correct. The sources are
  under \<^verbatim>\<open>src/src\<close> (kernel and library) and \<^verbatim>\<open>src\<close> (the descriptor contract).

  \<^bold>\<open>How the parts interact.\<close> The boot code hands the physical memory to \<^verbatim>\<open>pmm.cpp\<close> (frames),
  from which \<^verbatim>\<open>vm.cpp\<close> and \<^verbatim>\<open>paging.cpp\<close> build the address spaces of processes, and a range of
  addresses to \<^verbatim>\<open>buddy.cpp\<close>. On its blocks \<^verbatim>\<open>slab.cpp\<close> keeps small objects, and \<^verbatim>\<open>heap.cpp\<close>
  chooses between the two: that is \<^verbatim>\<open>kmalloc\<close>. Processes wait in queues (\<^verbatim>\<open>wait_queue.cpp\<close>)
  and are woken by pipes, terminals, semaphores and message queues; threads share mutexes,
  condition variables, read-write locks and barriers (\<^verbatim>\<open>pthread.cpp\<close>). A pseudo-terminal is a
  terminal and two rings joined by the line discipline. The network receives a frame
  (\<^verbatim>\<open>net.cpp\<close>), reassembles and dispatches it to ICMP, UDP or TCP, and sends through the
  address resolution table; \<^verbatim>\<open>dns.cpp\<close> resolves names over UDP. The HTTP parser runs over the
  bytes that TCP delivers, and the browser turns the body into tokens and a document tree; the
  graphical shell reaches files through the bridge \<^verbatim>\<open>fs_kernel_bridge.c\<close>.

  \<^bold>\<open>Which theory models which part.\<close>
  \<^item> \<^verbatim>\<open>Prelude\<close>: the named collections, the list, word and option lemmas of all parts.
  \<^item> \<^verbatim>\<open>Pmm\<close>: \<^verbatim>\<open>kernel/pmm.cpp\<close>, the boot reservations of \<^verbatim>\<open>kernel/Kernel.cpp\<close>. The bitmap is a
    map from indices to 32-bit words, the counters are words. Lemmas: the scans find the lowest free frame
    and the first run of free frames, every entry point keeps the bitmap and its counter in step.
  \<^item> \<^verbatim>\<open>Vm\<close>: \<^verbatim>\<open>kernel/vm.cpp\<close> and the mapping functions of \<^verbatim>\<open>kernel/paging.cpp\<close>; physical memory is a map
    from frames and word indices to words, a directory is its frame. Lemmas: a clone takes free
    frames only, reads as the original and is apart from it; destroying it gives back what it took.
    They are about machines whose memory lies in the 512 MB the kernel maps, and spaces
    without device memory.
  \<^item> \<^verbatim>\<open>Paging\<close>: start-up and page faults of \<^verbatim>\<open>kernel/paging.cpp\<close>, \<^verbatim>\<open>kernel/shm.cpp\<close>,
    \<^verbatim>\<open>kernel/mprotect.cpp\<close>. Lemmas: what a fault maps, and what the look-up in the wrong directory does.
  \<^item> \<^verbatim>\<open>Buddy\<close>: \<^verbatim>\<open>kernel/buddy.cpp\<close>. A free list per order, addresses as words. Lemmas: the free
    blocks stay aligned and disjoint; the region they cover loses and regains exactly the
    blocks handed out.
  \<^item> \<^verbatim>\<open>Slab\<close>, \<^verbatim>\<open>KHeap\<close>: \<^verbatim>\<open>kernel/slab.cpp\<close>, \<^verbatim>\<open>kernel/heap.cpp\<close>, \<^verbatim>\<open>kernel/memory.cpp\<close>. The memory is its
    aligned words; clients store bytes. Lemmas: who owns which block, over every history of
    requests below 2 GB, stores, and releases of blocks in use; blocks never overlap and keep their bytes.
  \<^item> \<^verbatim>\<open>FsBridge\<close>: \<^verbatim>\<open>kernel/fs_kernel_bridge.c\<close>, from the file table to the calls of the graphical
    system. Lemmas: a refinement to a map from paths to contents.
  \<^item> \<^verbatim>\<open>Fifo\<close>, \<^verbatim>\<open>WaitQueue\<close>: the ring buffers the drivers share (a locale, interpreted on each
    ring) and \<^verbatim>\<open>kernel/wait_queue.cpp\<close>.
  \<^item> \<^verbatim>\<open>Pipe\<close>, \<^verbatim>\<open>Tty\<close>, \<^verbatim>\<open>Pty\<close>: \<^verbatim>\<open>kernel/pipe.cpp\<close>, \<^verbatim>\<open>kernel/tty.cpp\<close>, \<^verbatim>\<open>kernel/pty.cpp\<close>. Lemmas: bytes come out
    in the order they went in, and a typed line is read as edited.
  \<^item> \<^verbatim>\<open>FdContract\<close>: \<^verbatim>\<open>fd_offset_and_terminal_contract.c\<close>, descriptors with shared offsets.
  \<^item> \<^verbatim>\<open>HttpTypes\<close>, \<^verbatim>\<open>HttpStep\<close>, \<^verbatim>\<open>HttpHeader\<close>, \<^verbatim>\<open>HttpExec\<close>: \<^verbatim>\<open>kernel/http_parser.c\<close>, one definition per
    state of the byte loop; \<^verbatim>\<open>HttpProps\<close>, \<^verbatim>\<open>HttpFraming\<close>: its invariants (the assertions on
    the framing of the body among them) and the framing of bodies; \<^verbatim>\<open>HttpUrl\<close>: the URL parser of the same file.
  \<^item> \<^verbatim>\<open>HtmlTokenizer\<close>, \<^verbatim>\<open>HtmlTokens\<close>: \<^verbatim>\<open>kernel/html_tokenizer.cpp\<close>, a definition per state. Lemmas: the
    loop ends, the tokens returned are within their arrays, written markup is read back.
  \<^item> \<^verbatim>\<open>HtmlDom\<close>, \<^verbatim>\<open>HtmlParser\<close>, \<^verbatim>\<open>HtmlDocument\<close>: \<^verbatim>\<open>kernel/html_parser.cpp\<close>, a definition per insertion
    mode over a store of linked nodes. Lemmas: every input gives one well-linked tree, and a
    written tree is read back.
  \<^item> \<^verbatim>\<open>Kstring\<close>: \<^verbatim>\<open>lib/string.cpp\<close> over a memory of bytes with 32-bit pointers.
  \<^item> \<^verbatim>\<open>Semaphore\<close>, \<^verbatim>\<open>IpcNames\<close>, \<^verbatim>\<open>MsgQueue\<close>: \<^verbatim>\<open>kernel/posix_ipc.cpp\<close>; the three kinds of named
    objects share the locale of a table of names. \<^verbatim>\<open>sem_wait\<close> is three steps, cut where interrupts are on.
  \<^item> \<^verbatim>\<open>PthreadMutex\<close>, \<^verbatim>\<open>PthreadSync\<close>, \<^verbatim>\<open>PthreadTable\<close>: \<^verbatim>\<open>kernel/pthread.cpp\<close>. Locks as steps of single
    atomic accesses, the calls built on them, and the table of threads with its stacks. Lemmas:
    exclusion in every interleaving, and which histories lose a wake-up or free a stack twice.
  \<^item> \<^verbatim>\<open>Inet\<close>, \<^verbatim>\<open>Ip\<close>, \<^verbatim>\<open>Udp\<close>, \<^verbatim>\<open>Tcp\<close>, \<^verbatim>\<open>Net\<close>: byte order and checksums, then \<^verbatim>\<open>kernel/net.cpp\<close>,
    \<^verbatim>\<open>kernel/udp.cpp\<close> and \<^verbatim>\<open>kernel/tcp.cpp\<close>; a copy over the end of a buffer is the outcome None.
    Lemmas: the stream of a connection in order, the checksums of what is sent, which requests
    are answered, what becomes of fragments.
  \<^item> \<^verbatim>\<open>Dns\<close>: \<^verbatim>\<open>kernel/dns.cpp\<close>. Lemmas: what a response resolves to, when resolving gives up, and
    the messages that hang the handler or answer the wrong name.

  \<^bold>\<open>Conventions.\<close> A struct is a record, an enum a datatype, an integer a word of its width
  where the width matters and a natural number or integer where the code's own bounds keep
  it small. An array is a list of its length. Pointers to slots of a table are indices;
  pointers into memory are 32-bit words. Errors are the numbers or the null pointers that
  the code returns.

  \<^bold>\<open>Loops.\<close> A loop that may not end in C is a \<^verbatim>\<open>partial_function (option)\<close>: the value None
  is the loop that never ends. None also stands for the points where a process gives up
  the processor inside a call, and for accesses outside an object, as each theory says.
  That a call returns is therefore a theorem of its own, and no model uses fuel.

  \<^bold>\<open>Parameters.\<close> \<^verbatim>\<open>kmalloc\<close> is a parameter of the message queues, the threads and TCP (an oracle
  that may refuse), \<^verbatim>\<open>sys_fs_call\<close> one of the graphical calls, the network card a log of frames, the
  destructors of a user one of the end of a thread.

  \<^bold>\<open>Not modelled.\<close> Assembly and port accesses (interrupt controllers, disk, sound, video), the
  translation cache of the processor; processes, their scheduler, signals and the program loaders;
  the virtual file system, FAT16 and the devices; sockets and DHCP; style sheets, the HTTP
  client, drawing and layout; mbed TLS, which is vendored; logging. What runs with interrupts
  off, or under a mutex that is shown to exclude, is one step; a call is cut into steps where
  another process or thread can run, as its theory says.
\<close>

end
